(* ===== verification/KList.thy ===== *)
theory KList
  imports Prelude
begin

text \<open>
  The kernel's doubly linked list (KernelAA64/list.c). The nodes live in an explicit store,
  so that the pointer surgery is modelled link by link; a read of an unmapped address is a
  fault, the result \<open>None\<close>. The address \<open>kmalloc\<close> hands out is an argument, 0 when it
  fails. The contract the rest of the kernel relies on is the locale \<open>kernel_list\<close>.
\<close>

section \<open>The store and the operations\<close>

record 'a dataentry =
  de_next :: nat
  de_prev :: nat
  de_data :: 'a

type_synonym 'a node_store = "nat \<rightharpoonup> 'a dataentry"

record 'a list_t =
  entry_current :: nat
  pointer :: nat
  store :: "'a node_store"

text \<open>\<open>initialize_list\<close>: the header comes from \<open>kmalloc\<close>, \<open>None\<close> when that fails.\<close>

definition initialize_list :: "nat \<Rightarrow> 'a list_t option" where
  "initialize_list a =
     (if a = 0 then None
      else Some \<lparr>entry_current = 0, pointer = 0, store = Map.empty\<rparr>)"

text \<open>The loop \<open>while (current_entry->next) current_entry = current_entry->next\<close>.\<close>

partial_function (option) list_last :: "'a node_store \<Rightarrow> nat \<Rightarrow> nat option" where
  "list_last h p =
     (case h p of None \<Rightarrow> None
      | Some n \<Rightarrow> if de_next n = 0 then Some p else list_last h (de_next n))"

definition list_add :: "nat \<Rightarrow> 'a \<Rightarrow> 'a list_t \<Rightarrow> 'a list_t option" where
  "list_add a d l =
     (if a = 0 then Some l
      else
        let h = (store l)(a \<mapsto> \<lparr>de_next = 0, de_prev = 0, de_data = d\<rparr>) in
        if entry_current l = 0
        then Some (l\<lparr>store := h, entry_current := a, pointer := pointer l + 1\<rparr>)
        else
          (case list_last h (entry_current l) of None \<Rightarrow> None
           | Some t \<Rightarrow>
               (case h t of None \<Rightarrow> None
                | Some n \<Rightarrow>
                    let h1 = h(t \<mapsto> n\<lparr>de_next := a\<rparr>) in
                    (case h1 a of None \<Rightarrow> None
                     | Some c \<Rightarrow>
                         Some (l\<lparr>store := h1(a \<mapsto> c\<lparr>de_prev := t\<rparr>),
                                 pointer := pointer l + 1\<rparr>)))))"

text \<open>
  The loop \<open>for (i = 0; i < index && current_node; i++) current_node = current_node->next\<close>;
  the second argument counts the remaining rounds.
\<close>

fun list_walk :: "'a node_store \<Rightarrow> nat \<Rightarrow> nat \<Rightarrow> nat option" where
  "list_walk h p 0 = Some p"
| "list_walk h p (Suc k) =
     (if p = 0 then Some 0
      else (case h p of None \<Rightarrow> None | Some n \<Rightarrow> list_walk h (de_next n) k))"

text \<open>The outer option is the fault, the inner one the null result.\<close>

definition list_get_at :: "'a list_t \<Rightarrow> nat \<Rightarrow> 'a option option" where
  "list_get_at l i =
     (if pointer l = 0 \<or> i \<ge> pointer l then Some None
      else
        (case list_walk (store l) (entry_current l) i of None \<Rightarrow> None
         | Some p \<Rightarrow>
             if p = 0 then Some None
             else (case store l p of None \<Rightarrow> None | Some n \<Rightarrow> Some (Some (de_data n)))))"

definition set_next :: "nat \<Rightarrow> nat \<Rightarrow> 'a node_store \<Rightarrow> 'a node_store option" where
  "set_next p v h = (case h p of None \<Rightarrow> None | Some n \<Rightarrow> Some (h(p \<mapsto> n\<lparr>de_next := v\<rparr>)))"

definition set_prev :: "nat \<Rightarrow> nat \<Rightarrow> 'a node_store \<Rightarrow> 'a node_store option" where
  "set_prev p v h = (case h p of None \<Rightarrow> None | Some n \<Rightarrow> Some (h(p \<mapsto> n\<lparr>de_prev := v\<rparr>)))"

definition list_remove :: "'a list_t \<Rightarrow> nat \<Rightarrow> ('a option \<times> 'a list_t) option" where
  "list_remove l i =
     (if pointer l = 0 \<or> i \<ge> pointer l then Some (None, l)
      else
        (case list_walk (store l) (entry_current l) i of None \<Rightarrow> None
         | Some p \<Rightarrow>
             if p = 0 then Some (None, l)
             else
               (case store l p of None \<Rightarrow> None
                | Some n \<Rightarrow>
                    (case (if de_prev n \<noteq> 0 then set_next (de_prev n) (de_next n) (store l)
                           else Some (store l)) of None \<Rightarrow> None
                     | Some h1 \<Rightarrow>
                         (case (if de_next n \<noteq> 0 then set_prev (de_next n) (de_prev n) h1
                                else Some h1) of None \<Rightarrow> None
                          | Some h2 \<Rightarrow>
                              Some (Some (de_data n),
                                    l\<lparr>entry_current := (if i = 0 then de_next n
                                                         else entry_current l),
                                      store := h2(p := None),
                                      pointer := pointer l - 1\<rparr>))))))"

section \<open>What a well-formed list is\<close>

text \<open>
  \<open>dseg h pv p as xs\<close>: from address \<open>p\<close>, whose predecessor is \<open>pv\<close>, the store holds the
  nodes \<open>as\<close> with payloads \<open>xs\<close>, linked both ways and ended by the null pointer \<open>e\<close>.
\<close>

fun dseg :: "'a node_store \<Rightarrow> nat \<Rightarrow> nat \<Rightarrow> nat list \<Rightarrow> 'a list \<Rightarrow> nat \<Rightarrow> bool" where
  "dseg h pv p [] [] e \<longleftrightarrow> p = e"
| "dseg h pv p (a # as) (x # xs) e \<longleftrightarrow>
     p = a \<and> a \<noteq> 0 \<and>
     (\<exists>n. h a = Some n \<and> de_prev n = pv \<and> de_data n = x \<and> dseg h a (de_next n) as xs e)"
| "dseg h pv p _ _ e \<longleftrightarrow> False"

definition list_wf :: "'a list_t \<Rightarrow> bool" where
  "list_wf l \<longleftrightarrow>
     (\<exists>as xs. dseg (store l) 0 (entry_current l) as xs 0 \<and> distinct as \<and> length as = pointer l)"

fun collect :: "'a node_store \<Rightarrow> nat \<Rightarrow> nat \<Rightarrow> 'a list" where
  "collect h p 0 = []"
| "collect h p (Suc k) =
     (case h p of None \<Rightarrow> [] | Some n \<Rightarrow> de_data n # collect h (de_next n) k)"

definition list_items :: "'a list_t \<Rightarrow> 'a list" where
  "list_items l = collect (store l) (entry_current l) (pointer l)"

definition list_fresh :: "nat \<Rightarrow> 'a list_t \<Rightarrow> bool" where
  "list_fresh a l \<longleftrightarrow> store l a = None"

section \<open>Every operation keeps the links well formed\<close>

lemma dseg_length: "dseg h pv p as xs e \<Longrightarrow> length as = length xs"
  by (induction h pv p as xs e rule: dseg.induct) auto

lemma dseg_nonzero: "dseg h pv p as xs e \<Longrightarrow> 0 \<notin> set as"
  by (induction h pv p as xs e rule: dseg.induct) auto

lemma dseg_dom: "dseg h pv p as xs e \<Longrightarrow> set as \<subseteq> dom h"
  by (induction h pv p as xs e rule: dseg.induct) auto

lemma dseg_upd: "a \<notin> set as \<Longrightarrow> dseg (h(a := v)) pv p as xs e = dseg h pv p as xs e"
  by (induction h pv p as xs e rule: dseg.induct) auto

lemma dseg_append:
  "length as = length xs \<Longrightarrow>
   dseg h pv p (as @ bs) (xs @ ys) e \<longleftrightarrow>
     (\<exists>m. dseg h pv p as xs m \<and> dseg h (last (pv # as)) m bs ys e)"
  by (induction as xs arbitrary: pv p rule: list_induct2) auto

lemma dseg_collect: "dseg h pv p as xs e \<Longrightarrow> collect h p (length as) = xs"
  by (induction h pv p as xs e rule: dseg.induct) auto

lemma dseg_walk:
  "dseg h pv p as xs e \<Longrightarrow> k < length as \<Longrightarrow> list_walk h p k = Some (as ! k)"
proof (induction h pv p as xs e arbitrary: k rule: dseg.induct)
  case (2 h pv p a as x xs e)
  then show ?case by (cases k) auto
qed auto

lemma dseg_last:
  "dseg h pv p as xs 0 \<Longrightarrow> as \<noteq> [] \<Longrightarrow> list_last h p = Some (last as)"
proof (induction h pv p as xs "0::nat" rule: dseg.induct)
  case (2 h pv p a as x xs)
  then obtain n where n: "h a = Some n" "dseg h a (de_next n) as xs 0" "p = a" by auto
  show ?case
  proof (cases as)
    case Nil
    with n have "de_next n = 0" by (cases xs) auto
    with Nil n show ?thesis by (simp add: list_last.simps)
  next
    case (Cons b bs)
    with n have "de_next n \<noteq> 0" by (cases xs) auto
    with Cons n 2 show ?thesis by (simp add: list_last.simps [of h a])
  qed
qed auto

lemma list_wf_E:
  assumes "list_wf l"
  obtains as where "dseg (store l) 0 (entry_current l) as (list_items l) 0"
    "distinct as" "length as = pointer l" "length (list_items l) = pointer l"
proof -
  from assms obtain as xs where d: "dseg (store l) 0 (entry_current l) as xs 0"
    "distinct as" "length as = pointer l" by (auto simp: list_wf_def)
  then have "list_items l = xs" by (metis dseg_collect list_items_def)
  with d that show thesis by (metis dseg_length)
qed

lemma list_wf_I:
  assumes "dseg (store l) 0 (entry_current l) as xs 0" "distinct as" "length as = pointer l"
  shows "list_wf l \<and> list_items l = xs"
  using assms by (metis dseg_collect list_items_def list_wf_def)

lemma length_list_items: "list_wf l \<Longrightarrow> length (list_items l) = pointer l"
  by (erule list_wf_E)

lemma initialize_list_ok:
  "initialize_list a = Some l \<Longrightarrow> list_wf l \<and> list_items l = []"
  by (intro list_wf_I [of _ "[]"]) (auto simp: initialize_list_def split: if_splits)

lemma dseg_snoc:
  assumes d: "dseg h pv p (as @ [t]) (xs @ [y]) 0" and fresh: "a \<notin> set (as @ [t])"
    and dist: "distinct (as @ [t])" and a: "a \<noteq> 0" and t: "h t = Some n"
  shows "dseg (h(t \<mapsto> n\<lparr>de_next := a\<rparr>, a \<mapsto> \<lparr>de_next = 0, de_prev = t, de_data = d\<rparr>))
     pv p ((as @ [t]) @ [a]) ((xs @ [y]) @ [d]) 0"
proof -
  have len: "length as = length xs" using dseg_length [OF d] by simp
  from d len obtain m where m: "dseg h pv p as xs m" "dseg h (last (pv # as)) m [t] [y] 0"
    by (auto simp: dseg_append)
  let ?h = "h(t \<mapsto> n\<lparr>de_next := a\<rparr>, a \<mapsto> \<lparr>de_next = 0, de_prev = t, de_data = d\<rparr>)"
  have 1: "dseg ?h pv p as xs m" using m(1) fresh dist by (simp add: dseg_upd)
  have 2: "dseg ?h (last (pv # as)) m [t] [y] a" using m(2) t fresh a by auto
  have 3: "dseg ?h t a [a] [d] 0" using a by simp
  from 1 2 len have "dseg ?h pv p (as @ [t]) (xs @ [y]) a" by (subst dseg_append) auto
  with 3 len show ?thesis by (subst dseg_append) auto
qed

lemma list_add_ok:
  assumes wf: "list_wf l" and fresh: "list_fresh a l" and a: "a \<noteq> 0"
  shows "\<exists>l'. list_add a d l = Some l' \<and> list_wf l' \<and> list_items l' = list_items l @ [d]"
proof -
  obtain as where as: "dseg (store l) 0 (entry_current l) as (list_items l) 0"
    "distinct as" "length as = pointer l" "length (list_items l) = pointer l"
    using wf by (rule list_wf_E)
  have na: "a \<notin> set as" using fresh dseg_dom [OF as(1)] by (auto simp: list_fresh_def)
  show ?thesis
  proof (cases as rule: rev_cases)
    case Nil
    with as have e: "entry_current l = 0" "list_items l = []" "pointer l = 0" by auto
    let ?l = "l\<lparr>store := (store l)(a \<mapsto> \<lparr>de_next = 0, de_prev = 0, de_data = d\<rparr>),
      entry_current := a, pointer := pointer l + 1\<rparr>"
    have "list_wf ?l \<and> list_items ?l = [d]"
      by (rule list_wf_I [of _ "[a]"]) (use a e in auto)
    with a e show ?thesis by (simp add: list_add_def)
  next
    case (snoc bs t)
    obtain xs y where xs: "list_items l = xs @ [y]"
      using as snoc by (metis length_append_singleton length_0_conv nat.distinct(1) rev_exhaust)
    have "set as \<subseteq> dom (store l)" by (rule dseg_dom [OF as(1)])
    then obtain n where n: "store l t = Some n" using snoc by auto
    have ne: "entry_current l \<noteq> 0" using as(1) snoc xs by (cases bs; cases xs) auto
    have lst: "list_last ((store l)(a \<mapsto> \<lparr>de_next = 0, de_prev = 0, de_data = d\<rparr>))
       (entry_current l) = Some t"
      using dseg_last [of _ 0 "entry_current l" as "list_items l"] as(1) na snoc
      by (simp add: dseg_upd)
    let ?l = "l\<lparr>store := (store l)(t \<mapsto> n\<lparr>de_next := a\<rparr>,
        a \<mapsto> \<lparr>de_next = 0, de_prev = t, de_data = d\<rparr>), pointer := pointer l + 1\<rparr>"
    have "list_wf ?l \<and> list_items ?l = (xs @ [y]) @ [d]"
      by (rule list_wf_I [of _ "(bs @ [t]) @ [a]"])
        (use as snoc xs na a n in \<open>auto intro: dseg_snoc [simplified]\<close>)
    moreover have "list_add a d l = Some ?l"
      using a ne lst n na snoc by (auto simp: list_add_def Let_def fun_upd_twist)
    ultimately show ?thesis using xs by simp
  qed
qed

lemma list_add_nomem: "list_add 0 d l = Some l"
  by (simp add: list_add_def)

lemma list_get_at_ok:
  assumes "list_wf l"
  shows "list_get_at l i =
    Some (if i < length (list_items l) then Some (list_items l ! i) else None)"
proof -
  obtain as where as: "dseg (store l) 0 (entry_current l) as (list_items l) 0"
    "distinct as" "length as = pointer l" "length (list_items l) = pointer l"
    using assms by (rule list_wf_E)
  show ?thesis
  proof (cases "i < pointer l")
    case True
    then have w: "list_walk (store l) (entry_current l) i = Some (as ! i)"
      using as dseg_walk by metis
    have nz: "as ! i \<noteq> 0" using True as dseg_nonzero [OF as(1)] by (metis nth_mem)
    have "dseg (store l) 0 (entry_current l) (take i as @ drop i as)
        (take i (list_items l) @ drop i (list_items l)) 0" using as by simp
    then obtain m where "dseg (store l) (last (0 # take i as)) m (drop i as) (drop i (list_items l)) 0"
      using as by (subst (asm) dseg_append) auto
    moreover have "drop i as = as ! i # drop (Suc i) as"
      "drop i (list_items l) = list_items l ! i # drop (Suc i) (list_items l)"
      using True as by (simp_all add: Cons_nth_drop_Suc)
    ultimately obtain n where "store l (as ! i) = Some n" "de_data n = list_items l ! i" by auto
    with True w nz as show ?thesis by (auto simp: list_get_at_def)
  next
    case False
    with as show ?thesis by (auto simp: list_get_at_def)
  qed
qed


lemma dseg_set_prev:
  assumes "dseg h pv p as xs 0" "as \<noteq> []" "distinct as" "h p = Some n"
  shows "dseg (h(p \<mapsto> n\<lparr>de_prev := q\<rparr>)) q p as xs 0"
  using assms by (cases as; cases xs) (auto simp: dseg_upd)

lemma dseg_set_next:
  assumes "dseg h pv p (as @ [t]) xs e" "distinct (as @ [t])" "h t = Some n"
  shows "dseg (h(t \<mapsto> n\<lparr>de_next := q\<rparr>)) pv p (as @ [t]) xs q"
proof -
  obtain ys y where xs: "xs = ys @ [y]" "length as = length ys"
    using dseg_length [OF assms(1)] by (cases xs rule: rev_cases) auto
  with assms show ?thesis by (auto simp: dseg_append dseg_upd)
qed

lemma list_remove_ok:
  assumes wf: "list_wf l" and i: "i < length (list_items l)"
  shows "\<exists>l'. list_remove l i = Some (Some (list_items l ! i), l') \<and> list_wf l' \<and>
    list_items l' = remove_at i (list_items l)"
proof -
  obtain as where as: "dseg (store l) 0 (entry_current l) as (list_items l) 0"
    "distinct as" "length as = pointer l" "length (list_items l) = pointer l"
    using wf by (rule list_wf_E)
  define bs a cs ys x zs where splits: "bs = take i as" "a = as ! i" "cs = drop (Suc i) as"
    "ys = take i (list_items l)" "x = list_items l ! i" "zs = drop (Suc i) (list_items l)"
  have asx: "as = bs @ a # cs" "list_items l = ys @ x # zs" "length bs = length ys"
    "length bs = i"
    using i as by (simp_all add: splits id_take_nth_drop)
  have nz: "0 \<notin> set as" by (rule dseg_nonzero [OF as(1)])
  have w: "list_walk (store l) (entry_current l) i = Some a"
    using dseg_walk [OF as(1)] i as by (simp add: splits)
  from as(1) obtain n where n: "dseg (store l) 0 (entry_current l) bs ys a" "store l a = Some n"
    "de_prev n = last (0 # bs)" "de_data n = x" "dseg (store l) a (de_next n) cs zs 0"
    unfolding asx using asx(3) by (auto simp: dseg_append)
  define h1 where "h1 = (if bs = [] then store l else
     (store l)(last bs \<mapsto> (the (store l (last bs)))\<lparr>de_next := de_next n\<rparr>))"
  define h2 where "h2 = (if cs = [] then h1 else
     h1(hd cs \<mapsto> (the (h1 (hd cs)))\<lparr>de_prev := de_prev n\<rparr>))"
  have dis: "distinct bs" "distinct cs" "a \<notin> set bs" "a \<notin> set cs" "set bs \<inter> set cs = {}"
    using as(2) asx by auto
  have dom: "set bs \<subseteq> dom (store l)" "set cs \<subseteq> dom (store l)"
    using n dseg_dom by blast+
  have nxt: "de_next n = (if cs = [] then 0 else hd cs)"
    using n(5) by (cases cs; cases zs) auto
  have S1: "(if de_prev n \<noteq> 0 then set_next (de_prev n) (de_next n) (store l)
       else Some (store l)) = Some h1"
  proof (cases bs rule: rev_cases)
    case Nil
    then show ?thesis using n(3) by (simp add: h1_def)
  next
    case (snoc us t)
    moreover have "t \<noteq> 0" using nz asx snoc by auto
    moreover obtain m where "store l t = Some m" using dom snoc by auto
    ultimately show ?thesis using n(3) by (simp add: h1_def set_next_def)
  qed
  have S2: "(if de_next n \<noteq> 0 then set_prev (de_next n) (de_prev n) h1 else Some h1) = Some h2"
  proof (cases cs)
    case Nil
    then show ?thesis using nxt by (simp add: h2_def)
  next
    case (Cons c us)
    have "c \<noteq> 0" using nz asx Cons by auto
    have "bs \<noteq> [] \<Longrightarrow> last bs \<noteq> c" using dis Cons by auto
    then have "h1 c = store l c" by (cases "bs = []") (auto simp: h1_def)
    moreover obtain m where "store l c = Some m" using dom Cons by auto
    ultimately show ?thesis using nxt Cons \<open>c \<noteq> 0\<close> by (simp add: h2_def set_prev_def)
  qed
  have B: "dseg h1 0 (if bs = [] then de_next n else entry_current l) bs ys (de_next n)"
  proof (cases bs rule: rev_cases)
    case Nil
    then show ?thesis using asx n by simp
  next
    case (snoc us t)
    then obtain m where "store l t = Some m" using dom by auto
    then show ?thesis using snoc dis n(1) dseg_set_next [of "store l" 0 _ us t ys a m]
      by (simp add: h1_def)
  qed
  have C0: "dseg h1 a (de_next n) cs zs 0"
    using n(5) dis by (auto simp: h1_def dseg_upd) (metis disjoint_iff dseg_upd last_in_set)
  have C: "dseg h2 (last (0 # bs)) (de_next n) cs zs 0"
  proof (cases cs)
    case Nil
    then show ?thesis using C0 by (cases zs) auto
  next
    case (Cons c us)
    obtain m where "h1 c = Some m" using C0 Cons by (cases zs) auto
    then show ?thesis using dseg_set_prev [OF C0 _ dis(2)] Cons nxt n(3) by (simp add: h2_def)
  qed
  have B2: "dseg h2 0 (if bs = [] then de_next n else entry_current l) bs ys (de_next n)"
    using B dis by (cases cs) (auto simp: h2_def dseg_upd)
  let ?l = "l\<lparr>entry_current := (if i = 0 then de_next n else entry_current l),
      store := h2(a := None), pointer := pointer l - 1\<rparr>"
  have "dseg (h2(a := None)) 0 (if i = 0 then de_next n else entry_current l) (bs @ cs) (ys @ zs) 0"
    using B2 C dis asx by (auto simp: dseg_append dseg_upd)
  then have "list_wf ?l \<and> list_items ?l = ys @ zs"
    by (intro list_wf_I [of _ "bs @ cs"]) (use dis as asx i in auto)
  moreover have "list_remove l i = Some (Some x, ?l)"
    using i as w nz asx n S1 S2 by (auto simp: list_remove_def)
  ultimately show ?thesis by (auto simp: splits remove_at_def)
qed

lemma list_remove_out:
  "list_wf l \<Longrightarrow> i \<ge> length (list_items l) \<Longrightarrow> list_remove l i = Some (None, l)"
  by (simp add: list_remove_def length_list_items)

section \<open>The contract, and the loops of its clients\<close>

text \<open>
  What the users of the list rely on. \<open>add a d l\<close> gets the address \<open>a\<close> that \<open>kmalloc\<close>
  returned; \<open>fresh a l\<close> says that this address is not in use by the list.
\<close>

locale kernel_list =
  fixes add :: "nat \<Rightarrow> 'a \<Rightarrow> 'l \<Rightarrow> 'l option"
    and get_at :: "'l \<Rightarrow> nat \<Rightarrow> 'a option option"
    and remove :: "'l \<Rightarrow> nat \<Rightarrow> ('a option \<times> 'l) option"
    and count :: "'l \<Rightarrow> nat"
    and wf :: "'l \<Rightarrow> bool"
    and fresh :: "nat \<Rightarrow> 'l \<Rightarrow> bool"
    and items :: "'l \<Rightarrow> 'a list"
  assumes count_items: "wf l \<Longrightarrow> count l = length (items l)"
    and add_items: "wf l \<Longrightarrow> fresh a l \<Longrightarrow> a \<noteq> 0 \<Longrightarrow>
      \<exists>l'. add a d l = Some l' \<and> wf l' \<and> items l' = items l @ [d]"
    and add_nomem: "wf l \<Longrightarrow> add 0 d l = Some l"
    and get_items: "wf l \<Longrightarrow>
      get_at l i = Some (if i < length (items l) then Some (items l ! i) else None)"
    and remove_items: "wf l \<Longrightarrow> i < length (items l) \<Longrightarrow>
      \<exists>l'. remove l i = Some (Some (items l ! i), l') \<and> wf l' \<and>
        items l' = remove_at i (items l)"
    and remove_out: "wf l \<Longrightarrow> i \<ge> length (items l) \<Longrightarrow> remove l i = Some (None, l)"

text \<open>
  The clients' search loop \<open>for (i = 0; i < list->pointer; i++) { e = list_get_at(list, i);
  if (!e) continue; if (P(e)) return i; }\<close> over any provider of the interface; \<open>k\<close> is the
  number of entries left.
\<close>

fun scan_list :: "('l \<Rightarrow> nat \<Rightarrow> 'a option option) \<Rightarrow> ('a \<Rightarrow> bool) \<Rightarrow> 'l \<Rightarrow> nat \<Rightarrow> nat
    \<Rightarrow> nat option option" where
  "scan_list get P l i 0 = Some None"
| "scan_list get P l i (Suc k) =
     (case get l i of None \<Rightarrow> None
      | Some None \<Rightarrow> scan_list get P l (Suc i) k
      | Some (Some e) \<Rightarrow> if P e then Some (Some i) else scan_list get P l (Suc i) k)"

context kernel_list
begin

lemma scan_from:
  assumes "wf l" "i + k = length (items l)"
  shows "scan_list get_at P l i k =
    Some (map_option (\<lambda>j. i + j) (first_index P (drop i (items l))))"
  using assms(2)
proof (induction k arbitrary: i)
  case 0
  then show ?case by simp
next
  case (Suc k)
  then have "drop i (items l) = items l ! i # drop (Suc i) (items l)"
    by (simp add: Cons_nth_drop_Suc)
  moreover have "scan_list get_at P l (Suc i) k =
      Some (map_option (\<lambda>j. Suc i + j) (first_index P (drop (Suc i) (items l))))"
    using Suc by simp
  ultimately show ?case using Suc.prems assms(1)
    by (simp add: get_items option.map_comp comp_def)
qed

lemma scan_is_first_index:
  "wf l \<Longrightarrow> scan_list get_at P l 0 (count l) = Some (first_index P (items l))"
  using scan_from [of l 0 "count l" P] by (simp add: count_items option.map_ident)

text \<open>Search and remove, the clients' deletion by key.\<close>

lemma scan_then_remove:
  assumes "wf l" "scan_list get_at P l 0 (count l) = Some (Some i)"
  shows "\<exists>l'. remove l i = Some (Some (items l ! i), l') \<and> wf l' \<and> P (items l ! i) \<and>
    items l' = remove_at i (items l)"
  using assms remove_items [of l i]
  by (auto simp: scan_is_first_index first_index_Some)

end

interpretation dl: kernel_list list_add list_get_at list_remove pointer list_wf list_fresh list_items
  by unfold_locales
    (auto simp: length_list_items list_get_at_ok list_remove_ok list_remove_out list_add_ok
      list_add_nomem)

text \<open>
  The sequence the other components use for a kernel list: the same interface on the list
  of payloads, which is what \<open>list_items\<close> abstracts the store to.
\<close>

definition seq_add :: "nat \<Rightarrow> 'a \<Rightarrow> 'a list \<Rightarrow> 'a list" where
  "seq_add a d xs = (if a = 0 then xs else xs @ [d])"

definition seq_get_at :: "'a list \<Rightarrow> nat \<Rightarrow> 'a option" where
  "seq_get_at xs i = (if i < length xs then Some (xs ! i) else None)"

definition seq_remove :: "'a list \<Rightarrow> nat \<Rightarrow> 'a option \<times> 'a list" where
  "seq_remove xs i = (if i < length xs then (Some (xs ! i), remove_at i xs) else (None, xs))"

interpretation sq: kernel_list "\<lambda>a d xs. Some (seq_add a d xs)" "\<lambda>xs i. Some (seq_get_at xs i)"
    "\<lambda>xs i. Some (seq_remove xs i)" length "\<lambda>_. True" "\<lambda>_ _. True" "\<lambda>xs. xs"
  by unfold_locales (auto simp: seq_add_def seq_get_at_def seq_remove_def)


section \<open>Runs\<close>

text \<open>A client's sequence of calls, with the address \<open>kmalloc\<close> returned at each insertion.\<close>

datatype 'a list_cmd = LAdd nat 'a | LGet nat | LRemove nat

fun list_run :: "'a list_t \<Rightarrow> 'a list_cmd list \<Rightarrow> ('a option list \<times> 'a list_t) option" where
  "list_run l [] = Some ([], l)"
| "list_run l (LAdd a d # cs) =
     (case list_add a d l of None \<Rightarrow> None | Some l' \<Rightarrow> list_run l' cs)"
| "list_run l (LGet i # cs) =
     (case list_get_at l i of None \<Rightarrow> None
      | Some r \<Rightarrow> map_option (\<lambda>(rs, l'). (r # rs, l')) (list_run l cs))"
| "list_run l (LRemove i # cs) =
     (case list_remove l i of None \<Rightarrow> None
      | Some (r, l') \<Rightarrow> map_option (\<lambda>(rs, l''). (r # rs, l'')) (list_run l' cs))"

fun seq_run :: "'a list \<Rightarrow> 'a list_cmd list \<Rightarrow> 'a option list \<times> 'a list" where
  "seq_run xs [] = ([], xs)"
| "seq_run xs (LAdd a d # cs) = seq_run (seq_add a d xs) cs"
| "seq_run xs (LGet i # cs) = (let (rs, ys) = seq_run xs cs in (seq_get_at xs i # rs, ys))"
| "seq_run xs (LRemove i # cs) =
     (let (r, xs') = seq_remove xs i; (rs, ys) = seq_run xs' cs in (r # rs, ys))"

text \<open>
  What \<open>kmalloc\<close> promises along a run: each address it hands out is null or not in use by the
  list at that moment. The address of a node that \<open>list_remove\<close> has freed may come back.
\<close>

fun kmalloc_kept :: "'a list_t \<Rightarrow> 'a list_cmd list \<Rightarrow> bool" where
  "kmalloc_kept l [] \<longleftrightarrow> True"
| "kmalloc_kept l (LAdd a d # cs) \<longleftrightarrow> (a = 0 \<or> list_fresh a l) \<and>
     (case list_add a d l of None \<Rightarrow> True | Some l' \<Rightarrow> kmalloc_kept l' cs)"
| "kmalloc_kept l (LGet i # cs) \<longleftrightarrow> kmalloc_kept l cs"
| "kmalloc_kept l (LRemove i # cs) \<longleftrightarrow>
     (case list_remove l i of None \<Rightarrow> True | Some (r, l') \<Rightarrow> kmalloc_kept l' cs)"

lemma list_run_step:
  assumes "list_wf l" "kmalloc_kept l cs"
  shows "\<exists>l'. list_run l cs = Some (fst (seq_run (list_items l) cs), l') \<and> list_wf l' \<and>
     list_items l' = snd (seq_run (list_items l) cs)"
  using assms
proof (induction l cs rule: list_run.induct)
  case (1 l)
  then show ?case by simp
next
  case (2 l a d cs)
  show ?case
  proof (cases "a = 0")
    case True
    with 2 show ?thesis by (simp add: dl.add_nomem seq_add_def)
  next
    case False
    with 2 obtain l' where "list_add a d l = Some l'" "list_wf l'" "list_items l' = list_items l @ [d]"
      using dl.add_items [of l a d] by auto
    with 2 False show ?thesis by (simp add: seq_add_def)
  qed
next
  case (3 l i cs)
  then show ?case by (auto simp: dl.get_items seq_get_at_def split: prod.splits)
next
  case (4 l i cs)
  show ?case
  proof (cases "i < length (list_items l)")
    case True
    with 4 obtain l' where "list_remove l i = Some (Some (list_items l ! i), l')"
      "list_wf l'" "list_items l' = remove_at i (list_items l)" using dl.remove_items [of l i] by auto
    with 4 True show ?thesis by (auto simp: seq_remove_def split: prod.splits)
  next
    case False
    with 4 show ?thesis by (auto simp: dl.remove_out seq_remove_def split: prod.splits)
  qed
qed

text \<open>
  C21. A kernel list refines the sequence of its payloads: starting from a list as
  \<open>initialize_list\<close> creates it, every sequence of insertions, reads and removals runs
  without dereferencing an unmapped address, returns what the same calls return on a plain
  sequence, and leaves a well-formed doubly linked list that holds that sequence. The
  hypothesis is the allocator's contract: each address it hands out is null or not one of the
  list's nodes at that moment; it may be one that a removal freed.
\<close>

theorem list_run_refines:
  assumes "initialize_list h = Some l" and "kmalloc_kept l cs"
  shows "\<exists>l'. list_run l cs = Some (fst (seq_run [] cs), l') \<and> list_wf l' \<and>
     list_items l' = snd (seq_run [] cs)"
  using list_run_step [of l cs] initialize_list_ok [OF assms(1)] assms(2) by simp

theorem list_run_refines_witness:
  "\<exists>l'. list_run \<lparr>entry_current = 0, pointer = 0, store = Map.empty\<rparr>
      [LAdd 8 (1::nat), LAdd 0 5, LAdd 16 2, LRemove 0, LAdd 8 3, LGet 1, LRemove 7] =
      Some ([Some 1, Some 3, None], l') \<and> list_wf l' \<and> list_items l' = [2, 3]"
proof -
  let ?l = "\<lparr>entry_current = 0, pointer = 0, store = Map.empty\<rparr>"
  let ?cs = "[LAdd 8 (1::nat), LAdd 0 5, LAdd 16 2, LRemove 0, LAdd 8 3, LGet 1, LRemove 7]"
  have "kmalloc_kept ?l ?cs"
    by (simp add: list_add_def list_remove_def list_fresh_def list_last.simps set_prev_def
        fun_upd_twist)
  moreover have "initialize_list 4 = Some ?l" by (simp add: initialize_list_def)
  ultimately show ?thesis
    using list_run_refines [of 4 ?l ?cs]
    by (simp add: seq_add_def seq_remove_def seq_get_at_def del: list_run.simps)
qed

end
