(* ===== verification/Ring.thy ===== *)
theory Ring
  imports Prelude
begin

text \<open>
  Ring buffers: the contents of a ring as a list, how a store or a copy into the array
  changes it, and the contract of a bounded first-in first-out queue that the kernel's ring
  buffers (circular buffers, post boxes, pipes) provide.
\<close>

section \<open>The contents of a ring\<close>

text \<open>The \<open>n\<close> elements of the array \<open>buf\<close> from index \<open>t\<close> on, wrapping at its end.\<close>

definition ring_list :: "'a list \<Rightarrow> nat \<Rightarrow> nat \<Rightarrow> 'a list" where
  "ring_list buf t n = map (\<lambda>i. buf ! ((t + i) mod length buf)) [0..<n]"

lemma length_ring_list [simp]: "length (ring_list buf t n) = n"
  by (simp add: ring_list_def)

lemma ring_list_0 [simp]: "ring_list buf t 0 = []"
  by (simp add: ring_list_def)

lemma nth_ring_list: "i < n \<Longrightarrow> ring_list buf t n ! i = buf ! ((t + i) mod length buf)"
  by (simp add: ring_list_def)

lemma wrap_index: "t < L \<Longrightarrow> i \<le> L \<Longrightarrow> (t + i) mod L = (if t + i < L then t + i else t + i - L)"
  for t i L :: nat
  by (simp add: mod_if)

lemma wrap_inj:
  fixes t i j L :: nat
  assumes "i < L" "j < L" "(t + i) mod L = (t + j) mod L"
  shows "i = j"
proof -
  have "(t mod L + i) mod L = (t mod L + j) mod L" using assms(3) by (simp add: mod_add_left_eq)
  moreover have "t mod L < L" using assms(1) by auto
  ultimately show ?thesis using assms(1,2) by (auto simp: wrap_index split: if_splits)
qed

lemma ring_list_snoc:
  assumes "n < length buf"
  shows "ring_list (buf[(t + n) mod length buf := d]) t (Suc n) = ring_list buf t n @ [d]"
proof (rule nth_equalityI)
  fix i assume "i < length (ring_list (buf[(t + n) mod length buf := d]) t (Suc n))"
  then have i: "i < Suc n" by simp
  have L: "0 < length buf" using assms by auto
  show "ring_list (buf[(t + n) mod length buf := d]) t (Suc n) ! i = (ring_list buf t n @ [d]) ! i"
  proof (cases "i = n")
    case True
    with L show ?thesis by (simp add: nth_ring_list nth_append)
  next
    case False
    with i have "i < n" by simp
    moreover have "(t + i) mod length buf \<noteq> (t + n) mod length buf"
      using wrap_inj [of i "length buf" n t] False i assms by auto
    ultimately show ?thesis by (simp add: nth_ring_list nth_append)
  qed
qed simp

lemma ring_list_Suc:
  "ring_list buf t (Suc n) = buf ! (t mod length buf) # ring_list buf ((t + 1) mod length buf) n"
  by (simp add: ring_list_def upt_rec [of 0 "Suc n"] map_Suc_upt [symmetric] mod_add_left_eq comp_def
      del: upt_Suc)

lemma ring_list_drop:
  "k \<le> n \<Longrightarrow> drop k (ring_list buf t n) = ring_list buf ((t + k) mod length buf) (n - k)"
  by (rule nth_equalityI) (auto simp: nth_ring_list mod_add_left_eq add.assoc)

lemma ring_list_mod [simp]: "ring_list buf (t mod length buf) n = ring_list buf t n"
  by (simp add: ring_list_def mod_add_left_eq)

text \<open>A full ring that accepts one more element loses its oldest one.\<close>

lemma ring_list_overwrite:
  assumes "buf \<noteq> []"
  shows "ring_list (buf[t mod length buf := d]) ((t + 1) mod length buf) (length buf) =
    tl (ring_list buf t (length buf)) @ [d]"
proof -
  let ?L = "length buf"
  obtain m where m: "?L = Suc m" using assms by (cases buf) auto
  have "ring_list (buf[t mod ?L := d]) ((t + 1) mod ?L) m @ [d] =
      ring_list (buf[(t + 1 + m) mod ?L := d]) ((t + 1) mod ?L) (Suc m)"
  proof -
    have "t + 1 + m = t + ?L" using m by simp
    then have "(t + 1 + m) mod ?L = t mod ?L" by (metis mod_add_self2)
    then show ?thesis
      using ring_list_snoc [of m buf "t + 1" d] ring_list_snoc [of m "buf[t mod ?L := d]" "t + 1" d] m
      by (metis Suc_n_not_le_n length_list_update linorder_not_le list_update_overwrite ring_list_mod)
  qed
  moreover have "ring_list (buf[t mod ?L := d]) ((t + 1) mod ?L) m = tl (ring_list buf t ?L)"
  proof (rule nth_equalityI)
    fix i assume "i < length (ring_list (buf[t mod ?L := d]) ((t + 1) mod ?L) m)"
    then have i: "i < m" by simp
    have "(t + 1 + i) mod ?L \<noteq> t mod ?L"
      using wrap_inj [of "Suc i" ?L 0 t] i m by auto
    then show "ring_list (buf[t mod ?L := d]) ((t + 1) mod ?L) m ! i = tl (ring_list buf t ?L) ! i"
      using i m by (simp add: nth_ring_list nth_tl mod_add_left_eq)
  qed (simp add: m)
  ultimately show ?thesis using m by (metis ab_semigroup_add_class.add_ac(1) add.commute mod_add_self1 plus_1_eq_Suc)
qed

section \<open>Copies into the array\<close>

text \<open>
  \<open>memcpy(dst + off, src + from, n)\<close> between disjoint byte arrays; a copy that leaves
  either array is a fault.
\<close>

definition memcpy_at :: "'a list \<Rightarrow> nat \<Rightarrow> 'a list \<Rightarrow> nat \<Rightarrow> nat \<Rightarrow> 'a list option" where
  "memcpy_at dst off src from n =
     (if off + n \<le> length dst \<and> from + n \<le> length src
      then Some (take off dst @ take n (drop from src) @ drop (off + n) dst)
      else None)"

lemma memcpy_at_Some:
  "memcpy_at dst off src from n = Some r \<longleftrightarrow>
     off + n \<le> length dst \<and> from + n \<le> length src \<and>
     r = take off dst @ take n (drop from src) @ drop (off + n) dst"
  by (auto simp: memcpy_at_def)

lemma length_memcpy_at: "memcpy_at dst off src from n = Some r \<Longrightarrow> length r = length dst"
  by (auto simp: memcpy_at_Some)

lemma nth_memcpy_at:
  "memcpy_at dst off src from n = Some r \<Longrightarrow> j < length dst \<Longrightarrow>
   r ! j = (if off \<le> j \<and> j < off + n then src ! (from + (j - off)) else dst ! j)"
proof -
  assume r: "memcpy_at dst off src from n = Some r" and j: "j < length dst"
  then have "length (take n (drop from src)) = n" "length (take off dst) = off"
    by (auto simp: memcpy_at_Some)
  with r j show ?thesis by (auto simp: memcpy_at_Some nth_append)
qed


text \<open>Appending a block: the array holds the block behind the contents and is otherwise kept.\<close>

lemma ring_list_block:
  assumes len: "length b = length buf" and n: "n + length xs \<le> length buf"
    and wr: "\<And>d. d < length xs \<Longrightarrow> b ! ((t + n + d) mod length buf) = xs ! d"
    and keep: "\<And>j. j < length buf \<Longrightarrow> (\<And>d. d < length xs \<Longrightarrow> j \<noteq> (t + n + d) mod length buf) \<Longrightarrow>
      b ! j = buf ! j"
  shows "ring_list b t (n + length xs) = ring_list buf t n @ xs"
proof (rule nth_equalityI)
  fix i assume "i < length (ring_list b t (n + length xs))"
  then have i: "i < n + length xs" by simp
  show "ring_list b t (n + length xs) ! i = (ring_list buf t n @ xs) ! i"
  proof (cases "i < n")
    case True
    have "(t + i) mod length buf \<noteq> (t + n + d) mod length buf" if "d < length xs" for d
      using wrap_inj [of i "length buf" "n + d" t] True n that by (auto simp: add.assoc)
    moreover have "(t + i) mod length buf < length buf" using n i by (intro mod_less_divisor) linarith
    ultimately have "b ! ((t + i) mod length buf) = buf ! ((t + i) mod length buf)" by (intro keep)
    with True i show ?thesis by (simp add: nth_ring_list nth_append len)
  next
    case False
    then have "b ! ((t + n + (i - n)) mod length buf) = xs ! (i - n)" using i by (intro wr) auto
    with False i show ?thesis by (simp add: nth_ring_list nth_append len)
  qed
qed simp

section \<open>Bounded queues\<close>

text \<open>
  The contract of the kernel's ring buffers. \<open>put\<close> says whether it accepted the element;
  \<open>get\<close> returns the oldest one. The outer option is a fault (an access outside the array).
\<close>

locale bounded_fifo =
  fixes put :: "'e \<Rightarrow> 'q \<Rightarrow> (bool \<times> 'q) option"
    and get :: "'q \<Rightarrow> ('e option \<times> 'q) option"
    and contents :: "'q \<Rightarrow> 'e list"
    and cap :: "'q \<Rightarrow> nat"
    and wf :: "'q \<Rightarrow> bool"
  assumes put_room: "wf q \<Longrightarrow> length (contents q) < cap q \<Longrightarrow>
      \<exists>q'. put e q = Some (True, q') \<and> wf q' \<and> contents q' = contents q @ [e] \<and> cap q' = cap q"
    and put_full: "wf q \<Longrightarrow> \<not> length (contents q) < cap q \<Longrightarrow>
      \<exists>q'. put e q = Some (False, q') \<and> wf q' \<and> contents q' = contents q \<and> cap q' = cap q"
    and get_some: "wf q \<Longrightarrow> contents q = e # es \<Longrightarrow>
      \<exists>q'. get q = Some (Some e, q') \<and> wf q' \<and> contents q' = es \<and> cap q' = cap q"
    and get_none: "wf q \<Longrightarrow> contents q = [] \<Longrightarrow>
      \<exists>q'. get q = Some (None, q') \<and> wf q' \<and> contents q' = [] \<and> cap q' = cap q"
    and bounded: "wf q \<Longrightarrow> length (contents q) \<le> cap q"

text \<open>The queue by itself: what a bounded list of capacity \<open>n\<close> answers and becomes.\<close>

definition queue_put :: "nat \<Rightarrow> 'e \<Rightarrow> 'e list \<Rightarrow> bool \<times> 'e list" where
  "queue_put n e xs = (if length xs < n then (True, xs @ [e]) else (False, xs))"

definition queue_get :: "'e list \<Rightarrow> 'e option \<times> 'e list" where
  "queue_get xs = (case xs of [] \<Rightarrow> (None, []) | x # xs \<Rightarrow> (Some x, xs))"

context bounded_fifo
begin

lemma put_answer:
  assumes "wf q"
  shows "\<exists>q'. put e q = Some (fst (queue_put (cap q) e (contents q)), q') \<and> wf q' \<and> cap q' = cap q \<and>
    contents q' = snd (queue_put (cap q) e (contents q))"
  using put_room [OF assms, of e] put_full [OF assms, of e] by (auto simp: queue_put_def)

lemma get_answer:
  assumes "wf q"
  shows "\<exists>q'. get q = Some (fst (queue_get (contents q)), q') \<and> wf q' \<and> cap q' = cap q \<and>
    contents q' = snd (queue_get (contents q))"
  using get_none [OF assms] get_some [OF assms] by (auto simp: queue_get_def split: list.split)

end

end
