(* ===== verification/CircBuf.thy ===== *)
theory CircBuf
  imports Ring
begin

text \<open>
  The byte ring behind the ttys and input devices (KernelAA64/circbuf.c). Indices are
  naturals: they stay below \<open>max\<close>, which \<open>circ_wf\<close> states and every operation keeps, so
  neither the differences nor the sums of the code leave \<open>size_t\<close> for an array that fits in
  memory. A remainder by zero is the dividend, as on AArch64. A store outside the array is
  a fault, the result \<open>None\<close>.
\<close>

section \<open>State and operations\<close>

record CircBuffer =
  cb_buffer :: "u8 list"
  cb_head :: nat
  cb_tail :: nat
  cb_max :: nat
  cb_full :: bool

definition AuAdvancePointer :: "CircBuffer \<Rightarrow> CircBuffer" where
  "AuAdvancePointer cb =
     (let cb1 = (if cb_full cb then cb\<lparr>cb_tail := (cb_tail cb + 1) mod cb_max cb\<rparr> else cb);
          cb2 = cb1\<lparr>cb_head := (cb_head cb1 + 1) mod cb_max cb1\<rparr>
      in cb2\<lparr>cb_full := (cb_head cb2 = cb_tail cb2)\<rparr>)"

definition AuRetreatPointer :: "CircBuffer \<Rightarrow> CircBuffer" where
  "AuRetreatPointer cb = cb\<lparr>cb_full := False, cb_tail := (cb_tail cb + 1) mod cb_max cb\<rparr>"

definition AuCircBufReset :: "CircBuffer \<Rightarrow> CircBuffer" where
  "AuCircBufReset cb = cb\<lparr>cb_head := 0, cb_tail := 0, cb_full := False\<rparr>"

text \<open>\<open>a\<close> is the address \<open>kmalloc\<close> returned for the header.\<close>

definition AuCircBufInitialise :: "nat \<Rightarrow> u8 list \<Rightarrow> nat \<Rightarrow> CircBuffer option" where
  "AuCircBufInitialise a buf sz =
     (if a = 0 then None
      else Some (AuCircBufReset
        \<lparr>cb_buffer = buf, cb_head = 0, cb_tail = 0, cb_max = sz, cb_full = False\<rparr>))"

definition CircBufEmpty :: "CircBuffer \<Rightarrow> bool" where
  "CircBufEmpty cb \<longleftrightarrow> \<not> cb_full cb \<and> cb_head cb = cb_tail cb"

definition CircBufFull :: "CircBuffer \<Rightarrow> bool" where
  "CircBufFull cb \<longleftrightarrow> cb_full cb"

definition AuCircBufSize :: "CircBuffer \<Rightarrow> nat" where
  "AuCircBufSize cb =
     (if \<not> cb_full cb then
        (if cb_head cb \<ge> cb_tail cb then cb_head cb - cb_tail cb
         else cb_max cb + cb_head cb - cb_tail cb)
      else cb_max cb)"

definition AuCircBufCapacity :: "CircBuffer \<Rightarrow> nat" where
  "AuCircBufCapacity cb = cb_max cb"

definition AuCircBufPutData :: "CircBuffer \<Rightarrow> u8 \<Rightarrow> CircBuffer option" where
  "AuCircBufPutData cb d =
     (if cb_head cb < length (cb_buffer cb)
      then Some (AuAdvancePointer (cb\<lparr>cb_buffer := (cb_buffer cb)[cb_head cb := d]\<rparr>))
      else None)"

definition AuCircBufPut :: "CircBuffer \<Rightarrow> u8 \<Rightarrow> (int \<times> CircBuffer) option" where
  "AuCircBufPut cb d =
     (if \<not> CircBufFull cb then
        (if cb_head cb < length (cb_buffer cb)
         then Some (0, AuAdvancePointer (cb\<lparr>cb_buffer := (cb_buffer cb)[cb_head cb := d]\<rparr>))
         else None)
      else Some (-1, cb))"

text \<open>The two branches of the copy into the ring, and below out of it.\<close>

definition circ_copy_in :: "u8 list \<Rightarrow> nat \<Rightarrow> nat \<Rightarrow> u8 list \<Rightarrow> nat \<Rightarrow> nat \<Rightarrow> u8 list option" where
  "circ_copy_in buf head run src written chunk =
     (if chunk > run then
        (case memcpy_at buf head src written run of None \<Rightarrow> None
         | Some b \<Rightarrow> memcpy_at b 0 src (written + run) (chunk - run))
      else memcpy_at buf head src written chunk)"

function circ_write_loop :: "CircBuffer \<Rightarrow> u8 list \<Rightarrow> nat \<Rightarrow> nat \<Rightarrow> (nat \<times> CircBuffer) option" where
  "circ_write_loop cb src len written =
     (if written < len \<and> \<not> CircBufFull cb then
        (let avail = cb_max cb - AuCircBufSize cb;
             chunk = (if len - written > avail then avail else len - written)
         in if chunk = 0 then Some (written, cb)
            else
              (case circ_copy_in (cb_buffer cb) (cb_head cb) (cb_max cb - cb_head cb)
                      src written chunk of
                 None \<Rightarrow> None
               | Some b \<Rightarrow>
                   let h = (cb_head cb + chunk) mod cb_max cb in
                   circ_write_loop
                     (cb\<lparr>cb_buffer := b, cb_head := h, cb_full := (h = cb_tail cb)\<rparr>)
                     src len (written + chunk)))
      else Some (written, cb))"
  by pat_completeness auto
termination
  by (relation "measure (\<lambda>(cb, src, len, written). len - written)") (auto simp: Let_def split: if_splits)

declare circ_write_loop.simps [simp del]

definition AuCircBufWrite :: "CircBuffer \<Rightarrow> u8 list \<Rightarrow> nat \<Rightarrow> (nat \<times> CircBuffer) option" where
  "AuCircBufWrite cb src len = circ_write_loop cb src len 0"

text \<open>The byte is \<open>*data\<close>; \<open>None\<close> inside means it is not written.\<close>

definition AuCircBufGet :: "CircBuffer \<Rightarrow> (int \<times> u8 option \<times> CircBuffer) option" where
  "AuCircBufGet cb =
     (if \<not> CircBufEmpty cb then
        (if cb_tail cb < length (cb_buffer cb)
         then Some (0, Some (cb_buffer cb ! cb_tail cb), AuRetreatPointer cb)
         else None)
      else Some (-1, None, cb))"

definition circ_copy_out :: "u8 list \<Rightarrow> nat \<Rightarrow> u8 list \<Rightarrow> nat \<Rightarrow> nat \<Rightarrow> nat \<Rightarrow> u8 list option" where
  "circ_copy_out dst got buf tail run chunk =
     (if chunk > run then
        (case memcpy_at dst got buf tail run of None \<Rightarrow> None
         | Some d \<Rightarrow> memcpy_at d (got + run) buf 0 (chunk - run))
      else memcpy_at dst got buf tail chunk)"

function circ_read_loop :: "CircBuffer \<Rightarrow> u8 list \<Rightarrow> nat \<Rightarrow> nat \<Rightarrow> (nat \<times> u8 list \<times> CircBuffer) option" where
  "circ_read_loop cb dst len got =
     (if got < len \<and> \<not> CircBufEmpty cb then
        (let avail = AuCircBufSize cb;
             chunk = (if len - got > avail then avail else len - got)
         in if chunk = 0 then Some (got, dst, cb)
            else
              (case circ_copy_out dst got (cb_buffer cb) (cb_tail cb) (cb_max cb - cb_tail cb) chunk of
                 None \<Rightarrow> None
               | Some d \<Rightarrow>
                   circ_read_loop
                     (cb\<lparr>cb_tail := (cb_tail cb + chunk) mod cb_max cb, cb_full := False\<rparr>)
                     d len (got + chunk)))
      else Some (got, dst, cb))"
  by pat_completeness auto
termination
  by (relation "measure (\<lambda>(cb, dst, len, got). len - got)") (auto simp: Let_def split: if_splits)

declare circ_read_loop.simps [simp del]

definition AuCircBufRead :: "CircBuffer \<Rightarrow> u8 list \<Rightarrow> nat \<Rightarrow> (nat \<times> u8 list \<times> CircBuffer) option" where
  "AuCircBufRead cb dst len = circ_read_loop cb dst len 0"

section \<open>Invariant and abstraction\<close>

definition circ_wf :: "CircBuffer \<Rightarrow> bool" where
  "circ_wf cb \<longleftrightarrow> 0 < cb_max cb \<and> length (cb_buffer cb) = cb_max cb \<and> cb_head cb < cb_max cb \<and>
     cb_tail cb < cb_max cb \<and> (cb_full cb \<longrightarrow> cb_head cb = cb_tail cb)"

definition circ_list :: "CircBuffer \<Rightarrow> u8 list" where
  "circ_list cb = ring_list (cb_buffer cb) (cb_tail cb) (AuCircBufSize cb)"

lemma length_circ_list [simp]: "length (circ_list cb) = AuCircBufSize cb"
  by (simp add: circ_list_def)

lemma circ_size_le: "circ_wf cb \<Longrightarrow> AuCircBufSize cb \<le> cb_max cb"
  by (auto simp: circ_wf_def AuCircBufSize_def)

lemma circ_full_iff: "circ_wf cb \<Longrightarrow> CircBufFull cb \<longleftrightarrow> AuCircBufSize cb = cb_max cb"
  by (auto simp: circ_wf_def AuCircBufSize_def CircBufFull_def)

lemma circ_empty_iff: "circ_wf cb \<Longrightarrow> CircBufEmpty cb \<longleftrightarrow> AuCircBufSize cb = 0"
  by (auto simp: circ_wf_def AuCircBufSize_def CircBufEmpty_def)

lemma circ_head_tail:
  "circ_wf cb \<Longrightarrow> cb_head cb = (cb_tail cb + AuCircBufSize cb) mod cb_max cb"
  by (auto simp: circ_wf_def AuCircBufSize_def mod_if)

lemma circ_init:
  "AuCircBufInitialise a buf sz = Some cb \<Longrightarrow> 0 < sz \<Longrightarrow> length buf = sz \<Longrightarrow>
   circ_wf cb \<and> circ_list cb = [] \<and> cb_max cb = sz"
  by (auto simp: AuCircBufInitialise_def AuCircBufReset_def circ_wf_def circ_list_def
      AuCircBufSize_def split: if_splits)

text \<open>
  A state with \<open>k\<close> more bytes than \<open>cb\<close>: the head has moved by \<open>k\<close>, the array holds them.
\<close>

lemma circ_grow:
  assumes wf: "circ_wf cb" and k: "0 < k" "AuCircBufSize cb + k \<le> cb_max cb"
    and len: "length b = cb_max cb"
    and cb': "cb' = cb\<lparr>cb_buffer := b, cb_head := (cb_head cb + k) mod cb_max cb,
        cb_full := ((cb_head cb + k) mod cb_max cb = cb_tail cb)\<rparr>"
  shows "circ_wf cb' \<and> AuCircBufSize cb' = AuCircBufSize cb + k"
proof -
  have "cb_head cb < cb_max cb" "cb_tail cb < cb_max cb" "\<not> cb_full cb"
    using wf k by (auto simp: circ_wf_def AuCircBufSize_def)
  moreover from this wf k have w: "(cb_head cb + k) mod cb_max cb =
      (if cb_head cb + k < cb_max cb then cb_head cb + k else cb_head cb + k - cb_max cb)"
    by (intro wrap_index) (auto simp: AuCircBufSize_def split: if_splits)
  ultimately show ?thesis
    using wf k len unfolding cb' w by (auto simp: circ_wf_def AuCircBufSize_def split: if_splits)
qed

lemma circ_shrink:
  assumes wf: "circ_wf cb" and k: "0 < k" "k \<le> AuCircBufSize cb"
    and cb': "cb' = cb\<lparr>cb_tail := (cb_tail cb + k) mod cb_max cb, cb_full := False\<rparr>"
  shows "circ_wf cb' \<and> AuCircBufSize cb' = AuCircBufSize cb - k \<and>
    circ_list cb' = drop k (circ_list cb)"
proof -
  have 1: "circ_wf cb' \<and> AuCircBufSize cb' = AuCircBufSize cb - k"
  proof -
    have w: "(cb_tail cb + k) mod cb_max cb =
        (if cb_tail cb + k < cb_max cb then cb_tail cb + k else cb_tail cb + k - cb_max cb)"
      using wf k circ_size_le [OF wf] by (intro wrap_index) (auto simp: circ_wf_def)
    show ?thesis
      using wf k unfolding cb' w by (auto simp: circ_wf_def AuCircBufSize_def split: if_splits)
  qed
  moreover have "circ_list cb' = drop k (circ_list cb)"
    using 1 k wf by (simp add: circ_list_def ring_list_drop cb' circ_wf_def)
  ultimately show ?thesis by simp
qed

lemma circ_put_room:
  assumes wf: "circ_wf cb" and room: "AuCircBufSize cb < cb_max cb"
  shows "\<exists>cb'. AuCircBufPut cb d = Some (0, cb') \<and> circ_wf cb' \<and>
    circ_list cb' = circ_list cb @ [d] \<and> cb_max cb' = cb_max cb"
proof -
  have nf: "\<not> cb_full cb" using room circ_full_iff [OF wf] by (simp add: CircBufFull_def)
  let ?b = "(cb_buffer cb)[cb_head cb := d]"
  let ?cb = "AuAdvancePointer (cb\<lparr>cb_buffer := ?b\<rparr>)"
  have eq: "?cb = cb\<lparr>cb_buffer := ?b, cb_head := (cb_head cb + 1) mod cb_max cb,
      cb_full := ((cb_head cb + 1) mod cb_max cb = cb_tail cb)\<rparr>"
    using nf by (simp add: AuAdvancePointer_def Let_def)
  have g: "circ_wf ?cb \<and> AuCircBufSize ?cb = AuCircBufSize cb + 1"
    by (rule circ_grow [OF wf _ _ _ eq]) (use room wf in \<open>auto simp: circ_wf_def\<close>)
  have "circ_list ?cb = ring_list ?b (cb_tail cb) (Suc (AuCircBufSize cb))"
    using g by (simp add: circ_list_def) (simp add: eq)
  also have "\<dots> = circ_list cb @ [d]"
    using ring_list_snoc [of "AuCircBufSize cb" "cb_buffer cb" "cb_tail cb" d] room wf
      circ_head_tail [OF wf] by (simp add: circ_list_def circ_wf_def)
  finally have "circ_list ?cb = circ_list cb @ [d]" .
  with g show ?thesis using nf wf eq
    by (auto simp: AuCircBufPut_def CircBufFull_def circ_wf_def)
qed

lemma circ_get_some:
  assumes wf: "circ_wf cb" and c: "circ_list cb = e # es"
  shows "\<exists>cb'. AuCircBufGet cb = Some (0, Some e, cb') \<and> circ_wf cb' \<and> circ_list cb' = es \<and>
    cb_max cb' = cb_max cb"
proof -
  have n: "AuCircBufSize cb = Suc (length es)" using c by (metis length_Cons length_circ_list)
  have "e = cb_buffer cb ! cb_tail cb"
    using c n wf by (simp add: circ_list_def ring_list_Suc circ_wf_def)
  moreover have "circ_wf (AuRetreatPointer cb) \<and> circ_list (AuRetreatPointer cb) = drop 1 (circ_list cb)"
    using circ_shrink [OF wf, of 1 "AuRetreatPointer cb"] n by (simp add: AuRetreatPointer_def)
  ultimately show ?thesis
    using wf n c circ_empty_iff [OF wf]
    by (auto simp: AuCircBufGet_def circ_wf_def AuRetreatPointer_def)
qed

interpretation cq: bounded_fifo
  "\<lambda>d cb. map_option (\<lambda>(r, cb'). (r = 0, cb')) (AuCircBufPut cb d)"
  "\<lambda>cb. map_option (\<lambda>(r, d, cb'). (d, cb')) (AuCircBufGet cb)"
  circ_list cb_max circ_wf
proof unfold_locales
  fix q e assume "circ_wf q" "length (circ_list q) < cb_max q"
  then show "\<exists>q'. map_option (\<lambda>(r, cb'). (r = 0, cb')) (AuCircBufPut q e) = Some (True, q') \<and>
      circ_wf q' \<and> circ_list q' = circ_list q @ [e] \<and> cb_max q' = cb_max q"
    using circ_put_room [of q e] by auto
next
  fix q e assume "circ_wf q" "\<not> length (circ_list q) < cb_max q"
  then have "CircBufFull q" using circ_full_iff circ_size_le by fastforce
  with \<open>circ_wf q\<close> show "\<exists>q'. map_option (\<lambda>(r, cb'). (r = 0, cb')) (AuCircBufPut q e) =
      Some (False, q') \<and> circ_wf q' \<and> circ_list q' = circ_list q \<and> cb_max q' = cb_max q"
    by (simp add: AuCircBufPut_def)
next
  fix q e es assume "circ_wf q" "circ_list q = e # es"
  then show "\<exists>q'. map_option (\<lambda>(r, d, cb'). (d, cb')) (AuCircBufGet q) = Some (Some e, q') \<and>
      circ_wf q' \<and> circ_list q' = es \<and> cb_max q' = cb_max q"
    using circ_get_some [of q e es] by auto
next
  fix q assume "circ_wf q" "circ_list q = []"
  then have "CircBufEmpty q" using circ_empty_iff by (metis length_circ_list list.size(3))
  with \<open>circ_wf q\<close> \<open>circ_list q = []\<close>
  show "\<exists>q'. map_option (\<lambda>(r, d, cb'). (d, cb')) (AuCircBufGet q) = Some (None, q') \<and>
      circ_wf q' \<and> circ_list q' = [] \<and> cb_max q' = cb_max q"
    by (simp add: AuCircBufGet_def)
next
  fix q assume "circ_wf q"
  then show "length (circ_list q) \<le> cb_max q" by (simp add: circ_size_le)
qed


section \<open>Block transfers\<close>

lemma circ_copy_in_ok:
  assumes h: "h < length buf" and k: "k \<le> length buf" and src: "from + k \<le> length src"
  shows "\<exists>b. circ_copy_in buf h (length buf - h) src from k = Some b \<and> length b = length buf \<and>
    (\<forall>d < k. b ! ((h + d) mod length buf) = src ! (from + d)) \<and>
    (\<forall>j < length buf. (\<forall>d < k. j \<noteq> (h + d) mod length buf) \<longrightarrow> b ! j = buf ! j)"
proof (cases "k > length buf - h")
  case False
  then have "h + k \<le> length buf" using h by linarith
  then obtain b where b: "memcpy_at buf h src from k = Some b"
    using src by (auto simp: memcpy_at_def)
  have "b ! ((h + d) mod length buf) = src ! (from + d)" if "d < k" for d
    using that False h by (simp add: nth_memcpy_at [OF b])
  moreover have "b ! j = buf ! j"
    if j: "j < length buf" "\<forall>d < k. j \<noteq> (h + d) mod length buf" for j
  proof -
    have "\<not> (h \<le> j \<and> j < h + k)"
    proof
      assume "h \<le> j \<and> j < h + k"
      then have "j = (h + (j - h)) mod length buf" "j - h < k" using j(1) by auto
      with j(2) show False by blast
    qed
    then show ?thesis using j(1) by (simp only: nth_memcpy_at [OF b] if_False)
  qed
  ultimately show ?thesis using False b length_memcpy_at [OF b] by (auto simp: circ_copy_in_def)
next
  case True
  let ?run = "length buf - h"
  have "from + ?run \<le> length src" "h + ?run \<le> length buf" using h src True by linarith+
  then obtain b1 where b1: "memcpy_at buf h src from ?run = Some b1"
    unfolding memcpy_at_def by simp
  then have l1: "length b1 = length buf" by (rule length_memcpy_at)
  have "from + ?run + (k - ?run) \<le> length src" "0 + (k - ?run) \<le> length b1"
    using h src True k l1 by linarith+
  then obtain b where b: "memcpy_at b1 0 src (from + ?run) (k - ?run) = Some b"
    unfolding memcpy_at_def by simp
  have nth: "b ! j = (if j < k - ?run then src ! (from + ?run + j)
      else if h \<le> j then src ! (from + (j - h)) else buf ! j)" if "j < length buf" for j
    using that h by (simp add: nth_memcpy_at [OF b] nth_memcpy_at [OF b1] l1)
  have "b ! ((h + d) mod length buf) = src ! (from + d)" if d: "d < k" for d
  proof (cases "h + d < length buf")
    case True
    then show ?thesis using nth [of "h + d"] k h by auto
  next
    case False
    then have "(h + d) mod length buf = h + d - length buf"
      using wrap_index [OF h, of d] d k by auto
    then show ?thesis using nth [of "h + d - length buf"] False d k h by (auto intro!: arg_cong [of _ _ "(!) src"])
  qed
  moreover have "b ! j = buf ! j"
    if j: "j < length buf" "\<forall>d < k. j \<noteq> (h + d) mod length buf" for j
  proof -
    have "\<not> h \<le> j"
    proof
      assume "h \<le> j"
      then have "j = (h + (j - h)) mod length buf" "j - h < k" using j(1) True by auto
      with j(2) show False by blast
    qed
    moreover have "\<not> j < k - ?run"
    proof
      assume a: "j < k - ?run"
      then have "j = (h + (?run + j)) mod length buf" "?run + j < k" using j(1) h by auto
      with j(2) show False by blast
    qed
    ultimately show ?thesis using nth [OF j(1)] by simp
  qed
  ultimately show ?thesis
    using True b b1 l1 length_memcpy_at [OF b] by (auto simp: circ_copy_in_def)
qed

lemma circ_write_step:
  assumes wf: "circ_wf cb" and k: "0 < k" "AuCircBufSize cb + k \<le> cb_max cb"
    and src: "from + k \<le> length src"
  obtains b where
    "circ_copy_in (cb_buffer cb) (cb_head cb) (cb_max cb - cb_head cb) src from k = Some b"
    "let h = (cb_head cb + k) mod cb_max cb;
         cb' = cb\<lparr>cb_buffer := b, cb_head := h, cb_full := (h = cb_tail cb)\<rparr>
     in circ_wf cb' \<and> AuCircBufSize cb' = AuCircBufSize cb + k \<and> cb_max cb' = cb_max cb \<and>
        circ_list cb' = circ_list cb @ take k (drop from src)"
proof -
  have L: "length (cb_buffer cb) = cb_max cb" "cb_head cb < cb_max cb" using wf by (auto simp: circ_wf_def)
  have kmax: "k \<le> cb_max cb" using k by simp
  obtain b where b: "circ_copy_in (cb_buffer cb) (cb_head cb) (cb_max cb - cb_head cb) src from k = Some b"
    "length b = cb_max cb"
    "\<forall>d < k. b ! ((cb_head cb + d) mod cb_max cb) = src ! (from + d)"
    "\<forall>j < cb_max cb. (\<forall>d < k. j \<noteq> (cb_head cb + d) mod cb_max cb) \<longrightarrow> b ! j = cb_buffer cb ! j"
    using circ_copy_in_ok [of "cb_head cb" "cb_buffer cb" k "from" src] L kmax src by auto
  define cb' where "cb' = cb\<lparr>cb_buffer := b, cb_head := (cb_head cb + k) mod cb_max cb,
      cb_full := ((cb_head cb + k) mod cb_max cb = cb_tail cb)\<rparr>"
  have g: "circ_wf cb' \<and> AuCircBufSize cb' = AuCircBufSize cb + k"
    by (rule circ_grow [OF wf k b(2) cb'_def])
  let ?xs = "take k (drop from src)"
  have lx: "length ?xs = k" using src by simp
  have hd: "(cb_tail cb + AuCircBufSize cb + d) mod cb_max cb = (cb_head cb + d) mod cb_max cb" for d
    using circ_head_tail [OF wf] by (simp add: mod_add_left_eq)
  have "ring_list b (cb_tail cb) (AuCircBufSize cb + length ?xs) =
      ring_list (cb_buffer cb) (cb_tail cb) (AuCircBufSize cb) @ ?xs"
    by (rule ring_list_block) (use b L k src lx hd in auto)
  then have "circ_list cb' = circ_list cb @ ?xs"
    using g lx by (simp add: circ_list_def cb'_def)
  with g b(1) that show thesis by (auto simp: Let_def cb'_def)
qed

lemma circ_write_loop_step:
  assumes "written < len" "\<not> CircBufFull cb" "0 < k"
    and k: "k = min (len - written) (cb_max cb - AuCircBufSize cb)"
    and "circ_copy_in (cb_buffer cb) (cb_head cb) (cb_max cb - cb_head cb) src written k = Some b"
  shows "circ_write_loop cb src len written =
    circ_write_loop (cb\<lparr>cb_buffer := b, cb_head := (cb_head cb + k) mod cb_max cb,
        cb_full := ((cb_head cb + k) mod cb_max cb = cb_tail cb)\<rparr>) src len (written + k)"
proof -
  have chunk: "(if cb_max cb - AuCircBufSize cb < len - written
      then cb_max cb - AuCircBufSize cb else len - written) = k" by (simp add: k min_def)
  show ?thesis
    using assms(1-3,5) by (subst circ_write_loop.simps) (simp only: chunk Let_def if_True simp_thms
        option.case neq0_conv [symmetric] if_False)
qed

lemma circ_read_loop_step:
  assumes "got < len" "\<not> CircBufEmpty cb" "0 < k"
    and k: "k = min (len - got) (AuCircBufSize cb)"
    and "circ_copy_out dst got (cb_buffer cb) (cb_tail cb) (cb_max cb - cb_tail cb) k = Some d"
  shows "circ_read_loop cb dst len got =
    circ_read_loop (cb\<lparr>cb_tail := (cb_tail cb + k) mod cb_max cb, cb_full := False\<rparr>)
      d len (got + k)"
proof -
  have chunk: "(if AuCircBufSize cb < len - got then AuCircBufSize cb else len - got) = k"
    by (simp add: k min_def)
  show ?thesis
    using assms(1-3,5) by (subst circ_read_loop.simps) (simp only: chunk Let_def if_True simp_thms
        option.case neq0_conv [symmetric] if_False)
qed

text \<open>
  A block write stores as many leading bytes of the source as fit, in order, behind the
  bytes already in the ring, and reports that number; the wrap-around copy loses and
  reorders nothing.
\<close>

theorem AuCircBufWrite_appends:
  assumes wf: "circ_wf cb" and len: "len \<le> length src"
  shows "\<exists>cb'. AuCircBufWrite cb src len = Some (min len (cb_max cb - AuCircBufSize cb), cb') \<and>
    circ_wf cb' \<and> cb_max cb' = cb_max cb \<and>
    circ_list cb' = circ_list cb @ take (min len (cb_max cb - AuCircBufSize cb)) src"
proof (cases "len = 0 \<or> CircBufFull cb")
  case True
  then show ?thesis using wf circ_full_iff [OF wf]
    by (auto simp: AuCircBufWrite_def circ_write_loop.simps [of cb src len 0])
next
  case False
  let ?k = "min len (cb_max cb - AuCircBufSize cb)"
  have k: "0 < ?k" "AuCircBufSize cb + ?k \<le> cb_max cb" "0 + ?k \<le> length src"
    using False circ_full_iff [OF wf] circ_size_le [OF wf] len by auto
  obtain b where b: "circ_copy_in (cb_buffer cb) (cb_head cb) (cb_max cb - cb_head cb) src 0 ?k = Some b"
    "let h = (cb_head cb + ?k) mod cb_max cb;
         cb' = cb\<lparr>cb_buffer := b, cb_head := h, cb_full := (h = cb_tail cb)\<rparr>
     in circ_wf cb' \<and> AuCircBufSize cb' = AuCircBufSize cb + ?k \<and> cb_max cb' = cb_max cb \<and>
        circ_list cb' = circ_list cb @ take ?k (drop 0 src)"
    using circ_write_step [OF wf k] by blast
  define cb' where "cb' = cb\<lparr>cb_buffer := b, cb_head := (cb_head cb + ?k) mod cb_max cb,
      cb_full := ((cb_head cb + ?k) mod cb_max cb = cb_tail cb)\<rparr>"
  have c: "circ_wf cb'" "AuCircBufSize cb' = AuCircBufSize cb + ?k" "cb_max cb' = cb_max cb"
    "circ_list cb' = circ_list cb @ take ?k src"
    using b(2) by (simp_all add: Let_def cb'_def)
  have "AuCircBufWrite cb src len = circ_write_loop cb' src len (0 + ?k)"
    unfolding AuCircBufWrite_def cb'_def
    by (rule circ_write_loop_step) (use False k(1) b(1) in auto)
  also have "\<dots> = Some (?k, cb')"
    using circ_full_iff [OF c(1)] c(2,3)
    by (subst circ_write_loop.simps) (auto simp: min_def split: if_splits)
  finally show ?thesis using c by auto
qed


lemma ring_list_take:
  "t + k \<le> length buf \<Longrightarrow> ring_list buf t k = take k (drop t buf)"
  by (rule nth_equalityI) (auto simp: nth_ring_list)

lemma ring_list_wrap:
  "t < length buf \<Longrightarrow> length buf - t < k \<Longrightarrow> k \<le> length buf \<Longrightarrow>
   ring_list buf t k = drop t buf @ take (k - (length buf - t)) buf"
  by (rule nth_equalityI) (auto simp: nth_ring_list nth_append wrap_index intro: arg_cong [of _ _ "(!) buf"])

lemma circ_copy_out_ok:
  assumes t: "t < length buf" and k: "k \<le> length buf" and dst: "got + k \<le> length dst"
  shows "circ_copy_out dst got buf t (length buf - t) k =
    Some (take got dst @ ring_list buf t k @ drop (got + k) dst)"
proof (cases "k > length buf - t")
  case False
  then show ?thesis using t dst
    by (simp add: circ_copy_out_def memcpy_at_def ring_list_take)
next
  case True
  have l: "length (take got dst) = got" using dst by simp
  have "k + t - length buf \<le> length buf" using k t by linarith
  obtain r where r: "r = length buf - t" "0 < r" "r < k" using True t by auto
  have "circ_copy_out dst got buf t r k =
      memcpy_at (take got dst @ drop t buf @ drop (got + r) dst) (got + r) buf 0 (k - r)"
    using r(2,3) t dst unfolding r(1) by (simp add: circ_copy_out_def memcpy_at_def)
  also have "\<dots> = Some (take got dst @ (drop t buf @ take (k - r) buf) @ drop (got + k) dst)"
    using r l dst k t \<open>k + t - length buf \<le> length buf\<close> by (simp add: memcpy_at_def add.commute)
  finally show ?thesis using ring_list_wrap [OF t True k] r by simp
qed

text \<open>
  A block read delivers the oldest bytes of the ring in order, as many as are asked for
  and present, leaves the rest of the destination alone and removes exactly what it
  delivered.
\<close>

theorem AuCircBufRead_takes:
  assumes wf: "circ_wf cb" and len: "len \<le> length dst"
  shows "\<exists>cb'. AuCircBufRead cb dst len =
      Some (min len (AuCircBufSize cb),
            take (min len (AuCircBufSize cb)) (circ_list cb) @
              drop (min len (AuCircBufSize cb)) dst, cb') \<and>
    circ_wf cb' \<and> cb_max cb' = cb_max cb \<and>
    circ_list cb' = drop (min len (AuCircBufSize cb)) (circ_list cb)"
proof (cases "len = 0 \<or> CircBufEmpty cb")
  case True
  then have "AuCircBufRead cb dst len = Some (0, dst, cb)"
    by (auto simp: AuCircBufRead_def circ_read_loop.simps [of cb dst len 0])
  moreover have "min len (AuCircBufSize cb) = 0" using True circ_empty_iff [OF wf] by auto
  ultimately show ?thesis using wf by simp
next
  case False
  let ?k = "min len (AuCircBufSize cb)"
  have k: "0 < ?k" "?k \<le> AuCircBufSize cb" "0 + ?k \<le> length dst" "?k \<le> length (cb_buffer cb)"
    using False circ_empty_iff [OF wf] circ_size_le [OF wf] len wf by (auto simp: circ_wf_def)
  have L: "length (cb_buffer cb) = cb_max cb" "cb_tail cb < length (cb_buffer cb)"
    using wf by (auto simp: circ_wf_def)
  let ?d = "ring_list (cb_buffer cb) (cb_tail cb) ?k @ drop ?k dst"
  define cb' where "cb' = cb\<lparr>cb_tail := (cb_tail cb + ?k) mod cb_max cb, cb_full := False\<rparr>"
  have c: "circ_wf cb'" "AuCircBufSize cb' = AuCircBufSize cb - ?k"
    "circ_list cb' = drop ?k (circ_list cb)"
    using circ_shrink [OF wf k(1,2) cb'_def] by auto
  have out: "circ_copy_out dst 0 (cb_buffer cb) (cb_tail cb) (cb_max cb - cb_tail cb) ?k = Some ?d"
    using circ_copy_out_ok [OF L(2) k(4) k(3)] L(1) by simp
  have "AuCircBufRead cb dst len = circ_read_loop cb' ?d len (0 + ?k)"
    unfolding AuCircBufRead_def cb'_def
    by (rule circ_read_loop_step) (use False k(1) out in auto)
  also have "\<dots> = Some (?k, ?d, cb')"
    using circ_empty_iff [OF c(1)] c(2)
    by (subst circ_read_loop.simps) (auto simp: min_def split: if_splits)
  finally have "AuCircBufRead cb dst len = Some (?k, ?d, cb')" .
  moreover have "ring_list (cb_buffer cb) (cb_tail cb) ?k = take ?k (circ_list cb)"
    using k(2) by (intro nth_equalityI) (auto simp: circ_list_def nth_ring_list)
  ultimately show ?thesis using c by (auto simp: cb'_def)
qed

text \<open>The unconditional store drops the oldest byte of a full ring.\<close>

lemma AuCircBufPutData_ok:
  assumes wf: "circ_wf cb"
  shows "\<exists>cb'. AuCircBufPutData cb d = Some cb' \<and> circ_wf cb' \<and> cb_max cb' = cb_max cb \<and>
    circ_list cb' = (if CircBufFull cb then tl (circ_list cb) else circ_list cb) @ [d]"
proof (cases "CircBufFull cb")
  case False
  then have "AuCircBufPutData cb d = map_option snd (AuCircBufPut cb d)"
    by (simp add: AuCircBufPutData_def AuCircBufPut_def)
  moreover have "AuCircBufSize cb < cb_max cb"
    using False circ_full_iff [OF wf] circ_size_le [OF wf] by simp
  ultimately show ?thesis using circ_put_room [OF wf] False by fastforce
next
  case True
  then have f: "cb_full cb" "cb_head cb = cb_tail cb" "AuCircBufSize cb = cb_max cb"
    "length (cb_buffer cb) = cb_max cb" "cb_tail cb < cb_max cb"
    using wf circ_full_iff [OF wf] by (auto simp: CircBufFull_def circ_wf_def)
  define cb' where "cb' = cb\<lparr>cb_buffer := (cb_buffer cb)[cb_tail cb := d],
      cb_tail := (cb_tail cb + 1) mod cb_max cb, cb_head := (cb_tail cb + 1) mod cb_max cb\<rparr>"
  have eq: "AuCircBufPutData cb d = Some cb'"
    using f by (simp add: AuCircBufPutData_def AuAdvancePointer_def Let_def cb'_def)
  have w: "circ_wf cb'" "AuCircBufSize cb' = cb_max cb" "cb_max cb' = cb_max cb"
    using f by (auto simp: cb'_def circ_wf_def AuCircBufSize_def)
  have "cb_buffer cb \<noteq> []" using f by auto
  then have "circ_list cb' = tl (circ_list cb) @ [d]"
    using ring_list_overwrite [of "cb_buffer cb" "cb_tail cb" d] w(2) f
    by (simp add: circ_list_def) (simp add: cb'_def)
  with w True eq show ?thesis by simp
qed

section \<open>The ring is a bounded queue\<close>

text \<open>The operations of the ring and their answers; a read says how much room its target has.\<close>

datatype circ_cmd = CPut u8 | CGet | CPutData u8 | CWrite "u8 list" | CRead "u8 list" nat | CSize | CReset

datatype circ_answer = Ret int | Byte int "u8 option" | Written nat | Delivered nat "u8 list" | Count nat | Nothing

fun circ_exec :: "circ_cmd \<Rightarrow> CircBuffer \<Rightarrow> (circ_answer \<times> CircBuffer) option" where
  "circ_exec (CPut d) cb = map_option (\<lambda>(r, cb). (Ret r, cb)) (AuCircBufPut cb d)"
| "circ_exec CGet cb = map_option (\<lambda>(r, d, cb). (Byte r d, cb)) (AuCircBufGet cb)"
| "circ_exec (CPutData d) cb = map_option (\<lambda>cb. (Nothing, cb)) (AuCircBufPutData cb d)"
| "circ_exec (CWrite src) cb = map_option (\<lambda>(n, cb). (Written n, cb)) (AuCircBufWrite cb src (length src))"
| "circ_exec (CRead dst n) cb = map_option (\<lambda>(n, d, cb). (Delivered n d, cb)) (AuCircBufRead cb dst n)"
| "circ_exec CSize cb = Some (Count (AuCircBufSize cb), cb)"
| "circ_exec CReset cb = Some (Nothing, AuCircBufReset cb)"

text \<open>The same on a list of at most \<open>n\<close> bytes.\<close>

fun queue_exec :: "nat \<Rightarrow> circ_cmd \<Rightarrow> u8 list \<Rightarrow> circ_answer \<times> u8 list" where
  "queue_exec n (CPut d) xs = (case queue_put n d xs of (ok, ys) \<Rightarrow> (Ret (if ok then 0 else -1), ys))"
| "queue_exec n CGet xs = (case queue_get xs of (d, ys) \<Rightarrow> (Byte (if d = None then -1 else 0) d, ys))"
| "queue_exec n (CPutData d) xs = (Nothing, (if length xs < n then xs else tl xs) @ [d])"
| "queue_exec n (CWrite src) xs = (let k = min (length src) (n - length xs) in (Written k, xs @ take k src))"
| "queue_exec n (CRead dst m) xs =
     (let k = min m (length xs) in (Delivered k (take k xs @ drop k dst), drop k xs))"
| "queue_exec n CSize xs = (Count (length xs), xs)"
| "queue_exec n CReset xs = (Nothing, [])"

fun circ_run :: "circ_cmd list \<Rightarrow> CircBuffer \<Rightarrow> (circ_answer list \<times> CircBuffer) option" where
  "circ_run [] cb = Some ([], cb)"
| "circ_run (c # cs) cb = (case circ_exec c cb of None \<Rightarrow> None
     | Some (r, cb) \<Rightarrow> map_option (\<lambda>(rs, cb). (r # rs, cb)) (circ_run cs cb))"

fun queue_run :: "nat \<Rightarrow> circ_cmd list \<Rightarrow> u8 list \<Rightarrow> circ_answer list \<times> u8 list" where
  "queue_run n [] xs = ([], xs)"
| "queue_run n (c # cs) xs =
     (let (r, ys) = queue_exec n c xs; (rs, zs) = queue_run n cs ys in (r # rs, zs))"

text \<open>A read stays inside its target.\<close>

fun circ_cmd_ok :: "circ_cmd \<Rightarrow> bool" where
  "circ_cmd_ok (CRead dst n) \<longleftrightarrow> n \<le> length dst"
| "circ_cmd_ok _ \<longleftrightarrow> True"

lemma circ_put_ret: "AuCircBufPut cb d = Some (r, cb') \<Longrightarrow> r = 0 \<or> r = -1"
  by (auto simp: AuCircBufPut_def split: if_splits)

lemma circ_get_ret: "AuCircBufGet cb = Some (r, d, cb') \<Longrightarrow> r = (if d = None then -1 else 0)"
  by (auto simp: AuCircBufGet_def split: if_splits)

lemma circ_exec_refines:
  assumes wf: "circ_wf cb" and ok: "circ_cmd_ok c"
  shows "\<exists>cb'. circ_exec c cb = Some (fst (queue_exec (cb_max cb) c (circ_list cb)), cb') \<and> circ_wf cb' \<and>
    cb_max cb' = cb_max cb \<and> circ_list cb' = snd (queue_exec (cb_max cb) c (circ_list cb))"
proof (cases c)
  case (CPut d)
  then show ?thesis
    using cq.put_answer [OF wf, of d] by (auto split: prod.splits dest: circ_put_ret)
next
  case CGet
  then show ?thesis
    using cq.get_answer [OF wf] circ_get_ret [of cb] by (auto split: prod.splits)
next
  case (CPutData d)
  then show ?thesis
    using AuCircBufPutData_ok [OF wf, of d] circ_full_iff [OF wf] circ_size_le [OF wf] by fastforce
next
  case (CWrite src)
  then show ?thesis
    using AuCircBufWrite_appends [OF wf, of "length src" src] by (auto simp: Let_def)
next
  case (CRead dst n)
  then show ?thesis
    using AuCircBufRead_takes [OF wf, of n dst] ok by (auto simp: Let_def)
next
  case CSize
  then show ?thesis using wf by simp
next
  case CReset
  then show ?thesis
    using wf by (auto simp: AuCircBufReset_def circ_wf_def circ_list_def AuCircBufSize_def)
qed

lemma circ_run_refines:
  "circ_wf cb \<Longrightarrow> \<forall>c \<in> set cs. circ_cmd_ok c \<Longrightarrow>
   \<exists>cb'. circ_run cs cb = Some (fst (queue_run (cb_max cb) cs (circ_list cb)), cb') \<and>
     circ_list cb' = snd (queue_run (cb_max cb) cs (circ_list cb)) \<and> circ_wf cb'"
proof (induction cs arbitrary: cb)
  case Nil
  then show ?case by simp
next
  case (Cons c cs)
  obtain cb1 where c1: "circ_exec c cb = Some (fst (queue_exec (cb_max cb) c (circ_list cb)), cb1)" "circ_wf cb1"
    "cb_max cb1 = cb_max cb" "circ_list cb1 = snd (queue_exec (cb_max cb) c (circ_list cb))"
    using circ_exec_refines [OF Cons.prems(1), of c] Cons.prems(2) by auto
  then show ?case
    using Cons.IH [OF c1(2)] Cons.prems(2) by (auto simp: case_prod_unfold Let_def)
qed

text \<open>
  C31. A new ring behaves as a bounded queue of \<open>sz\<close> bytes: in any sequence of single stores and
  reads, unconditional stores, block writes and reads, size queries and resets each call gives
  the answer that the queue gives. A store is refused exactly when \<open>sz\<close> bytes wait; a read gets
  the oldest byte and fails exactly when none waits; an unconditional store into a full ring
  drops the oldest byte; blocks are cut to what fits or waits. No call leaves the array.
\<close>

theorem AuCircBuf_fifo:
  assumes "AuCircBufInitialise a buf sz = Some cb" "0 < sz" "length buf = sz" "\<forall>c \<in> set cmds. circ_cmd_ok c"
  shows "\<exists>cb'. circ_run cmds cb = Some (fst (queue_run sz cmds []), cb') \<and>
    circ_list cb' = snd (queue_run sz cmds []) \<and> circ_wf cb'"
  using circ_run_refines [of cb cmds] circ_init [OF assms(1-3)] assms(4) by auto

theorem AuCircBufWrite_appends_witness:
  "\<exists>cb'. AuCircBufWrite \<lparr>cb_buffer = [7, 8, 9], cb_head = 2, cb_tail = 1, cb_max = 3, cb_full = False\<rparr>
      [1, 2, 3] 3 = Some (2, cb') \<and> circ_list cb' = [8, 1, 2]"
  using AuCircBufWrite_appends [of "\<lparr>cb_buffer = [7, 8, 9], cb_head = 2, cb_tail = 1, cb_max = 3,
      cb_full = False\<rparr>" 3 "[1, 2, 3]"]
  by (auto simp: circ_wf_def AuCircBufSize_def circ_list_def ring_list_def)

theorem AuCircBufRead_takes_witness:
  "\<exists>cb'. AuCircBufRead \<lparr>cb_buffer = [7, 8, 9], cb_head = 1, cb_tail = 2, cb_max = 3, cb_full = False\<rparr>
      [0, 0, 0] 3 = Some (2, [9, 7, 0], cb') \<and> circ_list cb' = []"
proof -
  let ?cb = "\<lparr>cb_buffer = [7, 8, 9], cb_head = 1, cb_tail = 2, cb_max = 3, cb_full = False\<rparr>"
  have "circ_wf ?cb" "AuCircBufSize ?cb = 2" "circ_list ?cb = [9, 7]"
    by (simp_all add: circ_wf_def AuCircBufSize_def circ_list_def ring_list_def upt_conv_Cons)
  then show ?thesis using AuCircBufRead_takes [of ?cb 3 "[0, 0, 0]"] by auto
qed

theorem AuCircBuf_fifo_witness:
  "map_option fst (circ_run [CPut 1, CWrite [2, 3], CPut 4, CGet, CRead [0, 0] 2, CGet]
      \<lparr>cb_buffer = [0, 0], cb_head = 0, cb_tail = 0, cb_max = 2, cb_full = False\<rparr>) =
    Some [Ret 0, Written 1, Ret (-1), Byte 0 (Some 1), Delivered 1 [2, 0], Byte (-1) None]"
proof -
  let ?cb = "\<lparr>cb_buffer = [0, 0], cb_head = 0, cb_tail = 0, cb_max = 2, cb_full = False\<rparr>"
  let ?cmds = "[CPut 1, CWrite [2, 3], CPut 4, CGet, CRead [0, 0] 2, CGet]"
  have "AuCircBufInitialise 8 [0, 0] 2 = Some ?cb" "\<forall>c \<in> set ?cmds. circ_cmd_ok c"
    by (simp_all add: AuCircBufInitialise_def AuCircBufReset_def)
  then obtain cb' where "circ_run ?cmds ?cb = Some (fst (queue_run 2 ?cmds []), cb')"
    using AuCircBuf_fifo [of 8 "[0, 0]" 2 ?cb ?cmds] by auto
  then show ?thesis by (simp add: queue_put_def queue_get_def)
qed

end
