(* ===== verification/Process.thy ===== *)
theory Process
  imports Prelude
begin

text \<open>
  The part of a process that the security components work on (BaseHdr/process.h): its
  credentials, its capability table, its file descriptors; and the look-ups of
  KernelAA64/process.c. A process is named by its position in the list that starts at
  \<open>proc_first\<close>, a file node by its address, 0 for the null pointer.
\<close>

definition FILE_DESC_PER_PROCESS :: nat where "FILE_DESC_PER_PROCESS = 60"

definition AURORA_MAX_GROUPS :: nat where "AURORA_MAX_GROUPS = 12"

record AuCapability =
  cap_object :: nat
  cap_object_type :: u8
  cap_rights :: u32
  cap_owner :: int
  cap_flags :: u16
  cap_valid :: bool

record AuProcCredentials =
  cr_caps :: u8
  cr_uid :: int
  cr_gid :: int
  cr_sgid :: "int list"
  cr_num_sgid :: nat

record AuProcess =
  proc_id :: int
  main_thread :: nat
  creds :: AuProcCredentials
  proc_caps :: "AuCapability list"
  proc_fds :: "nat list"

record AuVFSNode =
  vn_filename :: string
  vn_flags :: u16
  vn_uid :: int
  vn_gid :: int
  vn_device :: nat
  vn_copies :: u16

text \<open>\<open>proc_slot\<close> is the \<open>procSlot\<close> pointer of a thread.\<close>

record proc_table =
  procs :: "AuProcess list"
  proc_slot :: "nat \<Rightarrow> nat option"

definition AuProcessFindPID :: "proc_table \<Rightarrow> int \<Rightarrow> nat option" where
  "AuProcessFindPID t pid = first_index (\<lambda>p. proc_id p = pid) (procs t)"

definition AuProcessFindThread :: "proc_table \<Rightarrow> nat \<Rightarrow> nat option" where
  "AuProcessFindThread t thr = first_index (\<lambda>p. main_thread p = thr) (procs t)"

definition AuProcessFindSubThread :: "proc_table \<Rightarrow> nat \<Rightarrow> nat option" where
  "AuProcessFindSubThread t thr = proc_slot t thr"

text \<open>The caller's process: a secondary thread is not its process's main thread.\<close>

definition calling_process :: "proc_table \<Rightarrow> nat \<Rightarrow> nat option" where
  "calling_process t thr =
     (case AuProcessFindThread t thr of Some i \<Rightarrow> Some i | None \<Rightarrow> AuProcessFindSubThread t thr)"

text \<open>Descriptors 0 to 2 are the terminal's; the scan ends three slots before the table does.\<close>

definition AuProcessGetFileDesc :: "AuProcess \<Rightarrow> int" where
  "AuProcessGetFileDesc p =
     (case first_index (\<lambda>f. f = 0) (drop 3 (take (FILE_DESC_PER_PROCESS - 3) (proc_fds p))) of
        Some i \<Rightarrow> 3 + int i | None \<Rightarrow> -1)"

section \<open>Well-formedness\<close>

definition cred_wf :: "AuProcCredentials \<Rightarrow> bool" where
  "cred_wf c \<longleftrightarrow> length (cr_sgid c) = AURORA_MAX_GROUPS \<and> cr_num_sgid c \<le> AURORA_MAX_GROUPS"

definition proc_wf :: "AuProcess \<Rightarrow> bool" where
  "proc_wf p \<longleftrightarrow> length (proc_caps p) = FILE_DESC_PER_PROCESS \<and>
     length (proc_fds p) = FILE_DESC_PER_PROCESS \<and> cred_wf (creds p)"

definition table_wf :: "proc_table \<Rightarrow> bool" where
  "table_wf t \<longleftrightarrow> (\<forall>p \<in> set (procs t). proc_wf p) \<and>
     (\<forall>thr i. proc_slot t thr = Some i \<longrightarrow> i < length (procs t))"

lemma find_pid_lt: "AuProcessFindPID t pid = Some i \<Longrightarrow> i < length (procs t)"
  by (simp add: AuProcessFindPID_def first_index_lt)

lemma calling_process_lt:
  "table_wf t \<Longrightarrow> calling_process t thr = Some i \<Longrightarrow> i < length (procs t)"
  by (auto simp: calling_process_def AuProcessFindThread_def AuProcessFindSubThread_def table_wf_def
      dest: first_index_lt split: option.splits)

lemma table_wf_nth: "table_wf t \<Longrightarrow> i < length (procs t) \<Longrightarrow> proc_wf (procs t ! i)"
  by (simp add: table_wf_def)

text \<open>A descriptor that is handed out is free and is none of the terminal's.\<close>

lemma AuProcessGetFileDesc_free:
  assumes "proc_wf p" "AuProcessGetFileDesc p = fd" "fd \<noteq> -1"
  shows "3 \<le> fd \<and> fd < int FILE_DESC_PER_PROCESS - 3 \<and> proc_fds p ! nat fd = 0"
proof -
  from assms obtain i where i: "first_index (\<lambda>f. f = 0)
      (drop 3 (take (FILE_DESC_PER_PROCESS - 3) (proc_fds p))) = Some i" "fd = 3 + int i"
    by (auto simp: AuProcessGetFileDesc_def split: option.splits)
  with assms(1) show ?thesis
    by (auto simp: first_index_Some proc_wf_def FILE_DESC_PER_PROCESS_def nat_add_distrib)
qed

end
