(* ===== verification/Capability.thy ===== *)
theory Capability
  imports Process
begin

text \<open>
  The per-process capability tables (KernelAA64/Cap/capability.c). A capability names an
  object and the rights its holder has on it; tables are indexed by file descriptor. The
  operations run with interrupts masked, so each is one step. The call
  \<open>AuHwdevCapReleased\<close> into the hardware-handle driver is recorded as the list of
  capabilities it was called for.
\<close>

definition CAP_FILE_RIGHTS_MASK :: u32 where "CAP_FILE_RIGHTS_MASK = 0x7B"
definition CAP_HW_RIGHTS_MASK :: u32 where "CAP_HW_RIGHTS_MASK = 0x780"
definition CAP_OBJ_FILE :: u8 where "CAP_OBJ_FILE = 1"
definition CAP_OBJ_PCIDEV :: u8 where "CAP_OBJ_PCIDEV = 2"
definition CAP_FLAG_NO_INHERIT :: u16 where "CAP_FLAG_NO_INHERIT = 1"
definition FS_FLAG_PIPE :: u16 where "FS_FLAG_PIPE = 0x80"

lemmas cap_consts = CAP_FILE_RIGHTS_MASK_def CAP_HW_RIGHTS_MASK_def CAP_OBJ_FILE_def
  CAP_OBJ_PCIDEV_def CAP_FLAG_NO_INHERIT_def FS_FLAG_PIPE_def

section \<open>Operations\<close>

definition cap_slot_in_range :: "int \<Rightarrow> bool" where
  "cap_slot_in_range rq \<longleftrightarrow> rq \<ge> 0 \<and> rq < int FILE_DESC_PER_PROCESS"

text \<open>The slot is an index into the table; the null process is not modelled.\<close>

definition cap_slot :: "int \<Rightarrow> nat option" where
  "cap_slot fd = (if cap_slot_in_range fd then Some (nat fd) else None)"

definition cleared_cap :: AuCapability where
  "cleared_cap = \<lparr>cap_object = 0, cap_object_type = 0, cap_rights = 0, cap_owner = 0,
     cap_flags = 0, cap_valid = False\<rparr>"

definition minted_rights :: "u8 \<Rightarrow> u32 \<Rightarrow> u32" where
  "minted_rights ty rights =
     (if ty = CAP_OBJ_FILE then rights AND CAP_FILE_RIGHTS_MASK
      else if ty = CAP_OBJ_PCIDEV then rights AND CAP_HW_RIGHTS_MASK
      else 0)"

definition BordoisilaCapCreate ::
    "AuProcess \<Rightarrow> int \<Rightarrow> nat \<Rightarrow> u8 \<Rightarrow> u32 \<Rightarrow> int \<times> AuProcess" where
  "BordoisilaCapCreate p fd object ty rights =
     (case cap_slot fd of None \<Rightarrow> (-1, p)
      | Some i \<Rightarrow>
          if object = 0 then (-1, p)
          else (0, p\<lparr>proc_caps := (proc_caps p)[i :=
             \<lparr>cap_object = object, cap_object_type = ty, cap_rights = minted_rights ty rights,
              cap_owner = cr_uid (creds p),
              cap_flags = (if ty = CAP_OBJ_PCIDEV then CAP_FLAG_NO_INHERIT else 0),
              cap_valid = True\<rparr>]\<rparr>))"

definition BordoisilaCapLookup :: "AuProcess \<Rightarrow> int \<Rightarrow> nat option" where
  "BordoisilaCapLookup p fd =
     (case cap_slot fd of None \<Rightarrow> None
      | Some i \<Rightarrow> if \<not> cap_valid (proc_caps p ! i) then None else Some i)"

definition BordoisilaCapCheckRights :: "AuProcess \<Rightarrow> int \<Rightarrow> u32 \<Rightarrow> bool" where
  "BordoisilaCapCheckRights p fd required =
     (case BordoisilaCapLookup p fd of None \<Rightarrow> False
      | Some i \<Rightarrow> cap_rights (proc_caps p ! i) AND required = required)"

text \<open>File nodes and pipes are shared: a store of nodes and one of pipe reference counts.\<close>

record file_store =
  nodes :: "nat \<rightharpoonup> AuVFSNode"
  pipe_refs :: "nat \<rightharpoonup> u64"

text \<open>
  The descriptor now shares the node at \<open>a\<close>: the node counts one more copy and its pipe one
  more reference. \<open>None\<close> is a fault: a descriptor or a pipe device that points to nothing.
\<close>

definition dup_share :: "file_store \<Rightarrow> nat \<Rightarrow> file_store option" where
  "dup_share fs a =
     (if a = 0 then Some fs
      else (case nodes fs a of None \<Rightarrow> None
            | Some n \<Rightarrow>
                let fs1 = fs\<lparr>nodes := (nodes fs)(a \<mapsto> n\<lparr>vn_copies := vn_copies n + 1\<rparr>)\<rparr> in
                if vn_flags n AND FS_FLAG_PIPE \<noteq> 0 \<and> vn_device n \<noteq> 0
                then (case pipe_refs fs1 (vn_device n) of None \<Rightarrow> None
                      | Some r \<Rightarrow> Some (fs1\<lparr>pipe_refs := (pipe_refs fs1)(vn_device n \<mapsto> r + 1)\<rparr>))
                else Some fs1))"

definition BordoisilaCapDup ::
    "AuProcess \<Rightarrow> file_store \<Rightarrow> int \<Rightarrow> int \<Rightarrow> (int \<times> AuProcess \<times> file_store) option" where
  "BordoisilaCapDup p fs oldfd newfd =
     (case BordoisilaCapLookup p oldfd of None \<Rightarrow> Some (-1, p, fs)
      | Some i \<Rightarrow>
          (case cap_slot newfd of None \<Rightarrow> Some (-1, p, fs)
           | Some j \<Rightarrow>
               if cap_valid (proc_caps p ! j) then Some (-1, p, fs)
               else if proc_fds p ! j \<noteq> 0 then Some (-1, p, fs)
               else map_option (\<lambda>fs'. (0,
                      p\<lparr>proc_fds := (proc_fds p)[j := proc_fds p ! i],
                        proc_caps := (proc_caps p)[j := (proc_caps p ! i)\<lparr>cap_valid := True\<rparr>]\<rparr>,
                      fs'))
                    (dup_share fs (proc_fds p ! i))))"

definition BordoisilaCapRestrict :: "AuProcess \<Rightarrow> int \<Rightarrow> u32 \<Rightarrow> int \<times> AuProcess" where
  "BordoisilaCapRestrict p fd new_rights =
     (case BordoisilaCapLookup p fd of None \<Rightarrow> (-1, p)
      | Some i \<Rightarrow> (0, p\<lparr>proc_caps := (proc_caps p)[i := (proc_caps p ! i)
           \<lparr>cap_rights := cap_rights (proc_caps p ! i) AND new_rights\<rparr>]\<rparr>))"

text \<open>The list returned is the calls to \<open>AuHwdevCapReleased\<close>.\<close>

definition BordoisilaCapDestroy :: "AuProcess \<Rightarrow> int \<Rightarrow> AuProcess \<times> AuCapability list" where
  "BordoisilaCapDestroy p fd =
     (case cap_slot fd of None \<Rightarrow> (p, [])
      | Some i \<Rightarrow>
          if \<not> cap_valid (proc_caps p ! i) then (p, [])
          else (p\<lparr>proc_caps := (proc_caps p)[i := cleared_cap]\<rparr>,
                if cap_object_type (proc_caps p ! i) = CAP_OBJ_PCIDEV
                then [proc_caps p ! i] else []))"

fun cleanup_caps :: "AuCapability list \<Rightarrow> AuCapability list \<times> AuCapability list" where
  "cleanup_caps [] = ([], [])"
| "cleanup_caps (c # cs) =
     (let (cs', rel) = cleanup_caps cs in
      if cap_valid c
      then (cleared_cap # cs', if cap_object_type c = CAP_OBJ_PCIDEV then c # rel else rel)
      else (c # cs', rel))"

definition BordoisilaCapCleanupProcess :: "AuProcess \<Rightarrow> AuProcess \<times> AuCapability list" where
  "BordoisilaCapCleanupProcess p =
     (let (cs, rel) = cleanup_caps (proc_caps p) in (p\<lparr>proc_caps := cs\<rparr>, rel))"

definition inherit_slot :: "AuProcess \<Rightarrow> AuProcess \<Rightarrow> nat \<Rightarrow> AuCapability" where
  "inherit_slot parent child i =
     (let src = proc_caps parent ! i in
      if \<not> cap_valid src then proc_caps child ! i
      else if cap_flags src AND CAP_FLAG_NO_INHERIT \<noteq> 0 then proc_caps child ! i
      else if proc_fds child ! i = 0 then proc_caps child ! i
      else src\<lparr>cap_owner := cr_uid (creds child), cap_valid := True\<rparr>)"

definition BordoisilaCapInheritTable :: "AuProcess \<Rightarrow> AuProcess \<Rightarrow> AuProcess" where
  "BordoisilaCapInheritTable parent child =
     child\<lparr>proc_caps := map (inherit_slot parent child) [0..<FILE_DESC_PER_PROCESS]\<rparr>"

section \<open>Invariant\<close>

text \<open>
  What the rights of a capability may be by the type of its object, and that a hardware
  handle is never inherited.
\<close>

definition cap_ok :: "AuCapability \<Rightarrow> bool" where
  "cap_ok c \<longleftrightarrow> (cap_valid c \<longrightarrow>
     minted_rights (cap_object_type c) (cap_rights c) = cap_rights c \<and> cap_object c \<noteq> 0 \<and>
     (cap_object_type c = CAP_OBJ_PCIDEV \<longrightarrow> cap_flags c AND CAP_FLAG_NO_INHERIT \<noteq> 0))"

definition caps_ok :: "AuProcess \<Rightarrow> bool" where
  "caps_ok p \<longleftrightarrow> (\<forall>c \<in> set (proc_caps p). cap_ok c)"

lemma minted_idem: "minted_rights ty (minted_rights ty r) = minted_rights ty r"
  by (simp add: minted_rights_def and.assoc)

lemma minted_subset: "minted_rights ty r = r \<Longrightarrow> minted_rights ty (r AND m) = r AND m"
  unfolding minted_rights_def
  by (metis (no_types, opaque_lifting) and.commute and.left_commute and_zero_eq)

lemma cap_slot_Some: "cap_slot fd = Some i \<longleftrightarrow> 0 \<le> fd \<and> i = nat fd \<and> i < FILE_DESC_PER_PROCESS"
  by (auto simp: cap_slot_def cap_slot_in_range_def)

lemma lookup_Some:
  "BordoisilaCapLookup p fd = Some i \<longleftrightarrow>
     0 \<le> fd \<and> i = nat fd \<and> i < FILE_DESC_PER_PROCESS \<and> cap_valid (proc_caps p ! i)"
  by (auto simp: BordoisilaCapLookup_def cap_slot_Some split: option.splits)
    (auto simp: cap_slot_def cap_slot_in_range_def split: if_splits)

lemma cap_ok_cleared [simp]: "cap_ok cleared_cap"
  by (simp add: cap_ok_def cleared_cap_def)

lemma caps_ok_update:
  "caps_ok p \<Longrightarrow> cap_ok c \<Longrightarrow> caps_ok (p\<lparr>proc_caps := (proc_caps p)[i := c]\<rparr>)"
  by (auto simp: caps_ok_def dest: in_set_updateD)

lemma caps_ok_nth: "caps_ok p \<Longrightarrow> proc_wf p \<Longrightarrow> i < FILE_DESC_PER_PROCESS \<Longrightarrow> cap_ok (proc_caps p ! i)"
  by (simp add: caps_ok_def proc_wf_def)

lemma cleanup_caps_fst: "fst (cleanup_caps cs) = map (\<lambda>c. if cap_valid c then cleared_cap else c) cs"
  by (induction cs) (auto simp: Let_def split: prod.splits)

lemma cleanup_caps_snd:
  "snd (cleanup_caps cs) = filter (\<lambda>c. cap_valid c \<and> cap_object_type c = CAP_OBJ_PCIDEV) cs"
  by (induction cs) (auto simp: Let_def split: prod.splits)

lemma caps_ok_create: "caps_ok p \<Longrightarrow> caps_ok (snd (BordoisilaCapCreate p fd ob ty r))"
  by (auto simp: BordoisilaCapCreate_def caps_ok_update cap_ok_def minted_idem CAP_FLAG_NO_INHERIT_def
      split: option.splits)

lemma caps_ok_restrict:
  "caps_ok p \<Longrightarrow> proc_wf p \<Longrightarrow> caps_ok (snd (BordoisilaCapRestrict p fd r))"
  using caps_ok_nth [of p]
  by (auto simp: BordoisilaCapRestrict_def cap_ok_def minted_subset lookup_Some
      intro!: caps_ok_update split: option.splits)

lemma caps_ok_destroy: "caps_ok p \<Longrightarrow> caps_ok (fst (BordoisilaCapDestroy p fd))"
  by (auto simp: BordoisilaCapDestroy_def caps_ok_update split: option.splits)

lemma caps_ok_cleanup: "caps_ok p \<Longrightarrow> caps_ok (fst (BordoisilaCapCleanupProcess p))"
  using cleanup_caps_fst [of "proc_caps p"]
  by (auto simp: BordoisilaCapCleanupProcess_def caps_ok_def split: prod.splits)

lemma dup_cases:
  assumes "BordoisilaCapDup p fs oldfd newfd = Some (r, p', fs')"
  obtains "r = -1" "p' = p" "fs' = fs"
  | i j where "r = 0" "BordoisilaCapLookup p oldfd = Some i" "cap_slot newfd = Some j"
      "\<not> cap_valid (proc_caps p ! j)" "proc_fds p ! j = 0"
      "p' = p\<lparr>proc_fds := (proc_fds p)[j := proc_fds p ! i],
              proc_caps := (proc_caps p)[j := (proc_caps p ! i)\<lparr>cap_valid := True\<rparr>]\<rparr>"
proof (cases "BordoisilaCapLookup p oldfd")
  case None
  with assms that(1) show ?thesis by (simp add: BordoisilaCapDup_def)
next
  case i: (Some i)
  show ?thesis
  proof (cases "cap_slot newfd")
    case None
    with i assms that(1) show ?thesis by (simp add: BordoisilaCapDup_def)
  next
    case (Some j)
    with i assms that(1) that(2) [of i j] show ?thesis
      by (simp add: BordoisilaCapDup_def split: if_splits)
  qed
qed

lemma caps_ok_dup:
  assumes "caps_ok p" "proc_wf p" "BordoisilaCapDup p fs oldfd newfd = Some (r, p', fs')"
  shows "caps_ok p'"
  using assms(3)
proof (cases rule: dup_cases)
  case (2 i j)
  then have "cap_ok (proc_caps p ! i)" "cap_valid (proc_caps p ! i)"
    using caps_ok_nth [OF assms(1,2)] by (auto simp: lookup_Some)
  then have "cap_ok ((proc_caps p ! i)\<lparr>cap_valid := True\<rparr>)" by (simp add: cap_ok_def)
  with caps_ok_update [OF assms(1)] 2 show ?thesis by (simp add: caps_ok_def)
qed (use assms in simp)

lemma caps_ok_inherit:
  assumes "caps_ok parent" "caps_ok child" "proc_wf parent" "proc_wf child"
  shows "caps_ok (BordoisilaCapInheritTable parent child)"
  using caps_ok_nth [OF assms(1,3)] caps_ok_nth [OF assms(2,4)]
  by (auto simp: BordoisilaCapInheritTable_def caps_ok_def inherit_slot_def Let_def) (auto simp: cap_ok_def)


section \<open>Checking and confining authority\<close>

text \<open>
  A rights check succeeds exactly when the descriptor is in range, its slot holds a
  valid capability, and that capability has every one of the required rights.
\<close>

theorem BordoisilaCapCheckRights_iff:
  "BordoisilaCapCheckRights p fd required \<longleftrightarrow>
     0 \<le> fd \<and> fd < 60 \<and> cap_valid (proc_caps p ! nat fd) \<and>
     (\<forall>n. bit required n \<longrightarrow> bit (cap_rights (proc_caps p ! nat fd)) n)"
proof (cases "BordoisilaCapLookup p fd")
  case None
  then show ?thesis
    by (auto simp: BordoisilaCapCheckRights_def BordoisilaCapLookup_def cap_slot_def
        cap_slot_in_range_def FILE_DESC_PER_PROCESS_def split: if_splits)
next
  case (Some i)
  then have "BordoisilaCapCheckRights p fd required \<longleftrightarrow>
      cap_rights (proc_caps p ! i) AND required = required"
    by (simp add: BordoisilaCapCheckRights_def)
  moreover have "0 \<le> fd" "fd < 60" "i = nat fd" "cap_valid (proc_caps p ! i)"
    using Some by (auto simp: lookup_Some FILE_DESC_PER_PROCESS_def nat_less_iff)
  ultimately show ?thesis by (simp add: word_and_eq_subset)
qed

text \<open>
  All the processes and the shared file store. \<open>cap_mint\<close> is the only way a capability
  comes into being; the other operations are the steps of \<open>cap_step\<close>.
\<close>

record cap_sys =
  sys_procs :: "nat \<Rightarrow> AuProcess"
  sys_files :: file_store

inductive cap_step :: "cap_sys \<Rightarrow> cap_sys \<Rightarrow> bool" where
  dup: "BordoisilaCapDup (sys_procs s k) (sys_files s) oldfd newfd = Some (r, p, fs) \<Longrightarrow>
     cap_step s (s\<lparr>sys_procs := (sys_procs s)(k := p), sys_files := fs\<rparr>)"
| restrict: "BordoisilaCapRestrict (sys_procs s k) fd m = (r, p) \<Longrightarrow>
     cap_step s (s\<lparr>sys_procs := (sys_procs s)(k := p)\<rparr>)"
| destroy: "BordoisilaCapDestroy (sys_procs s k) fd = (p, rel) \<Longrightarrow>
     cap_step s (s\<lparr>sys_procs := (sys_procs s)(k := p)\<rparr>)"
| cleanup: "BordoisilaCapCleanupProcess (sys_procs s k) = (p, rel) \<Longrightarrow>
     cap_step s (s\<lparr>sys_procs := (sys_procs s)(k := p)\<rparr>)"
| inherit: "cap_step s (s\<lparr>sys_procs := (sys_procs s)
     (k := BordoisilaCapInheritTable (sys_procs s i) (sys_procs s k))\<rparr>)"

inductive cap_mint :: "cap_sys \<Rightarrow> cap_sys \<Rightarrow> bool" where
  create: "BordoisilaCapCreate (sys_procs s k) fd ob ty rights = (r, p) \<Longrightarrow>
     cap_mint s (s\<lparr>sys_procs := (sys_procs s)(k := p)\<rparr>)"

text \<open>The authority in the system: which right bits someone holds on which object.\<close>

definition cap_authority :: "AuCapability \<Rightarrow> (nat \<times> u8 \<times> nat) set" where
  "cap_authority c =
     {(cap_object c, cap_object_type c, n) | n. cap_valid c \<and> bit (cap_rights c) n}"

definition proc_authority :: "AuProcess \<Rightarrow> (nat \<times> u8 \<times> nat) set" where
  "proc_authority p = (\<Union>c \<in> set (proc_caps p). cap_authority c)"

definition authority :: "cap_sys \<Rightarrow> (nat \<times> u8 \<times> nat) set" where
  "authority s = (\<Union>k. proc_authority (sys_procs s k))"

definition sys_wf :: "cap_sys \<Rightarrow> bool" where
  "sys_wf s \<longleftrightarrow> (\<forall>k. proc_wf (sys_procs s k) \<and> caps_ok (sys_procs s k))"

lemma authority_update:
  "proc_authority p \<subseteq> authority s \<Longrightarrow> authority (s\<lparr>sys_procs := (sys_procs s)(k := p)\<rparr>) \<subseteq> authority s"
  unfolding authority_def by (fastforce split: if_splits)

lemma proc_authority_slot:
  "cap_authority c \<subseteq> proc_authority p \<Longrightarrow>
   proc_authority (p\<lparr>proc_caps := (proc_caps p)[i := c]\<rparr>) \<subseteq> proc_authority p"
  by (fastforce simp: proc_authority_def dest: in_set_updateD)

lemma cap_authority_nth:
  "proc_wf p \<Longrightarrow> i < FILE_DESC_PER_PROCESS \<Longrightarrow> cap_authority (proc_caps p ! i) \<subseteq> proc_authority p"
  unfolding proc_authority_def proc_wf_def by (metis UN_upper nth_mem)

lemma proc_authority_in: "proc_authority (sys_procs s k) \<subseteq> authority s"
  by (auto simp: authority_def)

lemma proc_wf_dup:
  "BordoisilaCapDup p fs oldfd newfd = Some (r, p', fs') \<Longrightarrow> proc_wf p \<Longrightarrow> proc_wf p'"
  by (erule dup_cases) (auto simp: proc_wf_def)

lemma dup_authority:
  assumes "BordoisilaCapDup p fs oldfd newfd = Some (r, p', fs')" "proc_wf p"
  shows "proc_authority p' \<subseteq> proc_authority p"
  using assms(1)
proof (cases rule: dup_cases)
  case (2 i j)
  then have "cap_authority ((proc_caps p ! i)\<lparr>cap_valid := True\<rparr>) \<subseteq> proc_authority p"
    using cap_authority_nth [OF assms(2), of i] by (auto simp: lookup_Some cap_authority_def)
  with 2 proc_authority_slot [of _ p j] show ?thesis by (simp add: proc_authority_def)
qed simp

lemma restrict_authority:
  assumes "proc_wf p"
  shows "proc_authority (snd (BordoisilaCapRestrict p fd m)) \<subseteq> proc_authority p"
proof (cases "BordoisilaCapLookup p fd")
  case (Some i)
  then have "cap_authority ((proc_caps p ! i)\<lparr>cap_rights := cap_rights (proc_caps p ! i) AND m\<rparr>)
      \<subseteq> proc_authority p"
    using cap_authority_nth [OF assms, of i]
    by (auto simp: lookup_Some cap_authority_def bit_and_iff)
  with Some show ?thesis by (simp add: BordoisilaCapRestrict_def proc_authority_slot)
qed (simp add: BordoisilaCapRestrict_def)

lemma destroy_authority: "proc_authority (fst (BordoisilaCapDestroy p fd)) \<subseteq> proc_authority p"
  using proc_authority_slot [of cleared_cap p]
  by (auto simp: BordoisilaCapDestroy_def cap_authority_def cleared_cap_def split: option.splits)

lemma cleanup_authority: "proc_authority (fst (BordoisilaCapCleanupProcess p)) = {}"
  using cleanup_caps_fst [of "proc_caps p"]
  by (auto simp: BordoisilaCapCleanupProcess_def proc_authority_def cap_authority_def
      cleared_cap_def split: prod.splits if_splits)

lemma inherit_authority:
  assumes "proc_wf parent" "proc_wf child"
  shows "proc_authority (BordoisilaCapInheritTable parent child) \<subseteq>
     proc_authority parent \<union> proc_authority child"
proof -
  have "cap_authority (inherit_slot parent child i) \<subseteq> proc_authority parent \<union> proc_authority child"
    if "i < FILE_DESC_PER_PROCESS" for i
    using cap_authority_nth [OF assms(1) that] cap_authority_nth [OF assms(2) that]
    by (auto simp: inherit_slot_def Let_def cap_authority_def split: if_splits)
  then show ?thesis
    by (fastforce simp: BordoisilaCapInheritTable_def proc_authority_def [of "_\<lparr>proc_caps := _\<rparr>"])
qed

lemma cap_step_wf: "cap_step s t \<Longrightarrow> sys_wf s \<Longrightarrow> sys_wf t"
proof (induction rule: cap_step.induct)
  case (dup s k oldfd newfd r p fs)
  then show ?case using proc_wf_dup caps_ok_dup by (fastforce simp: sys_wf_def)
next
  case (restrict s k fd m r p)
  moreover have "proc_wf (snd (BordoisilaCapRestrict q fd m))" if "proc_wf q" for q
    using that by (auto simp: BordoisilaCapRestrict_def proc_wf_def split: option.splits)
  ultimately show ?case using caps_ok_restrict by (fastforce simp: sys_wf_def dest: arg_cong [of _ _ snd])
next
  case (destroy s k fd p rel)
  moreover have "proc_wf (fst (BordoisilaCapDestroy q fd))" if "proc_wf q" for q
    using that by (auto simp: BordoisilaCapDestroy_def proc_wf_def split: option.splits)
  ultimately show ?case using caps_ok_destroy by (fastforce simp: sys_wf_def dest: arg_cong [of _ _ fst])
next
  case (cleanup s k p rel)
  moreover have "proc_wf (fst (BordoisilaCapCleanupProcess q))" if "proc_wf q" for q
    using that cleanup_caps_fst [of "proc_caps q"]
    by (auto simp: BordoisilaCapCleanupProcess_def proc_wf_def split: prod.splits)
  ultimately show ?case using caps_ok_cleanup by (fastforce simp: sys_wf_def dest: arg_cong [of _ _ fst])
next
  case (inherit s k i)
  moreover have "proc_wf (BordoisilaCapInheritTable (sys_procs s i) q)" if "proc_wf q" for q
    using that by (auto simp: BordoisilaCapInheritTable_def proc_wf_def)
  ultimately show ?case using caps_ok_inherit by (auto simp: sys_wf_def)
qed

lemma cap_step_authority: "cap_step s t \<Longrightarrow> sys_wf s \<Longrightarrow> authority t \<subseteq> authority s"
proof (induction rule: cap_step.induct)
  case (dup s k oldfd newfd r p fs)
  then have "proc_authority p \<subseteq> authority s"
    using dup_authority [of "sys_procs s k"] proc_authority_in [of s k] by (fastforce simp: sys_wf_def)
  from authority_update [OF this, of k] show ?case by (simp add: authority_def)
next
  case (restrict s k fd m r p)
  then show ?case using restrict_authority [of "sys_procs s k" fd m] proc_authority_in [of s k]
    by (intro authority_update) (auto simp: sys_wf_def)
next
  case (destroy s k fd p rel)
  then show ?case using destroy_authority [of "sys_procs s k" fd] proc_authority_in [of s k]
    by (intro authority_update) auto
next
  case (cleanup s k p rel)
  then show ?case using cleanup_authority [of "sys_procs s k"] by (intro authority_update) auto
next
  case (inherit s k i)
  then show ?case
    using inherit_authority [of "sys_procs s i" "sys_procs s k"]
      proc_authority_in [of s i] proc_authority_in [of s k]
    by (intro authority_update) (auto simp: sys_wf_def)
qed

lemma cap_mint_wf: "cap_mint s t \<Longrightarrow> sys_wf s \<Longrightarrow> sys_wf t"
proof (induction rule: cap_mint.induct)
  case (create s k fd ob ty rights r p)
  moreover have "proc_wf (snd (BordoisilaCapCreate q fd ob ty rights))" if "proc_wf q" for q
    using that by (auto simp: BordoisilaCapCreate_def proc_wf_def split: option.splits)
  ultimately show ?case using caps_ok_create by (fastforce simp: sys_wf_def dest: arg_cong [of _ _ snd])
qed

lemma cap_steps_wf: "cap_step\<^sup>*\<^sup>* s t \<Longrightarrow> sys_wf s \<Longrightarrow> sys_wf t"
  by (induction rule: rtranclp_induct) (auto dest: cap_step_wf)

text \<open>
  C1. Authority is confined: whatever sequence of duplications, restrictions, destructions,
  process clean-ups and inheritances the processes perform, no process ends up with a right
  on an object that no process held before. Only creation adds authority.
\<close>

theorem cap_authority_confined:
  assumes "cap_step\<^sup>*\<^sup>* s t" "sys_wf s"
  shows "authority t \<subseteq> authority s"
  using assms
proof (induction rule: rtranclp_induct)
  case (step t u)
  then have "sys_wf t" using cap_steps_wf by blast
  with step cap_step_authority [of t u] show ?case by blast
qed simp

text \<open>
  C34. After any sequence of capability operations, creations included, every valid
  capability is on a real object, a file capability has file rights only, a hardware
  capability hardware rights only and is barred from inheritance, and no other kind of
  object has any right.
\<close>

theorem cap_rights_by_type:
  assumes "(\<lambda>s t. cap_step s t \<or> cap_mint s t)\<^sup>*\<^sup>* s t" "sys_wf s"
    "c \<in> set (proc_caps (sys_procs t k))" "cap_valid c"
  shows "cap_object c \<noteq> 0 \<and>
    (cap_object_type c = CAP_OBJ_FILE \<longrightarrow> cap_rights c AND NOT CAP_FILE_RIGHTS_MASK = 0) \<and>
    (cap_object_type c = CAP_OBJ_PCIDEV \<longrightarrow>
       cap_rights c AND NOT CAP_HW_RIGHTS_MASK = 0 \<and> cap_flags c AND CAP_FLAG_NO_INHERIT \<noteq> 0) \<and>
    (cap_object_type c \<notin> {CAP_OBJ_FILE, CAP_OBJ_PCIDEV} \<longrightarrow> cap_rights c = 0)"
proof -
  have "sys_wf t" using assms(1,2)
    by (induction rule: rtranclp_induct) (auto dest: cap_step_wf cap_mint_wf)
  then have ok: "cap_ok c" using assms(3) by (simp add: sys_wf_def caps_ok_def)
  have mask: "r AND NOT m = 0" if "r AND m = r" for r m :: u32
    by (metis that and.assoc word_and_not and_zero_eq)
  have "CAP_OBJ_FILE \<noteq> CAP_OBJ_PCIDEV" by (simp add: CAP_OBJ_FILE_def CAP_OBJ_PCIDEV_def)
  with ok assms(4) mask show ?thesis
    by (auto simp: cap_ok_def minted_rights_def split: if_splits)
qed

text \<open>
  Inheritance never hands a hardware capability to the child: a slot of the child that
  holds a valid hardware capability afterwards is a slot that held it before.
\<close>

theorem BordoisilaCapInheritTable_no_hardware:
  assumes "proc_wf parent" "proc_wf child" "caps_ok parent" "i < 60"
    "cap_valid (proc_caps (BordoisilaCapInheritTable parent child) ! i)"
    "cap_object_type (proc_caps (BordoisilaCapInheritTable parent child) ! i) = CAP_OBJ_PCIDEV"
  shows "proc_caps (BordoisilaCapInheritTable parent child) ! i = proc_caps child ! i"
proof -
  have i: "i < FILE_DESC_PER_PROCESS" using assms(4) by (simp add: FILE_DESC_PER_PROCESS_def)
  then have eq: "proc_caps (BordoisilaCapInheritTable parent child) ! i = inherit_slot parent child i"
    by (simp add: BordoisilaCapInheritTable_def)
  have "cap_ok (proc_caps parent ! i)" using caps_ok_nth [OF assms(3,1) i] .
  with assms(5,6) show ?thesis unfolding eq
    by (auto simp: inherit_slot_def Let_def cap_ok_def split: if_splits)
qed

section \<open>Concrete instances\<close>

definition demo_creds :: AuProcCredentials where
  "demo_creds = \<lparr>cr_caps = 0, cr_uid = 1000, cr_gid = 1000, cr_sgid = replicate 12 0, cr_num_sgid = 0\<rparr>"

definition demo_proc :: "AuCapability \<Rightarrow> AuProcess" where
  "demo_proc c = \<lparr>proc_id = 1, main_thread = 1, creds = demo_creds,
     proc_caps = (replicate 60 cleared_cap)[3 := c], proc_fds = (replicate 60 0)[3 := 16, 4 := 32]\<rparr>"

definition demo_file_cap :: AuCapability where
  "demo_file_cap = \<lparr>cap_object = 16, cap_object_type = CAP_OBJ_FILE, cap_rights = 3, cap_owner = 1000,
     cap_flags = 0, cap_valid = True\<rparr>"

definition demo_sys :: cap_sys where
  "demo_sys = \<lparr>sys_procs = (\<lambda>_. demo_proc demo_file_cap),
     sys_files = \<lparr>nodes = Map.empty, pipe_refs = Map.empty\<rparr>\<rparr>"

lemma demo_proc_wf: "proc_wf (demo_proc c)"
  by (simp add: demo_proc_def proc_wf_def FILE_DESC_PER_PROCESS_def cred_wf_def demo_creds_def
      AURORA_MAX_GROUPS_def)

lemma demo_caps_ok: "cap_ok c \<Longrightarrow> caps_ok (demo_proc c)"
  by (auto simp: demo_proc_def caps_ok_def dest!: in_set_updateD)

lemma demo_file_cap_ok: "cap_ok demo_file_cap"
  by (simp add: cap_ok_def demo_file_cap_def minted_rights_def cap_consts)

lemma demo_sys_wf: "sys_wf demo_sys"
  by (simp add: sys_wf_def demo_sys_def demo_proc_wf demo_caps_ok demo_file_cap_ok)

lemma demo_restrict: "\<exists>t. cap_step demo_sys t \<and>
    cap_rights (proc_caps (sys_procs t 0) ! 3) = 1 \<and> length (proc_caps (sys_procs t 0)) = 60"
  by (rule exI, rule conjI, rule cap_step.restrict [where k = 0 and fd = 3 and m = 1],
      rule prod.collapse [symmetric])
    (simp add: BordoisilaCapRestrict_def BordoisilaCapLookup_def cap_slot_def cap_slot_in_range_def
      demo_sys_def demo_proc_def demo_file_cap_def FILE_DESC_PER_PROCESS_def)

theorem cap_authority_confined_witness:
  "\<exists>t. cap_step demo_sys t \<and> cap_rights (proc_caps (sys_procs t 0) ! 3) = 1 \<and>
     authority t \<subseteq> authority demo_sys"
  using demo_restrict cap_authority_confined [OF r_into_rtranclp demo_sys_wf] by blast

theorem cap_rights_by_type_witness:
  "cap_rights (proc_caps (sys_procs demo_sys 0) ! 3) AND NOT CAP_FILE_RIGHTS_MASK = 0"
proof -
  have "demo_file_cap \<in> set (proc_caps (sys_procs demo_sys 0))"
    by (simp add: demo_sys_def demo_proc_def set_update_memI)
  from cap_rights_by_type [OF rtranclp.rtrancl_refl demo_sys_wf this] show ?thesis
    by (simp add: demo_file_cap_def demo_sys_def demo_proc_def)
qed

definition demo_hw_cap :: AuCapability where
  "demo_hw_cap = \<lparr>cap_object = 64, cap_object_type = CAP_OBJ_PCIDEV, cap_rights = 0x80,
     cap_owner = 0, cap_flags = 1, cap_valid = True\<rparr>"

lemma demo_hw_cap_ok: "cap_ok demo_hw_cap"
  by (simp add: cap_ok_def demo_hw_cap_def minted_rights_def cap_consts)

theorem BordoisilaCapInheritTable_no_hardware_witness:
  "proc_caps (BordoisilaCapInheritTable (demo_proc demo_hw_cap)
     (demo_proc (demo_hw_cap\<lparr>cap_object := 65\<rparr>))) ! 3 =
   proc_caps (demo_proc (demo_hw_cap\<lparr>cap_object := 65\<rparr>)) ! 3"
  by (rule BordoisilaCapInheritTable_no_hardware [OF demo_proc_wf demo_proc_wf demo_caps_ok [OF demo_hw_cap_ok]])
    (simp_all add: BordoisilaCapInheritTable_def inherit_slot_def demo_proc_def demo_hw_cap_def
      FILE_DESC_PER_PROCESS_def CAP_FLAG_NO_INHERIT_def CAP_OBJ_PCIDEV_def)

theorem BordoisilaCapCheckRights_iff_witness:
  "BordoisilaCapCheckRights (demo_proc demo_file_cap) 3 2"
proof -
  have "\<forall>n. bit (2 :: u32) n \<longrightarrow> bit (3 :: u32) n"
    unfolding word_and_eq_subset [symmetric] by simp
  then show ?thesis
    unfolding BordoisilaCapCheckRights_iff by (simp add: demo_proc_def demo_file_cap_def)
qed

end
