(* ===== verification/Cred.thy ===== *)
theory Cred
  imports Process
begin

text \<open>
  Credentials (KernelAA64/Cred/cred.c) and process tokens (KernelAA64/proctoken.c). The
  operations are system calls: each takes the calling thread. \<open>None\<close> is a fault: an index
  outside a table, or a descriptor that points to no node. The console output is not
  modelled, nor is the console's switch to silent when the display token is taken.
\<close>

section \<open>The kernel's group table\<close>

definition mix64 :: "u64 \<Rightarrow> u64" where
  "mix64 x0 =
     (let x1 = x0 XOR drop_bit 30 x0;
          x2 = x1 * 0xbf58476d1ce4e5b9;
          x3 = x2 XOR drop_bit 27 x2;
          x4 = x3 * 0x94d049bb133111eb
      in x4 XOR drop_bit 31 x4)"

text \<open>The counter register is a parameter: \<open>tick n\<close> is its \<open>n\<close>-th reading.\<close>

definition cred_gen_gid :: "u64 \<Rightarrow> u32 \<Rightarrow> u32 \<Rightarrow> u64 \<Rightarrow> u32 \<times> u64" where
  "cred_gen_gid tick mn mx seed =
     (let seed' = mix64 (seed XOR tick); range = mx - mn + 1
      in (mn + ucast (seed' mod ucast range), seed'))"

definition collision_check_gid :: "int list \<Rightarrow> nat \<Rightarrow> int \<Rightarrow> bool" where
  "collision_check_gid groups count val \<longleftrightarrow> val \<in> set (take count groups)"

text \<open>The \<open>do ... while\<close>: draw until the number is new.\<close>

partial_function (option) draw_gid ::
    "(nat \<Rightarrow> u64) \<Rightarrow> int list \<Rightarrow> nat \<Rightarrow> u32 \<Rightarrow> u32 \<Rightarrow> u64 \<Rightarrow> nat \<Rightarrow> (int \<times> u64 \<times> nat) option" where
  [code]: "draw_gid tick groups filled mn mx seed n =
     (let (g, seed') = cred_gen_gid (tick n) mn mx seed in
      if collision_check_gid groups filled (uint g)
      then draw_gid tick groups filled mn mx seed' (Suc n)
      else Some (uint g, seed', Suc n))"

text \<open>One band of four; \<open>filled\<close> is where the next number goes.\<close>

fun fill_band :: "(nat \<Rightarrow> u64) \<Rightarrow> u32 \<Rightarrow> u32 \<Rightarrow> nat \<Rightarrow> int list \<times> nat \<times> u64 \<times> nat \<Rightarrow>
    (int list \<times> nat \<times> u64 \<times> nat) option" where
  "fill_band tick mn mx 0 st = Some st"
| "fill_band tick mn mx (Suc k) (groups, filled, seed, n) =
     (case draw_gid tick groups filled mn mx seed n of
        None \<Rightarrow> None
      | Some (g, seed', n') \<Rightarrow> fill_band tick mn mx k (groups[filled := g], Suc filled, seed', n'))"

definition AuCredGroupInitialize :: "(nat \<Rightarrow> u64) \<Rightarrow> int list option" where
  "AuCredGroupInitialize tick =
     (let seed = mix64 ((tick 0 XOR push_bit 17 (tick 1)) XOR push_bit 37 (tick 2)) in
      case fill_band tick 0x1000 0x1FFF 4 (replicate AURORA_MAX_GROUPS 0, 0, seed, 3) of
        None \<Rightarrow> None
      | Some st1 \<Rightarrow>
          (case fill_band tick 0x2000 0x2FFF 4 st1 of
             None \<Rightarrow> None
           | Some st2 \<Rightarrow> map_option fst (fill_band tick 0x3000 0x3FFF 4 st2)))"

text \<open>The bound test lets the number of groups itself through.\<close>

definition AuCredGroupAdd :: "int list \<Rightarrow> u8 \<Rightarrow> int \<Rightarrow> (int \<times> int list) option" where
  "AuCredGroupAdd groups category val =
     (if unat category > AURORA_MAX_GROUPS then Some (-1, groups)
      else if unat category \<ge> length groups then None
      else if groups ! unat category = 0 then Some (0, groups[unat category := val])
      else Some (1, groups))"

definition AuCredGetGroupCategory :: "string \<Rightarrow> u8" where
  "AuCredGetGroupCategory s =
     (if length s = 0 then of_nat (AURORA_MAX_GROUPS + 1) else of_nat (AURORA_MAX_GROUPS + 1))"

definition AuCredGetGroupID :: "int list \<Rightarrow> u8 \<Rightarrow> int option" where
  "AuCredGetGroupID groups category =
     (if unat category > AURORA_MAX_GROUPS then Some 0
      else if unat category \<ge> length groups then None
      else Some (groups ! unat category))"

section \<open>System calls on credentials\<close>

definition CRED_CAP_SETUID :: nat where "CRED_CAP_SETUID = 0"
definition CRED_CAP_SETGID :: nat where "CRED_CAP_SETGID = 1"
definition CRED_CAP_SETCAP :: nat where "CRED_CAP_SETCAP = 5"
definition FS_FLAG_DEVICE :: u16 where "FS_FLAG_DEVICE = 8"

definition CRED_IS_CAPABLE :: "u8 \<Rightarrow> nat \<Rightarrow> bool" where
  "CRED_IS_CAPABLE a b \<longleftrightarrow> drop_bit b a AND 1 \<noteq> 0"

record cred_sys =
  cs_table :: proc_table
  cs_nodes :: "nat \<rightharpoonup> AuVFSNode"

definition proc_at :: "cred_sys \<Rightarrow> nat \<Rightarrow> AuProcess" where
  "proc_at s i = procs (cs_table s) ! i"

definition set_creds :: "cred_sys \<Rightarrow> nat \<Rightarrow> AuProcCredentials \<Rightarrow> cred_sys" where
  "set_creds s i c = s\<lparr>cs_table := (cs_table s)
     \<lparr>procs := (procs (cs_table s))[i := (proc_at s i)\<lparr>creds := c\<rparr>]\<rparr>\<rparr>"

definition holds_cap :: "cred_sys \<Rightarrow> nat \<Rightarrow> nat \<Rightarrow> bool" where
  "holds_cap s i b \<longleftrightarrow> CRED_IS_CAPABLE (cr_caps (creds (proc_at s i))) b"

text \<open>Process number zero is the caller.\<close>

definition target_process :: "cred_sys \<Rightarrow> nat \<Rightarrow> int \<Rightarrow> nat option" where
  "target_process s i pid = (if pid \<noteq> 0 then AuProcessFindPID (cs_table s) pid else Some i)"

definition AuCredChangeID :: "cred_sys \<Rightarrow> nat \<Rightarrow> int \<Rightarrow> int \<Rightarrow> int \<Rightarrow> (int \<times> cred_sys) option" where
  "AuCredChangeID s thr fd uid gid =
     (case calling_process (cs_table s) thr of None \<Rightarrow> Some (1, s)
      | Some i \<Rightarrow>
          if \<not> holds_cap s i CRED_CAP_SETUID \<and> \<not> holds_cap s i CRED_CAP_SETGID then Some (1, s)
          else if fd < 0 \<or> fd \<ge> int FILE_DESC_PER_PROCESS then Some (1, s)
          else (let a = proc_fds (proc_at s i) ! nat fd in
                if a = 0 then Some (1, s)
                else map_option (\<lambda>n. (0, s\<lparr>cs_nodes :=
                         (cs_nodes s)(a \<mapsto> n\<lparr>vn_uid := uid, vn_gid := gid\<rparr>)\<rparr>)) (cs_nodes s a)))"

definition AuCredAddSGroup :: "cred_sys \<Rightarrow> nat \<Rightarrow> int \<Rightarrow> int \<Rightarrow> int \<times> cred_sys" where
  "AuCredAddSGroup s thr pid sgid =
     (case calling_process (cs_table s) thr of None \<Rightarrow> (1, s)
      | Some i \<Rightarrow>
          if \<not> holds_cap s i CRED_CAP_SETGID then (1, s)
          else (case target_process s i pid of None \<Rightarrow> (1, s)
                | Some j \<Rightarrow>
                    (let c = creds (proc_at s j) in
                     if cr_num_sgid c \<ge> AURORA_MAX_GROUPS then (1, s)
                     else (0, set_creds s j (c\<lparr>cr_sgid := (cr_sgid c)[cr_num_sgid c := sgid],
                                               cr_num_sgid := cr_num_sgid c + 1\<rparr>)))))"

text \<open>The capability word is a byte: the argument is truncated.\<close>

definition AuCredSetCap :: "cred_sys \<Rightarrow> nat \<Rightarrow> int \<Rightarrow> int \<Rightarrow> int \<times> cred_sys" where
  "AuCredSetCap s thr pid cap =
     (case calling_process (cs_table s) thr of None \<Rightarrow> (1, s)
      | Some i \<Rightarrow>
          if \<not> holds_cap s i CRED_CAP_SETCAP then (1, s)
          else (case target_process s i pid of None \<Rightarrow> (1, s)
                | Some j \<Rightarrow> (0, set_creds s j ((creds (proc_at s j))\<lparr>cr_caps := word_of_int cap\<rparr>))))"

definition AuCredGetCap :: "cred_sys \<Rightarrow> nat \<Rightarrow> int \<Rightarrow> int" where
  "AuCredGetCap s thr pid =
     (case calling_process (cs_table s) thr of None \<Rightarrow> 1
      | Some i \<Rightarrow>
          if \<not> holds_cap s i CRED_CAP_SETCAP then 1
          else (case target_process s i pid of None \<Rightarrow> 1
                | Some j \<Rightarrow> uint (cr_caps (creds (proc_at s j)))))"

definition AuSetUID :: "cred_sys \<Rightarrow> nat \<Rightarrow> int \<Rightarrow> int \<Rightarrow> int \<times> cred_sys" where
  "AuSetUID s thr pid uid =
     (case calling_process (cs_table s) thr of None \<Rightarrow> (1, s)
      | Some i \<Rightarrow>
          if \<not> holds_cap s i CRED_CAP_SETUID then (1, s)
          else if pid = 0 \<and> proc_id (proc_at s i) = 1 then (1, s)
          else (case target_process s i pid of None \<Rightarrow> (1, s)
                | Some j \<Rightarrow> (0, set_creds s j ((creds (proc_at s j))\<lparr>cr_uid := uid\<rparr>))))"

definition AuSetGID :: "cred_sys \<Rightarrow> nat \<Rightarrow> int \<Rightarrow> int \<Rightarrow> int \<times> cred_sys" where
  "AuSetGID s thr pid gid =
     (case calling_process (cs_table s) thr of None \<Rightarrow> (1, s)
      | Some i \<Rightarrow>
          if \<not> holds_cap s i CRED_CAP_SETGID then (1, s)
          else if pid = 0 \<and> proc_id (proc_at s i) = 1 then (1, s)
          else (case target_process s i pid of None \<Rightarrow> (1, s)
                | Some j \<Rightarrow> (0, set_creds s j ((creds (proc_at s j))\<lparr>cr_gid := gid\<rparr>))))"

text \<open>The null node is \<open>None\<close>; 0 grants the access.\<close>

definition AuCredCheckPermissions :: "AuVFSNode option \<Rightarrow> AuProcCredentials \<Rightarrow> int" where
  "AuCredCheckPermissions node c =
     (case node of None \<Rightarrow> 1
      | Some n \<Rightarrow>
          if cr_uid c = 0 then 0
          else if vn_flags n AND FS_FLAG_DEVICE \<noteq> 0 \<and> vn_filename n = ''graph'' \<and> cr_uid c = 1000 then 0
          else if cr_uid c = vn_uid n then 0
          else if cr_gid c = vn_gid n then 0
          else if list_ex (\<lambda>i. cr_sgid c ! i = vn_gid n) [0..<cr_num_sgid c] then 0
          else 1)"

definition AuCredIsRoot :: "AuProcCredentials \<Rightarrow> bool" where
  "AuCredIsRoot c \<longleftrightarrow> cr_uid c = 0"

definition AuCredInGroup :: "AuProcCredentials \<Rightarrow> int \<Rightarrow> bool" where
  "AuCredInGroup c gid \<longleftrightarrow> cr_gid c = gid \<or>
     list_ex (\<lambda>i. cr_sgid c ! i = gid) [0..<min (cr_num_sgid c) AURORA_MAX_GROUPS]"

section \<open>Process tokens\<close>

record AuProcessToken =
  tok_proc :: "nat option"
  tok_thread_id :: int

definition AURORA_MAX_PROC_TOKEN :: nat where "AURORA_MAX_PROC_TOKEN = 50"

definition AuProcessTokenInitialize :: "AuProcessToken list" where
  "AuProcessTokenInitialize = replicate AURORA_MAX_PROC_TOKEN \<lparr>tok_proc = None, tok_thread_id = -1\<rparr>"

text \<open>The category is not checked against the size of the table.\<close>

definition AuProcessTokenAddSelf ::
    "AuProcessToken list \<Rightarrow> proc_table \<Rightarrow> nat \<Rightarrow> int \<Rightarrow> u8 \<Rightarrow> (int \<times> AuProcessToken list) option" where
  "AuProcessTokenAddSelf toks t thr tid category =
     (if unat category \<ge> length toks then None
      else if tok_proc (toks ! unat category) \<noteq> None then Some (1, toks)
      else (case calling_process t thr of None \<Rightarrow> Some (1, toks)
            | Some i \<Rightarrow> Some (0, toks[unat category := \<lparr>tok_proc = Some i, tok_thread_id = tid\<rparr>])))"

definition AuProcessTokenGetProc :: "AuProcessToken list \<Rightarrow> u8 \<Rightarrow> nat option option" where
  "AuProcessTokenGetProc toks category =
     (if unat category \<ge> length toks then None else Some (tok_proc (toks ! unat category)))"

definition AuProcessTokenGetThreadID :: "AuProcessToken list \<Rightarrow> u8 \<Rightarrow> int option" where
  "AuProcessTokenGetThreadID toks category =
     (if unat category \<ge> length toks then None else Some (tok_thread_id (toks ! unat category)))"

definition AuProcessTokenRemoveSelf ::
    "AuProcessToken list \<Rightarrow> proc_table \<Rightarrow> nat \<Rightarrow> u8 \<Rightarrow> (int \<times> AuProcessToken list) option" where
  "AuProcessTokenRemoveSelf toks t thr category =
     (case calling_process t thr of None \<Rightarrow> Some (1, toks)
      | Some i \<Rightarrow>
          if unat category \<ge> length toks then None
          else Some (0, toks[unat category := \<lparr>tok_proc = None, tok_thread_id = -1\<rparr>]))"

section \<open>The group table: distinct numbers in their bands\<close>

text \<open>The seed after \<open>k\<close> draws, and the number the next draw gives.\<close>

fun seed_after :: "(nat \<Rightarrow> u64) \<Rightarrow> u64 \<Rightarrow> nat \<Rightarrow> nat \<Rightarrow> u64" where
  "seed_after tick seed n 0 = seed"
| "seed_after tick seed n (Suc k) = seed_after tick (mix64 (seed XOR tick n)) (Suc n) k"

definition drawn :: "(nat \<Rightarrow> u64) \<Rightarrow> u32 \<Rightarrow> u32 \<Rightarrow> u64 \<Rightarrow> nat \<Rightarrow> nat \<Rightarrow> int" where
  "drawn tick mn mx seed n k =
     uint (fst (cred_gen_gid (tick (n + k)) mn mx (seed_after tick seed n k)))"

lemma drawn_0: "drawn tick mn mx seed n 0 = uint (fst (cred_gen_gid (tick n) mn mx seed))"
  by (simp add: drawn_def)

lemma drawn_Suc: "drawn tick mn mx seed n (Suc k) = drawn tick mn mx (mix64 (seed XOR tick n)) (Suc n) k"
  by (simp add: drawn_def)

lemma snd_gen: "snd (cred_gen_gid t mn mx seed) = mix64 (seed XOR t)"
  by (simp add: cred_gen_gid_def Let_def)

lemma draw_gid_unfold:
  "draw_gid tick groups filled mn mx seed n =
     (if collision_check_gid groups filled (drawn tick mn mx seed n 0)
      then draw_gid tick groups filled mn mx (mix64 (seed XOR tick n)) (Suc n)
      else Some (drawn tick mn mx seed n 0, mix64 (seed XOR tick n), Suc n))"
  using snd_gen [of "tick n" mn mx seed]
  by (subst draw_gid.simps) (auto simp: drawn_0 split: prod.splits)

lemma draw_gid_first:
  assumes "\<not> collision_check_gid groups filled (drawn tick mn mx seed n k)"
    "\<forall>i < k. collision_check_gid groups filled (drawn tick mn mx seed n i)"
  shows "draw_gid tick groups filled mn mx seed n =
    Some (drawn tick mn mx seed n k, seed_after tick seed n (Suc k), n + Suc k)"
  using assms
proof (induction k arbitrary: seed n)
  case 0
  then show ?case by (simp add: draw_gid_unfold [of _ _ _ _ _ seed n])
next
  case (Suc k)
  have "draw_gid tick groups filled mn mx (mix64 (seed XOR tick n)) (Suc n) =
      Some (drawn tick mn mx (mix64 (seed XOR tick n)) (Suc n) k,
        seed_after tick (mix64 (seed XOR tick n)) (Suc n) (Suc k), Suc n + Suc k)"
    using Suc.prems by (intro Suc.IH) (auto simp: drawn_Suc [symmetric])
  with Suc.prems(2) show ?case
    by (subst draw_gid_unfold) (auto simp: drawn_Suc)
qed

lemma draw_gid_result:
  assumes "draw_gid tick groups filled mn mx seed n = Some (g, seed', n')"
  shows "\<not> collision_check_gid groups filled g \<and> (\<exists>t s. g = uint (fst (cred_gen_gid t mn mx s)))"
proof -
  let ?P = "\<lambda>(tick :: nat \<Rightarrow> u64) groups filled mn mx (seed :: u64) (n :: nat) (r :: int \<times> u64 \<times> nat).
      \<not> collision_check_gid groups filled (fst r) \<and> (\<exists>t s. fst r = uint (fst (cred_gen_gid t mn mx s)))"
  have "?P tick groups filled mn mx seed n (g, seed', n')"
  proof (rule draw_gid.raw_induct [of ?P, OF _ assms])
    fix draw tick groups filled mn mx seed n r
    assume IH: "\<And>tick groups filled mn mx seed n r.
        draw tick groups filled mn mx seed n = Some r \<Longrightarrow> ?P tick groups filled mn mx seed n r"
      and eq: "(let (g, seed') = cred_gen_gid (tick n) mn mx seed
           in if collision_check_gid groups filled (uint g)
              then draw tick groups filled mn mx seed' (Suc n) else Some (uint g, seed', Suc n)) = Some r"
    obtain g s where g: "cred_gen_gid (tick n) mn mx seed = (g, s)" by fastforce
    show "?P tick groups filled mn mx seed n r"
    proof (cases "collision_check_gid groups filled (uint g)")
      case True
      then show ?thesis using eq g IH by simp
    next
      case False
      then have "r = (uint g, s, Suc n)" using eq g by simp
      moreover have "uint g = uint (fst (cred_gen_gid (tick n) mn mx seed))" using g by simp
      ultimately show ?thesis using False by (metis fst_conv)
    qed
  qed
  then show ?thesis by simp
qed

lemma gen_gid_range:
  assumes "mx = mn + 0xFFF" "mn \<le> 0x3000"
  shows "uint mn \<le> uint (fst (cred_gen_gid t mn mx s)) \<and> uint (fst (cred_gen_gid t mn mx s)) < uint mn + 0x1000"
proof -
  let ?v = "mix64 (s XOR t) mod 0x1000 :: u64"
  have e: "fst (cred_gen_gid t mn mx s) = mn + ucast ?v"
    using assms(1) by (simp add: cred_gen_gid_def Let_def)
  have "uint ?v < 0x1000" by (simp add: uint_mod)
  then have "uint (ucast ?v :: u32) = uint ?v" "uint ?v < 0x1000" "0 \<le> uint ?v"
    by (simp_all add: unsigned_ucast_eq take_bit_int_eq_self)
  moreover have "uint mn \<le> 0x3000" using assms(2) by (simp add: word_le_def)
  ultimately show ?thesis unfolding e
    by (simp add: uint_word_ariths(1) mod_pos_pos_trivial)
qed

lemma fill_band_result:
  assumes "fill_band tick mn mx k (groups, filled, seed, n) = Some (groups', filled', seed', n')"
    "filled + k \<le> length groups" "distinct (take filled groups)" "mx = mn + 0xFFF" "mn \<le> 0x3000"
  shows "filled' = filled + k \<and> length groups' = length groups \<and>
    take filled groups' = take filled groups \<and> distinct (take (filled + k) groups') \<and>
    (\<forall>i. filled \<le> i \<and> i < filled + k \<longrightarrow> uint mn \<le> groups' ! i \<and> groups' ! i < uint mn + 0x1000)"
  using assms(1-3)
proof (induction k arbitrary: groups filled seed n)
  case 0
  then show ?case by simp
next
  case (Suc k)
  obtain g s1 n1 where g: "draw_gid tick groups filled mn mx seed n = Some (g, s1, n1)"
    and rest: "fill_band tick mn mx k (groups[filled := g], Suc filled, s1, n1) = Some (groups', filled', seed', n')"
    using Suc.prems(1) by (auto split: option.splits)
  have new: "g \<notin> set (take filled groups)" and
    range: "uint mn \<le> g \<and> g < uint mn + 0x1000"
    using draw_gid_result [OF g] gen_gid_range [OF assms(4,5)]
    by (auto simp: collision_check_gid_def)
  have tk: "take (Suc filled) (groups[filled := g]) = take filled groups @ [g]"
    using Suc.prems(2) by (simp add: take_Suc_conv_app_nth)
  have IH: "filled' = Suc filled + k \<and> length groups' = length groups \<and>
      take (Suc filled) groups' = take filled groups @ [g] \<and> distinct (take (Suc filled + k) groups') \<and>
      (\<forall>i. Suc filled \<le> i \<and> i < Suc filled + k \<longrightarrow> uint mn \<le> groups' ! i \<and> groups' ! i < uint mn + 0x1000)"
    using Suc.IH [OF rest] Suc.prems(2,3) new unfolding tk by auto
  then have "take filled groups' = take filled groups" "groups' ! filled = g"
    using Suc.prems(2) by (auto simp: take_Suc_conv_app_nth dest: arg_cong [of _ _ butlast])
  with IH range show ?case by (auto simp: not_less_eq_eq le_less_Suc_eq) (metis Suc_leI le_neq_implies_less)+
qed

text \<open>
  The group table the kernel starts with has twelve different numbers, four in each of
  the network, communication and miscellaneous bands, whatever the counter reads.
\<close>

theorem AuCredGroupInitialize_bands:
  assumes "AuCredGroupInitialize tick = Some gs"
  shows "length gs = 12 \<and> distinct gs \<and>
    (\<forall>i < 12. gs ! i div 0x1000 = (if i < 4 then 1 else if i < 8 then 2 else 3))"
proof -
  let ?init = "replicate 12 (0::int)"
  define seed where "seed = mix64 ((tick 0 XOR push_bit 17 (tick 1)) XOR push_bit 37 (tick 2))"
  obtain g1 f1 s1 n1 where 1: "fill_band tick 0x1000 0x1FFF 4 (?init, 0, seed, 3) = Some (g1, f1, s1, n1)"
    using assms unfolding seed_def
    by (fastforce simp: AuCredGroupInitialize_def Let_def AURORA_MAX_GROUPS_def split: option.splits)
  obtain g2 f2 s2 n2 where 2: "fill_band tick 0x2000 0x2FFF 4 (g1, f1, s1, n1) = Some (g2, f2, s2, n2)"
    using assms 1 unfolding seed_def
    by (fastforce simp: AuCredGroupInitialize_def Let_def AURORA_MAX_GROUPS_def split: option.splits)
  obtain f3 s3 n3 where 3: "fill_band tick 0x3000 0x3FFF 4 (g2, f2, s2, n2) = Some (gs, f3, s3, n3)"
    using assms 1 2 unfolding seed_def
    by (fastforce simp: AuCredGroupInitialize_def Let_def AURORA_MAX_GROUPS_def)
  have r1: "f1 = 4 \<and> length g1 = 12 \<and> distinct (take 4 g1) \<and>
      (\<forall>i. i < 4 \<longrightarrow> 0x1000 \<le> g1 ! i \<and> g1 ! i < 0x2000)"
    using fill_band_result [OF 1] by simp
  have r2: "f2 = 8 \<and> length g2 = 12 \<and> take 4 g2 = take 4 g1 \<and> distinct (take 8 g2) \<and>
      (\<forall>i. 4 \<le> i \<and> i < 8 \<longrightarrow> 0x2000 \<le> g2 ! i \<and> g2 ! i < 0x3000)"
    using fill_band_result [OF 2] r1 by simp
  have r3: "length gs = 12 \<and> take 8 gs = take 8 g2 \<and> distinct (take 12 gs) \<and>
      (\<forall>i. 8 \<le> i \<and> i < 12 \<longrightarrow> 0x3000 \<le> gs ! i \<and> gs ! i < 0x4000)"
    using fill_band_result [OF 3] r2 by (simp del: take_all take_all_iff)
  have e2: "gs ! i = g2 ! i" if "i < 8" for i
    using r3 that by (metis nth_take)
  have e1: "gs ! i = g1 ! i" if "i < 4" for i
    using e2 [of i] r2 that by (metis nth_take less_trans numeral_less_iff semiring_norm(76,78))
  have "gs ! i div 0x1000 = (if i < 4 then 1 else if i < 8 then 2 else 3)" if "i < 12" for i
  proof -
    have "i < 4 \<Longrightarrow> 0x1000 \<le> gs ! i \<and> gs ! i < 0x2000"
      "\<not> i < 4 \<Longrightarrow> i < 8 \<Longrightarrow> 0x2000 \<le> gs ! i \<and> gs ! i < 0x3000"
      "\<not> i < 8 \<Longrightarrow> 0x3000 \<le> gs ! i \<and> gs ! i < 0x4000"
      using r1 r2 r3 e1 e2 that by auto
    then show ?thesis by (auto simp: div_eq_dividend_iff) 
  qed
  moreover have "take 12 gs = gs" using r3 by simp
  then have "distinct gs" using r3 by (metis (no_types))
  ultimately show ?thesis using r3 by blast
qed

section \<open>Who can change what\<close>

lemma capable_bit: "CRED_IS_CAPABLE a b \<longleftrightarrow> bit a b"
  by (simp add: CRED_IS_CAPABLE_def and_one_eq bit_iff_odd_drop_bit odd_iff_mod_2_eq_one)

datatype cred_call = SetCap int int | SetUID int int | SetGID int int | AddSGroup int int
  | ChangeID int int int

fun cred_exec :: "cred_sys \<Rightarrow> nat \<times> cred_call \<Rightarrow> (int \<times> cred_sys) option" where
  "cred_exec s (thr, SetCap pid c) = Some (AuCredSetCap s thr pid c)"
| "cred_exec s (thr, SetUID pid u) = Some (AuSetUID s thr pid u)"
| "cred_exec s (thr, SetGID pid g) = Some (AuSetGID s thr pid g)"
| "cred_exec s (thr, AddSGroup pid g) = Some (AuCredAddSGroup s thr pid g)"
| "cred_exec s (thr, ChangeID fd u g) = AuCredChangeID s thr fd u g"

fun cred_run :: "cred_sys \<Rightarrow> (nat \<times> cred_call) list \<Rightarrow> cred_sys option" where
  "cred_run s [] = Some s"
| "cred_run s (c # cs) = (case cred_exec s c of None \<Rightarrow> None | Some (r, s') \<Rightarrow> cred_run s' cs)"

definition cred_sys_wf :: "cred_sys \<Rightarrow> bool" where
  "cred_sys_wf s \<longleftrightarrow> table_wf (cs_table s)"

definition nobody_holds :: "cred_sys \<Rightarrow> nat \<Rightarrow> bool" where
  "nobody_holds s b \<longleftrightarrow> (\<forall>p \<in> set (procs (cs_table s)). \<not> CRED_IS_CAPABLE (cr_caps (creds p)) b)"

lemma nobody_holdsD:
  "nobody_holds s b \<Longrightarrow> cred_sys_wf s \<Longrightarrow> calling_process (cs_table s) thr = Some i \<Longrightarrow> \<not> holds_cap s i b"
  using calling_process_lt by (auto simp: nobody_holds_def holds_cap_def proc_at_def cred_sys_wf_def)

lemma target_process_lt:
  "target_process s i pid = Some j \<Longrightarrow> i < length (procs (cs_table s)) \<Longrightarrow> j < length (procs (cs_table s))"
  by (auto simp: target_process_def dest: find_pid_lt split: if_splits)

text \<open>What one call may change, by the capabilities nobody holds.\<close>

definition cred_frame :: "cred_sys \<Rightarrow> cred_sys \<Rightarrow> bool" where
  "cred_frame s t \<longleftrightarrow>
     map proc_id (procs (cs_table t)) = map proc_id (procs (cs_table s)) \<and>
     map main_thread (procs (cs_table t)) = map main_thread (procs (cs_table s)) \<and>
     proc_slot (cs_table t) = proc_slot (cs_table s)"

abbreviation caps_of :: "cred_sys \<Rightarrow> u8 list" where
  "caps_of s \<equiv> map (\<lambda>p. cr_caps (creds p)) (procs (cs_table s))"

abbreviation uids_of :: "cred_sys \<Rightarrow> int list" where
  "uids_of s \<equiv> map (\<lambda>p. cr_uid (creds p)) (procs (cs_table s))"

abbreviation groups_of :: "cred_sys \<Rightarrow> (int \<times> int list \<times> nat) list" where
  "groups_of s \<equiv> map (\<lambda>p. (cr_gid (creds p), cr_sgid (creds p), cr_num_sgid (creds p)))
     (procs (cs_table s))"

lemma map_set_creds:
  "j < length (procs (cs_table s)) \<Longrightarrow> f ((proc_at s j)\<lparr>creds := c\<rparr>) = f (proc_at s j) \<Longrightarrow>
   map f (procs (cs_table (set_creds s j c))) = map f (procs (cs_table s))"
  by (simp add: set_creds_def proc_at_def map_update list_update_same_conv)

lemma set_creds_wf:
  "cred_sys_wf s \<Longrightarrow> j < length (procs (cs_table s)) \<Longrightarrow> cred_wf c \<Longrightarrow> cred_sys_wf (set_creds s j c)"
  by (auto simp: cred_sys_wf_def table_wf_def set_creds_def proc_at_def proc_wf_def
      dest!: in_set_updateD)

lemma set_creds_nodes [simp]: "cs_nodes (set_creds s j c) = cs_nodes s"
  by (simp add: set_creds_def)

lemma cred_wf_at: "cred_sys_wf s \<Longrightarrow> j < length (procs (cs_table s)) \<Longrightarrow> cred_wf (creds (proc_at s j))"
  by (simp add: cred_sys_wf_def proc_at_def table_wf_def proc_wf_def)

lemmas cred_call_defs = AuCredSetCap_def AuSetUID_def AuSetGID_def AuCredAddSGroup_def AuCredChangeID_def

text \<open>A call either changes nothing, changes one node, or stores one process's credentials.\<close>

lemma cred_exec_cases:
  assumes "cred_exec s (thr, c) = Some (r, t)" "cred_sys_wf s"
  obtains "t = s"
  | i a n where "calling_process (cs_table s) thr = Some i" "t = s\<lparr>cs_nodes := (cs_nodes s)(a \<mapsto> n)\<rparr>"
      "holds_cap s i CRED_CAP_SETUID \<or> holds_cap s i CRED_CAP_SETGID"
  | i j x where "calling_process (cs_table s) thr = Some i" "j < length (procs (cs_table s))"
      "holds_cap s i CRED_CAP_SETCAP" "t = set_creds s j ((creds (proc_at s j))\<lparr>cr_caps := x\<rparr>)"
  | i j x where "calling_process (cs_table s) thr = Some i" "j < length (procs (cs_table s))"
      "holds_cap s i CRED_CAP_SETUID" "t = set_creds s j ((creds (proc_at s j))\<lparr>cr_uid := x\<rparr>)"
  | i j x where "calling_process (cs_table s) thr = Some i" "j < length (procs (cs_table s))"
      "holds_cap s i CRED_CAP_SETGID" "t = set_creds s j ((creds (proc_at s j))\<lparr>cr_gid := x\<rparr>)"
  | i j x where "calling_process (cs_table s) thr = Some i" "j < length (procs (cs_table s))"
      "holds_cap s i CRED_CAP_SETGID" "cr_num_sgid (creds (proc_at s j)) < AURORA_MAX_GROUPS"
      "t = set_creds s j ((creds (proc_at s j))\<lparr>cr_sgid := (cr_sgid (creds (proc_at s j)))
         [cr_num_sgid (creds (proc_at s j)) := x],
         cr_num_sgid := cr_num_sgid (creds (proc_at s j)) + 1\<rparr>)"
proof (cases "calling_process (cs_table s) thr")
  case None
  with assms(1) that(1) show ?thesis by (cases c) (simp_all add: cred_call_defs)
next
  case (Some i)
  then have i: "i < length (procs (cs_table s))"
    using assms(2) calling_process_lt by (simp add: cred_sys_wf_def)
  note lt = target_process_lt [OF _ i]
  show ?thesis
  proof (cases c)
    case (SetCap pid x)
    with assms(1) Some that(1) that(3) [OF Some] lt show ?thesis
      by (fastforce simp: AuCredSetCap_def split: if_splits option.splits)
  next
    case (SetUID pid x)
    with assms(1) Some that(1) that(4) [OF Some] lt show ?thesis
      by (fastforce simp: AuSetUID_def split: if_splits option.splits)
  next
    case (SetGID pid x)
    with assms(1) Some that(1) that(5) [OF Some] lt show ?thesis
      by (fastforce simp: AuSetGID_def split: if_splits option.splits)
  next
    case (AddSGroup pid x)
    with assms(1) Some that(1) that(6) [OF Some] lt show ?thesis
      by (fastforce simp: AuCredAddSGroup_def Let_def split: if_splits option.splits)
  next
    case (ChangeID fd u g)
    with assms(1) Some that(1) that(2) [OF Some] show ?thesis
      by (fastforce simp: AuCredChangeID_def Let_def split: if_splits option.splits)
  qed
qed

lemma cred_exec_wf:
  assumes "cred_exec s (thr, c) = Some (r, t)" "cred_sys_wf s"
  shows "cred_sys_wf t"
  using assms
proof (cases rule: cred_exec_cases)
  case (2 i a n)
  with assms(2) show ?thesis by (simp add: cred_sys_wf_def)
qed (use assms(2) cred_wf_at [OF assms(2)] in \<open>auto intro!: set_creds_wf simp: cred_wf_def\<close>)

lemma cred_exec_caps:
  assumes "cred_exec s (thr, c) = Some (r, t)" "cred_sys_wf s" "nobody_holds s CRED_CAP_SETCAP"
  shows "caps_of t = caps_of s"
  using assms(1,2) by (cases rule: cred_exec_cases)
    (use nobody_holdsD [OF assms(3,2)] in \<open>auto simp: map_set_creds\<close>)

lemma cred_exec_uids:
  assumes "cred_exec s (thr, c) = Some (r, t)" "cred_sys_wf s" "nobody_holds s CRED_CAP_SETUID"
  shows "uids_of t = uids_of s"
  using assms(1,2) by (cases rule: cred_exec_cases)
    (use nobody_holdsD [OF assms(3,2)] in \<open>auto simp: map_set_creds\<close>)

lemma cred_exec_groups:
  assumes "cred_exec s (thr, c) = Some (r, t)" "cred_sys_wf s" "nobody_holds s CRED_CAP_SETGID"
  shows "groups_of t = groups_of s"
  using assms(1,2) by (cases rule: cred_exec_cases)
    (use nobody_holdsD [OF assms(3,2)] in \<open>auto simp: map_set_creds\<close>)

lemma cred_exec_nodes:
  assumes "cred_exec s (thr, c) = Some (r, t)" "cred_sys_wf s"
    "nobody_holds s CRED_CAP_SETUID" "nobody_holds s CRED_CAP_SETGID"
  shows "cs_nodes t = cs_nodes s"
  using assms(1,2) by (cases rule: cred_exec_cases)
    (use nobody_holdsD [OF assms(3,2)] nobody_holdsD [OF assms(4,2)] in auto)

lemma nobody_holds_caps: "nobody_holds s b \<longleftrightarrow> (\<forall>x \<in> set (caps_of s). \<not> CRED_IS_CAPABLE x b)"
  by (auto simp: nobody_holds_def)

text \<open>
  C2. Privileges do not appear from nowhere. While no process may set capabilities, no
  sequence of credential calls changes the capabilities of any process; if moreover none may
  set user ids, no user id changes; if none may set group ids, no group or supplementary
  group changes; and if neither, no file changes its owner.
\<close>

theorem cred_no_escalation:
  assumes "cred_run s calls = Some t" "cred_sys_wf s" "nobody_holds s CRED_CAP_SETCAP"
  shows "caps_of t = caps_of s \<and>
    (nobody_holds s CRED_CAP_SETUID \<longrightarrow> uids_of t = uids_of s) \<and>
    (nobody_holds s CRED_CAP_SETGID \<longrightarrow> groups_of t = groups_of s) \<and>
    (nobody_holds s CRED_CAP_SETUID \<and> nobody_holds s CRED_CAP_SETGID \<longrightarrow> cs_nodes t = cs_nodes s)"
  using assms
proof (induction calls arbitrary: s)
  case Nil
  then show ?case by simp
next
  case (Cons tc calls)
  obtain thr c where tc: "tc = (thr, c)" by fastforce
  from Cons.prems(1) tc obtain r s1 where s1: "cred_exec s (thr, c) = Some (r, s1)"
    and rest: "cred_run s1 calls = Some t"
    by (auto split: option.splits)
  have caps: "caps_of s1 = caps_of s" using cred_exec_caps [OF s1 Cons.prems(2,3)] .
  then have nobody: "nobody_holds s1 b = nobody_holds s b" for b
    by (simp only: nobody_holds_caps)
  have IH: "caps_of t = caps_of s1 \<and>
      (nobody_holds s1 CRED_CAP_SETUID \<longrightarrow> uids_of t = uids_of s1) \<and>
      (nobody_holds s1 CRED_CAP_SETGID \<longrightarrow> groups_of t = groups_of s1) \<and>
      (nobody_holds s1 CRED_CAP_SETUID \<and> nobody_holds s1 CRED_CAP_SETGID \<longrightarrow> cs_nodes t = cs_nodes s1)"
    using Cons.prems(3) by (intro Cons.IH [OF rest cred_exec_wf [OF s1 Cons.prems(2)]]) (simp add: nobody)
  show ?case
  proof (intro conjI impI)
    show "caps_of t = caps_of s" using IH caps by (simp only:)
  next
    assume n: "nobody_holds s CRED_CAP_SETUID"
    then show "uids_of t = uids_of s"
      using IH cred_exec_uids [OF s1 Cons.prems(2) n] by (simp only: nobody simp_thms)
  next
    assume n: "nobody_holds s CRED_CAP_SETGID"
    then show "groups_of t = groups_of s"
      using IH cred_exec_groups [OF s1 Cons.prems(2) n] by (simp only: nobody simp_thms)
  next
    assume n: "nobody_holds s CRED_CAP_SETUID \<and> nobody_holds s CRED_CAP_SETGID"
    then show "cs_nodes t = cs_nodes s"
      using IH cred_exec_nodes [OF s1 Cons.prems(2)] by (simp only: nobody simp_thms)
  qed
qed

text \<open>
  C35. Access to a file is granted exactly to root, to the owner, to a process with the
  file's group as its group or among its supplementary groups, and, for the device node
  named graph, to the desktop user 1000.
\<close>

theorem AuCredCheckPermissions_grants:
  assumes "cred_wf c"
  shows "AuCredCheckPermissions (Some n) c = 0 \<longleftrightarrow>
    AuCredIsRoot c \<or> cr_uid c = vn_uid n \<or> AuCredInGroup c (vn_gid n) \<or>
    (bit (vn_flags n) 3 \<and> vn_filename n = ''graph'' \<and> cr_uid c = 1000)"
proof -
  have "vn_flags n AND FS_FLAG_DEVICE \<noteq> 0 \<longleftrightarrow> bit (vn_flags n) 3"
    using and_exp_eq_0_iff_not_bit [of "vn_flags n" 3] by (simp add: FS_FLAG_DEVICE_def)
  then show ?thesis using assms
    by (auto simp: AuCredCheckPermissions_def AuCredIsRoot_def AuCredInGroup_def cred_wf_def min_def)
qed

text \<open>
  The root process is refused a change of its own user id when it names itself by
  zero, yet the same call with its process number 1 changes the id.
\<close>

theorem AuSetUID_root_by_number:
  assumes "cred_sys_wf s" "calling_process (cs_table s) thr = Some i" "holds_cap s i CRED_CAP_SETUID"
    "proc_id (proc_at s i) = 1" "AuProcessFindPID (cs_table s) 1 = Some i"
  shows "AuSetUID s thr 0 uid = (1, s) \<and>
    (\<exists>t. AuSetUID s thr 1 uid = (0, t) \<and> cr_uid (creds (proc_at t i)) = uid)"
  using assms find_pid_lt [OF assms(5)]
  by (simp add: AuSetUID_def target_process_def set_creds_def proc_at_def)

section \<open>Tokens\<close>

text \<open>
  A process token, once taken, keeps its holder against every later claim, until
  someone removes it; and any process may remove the token of another.
\<close>

theorem AuProcessToken_holder:
  assumes "length toks = 50" "unat c < 50" "tok_proc (toks ! unat c) = Some p"
    "calling_process t thr = Some i"
  shows "AuProcessTokenAddSelf toks t thr tid c = Some (1, toks) \<and>
    (c' \<noteq> c \<longrightarrow> unat c' < 50 \<longrightarrow> (\<exists>r toks'. AuProcessTokenAddSelf toks t thr tid c' = Some (r, toks') \<and>
       AuProcessTokenGetProc toks' c = Some (Some p))) \<and>
    (\<exists>toks'. AuProcessTokenRemoveSelf toks t thr c = Some (0, toks') \<and>
       AuProcessTokenGetProc toks' c = Some None)"
proof -
  have "unat c' \<noteq> unat c" if "c' \<noteq> c" using that by (simp add: word_unat_eq_iff)
  then show ?thesis using assms
    by (auto simp: AuProcessTokenAddSelf_def AuProcessTokenRemoveSelf_def AuProcessTokenGetProc_def
        nth_list_update)
qed

section \<open>Concrete instances\<close>

definition demo_process :: "int \<Rightarrow> nat \<Rightarrow> u8 \<Rightarrow> int \<Rightarrow> AuProcess" where
  "demo_process pid thr caps uid = \<lparr>proc_id = pid, main_thread = thr,
     creds = \<lparr>cr_caps = caps, cr_uid = uid, cr_gid = uid, cr_sgid = replicate 12 0, cr_num_sgid = 0\<rparr>,
     proc_caps = replicate 60 \<lparr>cap_object = 0, cap_object_type = 0, cap_rights = 0, cap_owner = 0,
       cap_flags = 0, cap_valid = False\<rparr>, proc_fds = replicate 60 0\<rparr>"

definition demo_cred_sys :: "u8 \<Rightarrow> cred_sys" where
  "demo_cred_sys caps = \<lparr>cs_table = \<lparr>procs = [demo_process 1 100 caps 0, demo_process 2 200 0 1000],
     proc_slot = (\<lambda>_. None)\<rparr>, cs_nodes = Map.empty\<rparr>"

lemma demo_cred_sys_wf: "cred_sys_wf (demo_cred_sys caps)"
  by (simp add: cred_sys_wf_def demo_cred_sys_def demo_process_def table_wf_def proc_wf_def
      FILE_DESC_PER_PROCESS_def cred_wf_def AURORA_MAX_GROUPS_def)

lemma fill_band_4: "fill_band tick mn mx 4 st = fill_band tick mn mx (Suc (Suc (Suc (Suc 0)))) st"
  by (simp add: numeral_eq_Suc)

lemma demo_draws:
  "draw_gid of_nat [0, 0, 0, 0, 0, 0, 0, 0, 0, 0, 0, 0]
       0 0x1000 0x1fff 4232623902457135989 3
     = Some (6981, 17420821134696266565, 4)"
  "draw_gid of_nat [6981, 0, 0, 0, 0, 0, 0, 0, 0, 0, 0, 0]
       (Suc 0) 0x1000 0x1fff 17420821134696266565 4
     = Some (7433, 406790472616271113, 5)"
  "draw_gid of_nat [6981, 7433, 0, 0, 0, 0, 0, 0, 0, 0, 0, 0]
       (Suc (Suc 0)) 0x1000 0x1fff 406790472616271113 5
     = Some (5842, 12590343525640447698, 6)"
  "draw_gid of_nat [6981, 7433, 5842, 0, 0, 0, 0, 0, 0, 0, 0, 0]
       (Suc (Suc (Suc 0))) 0x1000 0x1fff 12590343525640447698 6
     = Some (6731, 4700932624173906507, 7)"
  "draw_gid of_nat [6981, 7433, 5842, 6731, 0, 0, 0, 0, 0, 0, 0, 0]
       (Suc (Suc (Suc (Suc 0)))) 0x2000 0x2fff 4700932624173906507 7
     = Some (10925, 9941400850642188973, 8)"
  "draw_gid of_nat [6981, 7433, 5842, 6731, 10925, 0, 0, 0, 0, 0, 0, 0]
       (Suc (Suc (Suc (Suc (Suc 0))))) 0x2000 0x2fff 9941400850642188973 8
     = Some (10988, 8007261210741086956, 9)"
  "draw_gid of_nat [6981, 7433, 5842, 6731, 10925, 10988, 0, 0, 0, 0, 0, 0]
       (Suc (Suc (Suc (Suc (Suc (Suc 0)))))) 0x2000 0x2fff 8007261210741086956 9
     = Some (12023, 7471825184905662199, 10)"
  "draw_gid of_nat [6981, 7433, 5842, 6731, 10925, 10988, 12023, 0, 0, 0, 0, 0]
       (Suc (Suc (Suc (Suc (Suc (Suc (Suc 0))))))) 0x2000 0x2fff 7471825184905662199 10
     = Some (10628, 2923694279817546116, 11)"
  "draw_gid of_nat [6981, 7433, 5842, 6731, 10925, 10988, 12023, 10628, 0, 0, 0, 0]
       (Suc (Suc (Suc (Suc (Suc (Suc (Suc (Suc 0)))))))) 0x3000 0x3fff 2923694279817546116 11
     = Some (12454, 16612347687772868774, 12)"
  "draw_gid of_nat [6981, 7433, 5842, 6731, 10925, 10988, 12023, 10628, 12454, 0, 0, 0]
       (Suc (Suc (Suc (Suc (Suc (Suc (Suc (Suc (Suc 0))))))))) 0x3000 0x3fff 16612347687772868774 12
     = Some (14923, 5506534248975080011, 13)"
  "draw_gid of_nat [6981, 7433, 5842, 6731, 10925, 10988, 12023, 10628, 12454, 14923, 0, 0]
       (Suc (Suc (Suc (Suc (Suc (Suc (Suc (Suc (Suc (Suc 0)))))))))) 0x3000 0x3fff 5506534248975080011 13
     = Some (14926, 11722628454828931662, 14)"
  "draw_gid of_nat [6981, 7433, 5842, 6731, 10925, 10988, 12023, 10628, 12454, 14923, 14926, 0]
       (Suc (Suc (Suc (Suc (Suc (Suc (Suc (Suc (Suc (Suc (Suc 0))))))))))) 0x3000 0x3fff 11722628454828931662 14
     = Some (13765, 4508606220034471365, 15)"
  by (subst draw_gid_unfold, simp add: drawn_def cred_gen_gid_def mix64_def collision_check_gid_def)+

lemma demo_seed: "mix64 ((of_nat 0 XOR push_bit 17 (of_nat 1)) XOR push_bit 37 (of_nat 2)) = 4232623902457135989"
  by (simp add: mix64_def)

lemma twelve_zeros: "replicate 12 (0::int) = [0, 0, 0, 0, 0, 0, 0, 0, 0, 0, 0, 0]"
  by (simp add: numeral_eq_Suc)

lemma demo_groups: "\<exists>gs. AuCredGroupInitialize of_nat = Some gs"
  unfolding AuCredGroupInitialize_def AURORA_MAX_GROUPS_def demo_seed
  by (simp add: fill_band_4 demo_draws twelve_zeros)

theorem AuCredGroupInitialize_bands_witness:
  "\<exists>gs. AuCredGroupInitialize of_nat = Some gs \<and> distinct gs"
  using demo_groups AuCredGroupInitialize_bands by blast

theorem cred_no_escalation_witness:
  "\<exists>t. cred_run (demo_cred_sys 2) [(200, SetCap 0 255), (100, SetGID 2 7), (100, SetUID 2 0)] = Some t \<and>
     caps_of t = [2, 0] \<and> uids_of t = [0, 1000]"
proof -
  let ?s = "demo_cred_sys 2" and ?cs = "[(200, SetCap 0 255), (100, SetGID 2 7), (100, SetUID 2 0)]"
  have n: "nobody_holds ?s CRED_CAP_SETCAP" "nobody_holds ?s CRED_CAP_SETUID"
    by (simp_all add: nobody_holds_def demo_cred_sys_def demo_process_def CRED_IS_CAPABLE_def
        CRED_CAP_SETCAP_def CRED_CAP_SETUID_def)
  obtain t where t: "cred_run ?s ?cs = Some t"
    by (simp add: case_prod_unfold)
  moreover have "caps_of ?s = [2, 0]" "uids_of ?s = [0, 1000]"
    by (simp_all add: demo_cred_sys_def demo_process_def)
  ultimately show ?thesis
    using cred_no_escalation [OF t demo_cred_sys_wf n(1)] n(2) by metis
qed

theorem AuCredCheckPermissions_grants_witness:
  "AuCredCheckPermissions (Some \<lparr>vn_filename = ''graph'', vn_flags = 8, vn_uid = 0, vn_gid = 0,
     vn_device = 0, vn_copies = 0\<rparr>) (creds (demo_process 2 200 0 1000)) = 0"
  by (subst AuCredCheckPermissions_grants)
    (simp_all add: demo_process_def cred_wf_def AURORA_MAX_GROUPS_def bit_numeral_rec)

theorem AuSetUID_root_by_number_witness:
  "\<exists>t. AuSetUID (demo_cred_sys 1) 100 1 5 = (0, t) \<and> cr_uid (creds (proc_at t 0)) = 5"
  using AuSetUID_root_by_number [OF demo_cred_sys_wf, of 1 100 0 5]
  by (auto simp: demo_cred_sys_def demo_process_def calling_process_def AuProcessFindThread_def
      holds_cap_def proc_at_def CRED_IS_CAPABLE_def CRED_CAP_SETUID_def AuProcessFindPID_def)

theorem AuProcessToken_holder_witness:
  "AuProcessTokenAddSelf (AuProcessTokenInitialize[1 := \<lparr>tok_proc = Some 0, tok_thread_id = 100\<rparr>])
     (cs_table (demo_cred_sys 0)) 200 200 1 =
   Some (1, AuProcessTokenInitialize[1 := \<lparr>tok_proc = Some 0, tok_thread_id = 100\<rparr>])"
  using AuProcessToken_holder [of "AuProcessTokenInitialize[1 := \<lparr>tok_proc = Some 0, tok_thread_id = 100\<rparr>]"
      1 0 "cs_table (demo_cred_sys 0)" 200 1 200 2]
  by (simp add: AuProcessTokenInitialize_def AURORA_MAX_PROC_TOKEN_def demo_cred_sys_def demo_process_def
      calling_process_def AuProcessFindThread_def)

end
