(* ===== verification/NetTypes.thy ===== *)
theory NetTypes
  imports Prelude "HOL-Library.Monad_Syntax"
begin

text \<open>
  The data of the network stack (BaseHdr/Net/{aunet,ipv6,packet}.h): bytes of a frame and
  loads from them, interface addresses, adapters and the packet descriptor that the filter
  and the protocols share. A load beyond the bytes received is a fault (\<open>None\<close>): the code
  does not compare lengths. IPv4 addresses are in wire form, the first octet lowest.
\<close>

section \<open>Loads\<close>

definition byte_at :: "u8 list \<Rightarrow> nat \<Rightarrow> u8 option" where
  "byte_at d i = (if i < length d then Some (d ! i) else None)"

definition load16 :: "u8 list \<Rightarrow> nat \<Rightarrow> u16 option" where
  "load16 d i = do { a \<leftarrow> byte_at d i; b \<leftarrow> byte_at d (i + 1);
     Some (push_bit 8 (ucast b) OR ucast a) }"

definition load32 :: "u8 list \<Rightarrow> nat \<Rightarrow> u32 option" where
  "load32 d i = do { a \<leftarrow> load16 d i; b \<leftarrow> load16 d (i + 2);
     Some (push_bit 16 (ucast b) OR ucast a) }"

definition htons :: "u16 \<Rightarrow> u16" where
  "htons s = push_bit 8 (s AND 0xFF) OR drop_bit 8 (s AND 0xFF00)"

definition htonl :: "u32 \<Rightarrow> u32" where
  "htonl l = push_bit 24 (l AND 0xFF) OR push_bit 8 (l AND 0xFF00) OR
     drop_bit 8 (l AND 0xFF0000) OR drop_bit 24 (l AND 0xFF000000)"

definition MAKE_IP :: "u32 \<Rightarrow> u32 \<Rightarrow> u32 \<Rightarrow> u32 \<Rightarrow> u32" where
  "MAKE_IP a b c d = push_bit 24 d OR push_bit 16 c OR push_bit 8 b OR a"

lemma byte_at_Some [simp]: "i < length d \<Longrightarrow> byte_at d i = Some (d ! i)"
  by (simp add: byte_at_def)

lemma load16_Some: "i + 1 < length d \<Longrightarrow> \<exists>v. load16 d i = Some v"
  by (simp add: load16_def)

lemma load32_Some: "i + 3 < length d \<Longrightarrow> \<exists>v. load32 d i = Some v"
  by (auto simp: load32_def load16_def)

text \<open>The conversion undoes itself: host and network order swap.\<close>

lemma htons_htons [simp]: "htons (htons s) = s"
proof -
  have m: "0xFF = (mask 8 :: u16)" "0xFF00 = (push_bit 8 (mask 8) :: u16)" by (simp_all add: mask_numeral)
  show ?thesis unfolding htons_def m by (rule bit_word_eqI) (auto simp: bit_simps)
qed

section \<open>IPv6 addresses\<close>

type_synonym ip6_addr = "u8 list"

definition ip6_addr_wf :: "ip6_addr \<Rightarrow> bool" where
  "ip6_addr_wf a \<longleftrightarrow> length a = 16"

definition ip6_addr_zero :: ip6_addr where
  "ip6_addr_zero = replicate 16 0"

definition ip6_addr_equal :: "ip6_addr \<Rightarrow> ip6_addr \<Rightarrow> bool" where
  "ip6_addr_equal a b \<longleftrightarrow> list_all (\<lambda>i. a ! i = b ! i) [0..<16]"

definition ip6_addr_is_zero :: "ip6_addr \<Rightarrow> bool" where
  "ip6_addr_is_zero a \<longleftrightarrow> list_all (\<lambda>i. a ! i = 0) [0..<16]"

definition ip6_is_multicast :: "ip6_addr \<Rightarrow> bool" where
  "ip6_is_multicast a \<longleftrightarrow> a ! 0 = 0xFF"

definition ip6_is_linklocal :: "ip6_addr \<Rightarrow> bool" where
  "ip6_is_linklocal a \<longleftrightarrow> a ! 0 = 0xFE \<and> a ! 1 AND 0xC0 = 0x80"

definition ip6_prefix_equal :: "ip6_addr \<Rightarrow> ip6_addr \<Rightarrow> u8 \<Rightarrow> bool" where
  "ip6_prefix_equal a b prefixLen =
     (let p = (if prefixLen > 128 then 128 else unat prefixLen);
          full = p div 8;
          rm = p mod 8;
          mask = (0xFF * 2 ^ (8 - rm)) :: u8
      in list_all (\<lambda>i. a ! i = b ! i) [0..<full] \<and>
         (rm \<noteq> 0 \<longrightarrow> a ! full AND mask = b ! full AND mask))"

lemma ip6_addr_equal_iff: "ip6_addr_wf a \<Longrightarrow> ip6_addr_wf b \<Longrightarrow> ip6_addr_equal a b \<longleftrightarrow> a = b"
  by (auto simp: ip6_addr_equal_def ip6_addr_wf_def list_all_iff intro: nth_equalityI)

text \<open>The bits of an address in the order of the wire.\<close>

definition ip6_bit :: "ip6_addr \<Rightarrow> nat \<Rightarrow> bool" where
  "ip6_bit a i = bit (a ! (i div 8)) (7 - i mod 8)"

section \<open>Adapters and packets\<close>

definition NETDEV_TYPE_ETHERNET :: u8 where "NETDEV_TYPE_ETHERNET = 1"
definition NETDEV_TYPE_802_11 :: u8 where "NETDEV_TYPE_802_11 = 2"
definition NETDEV_TYPE_LOOPBACK :: u8 where "NETDEV_TYPE_LOOPBACK = 4"

record AuNetworkDevice =
  nd_mac :: "u8 list"
  nd_linkStatus :: int
  nd_type :: u8
  nd_ipv4addr :: u32
  nd_ipv4subnet :: u32
  nd_ipv4gateway :: u32
  nd_ipv6addr :: ip6_addr
  nd_ipv6gateway :: ip6_addr
  nd_ipv6prefixLen :: u8

text \<open>The file node of an adapter; its device pointer may be null.\<close>

record net_node =
  nn_filename :: string
  nn_device :: "AuNetworkDevice option"

record AuPacket =
  pk_data :: "u8 list option"
  pk_len :: u16
  pk_l3_off :: u16
  pk_l4_off :: u16
  pk_proto :: u8
  pk_origin :: u8
  pk_in_dev :: "net_node option"
  pk_out_dev :: "net_node option"
  pk_mark :: u32
  pk_verdict :: int

definition AU_PKT_ORIGIN_WIRE :: u8 where "AU_PKT_ORIGIN_WIRE = 0"
definition AU_PKT_ORIGIN_LOCAL :: u8 where "AU_PKT_ORIGIN_LOCAL = 1"

definition NF_ACCEPT :: int where "NF_ACCEPT = 0"
definition NF_DROP :: int where "NF_DROP = 1"
definition NF_REJECT :: int where "NF_REJECT = 2"
definition NF_NAT_STUB :: int where "NF_NAT_STUB = 3"

lemmas nf_verdict_defs = NF_ACCEPT_def NF_DROP_def NF_REJECT_def NF_NAT_STUB_def

definition zero_packet :: AuPacket where
  "zero_packet = \<lparr>pk_data = None, pk_len = 0, pk_l3_off = 0, pk_l4_off = 0, pk_proto = 0,
     pk_origin = 0, pk_in_dev = None, pk_out_dev = None, pk_mark = 0, pk_verdict = 0\<rparr>"

section \<open>Origin and depth of local delivery\<close>

record pkt_origin =
  au_pkt_origin :: u8
  au_pkt_local_depth :: int

definition AU_PKT_LOCAL_DEPTH_CAP :: int where "AU_PKT_LOCAL_DEPTH_CAP = 2"

definition AuPacketSetOrigin :: "u8 \<Rightarrow> pkt_origin \<Rightarrow> pkt_origin" where
  "AuPacketSetOrigin origin st = st\<lparr>au_pkt_origin := origin\<rparr>"

definition AuPacketLocalEnter :: "pkt_origin \<Rightarrow> bool \<times> pkt_origin" where
  "AuPacketLocalEnter st =
     (if au_pkt_local_depth st \<ge> AU_PKT_LOCAL_DEPTH_CAP then (False, st)
      else (True, st\<lparr>au_pkt_local_depth := au_pkt_local_depth st + 1,
                     au_pkt_origin := AU_PKT_ORIGIN_LOCAL\<rparr>))"

definition AuPacketLocalLeave :: "pkt_origin \<Rightarrow> pkt_origin" where
  "AuPacketLocalLeave st =
     (let st1 = (if au_pkt_local_depth st > 0
                 then st\<lparr>au_pkt_local_depth := au_pkt_local_depth st - 1\<rparr> else st)
      in if au_pkt_local_depth st1 = 0 then st1\<lparr>au_pkt_origin := AU_PKT_ORIGIN_WIRE\<rparr> else st1)"

definition AuPacketInitIpv4 ::
    "u8 \<Rightarrow> u8 list option \<Rightarrow> u16 \<Rightarrow> net_node option \<Rightarrow> net_node option \<Rightarrow> AuPacket option" where
  "AuPacketInitIpv4 origin ipv4 len in_dev out_dev =
     (case ipv4 of None \<Rightarrow> Some zero_packet
      | Some ip \<Rightarrow> do {
          b0 \<leftarrow> byte_at ip 0;
          let ihl = (b0 AND 0x0F) * 4;
          let ihl = (if ihl < 20 then 20 else ihl);
          total \<leftarrow> (if len \<noteq> 0 then Some len else map_option htons (load16 ip 2));
          proto \<leftarrow> byte_at ip 9;
          Some \<lparr>pk_data = Some ip, pk_len = total, pk_l3_off = 0, pk_l4_off = ucast ihl,
                pk_proto = proto, pk_origin = origin, pk_in_dev = in_dev, pk_out_dev = out_dev,
                pk_mark = 0, pk_verdict = NF_ACCEPT\<rparr> })"

lemma AuPacketInitIpv4_Some:
  assumes "20 \<le> length ip"
  shows "\<exists>pkt. AuPacketInitIpv4 org (Some ip) len ind outd = Some pkt \<and> pk_data pkt = Some ip \<and>
    pk_proto pkt = ip ! 9 \<and> pk_in_dev pkt = ind \<and> pk_out_dev pkt = outd \<and>
    unat (pk_l4_off pkt) = max 20 (4 * unat (ip ! 0 AND 0x0F))"
proof -
  have "ip ! 0 AND 0x0F = take_bit 4 (ip ! 0)" by (simp add: take_bit_eq_mask mask_eq_exp_minus_1)
  moreover have "take_bit 4 (unat (ip ! 0)) < 16" using take_bit_nat_less_exp [of 4 "unat (ip ! 0)"] by simp
  ultimately have lo: "unat (ip ! 0 AND 0x0F) < 16" by (simp add: unsigned_take_bit_eq)
  define ihl where "ihl = (ip ! 0 AND 0x0F) * 4"
  have ihl: "unat ihl = 4 * unat (ip ! 0 AND 0x0F)"
    using lo by (simp add: ihl_def unat_word_ariths)
  have "unat (ucast (if ihl < 20 then 20 else ihl) :: u16) = max 20 (unat ihl)"
    using ihl lo by (auto simp: word_less_nat_alt unsigned_ucast_eq take_bit_nat_eq_self max_def)
  moreover obtain total where
    "(if len \<noteq> 0 then Some len else map_option htons (load16 ip 2)) = Some total"
    using load16_Some [of 2 ip] assms by fastforce
  moreover have "byte_at ip 0 = Some (ip ! 0)" "byte_at ip 9 = Some (ip ! 9)"
    using assms by (auto simp: byte_at_def)
  ultimately show ?thesis using ihl
    by (auto simp: AuPacketInitIpv4_def ihl_def [symmetric] Let_def)
qed

lemma local_enter_leave:
  "AuPacketLocalEnter st = (True, st') \<Longrightarrow> 0 \<le> au_pkt_local_depth st \<Longrightarrow>
   au_pkt_local_depth (AuPacketLocalLeave st') = au_pkt_local_depth st"
  by (auto simp: AuPacketLocalEnter_def AuPacketLocalLeave_def Let_def split: if_splits)

end
