(* ===== verification/Netfilter.thy ===== *)
theory Netfilter
  imports NetTypes
begin

text \<open>
  The packet filter (KernelAA64/Net/netfilter.c): the rule table, an array of 64 slots with
  a count, the test of one rule, the hook that the protocols call, and the policy that is
  installed at boot. A reject is recorded as the packet it answers.
\<close>

record AuNfRule =
  nf_hook :: int
  nf_in_dev :: string
  nf_out_dev :: string
  nf_proto :: u8
  nf_src :: u32
  nf_src_mask :: u32
  nf_dst :: u32
  nf_dst_mask :: u32
  nf_sport :: u16
  nf_dport :: u16
  nf_target :: int

record nf_state =
  nf_rules :: "AuNfRule option list"
  nf_count :: nat

definition AU_NF_MAX_RULES :: nat where "AU_NF_MAX_RULES = 64"
definition AU_NF_IFNAMSIZ :: nat where "AU_NF_IFNAMSIZ = 16"
definition NF_PRE_ROUTING :: int where "NF_PRE_ROUTING = 0"
definition NF_LOCAL_IN :: int where "NF_LOCAL_IN = 1"
definition NF_FORWARD :: int where "NF_FORWARD = 2"
definition NF_LOCAL_OUT :: int where "NF_LOCAL_OUT = 3"
definition NF_POST_ROUTING :: int where "NF_POST_ROUTING = 4"
definition NF_NUM_HOOKS :: int where "NF_NUM_HOOKS = 5"

lemmas nf_hook_defs = NF_PRE_ROUTING_def NF_LOCAL_IN_def NF_FORWARD_def NF_LOCAL_OUT_def
  NF_POST_ROUTING_def NF_NUM_HOOKS_def

definition IPV4_PROTOCOL_UDP :: u8 where "IPV4_PROTOCOL_UDP = 17"
definition IPV4_PROTOCOL_TCP :: u8 where "IPV4_PROTOCOL_TCP = 6"
definition IPV4_PROTOCOL_ICMP :: u8 where "IPV4_PROTOCOL_ICMP = 1"
definition IPV6_NEXT_ICMPV6 :: u8 where "IPV6_NEXT_ICMPV6 = 58"

lemmas ip_proto_defs = IPV4_PROTOCOL_UDP_def IPV4_PROTOCOL_TCP_def IPV4_PROTOCOL_ICMP_def
  IPV6_NEXT_ICMPV6_def

section \<open>Matching\<close>

definition AuNfDevMatch :: "string \<Rightarrow> net_node option \<Rightarrow> bool" where
  "AuNfDevMatch want dev =
     (if want = '''' then True
      else case dev of None \<Rightarrow> False
      | Some d \<Rightarrow>
          if want = nn_filename d then True
          else if want = ''virtio-net'' \<and> nn_filename d = ''e1000'' then True
          else if want = ''e1000'' \<and> nn_filename d = ''virtio-net'' then True
          else False)"

definition AuNfGetPort :: "AuPacket \<Rightarrow> bool \<Rightarrow> u16 option" where
  "AuNfGetPort pkt dest =
     (case pk_data pkt of None \<Rightarrow> Some 0
      | Some ip \<Rightarrow>
          if pk_proto pkt \<noteq> IPV4_PROTOCOL_UDP \<and> pk_proto pkt \<noteq> IPV4_PROTOCOL_TCP then Some 0
          else map_option htons (load16 ip (unat (pk_l4_off pkt) + (if dest then 2 else 0))))"

definition AuNfRuleMatches :: "AuNfRule \<Rightarrow> AuPacket \<Rightarrow> bool option" where
  "AuNfRuleMatches r pkt =
     (case pk_data pkt of None \<Rightarrow> Some False
      | Some ip \<Rightarrow>
          if nf_hook r < 0 \<or> nf_hook r \<ge> NF_NUM_HOOKS then Some False
          else if \<not> AuNfDevMatch (nf_in_dev r) (pk_in_dev pkt) then Some False
          else if \<not> AuNfDevMatch (nf_out_dev r) (pk_out_dev pkt) then Some False
          else if nf_proto r \<noteq> 0 \<and> nf_proto r \<noteq> pk_proto pkt then Some False
          else do {
            src_ok \<leftarrow> (if nf_src_mask r = 0 then Some True
                       else map_option (\<lambda>a. a AND nf_src_mask r = nf_src r AND nf_src_mask r) (load32 ip 12));
            if \<not> src_ok then Some False
            else do {
              dst_ok \<leftarrow> (if nf_dst_mask r = 0 then Some True
                         else map_option (\<lambda>a. a AND nf_dst_mask r = nf_dst r AND nf_dst_mask r) (load32 ip 16));
              if \<not> dst_ok then Some False
              else do {
                sport \<leftarrow> AuNfGetPort pkt False;
                dport \<leftarrow> AuNfGetPort pkt True;
                Some (\<not> (nf_sport r \<noteq> 0 \<and> nf_sport r \<noteq> sport) \<and>
                      \<not> (nf_dport r \<noteq> 0 \<and> nf_dport r \<noteq> dport)) } } })"

text \<open>An ICMP packet is not answered; the list holds the packets answered.\<close>

definition AuNfSendReject :: "AuPacket \<Rightarrow> AuPacket list" where
  "AuNfSendReject pkt =
     (if pk_data pkt = None then [] else if pk_proto pkt = 1 then [] else [pkt])"

section \<open>The rule table\<close>

definition AuNetfilterInit :: nf_state where
  "AuNetfilterInit = \<lparr>nf_rules = replicate AU_NF_MAX_RULES None, nf_count = 0\<rparr>"

text \<open>\<open>mem\<close>: the allocation of the copy succeeds.\<close>

definition AuNetfilterAppend :: "bool \<Rightarrow> AuNfRule \<Rightarrow> nf_state \<Rightarrow> int \<times> nf_state" where
  "AuNetfilterAppend mem rule st =
     (if nf_count st \<ge> AU_NF_MAX_RULES then (-1, st)
      else if nf_hook rule < 0 \<or> nf_hook rule \<ge> NF_NUM_HOOKS then (-1, st)
      else if \<not> mem then (-1, st)
      else (0, st\<lparr>nf_rules := (nf_rules st)[nf_count st := Some rule], nf_count := nf_count st + 1\<rparr>))"

fun nf_shift :: "AuNfRule option list \<Rightarrow> nat \<Rightarrow> nat \<Rightarrow> AuNfRule option list" where
  "nf_shift rs i 0 = rs"
| "nf_shift rs i (Suc k) = nf_shift (rs[i := rs ! (i + 1)]) (i + 1) k"

definition AuNetfilterDelete :: "int \<Rightarrow> nf_state \<Rightarrow> int \<times> nf_state" where
  "AuNetfilterDelete index st =
     (if index < 0 \<or> index \<ge> int (nf_count st) then (-1, st)
      else let rs = nf_shift (nf_rules st) (nat index) (nf_count st - 1 - nat index)
           in (0, st\<lparr>nf_rules := rs[nf_count st - 1 := None], nf_count := nf_count st - 1\<rparr>))"

fun nf_clear :: "AuNfRule option list \<Rightarrow> nat \<Rightarrow> AuNfRule option list" where
  "nf_clear rs 0 = rs"
| "nf_clear rs (Suc k) = (nf_clear rs k)[k := None]"

definition AuNetfilterFlush :: "nf_state \<Rightarrow> int \<times> nf_state" where
  "AuNetfilterFlush st = (0, st\<lparr>nf_rules := nf_clear (nf_rules st) (nf_count st), nf_count := 0\<rparr>)"

definition AuNetfilterGetNum :: "nf_state \<Rightarrow> nat" where
  "AuNetfilterGetNum st = nf_count st"

definition AuNetfilterGetEntry :: "int \<Rightarrow> nf_state \<Rightarrow> AuNfRule option" where
  "AuNetfilterGetEntry index st =
     (if index < 0 \<or> index \<ge> int (nf_count st) then None else nf_rules st ! nat index)"

section \<open>The hook\<close>

text \<open>The result: the value returned, the packet with its verdict, the rejects sent.\<close>

fun nf_hook_loop :: "AuNfRule option list \<Rightarrow> int \<Rightarrow> AuPacket \<Rightarrow> (int \<times> AuPacket \<times> AuPacket list) option" where
  "nf_hook_loop [] hook pkt = Some (pk_verdict pkt, pkt, [])"
| "nf_hook_loop (None # rs) hook pkt = nf_hook_loop rs hook pkt"
| "nf_hook_loop (Some r # rs) hook pkt =
     (if nf_hook r \<noteq> hook then nf_hook_loop rs hook pkt
      else do {
        m \<leftarrow> AuNfRuleMatches r pkt;
        if \<not> m then nf_hook_loop rs hook pkt
        else let pkt' = pkt\<lparr>pk_verdict := nf_target r\<rparr> in
          if nf_target r = NF_DROP then Some (NF_DROP, pkt', [])
          else if nf_target r = NF_REJECT then Some (NF_DROP, pkt', AuNfSendReject pkt')
          else if nf_target r = NF_NAT_STUB then nf_hook_loop rs hook pkt'
          else if nf_target r = NF_ACCEPT then Some (NF_ACCEPT, pkt', [])
          else nf_hook_loop rs hook pkt' })"

definition AuNetfilterHook :: "nf_state \<Rightarrow> int \<Rightarrow> AuPacket \<Rightarrow> (int \<times> AuPacket \<times> AuPacket list) option" where
  "AuNetfilterHook st hook pkt =
     (if hook < 0 \<or> hook \<ge> NF_NUM_HOOKS then Some (NF_ACCEPT, pkt, [])
      else nf_hook_loop (take (nf_count st) (nf_rules st)) hook (pkt\<lparr>pk_verdict := NF_ACCEPT\<rparr>))"

section \<open>The policy installed at boot\<close>

definition AuNfAddSimple ::
    "bool \<Rightarrow> int \<Rightarrow> string option \<Rightarrow> string option \<Rightarrow> u8 \<Rightarrow> u16 \<Rightarrow> u16 \<Rightarrow> int \<Rightarrow> nf_state \<Rightarrow> nf_state" where
  "AuNfAddSimple mem hook in_dev out_dev proto sport dport target st =
     snd (AuNetfilterAppend mem
       \<lparr>nf_hook = hook,
        nf_in_dev = (case in_dev of None \<Rightarrow> '''' | Some d \<Rightarrow> take (AU_NF_IFNAMSIZ - 1) d),
        nf_out_dev = (case out_dev of None \<Rightarrow> '''' | Some d \<Rightarrow> take (AU_NF_IFNAMSIZ - 1) d),
        nf_proto = proto, nf_src = 0, nf_src_mask = 0, nf_dst = 0, nf_dst_mask = 0,
        nf_sport = sport, nf_dport = dport, nf_target = target\<rparr> st)"

text \<open>\<open>mem i\<close>: the \<open>i\<close>-th allocation succeeds.\<close>

definition AuNetfilterInstallXrPolicy :: "(nat \<Rightarrow> bool) \<Rightarrow> nf_state \<Rightarrow> nf_state" where
  "AuNetfilterInstallXrPolicy mem st0 =
     (let radio = Some ''virtio-net'';
          st1 = AuNfAddSimple (mem 0) NF_LOCAL_IN radio None IPV4_PROTOCOL_UDP 0 67 NF_ACCEPT st0;
          st2 = AuNfAddSimple (mem 1) NF_LOCAL_IN radio None IPV4_PROTOCOL_UDP 0 68 NF_ACCEPT st1;
          st3 = AuNfAddSimple (mem 2) NF_LOCAL_IN radio None IPV4_PROTOCOL_UDP 53 0 NF_ACCEPT st2;
          st4 = AuNfAddSimple (mem 3) NF_LOCAL_IN radio None 1 0 0 NF_ACCEPT st3;
          st5 = AuNfAddSimple (mem 4) NF_LOCAL_IN radio None IPV6_NEXT_ICMPV6 0 0 NF_ACCEPT st4;
          st6 = AuNfAddSimple (mem 5) NF_LOCAL_IN radio None IPV4_PROTOCOL_TCP 0 0 NF_ACCEPT st5;
          st7 = AuNfAddSimple (mem 6) NF_LOCAL_IN radio None 0 0 0 NF_DROP st6
      in AuNfAddSimple (mem 7) NF_FORWARD None None 0 0 0 NF_DROP st7)"

section \<open>The table as a list of rules\<close>

definition nf_wf :: "nf_state \<Rightarrow> bool" where
  "nf_wf st \<longleftrightarrow> length (nf_rules st) = AU_NF_MAX_RULES \<and> nf_count st \<le> AU_NF_MAX_RULES \<and>
     (\<forall>i < AU_NF_MAX_RULES. nf_rules st ! i = None \<longleftrightarrow> nf_count st \<le> i) \<and>
     (\<forall>i r. i < AU_NF_MAX_RULES \<longrightarrow> nf_rules st ! i = Some r \<longrightarrow> 0 \<le> nf_hook r \<and> nf_hook r < NF_NUM_HOOKS)"

definition nf_chain :: "nf_state \<Rightarrow> AuNfRule list" where
  "nf_chain st = map the (take (nf_count st) (nf_rules st))"

lemma nf_chain_Some: "nf_wf st \<Longrightarrow> take (nf_count st) (nf_rules st) = map Some (nf_chain st)"
  by (rule nth_equalityI) (auto simp: nf_wf_def nf_chain_def)

lemma nf_init_wf: "nf_wf AuNetfilterInit" "nf_chain AuNetfilterInit = []"
  by (auto simp: nf_wf_def AuNetfilterInit_def nf_chain_def)

lemma nf_append_wf: "nf_wf st \<Longrightarrow> nf_wf (snd (AuNetfilterAppend mem r st))"
  by (auto simp: nf_wf_def AuNetfilterAppend_def nth_list_update not_le)

lemma nf_append_chain:
  "nf_wf st \<Longrightarrow> mem \<Longrightarrow> nf_count st < 64 \<Longrightarrow> 0 \<le> nf_hook r \<Longrightarrow> nf_hook r < 5 \<Longrightarrow>
   nf_chain (snd (AuNetfilterAppend mem r st)) = nf_chain st @ [r]"
  by (auto simp: nf_wf_def AuNetfilterAppend_def nf_chain_def AU_NF_MAX_RULES_def NF_NUM_HOOKS_def
      take_Suc_conv_app_nth)

lemma length_nf_shift [simp]: "length (nf_shift rs i k) = length rs"
  by (induction rs i k rule: nf_shift.induct) auto

lemma nth_nf_shift:
  "i + k < length rs \<Longrightarrow> j < length rs \<Longrightarrow>
   nf_shift rs i k ! j = (if i \<le> j \<and> j < i + k then rs ! (j + 1) else rs ! j)"
  by (induction rs i k arbitrary: j rule: nf_shift.induct) (auto simp: nth_list_update not_less)

lemma nf_delete_ok:
  assumes "nf_wf st" "0 \<le> i" "i < int (nf_count st)"
  shows "nf_wf (snd (AuNetfilterDelete i st))"
    "nf_chain (snd (AuNetfilterDelete i st)) = remove_at (nat i) (nf_chain st)"
proof -
  let ?c = "nf_count st" and ?rs = "nf_rules st" and ?i = "nat i"
  define t where "t = (nf_shift ?rs ?i (?c - 1 - ?i))[?c - 1 := None]"
  have b: "?i < ?c" "?c \<le> length ?rs" "length ?rs = AU_NF_MAX_RULES" "0 < ?c"
    using assms by (auto simp: nf_wf_def)
  have st: "snd (AuNetfilterDelete i st) = st\<lparr>nf_rules := t, nf_count := ?c - 1\<rparr>"
    using assms by (simp add: AuNetfilterDelete_def Let_def t_def)
  have len: "length t = AU_NF_MAX_RULES" using b by (simp add: t_def)
  have nth: "t ! j = (if j = ?c - 1 then None else if ?i \<le> j \<and> j < ?c - 1 then ?rs ! (j + 1) else ?rs ! j)"
    if "j < AU_NF_MAX_RULES" for j
    using that b by (auto simp: nth_list_update nth_nf_shift t_def)
  have none: "?rs ! j = None \<longleftrightarrow> ?c \<le> j" if "j < AU_NF_MAX_RULES" for j
    using assms(1) that by (simp add: nf_wf_def)
  have "t ! j = None \<longleftrightarrow> ?c - 1 \<le> j" if "j < AU_NF_MAX_RULES" for j
  proof (cases "?i \<le> j \<and> j < ?c - 1")
    case True
    then have "j + 1 < AU_NF_MAX_RULES" using b by linarith
    then show ?thesis using nth [OF that] none [of "j + 1"] True by auto
  qed (use nth [OF that] none [OF that] b in auto)
  moreover have "0 \<le> nf_hook r \<and> nf_hook r < NF_NUM_HOOKS" if "j < AU_NF_MAX_RULES" "t ! j = Some r" for j r
  proof -
    have "\<exists>k < AU_NF_MAX_RULES. ?rs ! k = Some r"
      using nth [OF that(1)] that b by (cases "?i \<le> j \<and> j < ?c - 1")
        (auto split: if_splits intro: exI [of _ "Suc j"] exI [of _ j])
    then show ?thesis using assms(1) by (auto simp: nf_wf_def)
  qed
  ultimately show "nf_wf (snd (AuNetfilterDelete i st))"
    unfolding st nf_wf_def using len b by auto
  show "nf_chain (snd (AuNetfilterDelete i st)) = remove_at ?i (nf_chain st)"
    unfolding st
  proof (rule nth_equalityI)
    show "length (nf_chain (st\<lparr>nf_rules := t, nf_count := ?c - 1\<rparr>)) = length (remove_at ?i (nf_chain st))"
      using b len by (simp add: nf_chain_def)
    fix j assume "j < length (nf_chain (st\<lparr>nf_rules := t, nf_count := ?c - 1\<rparr>))"
    then have j: "j < ?c - 1" using b len by (simp add: nf_chain_def)
    then show "nf_chain (st\<lparr>nf_rules := t, nf_count := ?c - 1\<rparr>) ! j = remove_at ?i (nf_chain st) ! j"
      using b len nth [of j] by (simp add: nf_chain_def nth_remove_at)
  qed
qed

lemma length_nf_clear [simp]: "length (nf_clear rs k) = length rs"
  by (induction rs k rule: nf_clear.induct) auto

lemma nth_nf_clear: "k \<le> length rs \<Longrightarrow> j < length rs \<Longrightarrow> nf_clear rs k ! j = (if j < k then None else rs ! j)"
  by (induction rs k rule: nf_clear.induct) (auto simp: nth_list_update less_Suc_eq)

lemma nf_flush_ok: "nf_wf st \<Longrightarrow> nf_wf (snd (AuNetfilterFlush st)) \<and> nf_chain (snd (AuNetfilterFlush st)) = []"
  by (auto simp: nf_wf_def AuNetfilterFlush_def nf_chain_def nth_nf_clear)

text \<open>The table as its clients see it: a list with at most 64 rules.\<close>

datatype nf_cmd = NfAppend bool AuNfRule | NfDelete int | NfFlush

fun nf_exec :: "nf_cmd \<Rightarrow> nf_state \<Rightarrow> int \<times> nf_state" where
  "nf_exec (NfAppend mem r) st = AuNetfilterAppend mem r st"
| "nf_exec (NfDelete i) st = AuNetfilterDelete i st"
| "nf_exec NfFlush st = AuNetfilterFlush st"

fun chain_exec :: "nf_cmd \<Rightarrow> AuNfRule list \<Rightarrow> int \<times> AuNfRule list" where
  "chain_exec (NfAppend mem r) rs =
     (if length rs < 64 \<and> 0 \<le> nf_hook r \<and> nf_hook r < 5 \<and> mem then (0, rs @ [r]) else (-1, rs))"
| "chain_exec (NfDelete i) rs =
     (if 0 \<le> i \<and> i < int (length rs) then (0, remove_at (nat i) rs) else (-1, rs))"
| "chain_exec NfFlush rs = (0, [])"

fun run_cmds :: "('c \<Rightarrow> 's \<Rightarrow> int \<times> 's) \<Rightarrow> 'c list \<Rightarrow> 's \<Rightarrow> int list \<times> 's" where
  "run_cmds f [] s = ([], s)"
| "run_cmds f (c # cs) s = (let (r, s1) = f c s; (rs, s2) = run_cmds f cs s1 in (r # rs, s2))"

lemma nf_chain_length: "nf_wf st \<Longrightarrow> length (nf_chain st) = nf_count st"
  by (simp add: nf_chain_def nf_wf_def)

lemma nf_exec_refines:
  assumes "nf_wf st"
  shows "nf_wf (snd (nf_exec c st))" "fst (nf_exec c st) = fst (chain_exec c (nf_chain st))"
    "nf_chain (snd (nf_exec c st)) = snd (chain_exec c (nf_chain st))"
proof -
  have "nf_wf (snd (nf_exec c st)) \<and> fst (nf_exec c st) = fst (chain_exec c (nf_chain st)) \<and>
      nf_chain (snd (nf_exec c st)) = snd (chain_exec c (nf_chain st))"
  proof (cases c)
    case (NfAppend mem r)
    have "fst (AuNetfilterAppend mem r st) = 0 \<longleftrightarrow>
        nf_count st < 64 \<and> 0 \<le> nf_hook r \<and> nf_hook r < 5 \<and> mem"
      "fst (AuNetfilterAppend mem r st) \<noteq> 0 \<Longrightarrow> AuNetfilterAppend mem r st = (-1, st)"
      by (simp_all add: AuNetfilterAppend_def AU_NF_MAX_RULES_def NF_NUM_HOOKS_def not_le not_less
          split: if_splits)
    then show ?thesis using assms NfAppend nf_append_wf [OF assms] nf_append_chain [OF assms]
      by (auto simp: nf_chain_length)
  next
    case (NfDelete i)
    have "fst (AuNetfilterDelete i st) = 0 \<longleftrightarrow> 0 \<le> i \<and> i < int (nf_count st)"
      "\<not> (0 \<le> i \<and> i < int (nf_count st)) \<Longrightarrow> AuNetfilterDelete i st = (-1, st)"
      by (auto simp: AuNetfilterDelete_def Let_def)
    then show ?thesis using assms NfDelete nf_delete_ok [OF assms]
      by (auto simp: nf_chain_length)
  next
    case NfFlush
    then show ?thesis using nf_flush_ok [OF assms] by (simp add: AuNetfilterFlush_def)
  qed
  then show "nf_wf (snd (nf_exec c st))" "fst (nf_exec c st) = fst (chain_exec c (nf_chain st))"
    "nf_chain (snd (nf_exec c st)) = snd (chain_exec c (nf_chain st))" by auto
qed

lemma nf_run_refines:
  "nf_wf st \<Longrightarrow> nf_wf (snd (run_cmds nf_exec cs st)) \<and>
     fst (run_cmds nf_exec cs st) = fst (run_cmds chain_exec cs (nf_chain st)) \<and>
     nf_chain (snd (run_cmds nf_exec cs st)) = snd (run_cmds chain_exec cs (nf_chain st))"
proof (induction cs arbitrary: st)
  case Nil
  then show ?case by simp
next
  case (Cons c cs)
  obtain r st1 where 1: "nf_exec c st = (r, st1)" by fastforce
  obtain r' rs1 where 2: "chain_exec c (nf_chain st) = (r', rs1)" by fastforce
  have "nf_wf st1" "r = r'" "nf_chain st1 = rs1"
    using nf_exec_refines [OF Cons.prems, of c] 1 2 by auto
  with Cons.IH [of st1] 1 2 show ?case by (auto split: prod.splits)
qed

text \<open>
  C22. Filter administration from boot on: any sequence of appends, deletions and flushes
  gives the return codes and the rule list of the same sequence on a plain list bounded by
  64 rules; the array has no gaps and no stale slots.
\<close>

theorem AuNetfilter_table_refines:
  "fst (run_cmds nf_exec cs AuNetfilterInit) = fst (run_cmds chain_exec cs []) \<and>
   nf_chain (snd (run_cmds nf_exec cs AuNetfilterInit)) = snd (run_cmds chain_exec cs []) \<and>
   nf_wf (snd (run_cmds nf_exec cs AuNetfilterInit))"
  using nf_run_refines [OF nf_init_wf(1), of cs] by (simp add: nf_init_wf(2))

section \<open>What the hook decides\<close>

definition nf_readable :: "AuPacket \<Rightarrow> bool" where
  "nf_readable pkt \<longleftrightarrow> (case pk_data pkt of None \<Rightarrow> True
     | Some ip \<Rightarrow> 20 \<le> length ip \<and> unat (pk_l4_off pkt) + 4 \<le> length ip)"

definition nf_hits :: "int \<Rightarrow> AuPacket \<Rightarrow> AuNfRule \<Rightarrow> bool" where
  "nf_hits hook pkt r \<longleftrightarrow> nf_hook r = hook \<and> AuNfRuleMatches r pkt = Some True"

definition nf_terminal :: "AuNfRule \<Rightarrow> bool" where
  "nf_terminal r \<longleftrightarrow> nf_target r \<in> {NF_ACCEPT, NF_DROP, NF_REJECT}"

lemma getport_verdict [simp]: "AuNfGetPort (pkt\<lparr>pk_verdict := v\<rparr>) d = AuNfGetPort pkt d"
  by (cases "pk_data pkt") (simp_all add: AuNfGetPort_def)

lemma matches_verdict [simp]: "AuNfRuleMatches r (pkt\<lparr>pk_verdict := v\<rparr>) = AuNfRuleMatches r pkt"
  by (cases "pk_data pkt") (simp_all add: AuNfRuleMatches_def cong: if_cong)

lemma nf_hits_verdict [simp]: "nf_hits h (pkt\<lparr>pk_verdict := v\<rparr>) = nf_hits h pkt"
  by (rule ext) (simp add: nf_hits_def)

lemma readable_verdict [simp]: "nf_readable (pkt\<lparr>pk_verdict := v\<rparr>) = nf_readable pkt"
  by (cases "pk_data pkt") (simp_all add: nf_readable_def)

lemma getport_Some:
  assumes "nf_readable pkt"
  shows "\<exists>v. AuNfGetPort pkt d = Some v"
proof (cases "pk_data pkt")
  case (Some ip)
  then have "unat (pk_l4_off pkt) + (if d then 2 else 0) + 1 < length ip"
    using assms by (simp add: nf_readable_def)
  from load16_Some [OF this] Some show ?thesis by (auto simp: AuNfGetPort_def)
qed (simp add: AuNfGetPort_def)

lemma matches_Some:
  assumes "nf_readable pkt"
  shows "\<exists>m. AuNfRuleMatches r pkt = Some m"
proof (cases "pk_data pkt")
  case (Some ip)
  then obtain a b sp dp where "load32 ip 12 = Some a" "load32 ip 16 = Some b"
    "AuNfGetPort pkt False = Some sp" "AuNfGetPort pkt True = Some dp"
    using assms load32_Some [of 12 ip] load32_Some [of 16 ip] getport_Some [OF assms]
    by (fastforce simp: nf_readable_def)
  with Some show ?thesis by (auto simp: AuNfRuleMatches_def)
qed (auto simp: AuNfRuleMatches_def)

definition hook_result :: "int \<Rightarrow> AuPacket \<Rightarrow> AuNfRule list \<Rightarrow> int \<times> int \<times> bool" where
  "hook_result hook pkt rs =
     (case List.find (\<lambda>r. nf_hits hook pkt r \<and> nf_terminal r) rs of
        Some r \<Rightarrow> (if nf_target r = NF_ACCEPT then NF_ACCEPT else NF_DROP, nf_target r,
                   nf_target r = NF_REJECT)
      | None \<Rightarrow> let v = last (pk_verdict pkt # map nf_target (filter (nf_hits hook pkt) rs))
                in (v, v, False))"

lemma hook_loop_result:
  assumes "nf_readable pkt"
  shows "\<exists>pkt'. nf_hook_loop (map Some rs) hook pkt =
      Some (fst (hook_result hook pkt rs), pkt',
        if snd (snd (hook_result hook pkt rs)) then AuNfSendReject pkt' else []) \<and>
    pkt' = pkt\<lparr>pk_verdict := fst (snd (hook_result hook pkt rs))\<rparr>"
  using assms
proof (induction rs arbitrary: pkt)
  case Nil
  then show ?case by (simp add: hook_result_def Let_def)
next
  case (Cons r rs)
  obtain m where m: "AuNfRuleMatches r pkt = Some m" using matches_Some [OF Cons.prems] by blast
  show ?case
  proof (cases "nf_hits hook pkt r")
    case False
    then have "nf_hook_loop (map Some (r # rs)) hook pkt = nf_hook_loop (map Some rs) hook pkt"
      using m by (simp add: nf_hits_def)
    moreover have "hook_result hook pkt (r # rs) = hook_result hook pkt rs"
      using False by (simp add: hook_result_def Let_def split: option.splits)
    ultimately show ?thesis using Cons.IH [OF Cons.prems] by simp
  next
    case hit: True
    show ?thesis
    proof (cases "nf_terminal r")
      case True
      then show ?thesis using hit m
        by (auto simp: hook_result_def nf_hits_def nf_terminal_def nf_verdict_defs Let_def)
    next
      case False
      let ?p = "pkt\<lparr>pk_verdict := nf_target r\<rparr>"
      have "nf_hook_loop (map Some (r # rs)) hook pkt = nf_hook_loop (map Some rs) hook ?p"
        using False hit m by (auto simp: nf_hits_def nf_terminal_def Let_def)
      moreover have "hook_result hook pkt (r # rs) = hook_result hook ?p rs"
        using False hit by (simp add: hook_result_def Let_def split: option.splits)
      ultimately show ?thesis using Cons.IH [of ?p] Cons.prems by simp
    qed
  qed
qed

lemma AuNetfilterHook_result:
  assumes "nf_wf st" "nf_readable pkt" "0 \<le> hook" "hook < 5"
  shows "\<exists>pkt' rejects. AuNetfilterHook st hook pkt =
      Some (fst (hook_result hook (pkt\<lparr>pk_verdict := NF_ACCEPT\<rparr>) (nf_chain st)), pkt', rejects) \<and>
    (rejects \<noteq> [] \<longleftrightarrow> (\<exists>r. List.find (\<lambda>r. nf_hits hook pkt r \<and> nf_terminal r) (nf_chain st) = Some r \<and>
       nf_target r = NF_REJECT) \<and> pk_data pkt \<noteq> None \<and> pk_proto pkt \<noteq> 1)"
proof -
  let ?p = "pkt\<lparr>pk_verdict := NF_ACCEPT\<rparr>"
  have "snd (snd (hook_result hook ?p (nf_chain st))) \<longleftrightarrow>
      (\<exists>r. List.find (\<lambda>r. nf_hits hook pkt r \<and> nf_terminal r) (nf_chain st) = Some r \<and> nf_target r = NF_REJECT)"
    by (simp add: hook_result_def Let_def split: option.splits)
  with hook_loop_result [of ?p "nf_chain st" hook] assms show ?thesis
    by (auto simp: AuNetfilterHook_def nf_chain_Some NF_NUM_HOOKS_def AuNfSendReject_def)
qed

text \<open>
  C23. On a readable packet the hook decides by the first rule of its chain that matches and
  is an accept, a drop or a reject: accept accepts, drop and reject drop, and only a reject
  is answered, and not for ICMP. When no such rule matches, the target of the last matching rule
  is returned (a NAT target, which the caller takes for no drop), and accept when no rule matches.
\<close>

theorem AuNetfilterHook_first_match:
  assumes "nf_wf st" "nf_readable pkt" "0 \<le> hook" "hook < 5"
  shows "\<exists>pkt' rejects. AuNetfilterHook st hook pkt = Some
      (case List.find (\<lambda>r. nf_hits hook pkt r \<and> nf_terminal r) (nf_chain st) of
         Some r \<Rightarrow> if nf_target r = NF_ACCEPT then NF_ACCEPT else NF_DROP
       | None \<Rightarrow> last (NF_ACCEPT # map nf_target (filter (nf_hits hook pkt) (nf_chain st))),
       pkt', rejects) \<and>
    (rejects \<noteq> [] \<longleftrightarrow> (\<exists>r. List.find (\<lambda>r. nf_hits hook pkt r \<and> nf_terminal r) (nf_chain st) = Some r \<and>
       nf_target r = NF_REJECT) \<and> pk_data pkt \<noteq> None \<and> pk_proto pkt \<noteq> 1)"
proof -
  have eq: "fst (hook_result hook (pkt\<lparr>pk_verdict := NF_ACCEPT\<rparr>) (nf_chain st)) =
      (case List.find (\<lambda>r. nf_hits hook pkt r \<and> nf_terminal r) (nf_chain st) of
         Some r \<Rightarrow> if nf_target r = NF_ACCEPT then NF_ACCEPT else NF_DROP
       | None \<Rightarrow> last (NF_ACCEPT # map nf_target (filter (nf_hits hook pkt) (nf_chain st))))"
    by (simp add: hook_result_def Let_def split: option.splits)
  show ?thesis using AuNetfilterHook_result [OF assms] unfolding eq .
qed

section \<open>The boot policy\<close>

definition simple_rule :: "int \<Rightarrow> string \<Rightarrow> u8 \<Rightarrow> u16 \<Rightarrow> u16 \<Rightarrow> int \<Rightarrow> AuNfRule" where
  "simple_rule hook dev proto sport dport target =
     \<lparr>nf_hook = hook, nf_in_dev = dev, nf_out_dev = '''', nf_proto = proto, nf_src = 0, nf_src_mask = 0,
      nf_dst = 0, nf_dst_mask = 0, nf_sport = sport, nf_dport = dport, nf_target = target\<rparr>"

definition xr_chain :: "AuNfRule list" where
  "xr_chain =
     [simple_rule 1 ''virtio-net'' 17 0 67 NF_ACCEPT, simple_rule 1 ''virtio-net'' 17 0 68 NF_ACCEPT,
      simple_rule 1 ''virtio-net'' 17 53 0 NF_ACCEPT, simple_rule 1 ''virtio-net'' 1 0 0 NF_ACCEPT,
      simple_rule 1 ''virtio-net'' 58 0 0 NF_ACCEPT, simple_rule 1 ''virtio-net'' 6 0 0 NF_ACCEPT,
      simple_rule 1 ''virtio-net'' 0 0 0 NF_DROP, simple_rule 2 '''' 0 0 0 NF_DROP]"

abbreviation xr_state :: nf_state where
  "xr_state \<equiv> AuNetfilterInstallXrPolicy (\<lambda>_. True) AuNetfilterInit"

lemma add_simple_ok:
  assumes "nf_wf st" "nf_count st < 64" "0 \<le> hook" "hook < 5"
  shows "nf_wf (AuNfAddSimple True hook dev None proto sport dport target st) \<and>
    nf_count (AuNfAddSimple True hook dev None proto sport dport target st) = nf_count st + 1 \<and>
    nf_chain (AuNfAddSimple True hook dev None proto sport dport target st) =
      nf_chain st @ [simple_rule hook (case dev of None \<Rightarrow> '''' | Some d \<Rightarrow> take 15 d) proto sport dport target]"
proof -
  define r where "r = simple_rule hook (case dev of None \<Rightarrow> [] | Some d \<Rightarrow> take 15 d) proto sport dport target"
  have eq: "AuNfAddSimple True hook dev None proto sport dport target st = snd (AuNetfilterAppend True r st)"
    by (cases dev) (simp_all add: AuNfAddSimple_def AU_NF_IFNAMSIZ_def simple_rule_def r_def)
  have h: "nf_hook r = hook" by (simp add: r_def simple_rule_def)
  have "nf_count (snd (AuNetfilterAppend True r st)) = nf_count st + 1"
    using assms h by (simp add: AuNetfilterAppend_def AU_NF_MAX_RULES_def NF_NUM_HOOKS_def)
  then show ?thesis
    using nf_append_wf [OF assms(1)] nf_append_chain [OF assms(1) TrueI assms(2), of r] assms h
    unfolding eq r_def [symmetric] by simp
qed

lemma xr_state_ok: "nf_wf xr_state \<and> nf_chain xr_state = xr_chain"
proof -
  have "nf_count AuNetfilterInit = 0" by (simp add: AuNetfilterInit_def)
  then show ?thesis
    unfolding AuNetfilterInstallXrPolicy_def Let_def
    by (simp add: add_simple_ok nf_init_wf nf_hook_defs ip_proto_defs xr_chain_def)
qed

lemma simple_rule_hits:
  assumes "pk_data pkt = Some ip" "AuNfGetPort pkt False = Some sp" "AuNfGetPort pkt True = Some dp"
    "0 \<le> hook" "hook < 5"
  shows "nf_hits h pkt (simple_rule hook dev proto sport dport target) \<longleftrightarrow>
     h = hook \<and> AuNfDevMatch dev (pk_in_dev pkt) \<and> (proto = 0 \<or> proto = pk_proto pkt) \<and>
     (sport = 0 \<or> sport = sp) \<and> (dport = 0 \<or> dport = dp)"
  using assms by (auto simp: nf_hits_def simple_rule_def AuNfRuleMatches_def NF_NUM_HOOKS_def
      AuNfDevMatch_def [of "''''"])

lemma xr_verdicts:
  assumes "nf_readable pkt" "pk_data pkt = Some ip" "pk_in_dev pkt = Some nic"
    "AuNfGetPort pkt False = Some sp" "AuNfGetPort pkt True = Some dp" "0 \<le> hook" "hook < 5"
  shows "map_option fst (AuNetfilterHook xr_state hook pkt) =
    Some (if hook = NF_FORWARD then NF_DROP
          else if hook = NF_LOCAL_IN \<and> nn_filename nic \<in> {''virtio-net'', ''e1000''} then
            (if pk_proto pkt = 17 \<and> (dp = 67 \<or> dp = 68 \<or> sp = 53) \<or> pk_proto pkt \<in> {1, 58, 6}
             then NF_ACCEPT else NF_DROP)
          else NF_ACCEPT)"
proof -
  let ?p = "pkt\<lparr>pk_verdict := NF_ACCEPT\<rparr>"
  have dev: "AuNfDevMatch ''virtio-net'' (Some nic) \<longleftrightarrow> nn_filename nic \<in> {''virtio-net'', ''e1000''}"
    by (auto simp: AuNfDevMatch_def)
  have any: "AuNfDevMatch '''' (Some nic)" by (simp add: AuNfDevMatch_def)
  have hits: "nf_hits k pkt (simple_rule h d proto sport dport target) \<longleftrightarrow>
      k = h \<and> AuNfDevMatch d (Some nic) \<and> (proto = 0 \<or> proto = pk_proto pkt) \<and>
      (sport = 0 \<or> sport = sp) \<and> (dport = 0 \<or> dport = dp)" if "0 \<le> h" "h < 5"
    for k h d proto sport dport target
    using simple_rule_hits [OF assms(2,4,5) that] assms(3) by simp
  have trm: "nf_terminal (simple_rule h d proto sport dport NF_ACCEPT)"
    "nf_terminal (simple_rule h d proto sport dport NF_DROP)" for h d proto sport dport
    by (simp_all add: nf_terminal_def simple_rule_def)
  have tgt: "nf_target (simple_rule h d proto sport dport t) = t" for h d proto sport dport t
    by (simp add: simple_rule_def)
  have "map_option fst (AuNetfilterHook xr_state hook pkt) = Some (fst (hook_result hook ?p xr_chain))"
    using AuNetfilterHook_result [OF xr_state_ok [THEN conjunct1] assms(1,6,7)] xr_state_ok by auto
  also have "fst (hook_result hook ?p xr_chain) =
      (if hook = NF_FORWARD then NF_DROP
       else if hook = NF_LOCAL_IN \<and> nn_filename nic \<in> {''virtio-net'', ''e1000''} then
         (if pk_proto pkt = 17 \<and> (dp = 67 \<or> dp = 68 \<or> sp = 53) \<or> pk_proto pkt \<in> {1, 58, 6}
          then NF_ACCEPT else NF_DROP)
       else NF_ACCEPT)"
  proof -
    have ne: "NF_DROP \<noteq> NF_ACCEPT" by (simp add: nf_verdict_defs)
    note red = hook_result_def xr_chain_def nf_hits_verdict NF_FORWARD_def NF_LOCAL_IN_def
      hits dev any trm tgt ne Let_def
    consider "hook = 2" | "hook = 1" "nn_filename nic \<notin> {''virtio-net'', ''e1000''}"
      | "hook \<noteq> 1" "hook \<noteq> 2" | "hook = 1" "nn_filename nic \<in> {''virtio-net'', ''e1000''}" by blast
    then show ?thesis
    proof cases
      case 4
      consider "pk_proto pkt = 17" "dp = 67" | "pk_proto pkt = 17" "dp = 68" | "pk_proto pkt = 17" "sp = 53" "dp \<noteq> 67" "dp \<noteq> 68"
        | "pk_proto pkt = 17" "sp \<noteq> 53" "dp \<noteq> 67" "dp \<noteq> 68" | "pk_proto pkt = 1"
        | "pk_proto pkt = 58" | "pk_proto pkt = 6" | "pk_proto pkt \<notin> {17, 1, 58, 6}" by blast
      then show ?thesis using 4 by cases (simp_all add: red)
    qed (simp_all add: red)
  qed
  finally show ?thesis .
qed

text \<open>
  The policy installed at boot: a packet from the radio for this host is accepted
  exactly if it is UDP to port 67 or 68 or from port 53, or ICMP, ICMPv6 or TCP; nothing is
  forwarded; every other packet passes, among them all that come from an interface of
  another name.
\<close>

theorem AuNetfilterInstallXrPolicy_verdicts:
  assumes "nf_readable pkt" "pk_data pkt = Some ip" "pk_in_dev pkt = Some nic"
    "AuNfGetPort pkt False = Some sp" "AuNfGetPort pkt True = Some dp" "0 \<le> hook" "hook < 5"
  shows "map_option fst (AuNetfilterHook xr_state hook pkt) =
    Some (if hook = NF_FORWARD then NF_DROP
          else if hook = NF_LOCAL_IN \<and> nn_filename nic \<in> {''virtio-net'', ''e1000''} then
            (if pk_proto pkt = 17 \<and> (dp = 67 \<or> dp = 68 \<or> sp = 53) \<or> pk_proto pkt \<in> {1, 58, 6}
             then NF_ACCEPT else NF_DROP)
          else NF_ACCEPT)"
  by (rule xr_verdicts [OF assms])

section \<open>Concrete instances\<close>

definition demo_nic :: "string \<Rightarrow> net_node" where
  "demo_nic name = \<lparr>nn_filename = name, nn_device = None\<rparr>"

text \<open>A UDP datagram from port 53 to port 1000.\<close>

definition demo_packet :: "string \<Rightarrow> AuPacket" where
  "demo_packet name = zero_packet\<lparr>pk_data := Some (replicate 20 0 @ [0, 53, 3, 232, 0, 8, 0, 0]),
     pk_l4_off := 20, pk_proto := 17, pk_in_dev := Some (demo_nic name)\<rparr>"

lemma demo_packet_readable: "nf_readable (demo_packet name)"
  by (simp add: nf_readable_def demo_packet_def zero_packet_def)

lemma demo_packet_ports:
  "AuNfGetPort (demo_packet name) False = Some 53" "AuNfGetPort (demo_packet name) True = Some 1000"
  by (simp_all add: AuNfGetPort_def demo_packet_def zero_packet_def load16_def byte_at_def htons_def
      nth_append ip_proto_defs)

lemma demo_packet_data: "pk_data (demo_packet name) = Some (replicate 20 0 @ [0, 53, 3, 232, 0, 8, 0, 0])"
  "pk_in_dev (demo_packet name) = Some (demo_nic name)" "pk_proto (demo_packet name) = 17"
  by (simp_all add: demo_packet_def)

text \<open>A reply from port 53 on the radio: the third rule accepts it before the seventh drops it.\<close>

theorem AuNetfilterHook_first_match_witness:
  "\<exists>pkt' rejects. AuNetfilterHook xr_state 1 (demo_packet ''e1000'') = Some (NF_ACCEPT, pkt', rejects) \<and>
     rejects = []"
proof -
  let ?p = "demo_packet ''e1000''"
  have hits: "nf_hits 1 ?p (simple_rule h d proto sport dport t) \<longleftrightarrow>
      1 = h \<and> AuNfDevMatch d (Some (demo_nic ''e1000'')) \<and> (proto = 0 \<or> proto = 17) \<and>
      (sport = 0 \<or> sport = 53) \<and> (dport = 0 \<or> dport = 1000)" if "0 \<le> h" "h < 5" for h d proto sport dport t
    using simple_rule_hits [OF demo_packet_data(1) demo_packet_ports that] by (simp add: demo_packet_data)
  have "AuNfDevMatch ''virtio-net'' (Some (demo_nic ''e1000''))" by (simp add: AuNfDevMatch_def demo_nic_def)
  then have find: "List.find (\<lambda>r. nf_hits 1 ?p r \<and> nf_terminal r) (nf_chain xr_state) =
      Some (simple_rule 1 ''virtio-net'' 17 53 0 NF_ACCEPT)"
    by (simp add: xr_state_ok xr_chain_def hits) (simp add: simple_rule_def nf_terminal_def)
  show ?thesis
    using AuNetfilterHook_first_match [OF xr_state_ok [THEN conjunct1] demo_packet_readable [of "''e1000''"], of 1]
    by (simp add: find) (simp add: simple_rule_def nf_verdict_defs)
qed

theorem AuNetfilterInstallXrPolicy_verdicts_witness:
  "map_option fst (AuNetfilterHook xr_state 1 (demo_packet ''e1000'')) = Some NF_ACCEPT"
  using AuNetfilterInstallXrPolicy_verdicts [OF demo_packet_readable demo_packet_data(1,2) demo_packet_ports, of 1]
  by (simp only: demo_packet_data) (simp add: demo_nic_def NF_FORWARD_def NF_LOCAL_IN_def)

end
