(* ===== verification/Route.thy ===== *)
theory Route
  imports NetTypes "HOL-Library.Product_Lexorder"
begin

text \<open>
  The routing tables (KernelAA64/Net/route.c), IPv4 and IPv6. A table is the sequence of
  entries that the kernel's list holds (KList shows that the list behaves as a sequence);
  an entry added belongs to the table. \<open>adapters\<close> is the table of interfaces.
\<close>

definition RTF_UP :: u8 where "RTF_UP = 1"
definition RTF_HOST :: u8 where "RTF_HOST = 2"
definition RTF_GATEWAY :: u8 where "RTF_GATEWAY = 4"
definition RTF_LOCAL :: u8 where "RTF_LOCAL = 8"
definition RTF_CONNECTED :: u8 where "RTF_CONNECTED = 0x10"

lemmas rtf_defs = RTF_UP_def RTF_HOST_def RTF_GATEWAY_def RTF_LOCAL_def RTF_CONNECTED_def

record AuRouteEntry =
  rt_ifname :: "string option"
  rt_dest :: u32
  rt_netmask :: u32
  rt_ifaddress :: u32
  rt_gateway :: u32
  rt_flags :: u8

record AuRouteResult =
  rr_entry :: AuRouteEntry
  rr_nic :: "net_node option"
  rr_nexthop :: u32
  rr_flags :: u8

section \<open>IPv4\<close>

definition AuRoutePref :: "u8 \<Rightarrow> u32 \<Rightarrow> int" where
  "AuRoutePref flags netmask =
     (if flags AND RTF_LOCAL \<noteq> 0 then 300
      else if flags AND RTF_CONNECTED \<noteq> 0 then 200
      else if netmask = 0 then 0 else 100)"

definition AuRouteTableCreateEntry :: AuRouteEntry where
  "AuRouteTableCreateEntry = \<lparr>rt_ifname = None, rt_dest = 0, rt_netmask = 0, rt_ifaddress = 0,
     rt_gateway = 0, rt_flags = 0\<rparr>"

definition same_route4 :: "AuRouteEntry \<Rightarrow> AuRouteEntry \<Rightarrow> bool" where
  "same_route4 entry old \<longleftrightarrow> rt_dest old = rt_dest entry \<and> rt_netmask old = rt_netmask entry \<and>
     rt_ifname old \<noteq> None \<and> rt_ifname entry \<noteq> None \<and> rt_ifname old = rt_ifname entry"

definition AuRouteTableAdd :: "AuRouteEntry \<Rightarrow> AuRouteEntry list \<Rightarrow> AuRouteEntry list" where
  "AuRouteTableAdd entry0 tbl =
     (if rt_dest entry0 = 0 \<and> rt_netmask entry0 \<noteq> 0 then tbl
      else let entry = (if rt_flags entry0 AND RTF_UP = 0
                        then entry0\<lparr>rt_flags := rt_flags entry0 OR RTF_UP\<rparr> else entry0)
      in case first_index (same_route4 entry) tbl of
           Some i \<Rightarrow> tbl[i := (tbl ! i)\<lparr>rt_ifaddress := rt_ifaddress entry,
                       rt_gateway := rt_gateway entry, rt_flags := rt_flags entry\<rparr>]
         | None \<Rightarrow> tbl @ [entry])"

definition AuRouteTableDelete :: "AuRouteEntry \<Rightarrow> AuRouteEntry list \<Rightarrow> AuRouteEntry list" where
  "AuRouteTableDelete entry tbl =
     (case first_index (\<lambda>e. rt_dest e = rt_dest entry \<and> rt_netmask e = rt_netmask entry) tbl of
        Some i \<Rightarrow> remove_at i tbl | None \<Rightarrow> tbl)"

definition AuRouteSetFlag4 ::
    "string \<Rightarrow> u32 \<Rightarrow> u32 \<Rightarrow> bool \<Rightarrow> AuRouteEntry list \<Rightarrow> int \<times> AuRouteEntry list" where
  "AuRouteSetFlag4 ifname dest netmask up tbl =
     (case first_index (\<lambda>e. rt_dest e = dest \<and> rt_netmask e = netmask \<and> rt_ifname e = Some ifname) tbl of
        Some i \<Rightarrow> (0, tbl[i := (tbl ! i)\<lparr>rt_flags :=
           (if up then rt_flags (tbl ! i) OR RTF_UP else rt_flags (tbl ! i) AND NOT RTF_UP)\<rparr>])
      | None \<Rightarrow> (-1, tbl))"

definition AuRouteTableGetNumEntry :: "AuRouteEntry list \<Rightarrow> nat" where
  "AuRouteTableGetNumEntry tbl = length tbl"

text \<open>The index is compared as an unsigned number. The target's name buffer may be null.\<close>

definition AuRouteTablePopulate :: "AuRouteEntry \<Rightarrow> int \<Rightarrow> AuRouteEntry list \<Rightarrow> AuRouteEntry" where
  "AuRouteTablePopulate target entryIndex tbl =
     (let i = unat (word_of_int entryIndex :: u32) in
      if entryIndex = -1 then target
      else if i \<ge> length tbl then target
      else let e = tbl ! i in
        \<lparr>rt_ifname = (if rt_ifname target \<noteq> None \<and> rt_ifname e \<noteq> None then rt_ifname e else rt_ifname target),
         rt_dest = rt_dest e, rt_netmask = rt_netmask e, rt_ifaddress = rt_ifaddress e,
         rt_gateway = rt_gateway e, rt_flags = rt_flags e\<rparr>)"

fun route_lookup_loop ::
    "u32 \<Rightarrow> AuRouteEntry list \<Rightarrow> AuRouteEntry option \<Rightarrow> int \<Rightarrow> AuRouteEntry option" where
  "route_lookup_loop address [] bestRoute bestPref = bestRoute"
| "route_lookup_loop address (e # es) bestRoute bestPref =
     (if rt_flags e AND RTF_UP = 0 then route_lookup_loop address es bestRoute bestPref
      else if address AND rt_netmask e \<noteq> rt_dest e AND rt_netmask e
      then route_lookup_loop address es bestRoute bestPref
      else let pref = AuRoutePref (rt_flags e) (rt_netmask e) in
        if (case bestRoute of None \<Rightarrow> True
            | Some b \<Rightarrow> rt_netmask e > rt_netmask b \<or> (rt_netmask e = rt_netmask b \<and> pref > bestPref))
        then route_lookup_loop address es (Some e) pref
        else route_lookup_loop address es bestRoute bestPref)"

definition AuRouteTableDoRouteLookup :: "u32 \<Rightarrow> AuRouteEntry list \<Rightarrow> AuRouteEntry option" where
  "AuRouteTableDoRouteLookup address tbl = route_lookup_loop address tbl None (-1)"

definition AuRouteLookup4 ::
    "(string \<Rightarrow> net_node option) \<Rightarrow> u32 \<Rightarrow> AuRouteEntry list \<Rightarrow> AuRouteResult option" where
  "AuRouteLookup4 adapters address tbl =
     (case AuRouteTableDoRouteLookup address tbl of None \<Rightarrow> None
      | Some rt \<Rightarrow> Some \<lparr>rr_entry = rt,
          rr_nic = (case rt_ifname rt of None \<Rightarrow> None | Some n \<Rightarrow> adapters n),
          rr_nexthop = (if rt_flags rt AND RTF_GATEWAY \<noteq> 0 then rt_gateway rt else address),
          rr_flags = rt_flags rt\<rparr>)"

section \<open>IPv6\<close>

record AuRouteEntry6 =
  rt6_ifname :: "string option"
  rt6_dest :: ip6_addr
  rt6_prefixLen :: u8
  rt6_ifaddress :: ip6_addr
  rt6_gateway :: ip6_addr
  rt6_flags :: u8

record AuRouteResult6 =
  rr6_entry :: AuRouteEntry6
  rr6_nic :: "net_node option"
  rr6_nexthop :: ip6_addr
  rr6_flags :: u8

definition AuRoutePref6 :: "u8 \<Rightarrow> u8 \<Rightarrow> int" where
  "AuRoutePref6 flags prefixLen =
     (if flags AND RTF_LOCAL \<noteq> 0 then 300
      else if flags AND RTF_CONNECTED \<noteq> 0 then 200
      else if prefixLen = 0 then 0 else 100)"

definition AuRouteTable6CreateEntry :: AuRouteEntry6 where
  "AuRouteTable6CreateEntry = \<lparr>rt6_ifname = None, rt6_dest = ip6_addr_zero, rt6_prefixLen = 0,
     rt6_ifaddress = ip6_addr_zero, rt6_gateway = ip6_addr_zero, rt6_flags = 0\<rparr>"

definition same_route6 :: "AuRouteEntry6 \<Rightarrow> AuRouteEntry6 \<Rightarrow> bool" where
  "same_route6 entry old \<longleftrightarrow> rt6_prefixLen old = rt6_prefixLen entry \<and>
     ip6_addr_equal (rt6_dest old) (rt6_dest entry) \<and>
     rt6_ifname old \<noteq> None \<and> rt6_ifname entry \<noteq> None \<and> rt6_ifname old = rt6_ifname entry"

definition AuRouteTable6Add :: "AuRouteEntry6 \<Rightarrow> AuRouteEntry6 list \<Rightarrow> AuRouteEntry6 list" where
  "AuRouteTable6Add entry0 tbl =
     (if ip6_addr_is_zero (rt6_dest entry0) \<and> rt6_prefixLen entry0 \<noteq> 0 then tbl
      else let entry = (if rt6_flags entry0 AND RTF_UP = 0
                        then entry0\<lparr>rt6_flags := rt6_flags entry0 OR RTF_UP\<rparr> else entry0)
      in case first_index (same_route6 entry) tbl of
           Some i \<Rightarrow> tbl[i := (tbl ! i)\<lparr>rt6_ifaddress := rt6_ifaddress entry,
                       rt6_gateway := rt6_gateway entry, rt6_flags := rt6_flags entry\<rparr>]
         | None \<Rightarrow> tbl @ [entry])"

definition AuRouteTable6Delete :: "AuRouteEntry6 \<Rightarrow> AuRouteEntry6 list \<Rightarrow> AuRouteEntry6 list" where
  "AuRouteTable6Delete entry tbl =
     (case first_index (\<lambda>e. rt6_prefixLen e = rt6_prefixLen entry \<and>
             ip6_addr_equal (rt6_dest e) (rt6_dest entry)) tbl of
        Some i \<Rightarrow> remove_at i tbl | None \<Rightarrow> tbl)"

fun route6_lookup_loop ::
    "ip6_addr \<Rightarrow> AuRouteEntry6 list \<Rightarrow> AuRouteEntry6 option \<Rightarrow> int \<Rightarrow> AuRouteEntry6 option" where
  "route6_lookup_loop address [] bestRoute bestPref = bestRoute"
| "route6_lookup_loop address (e # es) bestRoute bestPref =
     (if rt6_flags e AND RTF_UP = 0 then route6_lookup_loop address es bestRoute bestPref
      else if \<not> ip6_prefix_equal address (rt6_dest e) (rt6_prefixLen e)
      then route6_lookup_loop address es bestRoute bestPref
      else let pref = AuRoutePref6 (rt6_flags e) (rt6_prefixLen e) in
        if (case bestRoute of None \<Rightarrow> True
            | Some b \<Rightarrow> rt6_prefixLen e > rt6_prefixLen b \<or>
                (rt6_prefixLen e = rt6_prefixLen b \<and> pref > bestPref))
        then route6_lookup_loop address es (Some e) pref
        else route6_lookup_loop address es bestRoute bestPref)"

definition AuRouteTableDoRouteLookup6 :: "ip6_addr \<Rightarrow> AuRouteEntry6 list \<Rightarrow> AuRouteEntry6 option" where
  "AuRouteTableDoRouteLookup6 address tbl = route6_lookup_loop address tbl None (-1)"

definition AuRouteLookup6 ::
    "(string \<Rightarrow> net_node option) \<Rightarrow> ip6_addr \<Rightarrow> AuRouteEntry6 list \<Rightarrow> AuRouteResult6 option" where
  "AuRouteLookup6 adapters address tbl =
     (case AuRouteTableDoRouteLookup6 address tbl of None \<Rightarrow> None
      | Some rt \<Rightarrow> Some \<lparr>rr6_entry = rt,
          rr6_nic = (case rt6_ifname rt of None \<Rightarrow> None | Some n \<Rightarrow> adapters n),
          rr6_nexthop = (if rt6_flags rt AND RTF_GATEWAY \<noteq> 0 then rt6_gateway rt else address),
          rr6_flags = rt6_flags rt\<rparr>)"

section \<open>The scan for the best candidate\<close>

text \<open>Both look-ups are one scan: the first candidate whose key no other candidate exceeds.\<close>

fun scan_best :: "('e \<Rightarrow> bool) \<Rightarrow> ('e \<Rightarrow> 'k::linorder) \<Rightarrow> 'e list \<Rightarrow> 'e option \<Rightarrow> 'e option" where
  "scan_best cand key [] best = best"
| "scan_best cand key (e # es) best =
     (if cand e \<and> (case best of None \<Rightarrow> True | Some b \<Rightarrow> key b < key e)
      then scan_best cand key es (Some e) else scan_best cand key es best)"

lemma scan_best_Some:
  "scan_best cand key es best = Some r \<Longrightarrow>
   (best = Some r \<or> r \<in> set es \<and> cand r) \<and> (\<forall>e \<in> set es. cand e \<longrightarrow> key e \<le> key r) \<and>
   (\<forall>b. best = Some b \<longrightarrow> key b \<le> key r)"
proof (induction es arbitrary: best)
  case Nil
  then show ?case by simp
next
  case (Cons e es)
  show ?case
  proof (cases "cand e \<and> (case best of None \<Rightarrow> True | Some b \<Rightarrow> key b < key e)")
    case True
    with Cons.IH [of "Some e"] Cons.prems show ?thesis by (auto split: option.splits)
  next
    case False
    with Cons.IH [of best] Cons.prems show ?thesis by (auto split: option.splits if_splits)
  qed
qed

lemma scan_best_None: "scan_best cand key es best = None \<longleftrightarrow> best = None \<and> (\<forall>e \<in> set es. \<not> cand e)"
  by (induction es arbitrary: best) (auto split: option.splits)

text \<open>Among candidates with the same key the first one stays.\<close>

lemma scan_best_keeps:
  "\<forall>e \<in> set es. cand e \<longrightarrow> key e \<le> key b \<Longrightarrow> scan_best cand key es (Some b) = Some b"
  by (induction es) auto

lemma scan_best_append:
  "scan_best cand key (es @ fs) best = scan_best cand key fs (scan_best cand key es best)"
  by (induction es arbitrary: best) auto

definition cand4 :: "u32 \<Rightarrow> AuRouteEntry \<Rightarrow> bool" where
  "cand4 address e \<longleftrightarrow> rt_flags e AND RTF_UP \<noteq> 0 \<and> address AND rt_netmask e = rt_dest e AND rt_netmask e"

definition key4 :: "AuRouteEntry \<Rightarrow> u32 \<times> int" where
  "key4 e = (rt_netmask e, AuRoutePref (rt_flags e) (rt_netmask e))"

definition cand6 :: "ip6_addr \<Rightarrow> AuRouteEntry6 \<Rightarrow> bool" where
  "cand6 address e \<longleftrightarrow> rt6_flags e AND RTF_UP \<noteq> 0 \<and> ip6_prefix_equal address (rt6_dest e) (rt6_prefixLen e)"

definition key6 :: "AuRouteEntry6 \<Rightarrow> u8 \<times> int" where
  "key6 e = (rt6_prefixLen e, AuRoutePref6 (rt6_flags e) (rt6_prefixLen e))"

lemma lookup4_scan: "AuRouteTableDoRouteLookup a tbl = scan_best (cand4 a) key4 tbl None"
proof -
  have "route_lookup_loop a es best p = scan_best (cand4 a) key4 es best"
    if "\<forall>b. best = Some b \<longrightarrow> p = AuRoutePref (rt_flags b) (rt_netmask b)" for es best p
    using that
    by (induction es arbitrary: best p)
      (auto simp: cand4_def key4_def Let_def less_prod_def split: option.splits)
  then show ?thesis by (simp add: AuRouteTableDoRouteLookup_def)
qed

lemma lookup6_scan: "AuRouteTableDoRouteLookup6 a tbl = scan_best (cand6 a) key6 tbl None"
proof -
  have "route6_lookup_loop a es best p = scan_best (cand6 a) key6 es best"
    if "\<forall>b. best = Some b \<longrightarrow> p = AuRoutePref6 (rt6_flags b) (rt6_prefixLen b)" for es best p
    using that
    by (induction es arbitrary: best p)
      (auto simp: cand6_def key6_def Let_def less_prod_def split: option.splits)
  then show ?thesis by (simp add: AuRouteTableDoRouteLookup6_def)
qed

section \<open>Longest prefix, IPv4\<close>

text \<open>
  The bits of a wire-form address in the order of the wire, and the netmask of a prefix of
  \<open>n\<close> bits. In wire form the numerical order of masks is the order of prefix lengths.
\<close>

definition wire_bit :: "u32 \<Rightarrow> nat \<Rightarrow> bool" where
  "wire_bit a i = bit a (8 * (i div 8) + (7 - i mod 8))"

definition prefix_mask4 :: "nat \<Rightarrow> u32" where
  "prefix_mask4 n = htonl (NOT (mask (32 - n)))"

lemma byte_index:
  fixes k :: nat
  assumes "k < 32"
  obtains q r s where "k = 8 * q + r" "k div 8 = q" "k mod 8 = r" "r + s = 7" "q < 4"
proof
  show "k = 8 * (k div 8) + k mod 8" "k mod 8 + (7 - k mod 8) = 7" "k div 8 < 4" using assms by auto
qed simp_all

lemma bit_htonl:
  assumes "k < 32"
  shows "bit (htonl l) k = bit l (24 - 8 * (k div 8) + k mod 8)"
proof -
  have m: "0xFF = (mask 8 :: u32)" "0xFF00 = (push_bit 8 (mask 8) :: u32)"
    "0xFF0000 = (push_bit 16 (mask 8) :: u32)" "0xFF000000 = (push_bit 24 (mask 8) :: u32)"
    by (simp_all add: mask_eq_exp_minus_1)
  obtain q r s where k: "k = 8 * q + r" "k div 8 = q" "k mod 8 = r" "r + s = 7" "q < 4"
    using assms by (rule byte_index)
  then have "q = 0 \<or> q = 1 \<or> q = 2 \<or> q = 3" "r < 8" by auto
  then show ?thesis unfolding htonl_def m k(2,3) using k(1) by (elim disjE) (auto simp: bit_simps)
qed

lemma bit_prefix_mask4:
  "bit (prefix_mask4 n) k \<longleftrightarrow> k < 32 \<and> 8 * (k div 8) + (7 - k mod 8) < n"
proof (cases "k < 32")
  case True
  then obtain q r s where k: "k = 8 * q + r" "k div 8 = q" "k mod 8 = r" "r + s = 7" "q < 4"
    by (rule byte_index)
  have "bit (prefix_mask4 n) k \<longleftrightarrow> bit (NOT (mask (32 - n)) :: u32) (24 - 8 * q + r)"
    using True k by (simp add: prefix_mask4_def bit_htonl)
  also have "\<dots> \<longleftrightarrow> \<not> (24 - 8 * q + r < 32 - n)" using k(4,5) by (auto simp: bit_simps)
  also have "\<dots> \<longleftrightarrow> 8 * q + s < n" using k(4,5) by auto
  also have "8 * q + s = 8 * (k div 8) + (7 - k mod 8)" using k by simp
  finally show ?thesis using True by simp
qed (auto dest: bit_imp_le_length)

lemma wire_index: "i < 32 \<Longrightarrow> (let k = 8 * (i div 8) + (7 - i mod 8) in
    k < 32 \<and> 8 * (k div 8) + (7 - k mod 8) = i)" for i :: nat
proof -
  assume "i < 32"
  then obtain q r s where k: "i = 8 * q + r" "i div 8 = q" "i mod 8 = r" "r + s = 7" "q < 4"
    by (rule byte_index)
  then have "8 * (i div 8) + (7 - i mod 8) = 8 * q + s" "s < 8" "7 - s = r" by auto
  then show ?thesis using k by (simp add: Let_def)
qed

lemma prefix_match4:
  assumes "n \<le> 32"
  shows "a AND prefix_mask4 n = d AND prefix_mask4 n \<longleftrightarrow> (\<forall>i < n. wire_bit a i = wire_bit d i)"
proof
  assume eq: "a AND prefix_mask4 n = d AND prefix_mask4 n"
  show "\<forall>i < n. wire_bit a i = wire_bit d i"
  proof (intro allI impI)
    fix i assume i: "i < n"
    let ?k = "8 * (i div 8) + (7 - i mod 8)"
    have "bit (prefix_mask4 n) ?k"
      using wire_index [of i] i assms by (simp add: bit_prefix_mask4 Let_def)
    moreover have "bit (a AND prefix_mask4 n) ?k = bit (d AND prefix_mask4 n) ?k" using eq by simp
    ultimately show "wire_bit a i = wire_bit d i" by (simp add: wire_bit_def bit_and_iff)
  qed
next
  assume all: "\<forall>i < n. wire_bit a i = wire_bit d i"
  show "a AND prefix_mask4 n = d AND prefix_mask4 n"
  proof (rule bit_word_eqI)
    fix k assume k: "k < LENGTH(32)"
    let ?i = "8 * (k div 8) + (7 - k mod 8)"
    have "wire_bit x ?i = bit x k" for x
      using wire_index [of k] k by (simp add: wire_bit_def Let_def)
    with all show "bit (a AND prefix_mask4 n) k = bit (d AND prefix_mask4 n) k"
      by (auto simp: bit_and_iff bit_prefix_mask4)
  qed
qed

lemma prefix_mask4_mono:
  assumes "n < m" "m \<le> 32"
  shows "prefix_mask4 n < prefix_mask4 m"
proof -
  have "prefix_mask4 n = prefix_mask4 n AND prefix_mask4 m"
    by (rule bit_word_eqI) (use assms in \<open>auto simp: bit_and_iff bit_prefix_mask4\<close>)
  then have "prefix_mask4 n \<le> prefix_mask4 m" by (metis word_and_le1)
  moreover have "prefix_mask4 n \<noteq> prefix_mask4 m"
  proof -
    let ?k = "8 * (n div 8) + (7 - n mod 8)"
    have "bit (prefix_mask4 m) ?k" "\<not> bit (prefix_mask4 n) ?k"
      using wire_index [of n] assms by (simp_all add: bit_prefix_mask4 Let_def)
    then show ?thesis by auto
  qed
  ultimately show ?thesis by (simp add: order.not_eq_order_implies_strict)
qed

lemma prefix_mask4_less_iff:
  "n \<le> 32 \<Longrightarrow> m \<le> 32 \<Longrightarrow> prefix_mask4 n < prefix_mask4 m \<longleftrightarrow> n < m"
  by (metis linorder_less_linear order_less_asym prefix_mask4_mono)

definition prefix_table :: "(AuRouteEntry \<Rightarrow> nat) \<Rightarrow> AuRouteEntry list \<Rightarrow> bool" where
  "prefix_table len tbl \<longleftrightarrow> (\<forall>e \<in> set tbl. len e \<le> 32 \<and> rt_netmask e = prefix_mask4 (len e))"

definition route_covers :: "(AuRouteEntry \<Rightarrow> nat) \<Rightarrow> u32 \<Rightarrow> AuRouteEntry \<Rightarrow> bool" where
  "route_covers len a e \<longleftrightarrow> rt_flags e AND RTF_UP \<noteq> 0 \<and> (\<forall>i < len e. wire_bit a i = wire_bit (rt_dest e) i)"

text \<open>
  C24. The IPv4 look-up is longest-prefix match: when the netmasks of the table are those of
  prefixes, it returns a route that is up and covers the address bit by bit, no other such
  route has a longer prefix, and none of the same length has a higher preference; it
  returns none exactly when no route that is up covers the address.
\<close>

theorem AuRouteTableDoRouteLookup_longest_prefix:
  assumes "prefix_table len tbl"
  shows "case AuRouteTableDoRouteLookup a tbl of
      None \<Rightarrow> (\<forall>e \<in> set tbl. \<not> route_covers len a e)
    | Some r \<Rightarrow> r \<in> set tbl \<and> route_covers len a r \<and>
        (\<forall>e \<in> set tbl. route_covers len a e \<longrightarrow> len e \<le> len r \<and>
           (len e = len r \<longrightarrow> AuRoutePref (rt_flags e) (rt_netmask e) \<le> AuRoutePref (rt_flags r) (rt_netmask r)))"
proof -
  have cand: "cand4 a e \<longleftrightarrow> route_covers len a e" if "e \<in> set tbl" for e
    using assms that by (simp add: cand4_def route_covers_def prefix_table_def prefix_match4)
  show ?thesis
  proof (cases "AuRouteTableDoRouteLookup a tbl")
    case None
    then have "\<forall>e \<in> set tbl. \<not> cand4 a e" by (simp add: lookup4_scan scan_best_None)
    with None cand show ?thesis by simp
  next
    case (Some r)
    then have r: "r \<in> set tbl" "cand4 a r" "\<forall>e \<in> set tbl. cand4 a e \<longrightarrow> key4 e \<le> key4 r"
      using scan_best_Some [of "cand4 a" key4 tbl None r] by (auto simp: lookup4_scan)
    have "len e \<le> len r \<and> (len e = len r \<longrightarrow>
        AuRoutePref (rt_flags e) (rt_netmask e) \<le> AuRoutePref (rt_flags r) (rt_netmask r))"
      if "e \<in> set tbl" "route_covers len a e" for e
    proof -
      have "rt_netmask e < rt_netmask r \<or> rt_netmask e = rt_netmask r \<and>
          AuRoutePref (rt_flags e) (rt_netmask e) \<le> AuRoutePref (rt_flags r) (rt_netmask r)"
        using r(3) that cand by (auto simp: key4_def less_eq_prod_def)
      moreover have "rt_netmask e = prefix_mask4 (len e)" "rt_netmask r = prefix_mask4 (len r)"
        "len e \<le> 32" "len r \<le> 32"
        using assms that(1) r(1) by (auto simp: prefix_table_def)
      ultimately show ?thesis
        using prefix_mask4_less_iff [of "len r" "len e"] prefix_mask4_less_iff [of "len e" "len r"]
        by fastforce
    qed
    with Some r cand show ?thesis by simp
  qed
qed

text \<open>
  Of two routes to the same prefix with the same preference the one added first is
  used: appending a route changes the look-up only where the new route is strictly better.
\<close>

lemma AuRouteTableDoRouteLookup_first_wins:
  "AuRouteTableDoRouteLookup a (tbl @ [e]) =
     (if rt_flags e AND RTF_UP \<noteq> 0 \<and> a AND rt_netmask e = rt_dest e AND rt_netmask e \<and>
         (case AuRouteTableDoRouteLookup a tbl of None \<Rightarrow> True
          | Some b \<Rightarrow> (rt_netmask b, AuRoutePref (rt_flags b) (rt_netmask b)) <
                    (rt_netmask e, AuRoutePref (rt_flags e) (rt_netmask e)))
      then Some e else AuRouteTableDoRouteLookup a tbl)"
  by (auto simp: lookup4_scan scan_best_append cand4_def key4_def split: option.splits)

section \<open>Longest prefix, IPv6\<close>

lemma bit_prefix_mask6:
  assumes "0 < m" "m < 8"
  shows "bit ((0xFF * 2 ^ (8 - m)) :: u8) k \<longleftrightarrow> k < 8 \<and> 8 - m \<le> k"
proof -
  have "(0xFF :: u8) = mask 8" by (simp add: mask_eq_exp_minus_1)
  then have "(0xFF * 2 ^ (8 - m)) = (push_bit (8 - m) (mask 8) :: u8)"
    by (simp add: push_bit_eq_mult)
  then show ?thesis by (auto simp: bit_simps)
qed

lemma byte_eq_iff: "a = b \<longleftrightarrow> (\<forall>j < 8. bit a (7 - j) = bit b (7 - j))" for a b :: u8
proof
  assume all: "\<forall>j < 8. bit a (7 - j) = bit b (7 - j)"
  show "a = b"
  proof (rule bit_word_eqI)
    fix k assume "k < LENGTH(8)"
    then have "7 - (7 - k) = k" "7 - k < 8" by auto
    with all show "bit a k = bit b k" by metis
  qed
qed simp

lemma ip6_prefix_equal_bits:
  "ip6_prefix_equal a b n \<longleftrightarrow> (\<forall>i < min 128 (unat n). ip6_bit a i = ip6_bit b i)"
proof -
  define p full rm where "p = min 128 (unat n)" and "full = p div 8" and "rm = p mod 8"
  have p: "p = 8 * full + rm" "rm < 8" by (simp_all add: full_def rm_def)
  define msk where "msk = (0xFF * 2 ^ (8 - rm) :: u8)"
  have def': "ip6_prefix_equal a b n \<longleftrightarrow> (\<forall>i < full. a ! i = b ! i) \<and>
      (rm \<noteq> 0 \<longrightarrow> a ! full AND msk = b ! full AND msk)"
  proof -
    have "(if n > 128 then 128 else unat n) = p"
      by (auto simp: p_def word_less_nat_alt min_def)
    then show ?thesis
      by (simp add: ip6_prefix_equal_def Let_def full_def rm_def msk_def list_all_iff atLeast0LessThan
          Ball_def)
  qed
  have part: "a ! full AND msk = b ! full AND msk \<longleftrightarrow>
      (\<forall>j < rm. bit (a ! full) (7 - j) = bit (b ! full) (7 - j))" if "rm \<noteq> 0"
  proof -
    have "a ! full AND msk = b ! full AND msk \<longleftrightarrow>
        (\<forall>k. bit (a ! full AND msk) k = bit (b ! full AND msk) k)" by (auto intro: bit_eqI)
    also have "\<dots> \<longleftrightarrow> (\<forall>k. k < 8 \<and> 8 - rm \<le> k \<longrightarrow> bit (a ! full) k = bit (b ! full) k)"
      using that p(2) by (auto simp: bit_and_iff msk_def bit_prefix_mask6)
    also have "\<dots> \<longleftrightarrow> (\<forall>j < rm. bit (a ! full) (7 - j) = bit (b ! full) (7 - j))"
    proof
      assume l: "\<forall>j < rm. bit (a ! full) (7 - j) = bit (b ! full) (7 - j)"
      show "\<forall>k. k < 8 \<and> 8 - rm \<le> k \<longrightarrow> bit (a ! full) k = bit (b ! full) k"
      proof (intro allI impI)
        fix k assume "k < 8 \<and> 8 - rm \<le> k"
        then have "7 - k < rm" "7 - (7 - k) = k" using p(2) that by auto
        with l show "bit (a ! full) k = bit (b ! full) k" by metis
      qed
    next
      assume l: "\<forall>k. k < 8 \<and> 8 - rm \<le> k \<longrightarrow> bit (a ! full) k = bit (b ! full) k"
      show "\<forall>j < rm. bit (a ! full) (7 - j) = bit (b ! full) (7 - j)"
      proof (intro allI impI)
        fix j assume "j < rm"
        then have "7 - j < 8 \<and> 8 - rm \<le> 7 - j" using p(2) by auto
        with l show "bit (a ! full) (7 - j) = bit (b ! full) (7 - j)" by blast
      qed
    qed
    finally show ?thesis .
  qed
  have split: "(\<forall>i < p. P i) \<longleftrightarrow> (\<forall>q < full. \<forall>j < 8. P (8 * q + j)) \<and> (\<forall>j < rm. P (8 * full + j))" for P
  proof (intro iffI conjI allI impI)
    fix i assume *: "(\<forall>q < full. \<forall>j < 8. P (8 * q + j)) \<and> (\<forall>j < rm. P (8 * full + j))" "i < p"
    show "P i"
    proof (cases "i div 8 < full")
      case True
      moreover have "i mod 8 < 8" by simp
      ultimately have "P (8 * (i div 8) + i mod 8)" using *(1) by blast
      then show ?thesis by simp
    next
      case False
      then have "i = 8 * full + (i - 8 * full)" "i - 8 * full < rm" using *(2) p by auto
      then show ?thesis using *(1) by metis
    qed
  qed (use p in auto)
  have ib: "ip6_bit x (8 * q + j) = bit (x ! q) (7 - j)" if "j < 8" for x q j
    using that by (simp add: ip6_bit_def)
  show ?thesis
    unfolding def' p_def [symmetric] split
    using part p(2) by (auto simp: ib byte_eq_iff [of "a ! _"])
qed

text \<open>
  C25. The IPv6 look-up is longest-prefix match: it returns a route that is up and agrees
  with the address on the first bits that its prefix length names, and no such route has a
  longer prefix or, at the same length, a higher preference.
\<close>

theorem AuRouteTableDoRouteLookup6_longest_prefix:
  "case AuRouteTableDoRouteLookup6 a tbl of
      None \<Rightarrow> (\<forall>e \<in> set tbl. rt6_flags e AND RTF_UP = 0 \<or>
        (\<exists>i < min 128 (unat (rt6_prefixLen e)). ip6_bit a i \<noteq> ip6_bit (rt6_dest e) i))
    | Some r \<Rightarrow> r \<in> set tbl \<and> rt6_flags r AND RTF_UP \<noteq> 0 \<and>
        (\<forall>i < min 128 (unat (rt6_prefixLen r)). ip6_bit a i = ip6_bit (rt6_dest r) i) \<and>
        (\<forall>e \<in> set tbl. rt6_flags e AND RTF_UP \<noteq> 0 \<and>
            (\<forall>i < min 128 (unat (rt6_prefixLen e)). ip6_bit a i = ip6_bit (rt6_dest e) i) \<longrightarrow>
           rt6_prefixLen e \<le> rt6_prefixLen r \<and>
           (rt6_prefixLen e = rt6_prefixLen r \<longrightarrow>
              AuRoutePref6 (rt6_flags e) (rt6_prefixLen e) \<le> AuRoutePref6 (rt6_flags r) (rt6_prefixLen r)))"
proof (cases "AuRouteTableDoRouteLookup6 a tbl")
  case None
  then have "\<forall>e \<in> set tbl. \<not> cand6 a e" by (simp add: lookup6_scan scan_best_None)
  with None show ?thesis by (auto simp: cand6_def ip6_prefix_equal_bits)
next
  case (Some r)
  then have r: "r \<in> set tbl" "cand6 a r" "\<forall>e \<in> set tbl. cand6 a e \<longrightarrow> key6 e \<le> key6 r"
    using scan_best_Some [of "cand6 a" key6 tbl None r] by (auto simp: lookup6_scan)
  have cand: "cand6 a e \<longleftrightarrow> rt6_flags e AND RTF_UP \<noteq> 0 \<and>
      (\<forall>i < min 128 (unat (rt6_prefixLen e)). ip6_bit a i = ip6_bit (rt6_dest e) i)" for e
    by (simp add: cand6_def ip6_prefix_equal_bits)
  have le: "rt6_prefixLen e \<le> rt6_prefixLen r \<and> (rt6_prefixLen e = rt6_prefixLen r \<longrightarrow>
      AuRoutePref6 (rt6_flags e) (rt6_prefixLen e) \<le> AuRoutePref6 (rt6_flags r) (rt6_prefixLen r))"
    if "e \<in> set tbl" "cand6 a e" for e
    using r(3) that by (auto simp: key6_def less_eq_prod_def)
  show ?thesis unfolding Some option.case using r(1,2) le unfolding cand by blast
qed

section \<open>The table's entries\<close>

datatype route_cmd = RtAdd AuRouteEntry | RtDelete AuRouteEntry | RtSetFlag string u32 u32 bool

fun route_exec :: "AuRouteEntry list \<Rightarrow> route_cmd \<Rightarrow> AuRouteEntry list" where
  "route_exec tbl (RtAdd e) = AuRouteTableAdd e tbl"
| "route_exec tbl (RtDelete e) = AuRouteTableDelete e tbl"
| "route_exec tbl (RtSetFlag n d m up) = snd (AuRouteSetFlag4 n d m up tbl)"

definition route_key :: "AuRouteEntry \<Rightarrow> u32 \<times> u32 \<times> string option" where
  "route_key e = (rt_dest e, rt_netmask e, rt_ifname e)"

definition routes_distinct :: "AuRouteEntry list \<Rightarrow> bool" where
  "routes_distinct tbl \<longleftrightarrow> distinct (map route_key (filter (\<lambda>e. rt_ifname e \<noteq> None) tbl))"

lemma filter_update:
  "i < length xs \<Longrightarrow> P y = P (xs ! i) \<Longrightarrow> f y = f (xs ! i) \<Longrightarrow>
   map f (filter P (xs[i := y])) = map f (filter P xs)"
  by (induction xs arbitrary: i) (auto split: nat.splits)

lemma distinct_filter_remove_at:
  "distinct (map f (filter P xs)) \<Longrightarrow> distinct (map f (filter P (remove_at i xs)))"
proof (induction xs arbitrary: i)
  case (Cons x xs)
  then show ?case
    by (cases i) (auto dest: set_remove_at [THEN subsetD] split: if_splits)
qed (simp add: remove_at_def)

lemma same_route4_key:
  "same_route4 e old \<longleftrightarrow> rt_ifname old \<noteq> None \<and> route_key old = route_key e"
  by (auto simp: same_route4_def route_key_def)

lemma route_exec_distinct: "routes_distinct tbl \<Longrightarrow> routes_distinct (route_exec tbl c)"
proof (induction c)
  case (RtAdd e)
  define e' where "e' = (if rt_flags e AND RTF_UP = 0 then e\<lparr>rt_flags := rt_flags e OR RTF_UP\<rparr> else e)"
  consider "rt_dest e = 0 \<and> rt_netmask e \<noteq> 0" | i where "\<not> (rt_dest e = 0 \<and> rt_netmask e \<noteq> 0)"
      "first_index (same_route4 e') tbl = Some i"
    | "\<not> (rt_dest e = 0 \<and> rt_netmask e \<noteq> 0)" "first_index (same_route4 e') tbl = None" by blast
  then show ?case
  proof cases
    case 2
    then have "i < length tbl" by (simp add: first_index_lt)
    with 2 RtAdd show ?thesis
      by (simp add: AuRouteTableAdd_def e'_def [symmetric] Let_def routes_distinct_def filter_update route_key_def)
  next
    case 3
    then have "\<forall>x \<in> set tbl. rt_ifname x \<noteq> None \<longrightarrow> route_key x \<noteq> route_key e'"
      by (auto simp: first_index_None same_route4_key)
    with 3 RtAdd show ?thesis
      by (auto simp: AuRouteTableAdd_def e'_def [symmetric] Let_def routes_distinct_def)
  qed (use RtAdd in \<open>simp add: AuRouteTableAdd_def\<close>)
next
  case (RtDelete e)
  then show ?case
    by (auto simp: AuRouteTableDelete_def routes_distinct_def distinct_filter_remove_at split: option.splits)
next
  case (RtSetFlag n d m up)
  then show ?case
    by (auto simp: AuRouteSetFlag4_def routes_distinct_def filter_update route_key_def
        dest: first_index_lt split: option.splits)
qed

text \<open>
  Whatever sequence of additions, deletions and flag changes is made from the empty
  table, no two entries that name an interface have the same destination, netmask and
  interface: an addition replaces the entry it repeats.
\<close>

theorem AuRouteTable_no_duplicates:
  "distinct (map route_key (filter (\<lambda>e. rt_ifname e \<noteq> None) (foldl route_exec [] cmds)))"
proof -
  have "routes_distinct (foldl route_exec tbl cmds)" if "routes_distinct tbl" for tbl
    using that by (induction cmds arbitrary: tbl) (auto intro: route_exec_distinct)
  from this [of "[]"] show ?thesis by (simp add: routes_distinct_def)
qed

text \<open>
  Deletion looks at destination and netmask only: it removes the first entry with that
  prefix, even when that entry belongs to another interface than the one named and the entry
  of the named interface stays.
\<close>

theorem AuRouteTableDelete_ignores_interface:
  assumes "rt_dest e1 = rt_dest e2" "rt_netmask e1 = rt_netmask e2"
    "\<forall>e \<in> set tbl1. (rt_dest e, rt_netmask e) \<noteq> (rt_dest e2, rt_netmask e2)"
  shows "AuRouteTableDelete e2 (tbl1 @ [e1] @ tbl2 @ [e2]) = tbl1 @ tbl2 @ [e2]"
proof -
  have none: "first_index (\<lambda>e. rt_dest e = rt_dest e2 \<and> rt_netmask e = rt_netmask e2) tbl1 = None"
    using assms(3) by (auto simp: first_index_None)
  show ?thesis using assms(1,2) none
    by (simp add: AuRouteTableDelete_def first_index_append remove_at_def)
qed

section \<open>Concrete instances\<close>

definition demo_route :: "string \<Rightarrow> nat \<Rightarrow> u32 \<Rightarrow> u8 \<Rightarrow> AuRouteEntry" where
  "demo_route name n dest flags = \<lparr>rt_ifname = Some name, rt_dest = dest, rt_netmask = prefix_mask4 n,
     rt_ifaddress = 0, rt_gateway = 0, rt_flags = flags\<rparr>"

lemma prefix_mask4_values: "prefix_mask4 0 = 0" "prefix_mask4 8 = 0xFF" "prefix_mask4 24 = 0xFFFFFF"
  by (simp_all add: prefix_mask4_def htonl_def mask_eq_exp_minus_1)

theorem AuRouteTableDoRouteLookup_longest_prefix_witness:
  "AuRouteTableDoRouteLookup (MAKE_IP 10 0 2 7)
     [demo_route ''wlan0'' 8 (MAKE_IP 10 0 0 0) 1, demo_route ''e1000'' 24 (MAKE_IP 10 0 2 0) 1] =
   Some (demo_route ''e1000'' 24 (MAKE_IP 10 0 2 0) 1)"
proof -
  let ?a = "demo_route ''wlan0'' 8 (MAKE_IP 10 0 0 0) 1" and ?b = "demo_route ''e1000'' 24 (MAKE_IP 10 0 2 0) 1"
  let ?len = "\<lambda>e. if rt_netmask e = prefix_mask4 8 then 8 else (24 :: nat)"
  have t: "prefix_table ?len [?a, ?b]"
    by (simp add: prefix_table_def demo_route_def prefix_mask4_values)
  have "route_covers ?len (MAKE_IP 10 0 2 7) ?b"
    using prefix_match4 [of 24 "MAKE_IP 10 0 2 7" "MAKE_IP 10 0 2 0"]
    by (simp add: route_covers_def demo_route_def prefix_mask4_values rtf_defs MAKE_IP_def)
  with AuRouteTableDoRouteLookup_longest_prefix [OF t, of "MAKE_IP 10 0 2 7"] show ?thesis
    by (auto simp: demo_route_def prefix_mask4_values split: option.splits)
qed

theorem AuRouteTableDelete_ignores_interface_witness:
  "AuRouteTableDelete (demo_route ''wlan0'' 0 0 5) [demo_route ''e1000'' 0 0 5, demo_route ''wlan0'' 0 0 5] =
     [demo_route ''wlan0'' 0 0 5]"
  using AuRouteTableDelete_ignores_interface [of "demo_route ''e1000'' 0 0 5" "demo_route ''wlan0'' 0 0 5" "[]" "[]"]
  by (simp add: demo_route_def)

definition demo_route6 :: "u8 \<Rightarrow> AuRouteEntry6" where
  "demo_route6 n = AuRouteTable6CreateEntry\<lparr>rt6_prefixLen := n, rt6_flags := 1\<rparr>"

theorem AuRouteTableDoRouteLookup6_longest_prefix_witness:
  "AuRouteTableDoRouteLookup6 ip6_addr_zero [demo_route6 0, demo_route6 8] = Some (demo_route6 8)"
  using AuRouteTableDoRouteLookup6_longest_prefix [where a = ip6_addr_zero and tbl = "[demo_route6 0, demo_route6 8]"]
  by (auto simp: demo_route6_def AuRouteTable6CreateEntry_def RTF_UP_def split: option.splits)

end
