(* ===== verification/NetStack.thy ===== *)
theory NetStack
  imports Netfilter Route
begin

text \<open>
  Interfaces, local addresses and route selection (KernelAA64/Net/aunet.c), ARP (arp.c),
  Ethernet (ethernet.c) and IP input and output (ipv4.c, packet handling of ipv6.c). The
  transport protocols are the environment: what is handed to them, to the interface drivers
  and to raw sockets is a list of events in order. Allocation succeeds where the code does
  not test it and is a parameter where it does.
\<close>

section \<open>Name servers\<close>

definition AU_DNS_MAX4 :: nat where "AU_DNS_MAX4 = 4"

definition AuDnsAddServer4 :: "u32 \<Rightarrow> u32 list \<Rightarrow> u32 list" where
  "AuDnsAddServer4 addr dns =
     (if addr = 0 then dns
      else if first_index (\<lambda>a. a = addr) dns \<noteq> None then dns
      else case first_index (\<lambda>a. a = 0) dns of Some i \<Rightarrow> dns[i := addr] | None \<Rightarrow> dns)"

definition AuDnsSetServer4 :: "int \<Rightarrow> u32 \<Rightarrow> u32 list \<Rightarrow> u32 list" where
  "AuDnsSetServer4 index addr dns =
     (if index < 1 \<or> index > int AU_DNS_MAX4 then dns else dns[nat (index - 1) := addr])"

definition AuDnsGetServer4 :: "int \<Rightarrow> u32 list \<Rightarrow> u32 option" where
  "AuDnsGetServer4 index dns =
     (if index < 1 \<or> index > int AU_DNS_MAX4 then None else Some (dns ! nat (index - 1)))"

definition AU_DNS_MAX6 :: nat where "AU_DNS_MAX6 = 2"

definition AuDnsAddServer6 :: "ip6_addr \<Rightarrow> ip6_addr list \<Rightarrow> ip6_addr list" where
  "AuDnsAddServer6 addr dns =
     (if ip6_addr_is_zero addr then dns
      else if first_index (\<lambda>a. ip6_addr_equal a addr) dns \<noteq> None then dns
      else case first_index ip6_addr_is_zero dns of Some i \<Rightarrow> dns[i := addr] | None \<Rightarrow> dns)"

definition AuDnsSetServer6 :: "int \<Rightarrow> ip6_addr \<Rightarrow> ip6_addr list \<Rightarrow> ip6_addr list" where
  "AuDnsSetServer6 index addr dns =
     (if index < 1 \<or> index > int AU_DNS_MAX6 then dns else dns[nat (index - 1) := addr])"

definition AuDnsGetServer6 :: "int \<Rightarrow> ip6_addr list \<Rightarrow> ip6_addr option" where
  "AuDnsGetServer6 index dns =
     (if index < 1 \<or> index > int AU_DNS_MAX6 then None else Some (dns ! nat (index - 1)))"

section \<open>Interfaces\<close>

type_synonym adapters = "string \<rightharpoonup> net_node"

definition dead_ndev :: AuNetworkDevice where
  "dead_ndev = \<lparr>nd_mac = replicate 6 0, nd_linkStatus = 0, nd_type = 0, nd_ipv4addr = 0,
     nd_ipv4subnet = 0, nd_ipv4gateway = 0, nd_ipv6addr = ip6_addr_zero,
     nd_ipv6gateway = ip6_addr_zero, nd_ipv6prefixLen = 0\<rparr>"

definition AuGetNetworkAdapter :: "adapters \<Rightarrow> string \<Rightarrow> net_node option" where
  "AuGetNetworkAdapter ads name = ads name"

text \<open>A known name keeps its node, which takes over the device; the node used is returned.\<close>

definition AuAddNetAdapter :: "adapters \<Rightarrow> net_node \<Rightarrow> string \<Rightarrow> net_node \<times> adapters" where
  "AuAddNetAdapter ads netfs name =
     (case ads name of
        Some old \<Rightarrow> let old' = old\<lparr>nn_device := nn_device netfs\<rparr> in (old', ads(name \<mapsto> old'))
      | None \<Rightarrow> (netfs, ads(name \<mapsto> netfs)))"

definition AuRemoveNetAdapter :: "adapters \<Rightarrow> string \<Rightarrow> int \<times> adapters" where
  "AuRemoveNetAdapter ads name =
     (case ads name of None \<Rightarrow> (-1, ads)
      | Some node \<Rightarrow> (0, ads(name \<mapsto> node\<lparr>nn_device := Some dead_ndev\<rparr>)))"

definition loopback_device :: AuNetworkDevice where
  "loopback_device = dead_ndev\<lparr>nd_linkStatus := 1, nd_type := NETDEV_TYPE_LOOPBACK,
     nd_ipv4addr := MAKE_IP 127 0 0 1, nd_ipv4subnet := MAKE_IP 255 0 0 0,
     nd_ipv6addr := replicate 15 0 @ [1], nd_ipv6prefixLen := 128\<rparr>"

definition AuNetCreateLoopback :: "adapters \<Rightarrow> adapters" where
  "AuNetCreateLoopback ads =
     snd (AuAddNetAdapter ads \<lparr>nn_filename = ''lo'', nn_device = Some loopback_device\<rparr> ''lo'')"

definition AuNetSeedLoopbackRoutes ::
    "AuRouteEntry list \<times> AuRouteEntry6 list \<Rightarrow> AuRouteEntry list \<times> AuRouteEntry6 list" where
  "AuNetSeedLoopbackRoutes = (\<lambda>(t4, t6).
     (AuRouteTableAdd \<lparr>rt_ifname = Some ''lo'', rt_dest = MAKE_IP 127 0 0 0,
        rt_netmask = MAKE_IP 255 0 0 0, rt_ifaddress = MAKE_IP 127 0 0 1, rt_gateway = 0,
        rt_flags = RTF_UP OR RTF_LOCAL\<rparr> t4,
      AuRouteTable6Add \<lparr>rt6_ifname = Some ''lo'', rt6_dest = replicate 15 0 @ [1],
        rt6_prefixLen = 128, rt6_ifaddress = replicate 15 0 @ [1], rt6_gateway = ip6_addr_zero,
        rt6_flags = RTF_UP OR RTF_LOCAL OR RTF_HOST\<rparr> t6))"

section \<open>Local addresses\<close>

definition AuNicAddrEquals4 :: "u32 \<Rightarrow> u32 \<Rightarrow> bool" where
  "AuNicAddrEquals4 address nicaddr =
     (if nicaddr = 0 then False
      else if address = nicaddr then True
      else if address = htonl nicaddr then True else False)"

definition AuCheckNicLocal4 :: "adapters \<Rightarrow> string \<Rightarrow> u32 \<Rightarrow> bool" where
  "AuCheckNicLocal4 ads name address =
     (case AuGetNetworkAdapter ads name of None \<Rightarrow> False
      | Some n \<Rightarrow> (case nn_device n of None \<Rightarrow> False
                  | Some d \<Rightarrow> AuNicAddrEquals4 address (nd_ipv4addr d)))"

definition AuAddrIsLocal4 :: "adapters \<Rightarrow> u32 \<Rightarrow> bool" where
  "AuAddrIsLocal4 ads address =
     (if address AND MAKE_IP 255 0 0 0 = MAKE_IP 127 0 0 0 then True
      else if address AND 0xFF000000 = 0x7F000000 then True
      else if AuCheckNicLocal4 ads ''lo'' address then True
      else if AuCheckNicLocal4 ads ''virtio-net'' address then True
      else if AuCheckNicLocal4 ads ''e1000'' address then True
      else if AuCheckNicLocal4 ads ''wlan0'' address then True
      else False)"

definition AuIsIpv6Loopback :: "ip6_addr \<Rightarrow> bool" where
  "AuIsIpv6Loopback a \<longleftrightarrow> list_all (\<lambda>i. a ! i = 0) [0..<15] \<and> a ! 15 = 1"

definition AuCheckNicLocal6 :: "adapters \<Rightarrow> string \<Rightarrow> ip6_addr \<Rightarrow> bool" where
  "AuCheckNicLocal6 ads name address =
     (case AuGetNetworkAdapter ads name of None \<Rightarrow> False
      | Some n \<Rightarrow> (case nn_device n of None \<Rightarrow> False
                  | Some d \<Rightarrow> if ip6_addr_is_zero (nd_ipv6addr d) then False
                             else ip6_addr_equal address (nd_ipv6addr d)))"

definition AuAddrIsLocal6 :: "adapters \<Rightarrow> ip6_addr \<Rightarrow> bool" where
  "AuAddrIsLocal6 ads address =
     (if AuIsIpv6Loopback address then True
      else if AuCheckNicLocal6 ads ''lo'' address then True
      else if AuCheckNicLocal6 ads ''virtio-net'' address then True
      else if AuCheckNicLocal6 ads ''e1000'' address then True
      else False)"

section \<open>Choosing the interface\<close>

text \<open>\<open>mem\<close>: the two allocations of an entry and its name succeed.\<close>

definition AuNetAddConnectedRoute4 ::
    "bool \<Rightarrow> net_node \<Rightarrow> string \<Rightarrow> AuRouteEntry list \<Rightarrow> AuRouteEntry list" where
  "AuNetAddConnectedRoute4 mem nic ifname tbl =
     (case nn_device nic of None \<Rightarrow> tbl
      | Some d \<Rightarrow>
          if nd_ipv4addr d = 0 \<or> nd_ipv4subnet d = 0 then tbl
          else if \<not> mem then tbl
          else AuRouteTableAdd \<lparr>rt_ifname = Some ifname,
                 rt_dest = nd_ipv4addr d AND nd_ipv4subnet d, rt_netmask = nd_ipv4subnet d,
                 rt_ifaddress = nd_ipv4addr d, rt_gateway = 0,
                 rt_flags = RTF_UP OR RTF_CONNECTED\<rparr> tbl)"

definition AuNetAddDefaultRoute4 ::
    "bool \<Rightarrow> net_node \<Rightarrow> string \<Rightarrow> AuRouteEntry list \<Rightarrow> AuRouteEntry list" where
  "AuNetAddDefaultRoute4 mem nic ifname tbl =
     (case nn_device nic of None \<Rightarrow> tbl
      | Some d \<Rightarrow>
          if nd_ipv4gateway d = 0 then tbl
          else if \<not> mem then tbl
          else AuRouteTableAdd \<lparr>rt_ifname = Some ifname, rt_dest = 0, rt_netmask = 0,
                 rt_ifaddress = nd_ipv4addr d, rt_gateway = nd_ipv4gateway d,
                 rt_flags = RTF_UP OR RTF_GATEWAY\<rparr> tbl)"

text \<open>The destination of a connected IPv6 route: the address cut to its prefix.\<close>

fun prefix_octets :: "ip6_addr \<Rightarrow> nat \<Rightarrow> ip6_addr" where
  "prefix_octets [] bits = []"
| "prefix_octets (a # as) bits =
     (if bits = 0 then 0 # prefix_octets as 0
      else if bits \<ge> 8 then a # prefix_octets as (bits - 8)
      else (a AND (0xFF * 2 ^ (8 - bits))) # prefix_octets as 0)"

definition AuNetAddConnectedRoute6 ::
    "bool \<Rightarrow> net_node \<Rightarrow> string \<Rightarrow> AuRouteEntry6 list \<Rightarrow> AuRouteEntry6 list" where
  "AuNetAddConnectedRoute6 mem nic ifname tbl =
     (case nn_device nic of None \<Rightarrow> tbl
      | Some d \<Rightarrow>
          if ip6_addr_is_zero (nd_ipv6addr d) \<or> nd_ipv6prefixLen d = 0 then tbl
          else if \<not> mem then tbl
          else AuRouteTable6Add \<lparr>rt6_ifname = Some ifname,
                 rt6_dest = prefix_octets (nd_ipv6addr d) (unat (nd_ipv6prefixLen d)),
                 rt6_prefixLen = nd_ipv6prefixLen d, rt6_ifaddress = nd_ipv6addr d,
                 rt6_gateway = ip6_addr_zero, rt6_flags = RTF_UP OR RTF_CONNECTED\<rparr> tbl)"

definition AuNetAddDefaultRoute6 ::
    "bool \<Rightarrow> net_node \<Rightarrow> string \<Rightarrow> AuRouteEntry6 list \<Rightarrow> AuRouteEntry6 list" where
  "AuNetAddDefaultRoute6 mem nic ifname tbl =
     (case nn_device nic of None \<Rightarrow> tbl
      | Some d \<Rightarrow>
          if ip6_addr_is_zero (nd_ipv6gateway d) then tbl
          else if \<not> mem then tbl
          else AuRouteTable6Add \<lparr>rt6_ifname = Some ifname, rt6_dest = ip6_addr_zero,
                 rt6_prefixLen = 0, rt6_ifaddress = nd_ipv6addr d,
                 rt6_gateway = nd_ipv6gateway d, rt6_flags = RTF_UP OR RTF_GATEWAY\<rparr> tbl)"

definition AuNetRadioNic :: "adapters \<Rightarrow> net_node option" where
  "AuNetRadioNic ads =
     (case AuGetNetworkAdapter ads ''virtio-net'' of Some n \<Rightarrow> Some n
      | None \<Rightarrow> AuGetNetworkAdapter ads ''e1000'')"

definition AuNetworkRoute ::
    "bool \<Rightarrow> adapters \<Rightarrow> u32 \<Rightarrow> AuRouteEntry list \<Rightarrow> net_node option \<times> AuRouteEntry list" where
  "AuNetworkRoute mem ads address tbl =
     (if AuAddrIsLocal4 ads address then (AuGetNetworkAdapter ads ''lo'', tbl)
      else case Option.bind (AuRouteLookup4 ads address tbl) rr_nic of
        Some nic \<Rightarrow> (Some nic, tbl)
      | None \<Rightarrow>
         (case AuNetRadioNic ads of None \<Rightarrow> (None, tbl)
          | Some nic \<Rightarrow>
             let tbl' = AuNetAddDefaultRoute4 mem nic (nn_filename nic)
                          (AuNetAddConnectedRoute4 mem nic (nn_filename nic) tbl)
             in case Option.bind (AuRouteLookup4 ads address tbl') rr_nic of
                  Some n \<Rightarrow> (Some n, tbl') | None \<Rightarrow> (Some nic, tbl')))"

definition AuNetworkRoute6 ::
    "bool \<Rightarrow> adapters \<Rightarrow> ip6_addr \<Rightarrow> AuRouteEntry6 list \<Rightarrow> net_node option \<times> AuRouteEntry6 list" where
  "AuNetworkRoute6 mem ads address tbl =
     (if AuAddrIsLocal6 ads address then (AuGetNetworkAdapter ads ''lo'', tbl)
      else case Option.bind (AuRouteLookup6 ads address tbl) rr6_nic of
        Some nic \<Rightarrow> (Some nic, tbl)
      | None \<Rightarrow>
         (case AuNetRadioNic ads of None \<Rightarrow> (None, tbl)
          | Some nic \<Rightarrow>
             let tbl' = AuNetAddDefaultRoute6 mem nic (nn_filename nic)
                          (AuNetAddConnectedRoute6 mem nic (nn_filename nic) tbl)
             in case Option.bind (AuRouteLookup6 ads address tbl') rr6_nic of
                  Some n \<Rightarrow> (Some n, tbl') | None \<Rightarrow> (Some nic, tbl')))"

section \<open>Ethernet and ARP\<close>

datatype net_event =
    ToRaw "u8 list"
  | ToICMP "u8 list" net_node
  | ToICMPv6 "u8 list" net_node
  | ToUDP "u8 list"
  | ToUDP6 "u8 list"
  | ToTCP "u8 list" net_node
  | ToTCP6 "u8 list" net_node
  | Rejected AuPacket
  | Frame net_node "u8 list"

definition ETHERNET_TYPE_IPV4 :: u16 where "ETHERNET_TYPE_IPV4 = 0x0800"
definition ETHERNET_TYPE_ARP :: u16 where "ETHERNET_TYPE_ARP = 0x0806"
definition ETHERNET_TYPE_IPV6 :: u16 where "ETHERNET_TYPE_IPV6 = 0x86DD"

text \<open>A 16-bit value in network order, a 32-bit value as it lies in memory.\<close>

definition bytes16 :: "u16 \<Rightarrow> u8 list" where
  "bytes16 v = [ucast (drop_bit 8 v), ucast v]"

definition bytes32 :: "u32 \<Rightarrow> u8 list" where
  "bytes32 v = [ucast v, ucast (drop_bit 8 v), ucast (drop_bit 16 v), ucast (drop_bit 24 v)]"

text \<open>\<open>memcpy(dst, data + off, n)\<close>: reading beyond the data is a fault.\<close>

definition bytes_at :: "u8 list \<Rightarrow> nat \<Rightarrow> nat \<Rightarrow> u8 list option" where
  "bytes_at d off n = (if off + n \<le> length d then Some (take n (drop off d)) else None)"

definition AuEthernetSend :: "net_node \<Rightarrow> u8 list \<Rightarrow> nat \<Rightarrow> u16 \<Rightarrow> u8 list \<Rightarrow> net_event list option" where
  "AuEthernetSend nic data len type dest =
     (case nn_device nic of None \<Rightarrow> Some []
      | Some d \<Rightarrow>
          if nd_type d = NETDEV_TYPE_LOOPBACK then Some []
          else map_option (\<lambda>payload. [Frame nic (dest @ nd_mac d @ bytes16 type @ payload)])
                 (bytes_at data 0 len))"

record AuARPCache =
  arp_hw_address :: "u8 list"
  arp_ipAddress :: u32
  arp_nic :: net_node

definition AuARPGet :: "u32 \<Rightarrow> AuARPCache list \<Rightarrow> AuARPCache option" where
  "AuARPGet address tbl = map_option (\<lambda>i. tbl ! i) (first_index (\<lambda>a. arp_ipAddress a = address) tbl)"

definition ARPProtocolAdd :: "net_node \<Rightarrow> u32 \<Rightarrow> u8 list \<Rightarrow> AuARPCache list \<Rightarrow> AuARPCache list" where
  "ARPProtocolAdd nic address hwaddr tbl =
     tbl @ [\<lparr>arp_hw_address = hwaddr, arp_ipAddress = address, arp_nic = nic\<rparr>]"

definition arp_bytes :: "u16 \<Rightarrow> u8 list \<Rightarrow> u32 \<Rightarrow> u8 list \<Rightarrow> u32 \<Rightarrow> u8 list" where
  "arp_bytes operation sha spa tha tpa =
     bytes16 1 @ bytes16 ETHERNET_TYPE_IPV4 @ [6, 4] @ bytes16 operation @
     sha @ bytes32 spa @ tha @ bytes32 tpa"

definition AuARPRequestMAC :: "net_node \<Rightarrow> u32 \<Rightarrow> net_event list option" where
  "AuARPRequestMAC nic addr =
     (case nn_device nic of None \<Rightarrow> Some []
      | Some d \<Rightarrow> AuEthernetSend nic
          (arp_bytes 1 (nd_mac d) (if nd_ipv4addr d \<noteq> 0 then nd_ipv4addr d else 0)
             (replicate 6 0) addr) 28 ETHERNET_TYPE_ARP (replicate 6 0xFF))"

text \<open>
  \<open>poll n tbl\<close> is the cache after the \<open>n\<close>-th poll of the receive ring: what the interface
  delivers meanwhile is a parameter.
\<close>

fun arp_poll :: "nat \<Rightarrow> (nat \<Rightarrow> AuARPCache list \<Rightarrow> AuARPCache list) \<Rightarrow> nat \<Rightarrow> u32 \<Rightarrow>
    AuARPCache list \<Rightarrow> AuARPCache option \<times> AuARPCache list" where
  "arp_poll 0 poll n addr tbl = (None, tbl)"
| "arp_poll (Suc k) poll n addr tbl =
     (let tbl' = poll n tbl in
      case AuARPGet addr tbl' of Some c \<Rightarrow> (Some c, tbl')
      | None \<Rightarrow> arp_poll k poll (Suc n) addr tbl')"

definition AuARPResolve :: "(nat \<Rightarrow> AuARPCache list \<Rightarrow> AuARPCache list) \<Rightarrow> net_node \<Rightarrow> u32 \<Rightarrow>
    AuARPCache list \<Rightarrow> (AuARPCache option \<times> AuARPCache list \<times> net_event list) option" where
  "AuARPResolve poll nic addr tbl =
     (case AuARPGet addr tbl of Some c \<Rightarrow> Some (Some c, tbl, [])
      | None \<Rightarrow> map_option (\<lambda>evs. let (c, tbl') = arp_poll 50 poll 0 addr tbl in (c, tbl', evs))
                 (AuARPRequestMAC nic addr))"

definition ARPHandlePacket :: "net_node \<Rightarrow> u8 list \<Rightarrow> AuARPCache list \<Rightarrow>
    (AuARPCache list \<times> net_event list) option" where
  "ARPHandlePacket nic data tbl =
     (case nn_device nic of None \<Rightarrow> Some (tbl, [])
      | Some eth \<Rightarrow> do {
          hwtype \<leftarrow> load16 data 0;
          proto \<leftarrow> load16 data 2;
          oper \<leftarrow> load16 data 6;
          sha \<leftarrow> bytes_at data 8 6;
          spa \<leftarrow> load32 data 14;
          tpa \<leftarrow> load32 data 24;
          let tbl' = (if htons hwtype = 1 \<and> htons proto = ETHERNET_TYPE_IPV4 \<and> spa \<noteq> 0 \<and>
                         AuARPGet spa tbl = None
                      then ARPProtocolAdd nic spa sha tbl else tbl);
          evs \<leftarrow> (if htons oper = 1 \<and> nd_ipv4addr eth \<noteq> 0 \<and> tpa = nd_ipv4addr eth
                  then AuEthernetSend nic (arp_bytes 2 (nd_mac eth) (nd_ipv4addr eth) sha spa) 28
                         ETHERNET_TYPE_ARP sha
                  else Some []);
          Some (tbl', evs) })"

section \<open>The header checksum\<close>

fun csum_words :: "u8 list \<Rightarrow> nat \<Rightarrow> nat \<Rightarrow> u32 \<Rightarrow> u32 option" where
  "csum_words p i 0 acc = Some acc"
| "csum_words p i (Suc k) acc = do {
     w \<leftarrow> load16 p (2 * i);
     let s = acc + ucast (htons w);
     csum_words p (i + 1) k (if s > 0xFFFF then drop_bit 16 s + (s AND 0xFFFF) else s) }"

definition IPv4CalculateChecksum :: "u8 list \<Rightarrow> u16 option" where
  "IPv4CalculateChecksum p =
     map_option (\<lambda>s. ucast (NOT (s AND 0xFFFF) AND 0xFFFF)) (csum_words p 0 10 0)"

section \<open>IP input and output\<close>

record net_sys =
  ns_nf :: nf_state
  ns_adapters :: adapters
  ns_routes :: "AuRouteEntry list"
  ns_arp :: "AuARPCache list"
  ns_origin :: pkt_origin

text \<open>The filter at one hook: whether the packet goes on, the packet, the rejects.\<close>

definition nf_pass :: "net_sys \<Rightarrow> int \<Rightarrow> AuPacket \<Rightarrow> (bool \<times> AuPacket \<times> net_event list) option" where
  "nf_pass s hook pkt = map_option (\<lambda>(v, pkt', rej). (v \<noteq> NF_DROP, pkt', map Rejected rej))
     (AuNetfilterHook (ns_nf s) hook pkt)"

definition local_dest4 :: "net_sys \<Rightarrow> net_node \<Rightarrow> u32 \<Rightarrow> bool" where
  "local_dest4 s nic dest \<longleftrightarrow> AuAddrIsLocal4 (ns_adapters s) dest \<or> dest = 0xFFFFFFFF \<or>
     dest AND MAKE_IP 240 0 0 0 = MAKE_IP 224 0 0 0 \<or>
     (case nn_device nic of None \<Rightarrow> False
      | Some d \<Rightarrow> nd_ipv4addr d \<noteq> 0 \<and> dest = nd_ipv4addr d)"

definition IPv4HandlePacket :: "net_sys \<Rightarrow> u8 list \<Rightarrow> net_node \<Rightarrow> net_event list option" where
  "IPv4HandlePacket s pack nic = do {
     total \<leftarrow> load16 pack 2;
     pkt \<leftarrow> AuPacketInitIpv4 (au_pkt_origin (ns_origin s)) (Some pack) (htons total) (Some nic) None;
     dest \<leftarrow> load32 pack 16;
     (ok1, pkt1, ev1) \<leftarrow>
       (if au_pkt_origin (ns_origin s) \<noteq> AU_PKT_ORIGIN_LOCAL then nf_pass s NF_PRE_ROUTING pkt
        else Some (True, pkt, []));
     if \<not> ok1 then Some ev1
     else if local_dest4 s nic dest then do {
       (ok2, pkt2, ev2) \<leftarrow> nf_pass s NF_LOCAL_IN (pkt1\<lparr>pk_in_dev := Some nic\<rparr>);
       if \<not> ok2 then Some (ev1 @ ev2)
       else do {
         protocol \<leftarrow> byte_at pack 9;
         Some (ev1 @ ev2 @
           (if protocol = 1 then [ToICMP pack nic]
            else if protocol = IPV4_PROTOCOL_UDP then [ToUDP pack]
            else if protocol = IPV4_PROTOCOL_TCP then [ToTCP pack nic]
            else [])) } }
     else do {
       (ok2, pkt2, ev2) \<leftarrow> nf_pass s NF_FORWARD pkt1;
       Some (ev1 @ ev2) } }"

text \<open>The packet as the transport hands it over; the local path re-enters the input.\<close>

definition IPV4SendPacket :: "(nat \<Rightarrow> AuARPCache list \<Rightarrow> AuARPCache list) \<Rightarrow> net_sys \<Rightarrow> u8 list \<Rightarrow>
    net_node \<Rightarrow> (net_event list \<times> net_sys) option" where
  "IPV4SendPacket poll s packet nic =
     (case nn_device nic of None \<Rightarrow> Some ([], s)
      | Some ndev \<Rightarrow> do {
          ip_dest \<leftarrow> load32 packet 16;
          total \<leftarrow> load16 packet 2;
          let loc = (nd_type ndev = NETDEV_TYPE_LOOPBACK \<or> AuAddrIsLocal4 (ns_adapters s) ip_dest);
          let lo = (case AuGetNetworkAdapter (ns_adapters s) ''lo'' of Some n \<Rightarrow> n | None \<Rightarrow> nic);
          pkt \<leftarrow> AuPacketInitIpv4 (au_pkt_origin (ns_origin s)) (Some packet) (htons total) None
                  (Some (if loc then lo else nic));
          (ok1, pkt1, ev1) \<leftarrow> nf_pass s NF_LOCAL_OUT pkt;
          if \<not> ok1 then Some (ev1, s)
          else do {
            (ok2, pkt2, ev2) \<leftarrow> nf_pass s NF_POST_ROUTING pkt1;
            if \<not> ok2 then Some (ev1 @ ev2, s)
            else if loc then
              (case AuPacketLocalEnter (ns_origin s) of
                 (False, st) \<Rightarrow> Some (ev1 @ ev2, s\<lparr>ns_origin := st\<rparr>)
               | (True, st) \<Rightarrow> do {
                   ev3 \<leftarrow> IPv4HandlePacket (s\<lparr>ns_origin := st\<rparr>) packet lo;
                   Some (ev1 @ ev2 @ ev3, s\<lparr>ns_origin := AuPacketLocalLeave st\<rparr>) })
            else do {
              let hop = (case AuRouteLookup4 (ns_adapters s) ip_dest (ns_routes s) of None \<Rightarrow> ip_dest
                         | Some rr \<Rightarrow> if rr_flags rr AND RTF_GATEWAY \<noteq> 0 \<and> rr_nexthop rr \<noteq> 0
                                     then rr_nexthop rr else ip_dest);
              if nd_type ndev = NETDEV_TYPE_ETHERNET \<or> nd_type ndev = NETDEV_TYPE_802_11
              then do {
                (cache, tbl, ev3) \<leftarrow> AuARPResolve poll nic hop (ns_arp s);
                let s' = s\<lparr>ns_arp := tbl\<rparr>;
                (case cache of None \<Rightarrow> Some (ev1 @ ev2 @ ev3, s')
                 | Some c \<Rightarrow> do {
                     ev4 \<leftarrow> AuEthernetSend nic packet (unat (htons total)) ETHERNET_TYPE_IPV4
                             (arp_hw_address c);
                     Some (ev1 @ ev2 @ ev3 @ ev4, s') }) }
              else Some (ev1 @ ev2, s) } } })"

text \<open>IPv6 input; the version is the high nibble of the first byte.\<close>

definition IPv6HandlePacket :: "net_sys \<Rightarrow> u8 list \<Rightarrow> net_node \<Rightarrow> net_event list option" where
  "IPv6HandlePacket s pack nic = do {
     b0 \<leftarrow> byte_at pack 0;
     if drop_bit 4 b0 \<noteq> 6 then Some []
     else do {
       plen \<leftarrow> load16 pack 4;
       nextHeader \<leftarrow> byte_at pack 6;
       dest \<leftarrow> bytes_at pack 24 16;
       let pkt = zero_packet\<lparr>pk_data := Some pack, pk_len := 40 + htons plen, pk_l4_off := 40,
                   pk_proto := nextHeader, pk_origin := au_pkt_origin (ns_origin s),
                   pk_in_dev := Some nic, pk_verdict := NF_ACCEPT\<rparr>;
       let loc = (AuAddrIsLocal6 (ns_adapters s) dest \<or> ip6_is_multicast dest \<or>
                  (case nn_device nic of None \<Rightarrow> False
                   | Some d \<Rightarrow> \<not> ip6_addr_is_zero (nd_ipv6addr d) \<and> ip6_addr_equal dest (nd_ipv6addr d)));
       (ok1, pkt1, ev1) \<leftarrow>
         (if au_pkt_origin (ns_origin s) \<noteq> AU_PKT_ORIGIN_LOCAL then nf_pass s NF_PRE_ROUTING pkt
          else Some (True, pkt, []));
       if \<not> ok1 then Some ev1
       else if loc then do {
         (ok2, pkt2, ev2) \<leftarrow> nf_pass s NF_LOCAL_IN pkt1;
         if \<not> ok2 then Some (ev1 @ ev2)
         else Some (ev1 @ ev2 @
           (if nextHeader = IPV6_NEXT_ICMPV6 then [ToICMPv6 pack nic]
            else if nextHeader = IPV4_PROTOCOL_UDP then [ToUDP6 pack]
            else if nextHeader = IPV4_PROTOCOL_TCP then [ToTCP6 pack nic]
            else [])) }
       else do {
         (ok2, pkt2, ev2) \<leftarrow> nf_pass s NF_FORWARD pkt1;
         Some (ev1 @ ev2) } } }"

text \<open>A frame from an interface; every raw socket (\<open>raws\<close> of them) gets a copy first.\<close>

definition AuEthernetHandle :: "nat \<Rightarrow> net_sys \<Rightarrow> u8 list \<Rightarrow> net_node \<Rightarrow> (net_event list \<times> net_sys) option" where
  "AuEthernetHandle raws s frame nic =
     (case nn_device nic of None \<Rightarrow> Some ([], s)
      | Some ndev \<Rightarrow> do {
          dest \<leftarrow> bytes_at frame 0 6;
          type \<leftarrow> load16 frame 12;
          let ev0 = replicate raws (ToRaw frame);
          if dest = nd_mac ndev \<or> dest = replicate 6 0xFF then
            (if htons type = ETHERNET_TYPE_ARP then
               map_option (\<lambda>(tbl, ev). (ev0 @ ev, s\<lparr>ns_arp := tbl\<rparr>))
                 (ARPHandlePacket nic (drop 14 frame) (ns_arp s))
             else if htons type = ETHERNET_TYPE_IPV4 then
               map_option (\<lambda>ev. (ev0 @ ev, s)) (IPv4HandlePacket s (drop 14 frame) nic)
             else if htons type = ETHERNET_TYPE_IPV6 then
               map_option (\<lambda>ev. (ev0 @ ev, s)) (IPv6HandlePacket s (drop 14 frame) nic)
             else Some (ev0, s))
          else Some (ev0, s) })"

section \<open>What input delivers\<close>

definition upcall :: "net_event \<Rightarrow> bool" where
  "upcall e \<longleftrightarrow> (case e of ToICMP _ _ \<Rightarrow> True | ToUDP _ \<Rightarrow> True | ToTCP _ _ \<Rightarrow> True | _ \<Rightarrow> False)"

definition is_frame :: "net_event \<Rightarrow> bool" where
  "is_frame e \<longleftrightarrow> (case e of Frame _ _ \<Rightarrow> True | _ \<Rightarrow> False)"

lemma upcall_simps [simp]:
  "upcall (ToICMP p n)" "upcall (ToUDP p)" "upcall (ToTCP p n)" "\<not> upcall (Rejected q)" "\<not> upcall (Frame n f)"
  "\<not> is_frame (ToICMP p n)" "\<not> is_frame (ToUDP p)" "\<not> is_frame (ToTCP p n)" "\<not> is_frame (Rejected q)"
  "is_frame (Frame n f)"
  by (simp_all add: upcall_def is_frame_def)

text \<open>A header that can be read: 20 bytes, and the two ports behind the header length.\<close>

definition ipv4_readable :: "u8 list \<Rightarrow> bool" where
  "ipv4_readable ip \<longleftrightarrow> max 20 (4 * unat (ip ! 0 AND 0x0F)) + 4 \<le> length ip"

text \<open>Whether the packet passes the filter at a hook.\<close>

definition passes :: "net_sys \<Rightarrow> int \<Rightarrow> AuPacket \<Rightarrow> bool" where
  "passes s hook pkt \<longleftrightarrow> map_option fst (AuNetfilterHook (ns_nf s) hook pkt) \<noteq> Some NF_DROP"

lemma nf_pass_result:
  assumes "nf_wf (ns_nf s)" "nf_readable pkt" "0 \<le> hook" "hook < 5"
  shows "\<exists>v rej. nf_pass s hook pkt = Some (passes s hook pkt, pkt\<lparr>pk_verdict := v\<rparr>, map Rejected rej)"
proof -
  let ?p = "pkt\<lparr>pk_verdict := NF_ACCEPT\<rparr>"
  obtain r v rej where "nf_hook_loop (map Some (nf_chain (ns_nf s))) hook ?p = Some (r, ?p\<lparr>pk_verdict := v\<rparr>, rej)"
    using hook_loop_result [of ?p "nf_chain (ns_nf s)" hook] assms(2) by auto
  then have "AuNetfilterHook (ns_nf s) hook pkt = Some (r, pkt\<lparr>pk_verdict := v\<rparr>, rej)"
    using assms by (simp add: AuNetfilterHook_def nf_chain_Some NF_NUM_HOOKS_def)
  then show ?thesis by (auto simp: nf_pass_def passes_def)
qed

lemma passes_verdict [simp]: "passes s hook (pkt\<lparr>pk_verdict := v\<rparr>) = passes s hook pkt"
  by (simp add: passes_def AuNetfilterHook_def)

lemma rejects_silent [simp]:
  "filter upcall (map Rejected rej) = []" "filter is_frame (map Rejected rej) = []"
  by (simp_all add: filter_empty_conv)

definition rx_packet :: "net_sys \<Rightarrow> u8 list \<Rightarrow> net_node \<Rightarrow> AuPacket" where
  "rx_packet s pack nic = the (AuPacketInitIpv4 (au_pkt_origin (ns_origin s)) (Some pack)
     (htons (the (load16 pack 2))) (Some nic) None)"

definition ipv4_upcalls :: "u8 list \<Rightarrow> net_node \<Rightarrow> net_event list" where
  "ipv4_upcalls pack nic =
     (if pack ! 9 = 1 then [ToICMP pack nic]
      else if pack ! 9 = 17 then [ToUDP pack]
      else if pack ! 9 = 6 then [ToTCP pack nic] else [])"

lemma ipv4_upcalls_filter [simp]:
  "filter upcall (ipv4_upcalls pack nic) = ipv4_upcalls pack nic" "filter is_frame (ipv4_upcalls pack nic) = []"
  by (simp_all add: ipv4_upcalls_def)

lemma rx_packet_ok:
  assumes "ipv4_readable pack"
  shows "nf_readable (rx_packet s pack nic)" "pk_data (rx_packet s pack nic) = Some pack"
    "pk_in_dev (rx_packet s pack nic) = Some nic" "pk_proto (rx_packet s pack nic) = pack ! 9"
    "unat (pk_l4_off (rx_packet s pack nic)) = max 20 (4 * unat (pack ! 0 AND 0x0F))"
    "AuPacketInitIpv4 (au_pkt_origin (ns_origin s)) (Some pack) (htons (the (load16 pack 2))) (Some nic) None
       = Some (rx_packet s pack nic)"
proof -
  have len: "20 \<le> length pack" using assms by (simp add: ipv4_readable_def)
  note init = AuPacketInitIpv4_Some [OF len, of "au_pkt_origin (ns_origin s)" "htons (the (load16 pack 2))"
      "Some nic" None]
  show "pk_data (rx_packet s pack nic) = Some pack"
    "pk_in_dev (rx_packet s pack nic) = Some nic" "pk_proto (rx_packet s pack nic) = pack ! 9"
    "unat (pk_l4_off (rx_packet s pack nic)) = max 20 (4 * unat (pack ! 0 AND 0x0F))"
    "AuPacketInitIpv4 (au_pkt_origin (ns_origin s)) (Some pack) (htons (the (load16 pack 2))) (Some nic) None
       = Some (rx_packet s pack nic)"
    using init by (auto simp: rx_packet_def)
  then show "nf_readable (rx_packet s pack nic)"
    using assms len by (simp add: nf_readable_def ipv4_readable_def)
qed

lemma IPv4HandlePacket_events:
  assumes wf: "nf_wf (ns_nf s)" and rd: "ipv4_readable pack"
  shows "\<exists>evs. IPv4HandlePacket s pack nic = Some evs \<and> filter is_frame evs = [] \<and>
    filter upcall evs =
      (if (au_pkt_origin (ns_origin s) = AU_PKT_ORIGIN_LOCAL \<or> passes s NF_PRE_ROUTING (rx_packet s pack nic)) \<and>
          local_dest4 s nic (the (load32 pack 16)) \<and> passes s NF_LOCAL_IN (rx_packet s pack nic)
       then ipv4_upcalls pack nic else [])"
proof -
  have len: "24 \<le> length pack" using rd by (simp add: ipv4_readable_def)
  obtain total dest where l: "load16 pack 2 = Some total" "load32 pack 16 = Some dest"
    using load16_Some [of 2 pack] load32_Some [of 16 pack] len by fastforce
  define pkt where "pkt = rx_packet s pack nic"
  note rx = pkt_def [symmetric]
  have pkt: "AuPacketInitIpv4 (au_pkt_origin (ns_origin s)) (Some pack) (htons total) (Some nic) None = Some pkt"
    and pd: "pk_in_dev pkt = Some nic" and rdp: "nf_readable pkt"
    using rx_packet_ok [OF rd, of s nic] l by (simp_all add: pkt_def)
  have same: "pkt\<lparr>pk_verdict := v\<rparr>\<lparr>pk_in_dev := Some nic\<rparr> = pkt\<lparr>pk_verdict := v\<rparr>" for v
    using pd by simp
  have b9: "byte_at pack 9 = Some (pack ! 9)" using len by (simp add: byte_at_def)
  obtain v1 r1 where p1: "nf_pass s NF_PRE_ROUTING pkt =
      Some (passes s NF_PRE_ROUTING pkt, pkt\<lparr>pk_verdict := v1\<rparr>, map Rejected r1)"
    using nf_pass_result [OF wf rdp, of NF_PRE_ROUTING] by (auto simp: NF_PRE_ROUTING_def)
  have p2: "\<exists>v r. nf_pass s h (pkt\<lparr>pk_verdict := w\<rparr>) = Some (passes s h pkt, pkt\<lparr>pk_verdict := v\<rparr>, map Rejected r)"
    if "0 \<le> h" "h < 5" for h w
    using nf_pass_result [OF wf, of "pkt\<lparr>pk_verdict := w\<rparr>" h] rdp that by auto
  have up: "(if pack ! 9 = 1 then [ToICMP pack nic]
            else if pack ! 9 = IPV4_PROTOCOL_UDP then [ToUDP pack]
            else if pack ! 9 = IPV4_PROTOCOL_TCP then [ToTCP pack nic] else []) = ipv4_upcalls pack nic"
    by (simp add: ipv4_upcalls_def ip_proto_defs)
  let ?org = "au_pkt_origin (ns_origin s) = AU_PKT_ORIGIN_LOCAL"
  obtain w ev1 where start: "(if au_pkt_origin (ns_origin s) \<noteq> AU_PKT_ORIGIN_LOCAL then nf_pass s NF_PRE_ROUTING pkt
      else Some (True, pkt, [])) = Some (?org \<or> passes s NF_PRE_ROUTING pkt, pkt\<lparr>pk_verdict := w\<rparr>, map Rejected ev1)"
  proof (cases ?org)
    case True
    then show ?thesis using that [of "pk_verdict pkt" "[]"] by simp
  next
    case False
    then show ?thesis using that [of v1 r1] p1 by simp
  qed
  obtain vl rl where in': "nf_pass s NF_LOCAL_IN (pkt\<lparr>pk_verdict := w\<rparr>) =
      Some (passes s NF_LOCAL_IN pkt, pkt\<lparr>pk_verdict := vl\<rparr>, map Rejected rl)"
    using p2 [of NF_LOCAL_IN w] by (auto simp: NF_LOCAL_IN_def)
  obtain vf rf where fw': "nf_pass s NF_FORWARD (pkt\<lparr>pk_verdict := w\<rparr>) =
      Some (passes s NF_FORWARD pkt, pkt\<lparr>pk_verdict := vf\<rparr>, map Rejected rf)"
    using p2 [of NF_FORWARD w] by (auto simp: NF_FORWARD_def)
  have "IPv4HandlePacket s pack nic = Some (map Rejected ev1 @
      (if \<not> (?org \<or> passes s NF_PRE_ROUTING pkt) then []
       else if local_dest4 s nic dest then
         map Rejected rl @ (if passes s NF_LOCAL_IN pkt then ipv4_upcalls pack nic else [])
       else map Rejected rf))"
    unfolding IPv4HandlePacket_def
    by (simp add: l pkt start same in' fw' b9 up del: not_False_eq_True)
  then show ?thesis unfolding rx l(2) by auto
qed

text \<open>
  C3. IPv4 input on a readable packet never faults, never sends a frame and so never
  forwards. It hands the packet to at most one protocol, the one its header names, and does
  so exactly when the destination is local, the filter lets it in, and, unless it came
  through the loopback, the pre-routing hook passed it too.
\<close>

theorem IPv4HandlePacket_delivery:
  assumes "nf_wf (ns_nf s)" "ipv4_readable pack"
  shows "\<exists>evs. IPv4HandlePacket s pack nic = Some evs \<and> filter is_frame evs = [] \<and>
    filter upcall evs =
      (if (au_pkt_origin (ns_origin s) = AU_PKT_ORIGIN_LOCAL \<or> passes s NF_PRE_ROUTING (rx_packet s pack nic)) \<and>
          local_dest4 s nic (the (load32 pack 16)) \<and> passes s NF_LOCAL_IN (rx_packet s pack nic)
       then (if pack ! 9 = 1 then [ToICMP pack nic]
             else if pack ! 9 = 17 then [ToUDP pack]
             else if pack ! 9 = 6 then [ToTCP pack nic] else [])
       else [])"
  using IPv4HandlePacket_events [OF assms, of nic] unfolding ipv4_upcalls_def .

text \<open>
  C4. With the filter as installed at boot, an IPv4 packet for this host that arrives on the
  adapter named virtio-net or e1000 reaches a protocol exactly if it is ICMP, TCP, or UDP to
  port 67 or 68 or from port 53. Nothing is said of packets from other adapters.
\<close>

theorem boot_policy_delivery:
  assumes "ns_nf s = xr_state" "ipv4_readable pack" "nn_filename nic \<in> {''virtio-net'', ''e1000''}"
    "local_dest4 s nic (the (load32 pack 16))"
    "load16 pack (max 20 (4 * unat (pack ! 0 AND 0x0F))) = Some sp"
    "load16 pack (max 20 (4 * unat (pack ! 0 AND 0x0F)) + 2) = Some dp"
  shows "\<exists>evs. IPv4HandlePacket s pack nic = Some evs \<and>
    (filter upcall evs \<noteq> [] \<longleftrightarrow>
       pack ! 9 = 1 \<or> pack ! 9 = 6 \<or> pack ! 9 = 17 \<and> (htons dp = 67 \<or> htons dp = 68 \<or> htons sp = 53))"
proof -
  let ?p = "rx_packet s pack nic"
  note rx = rx_packet_ok [OF assms(2), of s nic]
  have ports: "\<exists>a b. AuNfGetPort ?p False = Some a \<and> AuNfGetPort ?p True = Some b \<and>
      (pack ! 9 = 17 \<longrightarrow> a = htons sp \<and> b = htons dp)"
    using rx assms(5,6) by (simp add: AuNfGetPort_def ip_proto_defs)
  then obtain a b where ab: "AuNfGetPort ?p False = Some a" "AuNfGetPort ?p True = Some b"
    "pack ! 9 = 17 \<longrightarrow> a = htons sp \<and> b = htons dp" by blast
  note v = xr_verdicts [OF rx(1-3) ab(1,2)]
  have "passes s NF_PRE_ROUTING ?p"
    using v [of 0] by (auto simp: passes_def assms(1) nf_hook_defs nf_verdict_defs)
  moreover have "passes s NF_LOCAL_IN ?p \<longleftrightarrow>
      pack ! 9 = 17 \<and> (htons dp = 67 \<or> htons dp = 68 \<or> htons sp = 53) \<or> pack ! 9 \<in> {1, 58, 6}"
    using v [of 1] assms(3) ab(3) rx(4)
    by (auto simp: passes_def assms(1) nf_hook_defs nf_verdict_defs split: if_splits)
  ultimately show ?thesis
    using IPv4HandlePacket_events [of s pack nic] xr_state_ok assms(1,2,4)
    by (auto simp: ipv4_upcalls_def)
qed

section \<open>What output sends\<close>

definition tx_packet :: "net_sys \<Rightarrow> u8 list \<Rightarrow> net_node \<Rightarrow> AuPacket" where
  "tx_packet s pack dev = the (AuPacketInitIpv4 (au_pkt_origin (ns_origin s)) (Some pack)
     (htons (the (load16 pack 2))) None (Some dev))"

text \<open>The state in which a packet for this host re-enters the input.\<close>

definition reinjected :: "net_sys \<Rightarrow> net_sys" where
  "reinjected s = s\<lparr>ns_origin := (ns_origin s)\<lparr>
     au_pkt_local_depth := au_pkt_local_depth (ns_origin s) + 1, au_pkt_origin := AU_PKT_ORIGIN_LOCAL\<rparr>\<rparr>"

text \<open>
  C5. A packet for a local address, or sent on the loopback, never becomes a frame: it reaches
  the protocols that the input of the same bytes on the loopback gives, one level deeper and
  marked local, if both output hooks pass it and fewer than two such deliveries are running,
  and no protocol otherwise. Sending it leaves the nesting depth as it was.
\<close>

theorem IPV4SendPacket_local:
  assumes "nf_wf (ns_nf s)" "ipv4_readable pack" "nn_device nic = Some ndev" "ns_adapters s ''lo'' = Some lo"
    "nd_type ndev = NETDEV_TYPE_LOOPBACK \<or> AuAddrIsLocal4 (ns_adapters s) (the (load32 pack 16))"
    "0 \<le> au_pkt_local_depth (ns_origin s)"
  shows "\<exists>evs s' inner. IPV4SendPacket poll s pack nic = Some (evs, s') \<and> filter is_frame evs = [] \<and>
    au_pkt_local_depth (ns_origin s') = au_pkt_local_depth (ns_origin s) \<and>
    IPv4HandlePacket (reinjected s) pack lo = Some inner \<and>
    filter upcall evs =
      (if au_pkt_local_depth (ns_origin s) < 2 \<and> passes s NF_LOCAL_OUT (tx_packet s pack lo) \<and>
          passes s NF_POST_ROUTING (tx_packet s pack lo)
       then filter upcall inner else [])"
proof -
  have len: "24 \<le> length pack" using assms(2) by (simp add: ipv4_readable_def)
  obtain total dest where l: "load16 pack 2 = Some total" "load32 pack 16 = Some dest"
    using load16_Some [of 2 pack] load32_Some [of 16 pack] len by fastforce
  note lo = assms(4)
  have "20 \<le> length pack" using len by simp
  from AuPacketInitIpv4_Some [OF this, of "au_pkt_origin (ns_origin s)" "htons total" None "Some lo"]
  obtain pkt where pkt: "AuPacketInitIpv4 (au_pkt_origin (ns_origin s)) (Some pack) (htons total) None (Some lo) = Some pkt"
    "pk_data pkt = Some pack" "unat (pk_l4_off pkt) = max 20 (4 * unat (pack ! 0 AND 0x0F))" by blast
  have tx: "tx_packet s pack lo = pkt" using pkt(1) l(1) by (simp add: tx_packet_def)
  have rdp: "nf_readable pkt" using pkt(2,3) assms(2) len by (simp add: nf_readable_def ipv4_readable_def)
  obtain v1 r1 where p1: "nf_pass s NF_LOCAL_OUT pkt =
      Some (passes s NF_LOCAL_OUT pkt, pkt\<lparr>pk_verdict := v1\<rparr>, map Rejected r1)"
    using nf_pass_result [OF assms(1) rdp, of NF_LOCAL_OUT] by (auto simp: NF_LOCAL_OUT_def)
  obtain v2 r2 where p2: "nf_pass s NF_POST_ROUTING (pkt\<lparr>pk_verdict := v1\<rparr>) =
      Some (passes s NF_POST_ROUTING pkt, pkt\<lparr>pk_verdict := v2\<rparr>, map Rejected r2)"
    using nf_pass_result [OF assms(1), of "pkt\<lparr>pk_verdict := v1\<rparr>" NF_POST_ROUTING] rdp
    by (auto simp: NF_POST_ROUTING_def)
  have loc: "nd_type ndev = NETDEV_TYPE_LOOPBACK \<or> AuAddrIsLocal4 (ns_adapters s) dest"
    using assms(5) l by simp
  obtain ok st where en: "AuPacketLocalEnter (ns_origin s) = (ok, st)" by fastforce
  have ok: "ok \<longleftrightarrow> au_pkt_local_depth (ns_origin s) < 2" "ok \<Longrightarrow> s\<lparr>ns_origin := st\<rparr> = reinjected s"
    using en by (auto simp: AuPacketLocalEnter_def AU_PKT_LOCAL_DEPTH_CAP_def reinjected_def split: if_splits)
  obtain ev where ev: "IPv4HandlePacket (reinjected s) pack lo = Some ev" "filter is_frame ev = []"
    using IPv4HandlePacket_events [of "reinjected s" pack lo] assms(1,2) by (auto simp: reinjected_def)
  have "IPV4SendPacket poll s pack nic =
      (if \<not> passes s NF_LOCAL_OUT pkt then Some (map Rejected r1, s)
       else if \<not> passes s NF_POST_ROUTING pkt then Some (map Rejected r1 @ map Rejected r2, s)
       else if ok then Some (map Rejected r1 @ map Rejected r2 @ ev, s\<lparr>ns_origin := AuPacketLocalLeave st\<rparr>)
       else Some (map Rejected r1 @ map Rejected r2, s\<lparr>ns_origin := st\<rparr>))"
    unfolding IPV4SendPacket_def
    using loc ev(1) ok(2) by (auto simp: assms(3) l lo pkt(1) p1 p2 en AuGetNetworkAdapter_def)
  moreover have "ok \<Longrightarrow> au_pkt_local_depth (AuPacketLocalLeave st) = au_pkt_local_depth (ns_origin s)"
    using local_enter_leave [of "ns_origin s" st] en assms(6) by simp
  moreover have "\<not> ok \<Longrightarrow> st = ns_origin s" using en by (auto simp: AuPacketLocalEnter_def split: if_splits)
  ultimately show ?thesis unfolding tx ok(1) [symmetric] using ev by auto
qed

text \<open>
  Every address whose last octet is 127 counts as local, whatever the interfaces: the
  test meant for 127.0.0.0/8 in host order also matches such addresses in wire form.
\<close>

theorem AuAddrIsLocal4_last_octet_127:
  assumes "a < 256" "b < 256" "c < 256"
  shows "AuAddrIsLocal4 ads (MAKE_IP a b c 127)"
proof -
  have byte: "take_bit 8 x = x" if "x < 256" for x :: u32
  proof -
    have "unat (take_bit 8 x) = unat x"
      using that by (simp add: unsigned_take_bit_eq take_bit_nat_eq_self word_less_nat_alt)
    then show ?thesis by (simp only: word_unat_eq_iff)
  qed
  have m: "0xFF000000 = (push_bit 24 (mask 8) :: u32)" "(127 :: u32) = mask 7"
    "0x7F000000 = (push_bit 24 (mask 7) :: u32)"
    by (simp_all add: mask_eq_exp_minus_1)
  have "MAKE_IP (take_bit 8 a) (take_bit 8 b) (take_bit 8 c) 127 AND 0xFF000000 = 0x7F000000"
    unfolding MAKE_IP_def m by (rule bit_word_eqI) (auto simp: bit_simps)
  then have "MAKE_IP a b c 127 AND 0xFF000000 = 0x7F000000" by (simp add: byte assms)
  then show ?thesis by (simp add: AuAddrIsLocal4_def)
qed

section \<open>ARP\<close>

text \<open>
  ARP input never changes or removes a cached answer and never caches an address twice:
  the cache only grows at its end, by at most one entry, the first answer for an address
  stays, and look-ups of known addresses give what they gave.
\<close>

theorem ARPHandlePacket_keeps:
  assumes "ARPHandlePacket nic data tbl = Some (tbl', evs)" "distinct (map arp_ipAddress tbl)"
  shows "distinct (map arp_ipAddress tbl') \<and> (\<exists>new. tbl' = tbl @ new \<and> length new \<le> 1) \<and>
    (\<forall>a c. AuARPGet a tbl = Some c \<longrightarrow> AuARPGet a tbl' = Some c)"
proof -
  have get: "AuARPGet a tbl = None \<longleftrightarrow> a \<notin> set (map arp_ipAddress tbl)" for a
    by (auto simp: AuARPGet_def first_index_None)
  have keep: "AuARPGet a (tbl @ new) = Some c" if "AuARPGet a tbl = Some c" for a c new
  proof -
    from that obtain i where i: "first_index (\<lambda>x. arp_ipAddress x = a) tbl = Some i" "c = tbl ! i"
      by (auto simp: AuARPGet_def)
    with first_index_lt [OF i(1)] show ?thesis
      by (simp add: AuARPGet_def first_index_append nth_append)
  qed
  from assms(1) have "tbl' = tbl \<or> (\<exists>spa sha. tbl' = ARPProtocolAdd nic spa sha tbl \<and> AuARPGet spa tbl = None)"
  proof (cases "nn_device nic")
    case None
    with assms(1) show ?thesis by (simp add: ARPHandlePacket_def)
  next
    case (Some eth)
    with assms(1) obtain hw where "load16 data 0 = Some hw"
      by (cases "load16 data 0") (simp_all add: ARPHandlePacket_def)
    moreover with assms(1) Some obtain pr where "load16 data 2 = Some pr"
      by (cases "load16 data 2") (simp_all add: ARPHandlePacket_def)
    moreover with calculation assms(1) Some obtain opr where "load16 data 6 = Some opr"
      by (cases "load16 data 6") (simp_all add: ARPHandlePacket_def)
    moreover with calculation assms(1) Some obtain sha where "bytes_at data 8 6 = Some sha"
      by (cases "bytes_at data 8 6") (simp_all add: ARPHandlePacket_def)
    moreover with calculation assms(1) Some obtain spa where "load32 data 14 = Some spa"
      by (cases "load32 data 14") (simp_all add: ARPHandlePacket_def)
    moreover with calculation assms(1) Some obtain tpa where "load32 data 24 = Some tpa"
      by (cases "load32 data 24") (simp_all add: ARPHandlePacket_def)
    ultimately have "tbl' = (if htons hw = 1 \<and> htons pr = ETHERNET_TYPE_IPV4 \<and> spa \<noteq> 0 \<and> AuARPGet spa tbl = None
        then ARPProtocolAdd nic spa sha tbl else tbl)"
      using assms(1) Some by (auto simp: ARPHandlePacket_def bind_eq_Some_conv Let_def simp del: split_paired_All)
    then show ?thesis by auto
  qed
  then show ?thesis
  proof
    assume "tbl' = tbl"
    with assms(2) show ?thesis by auto
  next
    assume "\<exists>spa sha. tbl' = ARPProtocolAdd nic spa sha tbl \<and> AuARPGet spa tbl = None"
    then obtain spa sha where t: "tbl' = ARPProtocolAdd nic spa sha tbl" "AuARPGet spa tbl = None" by blast
    then have "spa \<notin> set (map arp_ipAddress tbl)" using get by simp
    with t assms(2) keep show ?thesis by (auto simp: ARPProtocolAdd_def)
  qed
qed

section \<open>The header checksum\<close>

text \<open>Ones' complement addition: sums modulo 65535, and zero only from zeros.\<close>

lemma csum_step:
  fixes acc w :: u32
  assumes "unat acc \<le> 0xFFFF" "unat w \<le> 0xFFFF"
  defines "s \<equiv> acc + w"
  shows "unat (if s > 0xFFFF then drop_bit 16 s + (s AND 0xFFFF) else s) =
    (if unat acc + unat w > 0xFFFF then unat acc + unat w - 0xFFFF else unat acc + unat w)"
proof -
  have s: "unat s = unat acc + unat w"
    using assms(1,2) by (simp add: s_def unat_word_ariths)
  have gt: "s > 0xFFFF \<longleftrightarrow> unat s > 0xFFFF" by (simp add: word_less_nat_alt)
  have "s AND 0xFFFF = take_bit 16 s" by (simp add: take_bit_eq_mask mask_eq_exp_minus_1)
  then have lo: "unat (s AND 0xFFFF) = unat s mod 2 ^ 16"
    by (simp add: take_bit_eq_mod unat_mod)
  have hi: "unat (drop_bit 16 s) = unat s div 2 ^ 16"
    by (simp add: drop_bit_eq_div unat_div)
  show ?thesis
  proof (cases "unat s > 0xFFFF")
    case True
    then have "unat s div 65536 = 1" using s assms(1,2) by simp
    then have d: "unat s div 2 ^ 16 = 1" "unat s mod 2 ^ 16 = unat s - 65536"
      using True by (simp_all add: modulo_nat_def)
    then have "unat (drop_bit 16 s + (s AND 0xFFFF)) = 1 + (unat s - 65536)"
      using hi lo s assms(1,2) by (simp add: unat_word_ariths)
    with True gt s show ?thesis by simp
  qed (use gt s in simp)
qed

fun word_sum :: "u8 list \<Rightarrow> nat \<Rightarrow> nat \<Rightarrow> nat" where
  "word_sum p i 0 = 0"
| "word_sum p i (Suc k) = unat (htons (the (load16 p (2 * i)))) + word_sum p (i + 1) k"

lemma word_sum_sum: "word_sum p i k = (\<Sum>j<k. unat (htons (the (load16 p (2 * (i + j))))))"
  by (induction k arbitrary: i) (simp_all add: sum.lessThan_Suc_shift del: sum.lessThan_Suc)

lemma csum_words_sum:
  assumes "unat acc \<le> 0xFFFF" "2 * (i + k) \<le> length p"
  shows "\<exists>r. csum_words p i k acc = Some r \<and> unat r \<le> 0xFFFF \<and>
    unat r mod 0xFFFF = (unat acc + word_sum p i k) mod 0xFFFF \<and>
    (unat r = 0 \<longleftrightarrow> unat acc + word_sum p i k = 0)"
  using assms
proof (induction k arbitrary: i acc)
  case 0
  then show ?case by simp
next
  case (Suc k)
  then have "2 * i + 1 < length p" by simp
  from load16_Some [OF this] obtain w where w: "load16 p (2 * i) = Some w" by blast
  define v where "v = (ucast (htons w) :: u32)"
  have "unat (htons w) < 2 ^ 16" using unsigned_less [of "htons w", where ?'a = nat] by simp
  then have v: "unat v = unat (htons w)" by (simp add: v_def unsigned_ucast_eq take_bit_nat_eq_self)
  have vle: "unat v \<le> 0xFFFF" using unsigned_less [of "htons w", where ?'a = nat] by (simp add: v)
  define acc' where "acc' = (if acc + v > 0xFFFF then drop_bit 16 (acc + v) + ((acc + v) AND 0xFFFF) else acc + v)"
  have acc': "unat acc' = (if unat acc + unat v > 0xFFFF then unat acc + unat v - 0xFFFF else unat acc + unat v)"
    unfolding acc'_def by (rule csum_step [OF Suc.prems(1) vle])
  then have le: "unat acc' \<le> 0xFFFF" using Suc.prems(1) vle by auto
  have m: "unat acc' mod 0xFFFF = (unat acc + unat v) mod 0xFFFF"
    using acc' by (auto simp: mod_if)
  have "2 * (i + 1 + k) \<le> length p" using Suc.prems(2) by simp
  from Suc.IH [OF le this] obtain r where r: "csum_words p (i + 1) k acc' = Some r"
    "unat r \<le> 0xFFFF" "unat r mod 0xFFFF = (unat acc' + word_sum p (i + 1) k) mod 0xFFFF"
    "unat r = 0 \<longleftrightarrow> unat acc' + word_sum p (i + 1) k = 0"
    by (elim exE conjE) (rule that)
  have c: "csum_words p i (Suc k) acc = Some r"
    using r(1) by (simp add: w v_def [symmetric] acc'_def)
  have ws: "word_sum p i (Suc k) = unat v + word_sum p (i + 1) k" using v w by simp
  have e: "(unat acc' + word_sum p (i + 1) k) mod 0xFFFF = (unat acc + word_sum p i (Suc k)) mod 0xFFFF"
    unfolding ws using mod_add_cong [OF m refl, of "word_sum p (i + 1) k"] by (simp only: add.assoc)
  have z: "unat acc' = 0 \<longleftrightarrow> unat acc + unat v = 0"
    using acc' Suc.prems(1) vle by (simp split: if_splits)
  have "unat r mod 0xFFFF = (unat acc + word_sum p i (Suc k)) mod 0xFFFF"
    using r(3) e by (simp only:)
  moreover have "unat r = 0 \<longleftrightarrow> unat acc + word_sum p i (Suc k) = 0"
    using r(4) z unfolding ws by (simp only: add_is_0) blast
  ultimately show ?case using c r(2) by (intro exI [of _ r] conjI) (simp_all only:)
qed

lemma be_word: "unat (htons (push_bit 8 (ucast b1) OR ucast b0)) = 256 * unat b0 + unat b1" for b0 b1 :: u8
proof -
  have m: "0xFF = (mask 8 :: u16)" "0xFF00 = (push_bit 8 (mask 8) :: u16)" by (simp_all add: mask_numeral)
  have "htons (push_bit 8 (ucast b1) OR ucast b0) = push_bit 8 (ucast b0) OR (ucast b1 :: u16)"
    unfolding htons_def m by (rule bit_word_eqI) (auto simp: bit_simps dest: bit_imp_le_length)
  also have "\<dots> = push_bit 8 (ucast b0) + ucast b1"
    by (rule disjunctive_add [symmetric]) (auto simp: bit_simps dest: bit_imp_le_length)
  also have "unat \<dots> = 256 * unat b0 + unat b1"
  proof -
    have b: "unat b0 < 256" "unat b1 < 256"
      using unsigned_less [of b0, where ?'a = nat] unsigned_less [of b1, where ?'a = nat] by simp_all
    then have u: "unat (ucast b0 :: u16) = unat b0" "unat (ucast b1 :: u16) = unat b1"
      by (simp_all add: unsigned_ucast_eq take_bit_nat_eq_self)
    have "push_bit 8 (ucast b0 :: u16) = ucast b0 * 256" by (simp add: push_bit_eq_mult)
    then have "unat (push_bit 8 (ucast b0 :: u16)) = unat b0 * 256"
      using u(1) b(1) by (simp add: unat_word_ariths)
    then show ?thesis using u b by (simp add: unat_word_ariths)
  qed
  finally show ?thesis .
qed

lemma load16_be:
  "i + 1 < length p \<Longrightarrow> unat (htons (the (load16 p i))) = 256 * unat (p ! i) + unat (p ! (i + 1))"
  by (simp add: load16_def be_word)

lemma split16: "256 * unat (ucast (drop_bit 8 c) :: u8) + unat (ucast c :: u8) = unat c" for c :: u16
proof -
  have "unat c < 65536" using unsigned_less [of c, where ?'a = nat] by simp
  then have "unat (drop_bit 8 c) = unat c div 256" "unat c div 256 < 256"
    by (simp_all add: drop_bit_eq_div unat_div)
  then have "unat (ucast (drop_bit 8 c) :: u8) = unat c div 256"
    by (simp add: unsigned_ucast_eq take_bit_nat_eq_self)
  moreover have "unat (ucast c :: u8) = unat c mod 256"
    by (simp add: unsigned_ucast_eq take_bit_eq_mod)
  ultimately show ?thesis by simp
qed

lemma IPv4CalculateChecksum_sum:
  assumes "20 \<le> length p"
  shows "\<exists>s c. IPv4CalculateChecksum p = Some c \<and> s \<le> 65535 \<and> unat c = 65535 - s \<and>
    s mod 65535 = word_sum p 0 10 mod 65535 \<and> (s = 0 \<longleftrightarrow> word_sum p 0 10 = 0)"
proof -
  obtain r where r: "csum_words p 0 10 0 = Some r" "unat r \<le> 65535"
    "unat r mod 65535 = word_sum p 0 10 mod 65535" "unat r = 0 \<longleftrightarrow> word_sum p 0 10 = 0"
    using csum_words_sum [of 0 0 10 p] assms by auto
  have m: "0xFFFF = (mask 16 :: u32)" by (simp add: mask_eq_exp_minus_1)
  have "ucast (NOT (r AND 0xFFFF) AND 0xFFFF) = NOT (ucast r :: u16)"
    unfolding m by (rule bit_word_eqI) (auto simp: bit_simps)
  moreover have "unat (NOT (ucast r :: u16)) = 65535 - unat r"
  proof -
    have "unat (ucast r :: u16) = unat r"
      using r(2) by (simp add: unsigned_ucast_eq take_bit_nat_eq_self)
    moreover have "NOT (ucast r :: u16) = - 1 - ucast r" by (simp add: not_eq_complement)
    moreover have "unat (- 1 - ucast r :: u16) = 65535 - unat (ucast r :: u16)"
      by (subst unat_sub) (simp_all add: unsigned_minus_1_eq_mask mask_eq_exp_minus_1)
    ultimately show ?thesis by simp
  qed
  ultimately show ?thesis using r by (auto simp: IPv4CalculateChecksum_def)
qed

text \<open>
  C36. A header whose checksum field holds the checksum computed over the header with that
  field zero has checksum zero: what a sender computes is what a receiver's check accepts.
\<close>

theorem IPv4CalculateChecksum_verifies:
  assumes "20 \<le> length p" "p ! 10 = 0" "p ! 11 = 0" "IPv4CalculateChecksum p = Some c"
  shows "IPv4CalculateChecksum (p[10 := ucast (drop_bit 8 c), 11 := ucast c]) = Some 0"
proof -
  let ?q = "p[10 := ucast (drop_bit 8 c), 11 := ucast c]"
  obtain s where s: "s \<le> 65535" "unat c = 65535 - s"
    "s mod 65535 = word_sum p 0 10 mod 65535" "s = 0 \<longleftrightarrow> word_sum p 0 10 = 0"
    using IPv4CalculateChecksum_sum [OF assms(1)] assms(4) by auto
  obtain s' c' where s': "IPv4CalculateChecksum ?q = Some c'" "s' \<le> 65535" "unat c' = 65535 - s'"
    "s' mod 65535 = word_sum ?q 0 10 mod 65535" "s' = 0 \<longleftrightarrow> word_sum ?q 0 10 = 0"
    using IPv4CalculateChecksum_sum [of ?q] assms(1) by auto
  have "word_sum ?q 0 10 = word_sum p 0 10 + unat c"
  proof -
    let ?f = "\<lambda>p j. unat (htons (the (load16 p (2 * j))))"
    have "?f p 5 = 0" "?f ?q 5 = unat c"
      using assms(1-3) split16 [of c] by (simp_all add: load16_be)
    moreover have "(\<Sum>j \<in> {..<10} - {5}. ?f ?q j) = (\<Sum>j \<in> {..<10} - {5}. ?f p j)"
    proof (rule sum.cong)
      fix j :: nat assume "j \<in> {..<10} - {5}"
      then have "2 * j \<noteq> 10" "2 * j + 1 \<noteq> 11" "2 * j \<noteq> 11" "2 * j + 1 \<noteq> 10" "2 * j + 1 < length p"
        using assms(1) by (auto; presburger)+
      then show "?f ?q j = ?f p j" by (simp add: load16_be)
    qed simp
    moreover have "word_sum p 0 10 = ?f p 5 + (\<Sum>j \<in> {..<10} - {5}. ?f p j)" for p
      using sum.remove [of "{..<10}" 5 "?f p"] by (simp add: word_sum_sum)
    ultimately show ?thesis by simp
  qed
  then have w: "word_sum ?q 0 10 = word_sum p 0 10 + (65535 - s)" using s(2) by simp
  then have "s' mod 65535 = (s mod 65535 + (65535 - s)) mod 65535"
    using s(3) s'(4) by (simp add: mod_add_left_eq)
  also have "\<dots> = (s + (65535 - s)) mod 65535" by (simp add: mod_add_left_eq)
  also have "\<dots> = 0" using s(1) by simp
  finally have "s' = 0 \<or> s' = 65535" using s'(2) by (auto simp: mod_if split: if_splits)
  moreover have "s' \<noteq> 0"
  proof
    assume "s' = 0"
    then have "word_sum p 0 10 = 0" "s = 65535" using s'(5) w s(1) by auto
    then show False using s(4) by simp
  qed
  ultimately have "unat c' = 0" using s'(3) by simp
  then show ?thesis using s'(1) by (simp add: unat_eq_0)
qed

section \<open>No route\<close>

text \<open>
  With a radio interface present route selection never reports an unreachable
  destination: a destination without a route goes to the route's interface or, failing that,
  to the radio; the table only changes by the radio's own connected and default routes.
\<close>

theorem AuNetworkRoute_falls_back:
  assumes "\<not> AuAddrIsLocal4 ads a" "AuNetRadioNic ads = Some nic"
  shows "fst (AuNetworkRoute mem ads a tbl) \<noteq> None \<and>
    (AuRouteTableDoRouteLookup a tbl = None \<and> nn_device nic = None \<longrightarrow>
       AuNetworkRoute mem ads a tbl = (Some nic, tbl))"
  using assms
  by (auto simp: AuNetworkRoute_def Let_def AuRouteLookup4_def AuNetAddDefaultRoute4_def
      AuNetAddConnectedRoute4_def split: option.splits)

section \<open>Concrete instances\<close>

definition demo_radio :: net_node where
  "demo_radio = \<lparr>nn_filename = ''e1000'',
     nn_device = Some (dead_ndev\<lparr>nd_type := NETDEV_TYPE_ETHERNET, nd_ipv4addr := 5\<rparr>)\<rparr>"

definition demo_lo :: net_node where
  "demo_lo = \<lparr>nn_filename = ''lo'', nn_device = Some loopback_device\<rparr>"

definition demo_net :: net_sys where
  "demo_net = \<lparr>ns_nf = xr_state, ns_adapters = [''lo'' \<mapsto> demo_lo, ''e1000'' \<mapsto> demo_radio],
     ns_routes = [], ns_arp = [], ns_origin = \<lparr>au_pkt_origin = 0, au_pkt_local_depth = 0\<rparr>\<rparr>"

text \<open>A TCP segment to the radio's address.\<close>

definition demo_tcp :: "u8 list" where
  "demo_tcp = [0x45, 0, 0, 40, 0, 0, 0, 0, 64, 6, 0, 0, 9, 0, 0, 0, 5, 0, 0, 0, 0, 80, 3, 232]"

lemma demo_tcp_facts:
  "ipv4_readable demo_tcp" "load16 demo_tcp 2 = Some 0x2800" "load32 demo_tcp 16 = Some 5"
  "load16 demo_tcp 20 = Some 0x5000" "load16 demo_tcp 22 = Some 0xE803" "max 20 (4 * unat (demo_tcp ! 0 AND 0x0F)) = 20"
  "demo_tcp ! 9 = 6"
  by (simp_all add: ipv4_readable_def demo_tcp_def load16_def load32_def byte_at_def)

lemma demo_local: "local_dest4 s demo_radio 5" "AuAddrIsLocal4 (ns_adapters demo_net) 5"
  by (simp_all add: local_dest4_def demo_radio_def dead_ndev_def AuAddrIsLocal4_def AuCheckNicLocal4_def
      AuGetNetworkAdapter_def demo_net_def AuNicAddrEquals4_def)

lemma demo_lo_local: "ns_adapters s = ns_adapters demo_net \<Longrightarrow> local_dest4 s demo_lo 5"
  using demo_local(2) by (simp add: local_dest4_def demo_lo_def)

theorem IPv4HandlePacket_delivery_witness:
  "\<exists>evs. IPv4HandlePacket (demo_net\<lparr>ns_nf := AuNetfilterInit\<rparr>) demo_tcp demo_radio = Some evs \<and>
     filter upcall evs = [ToTCP demo_tcp demo_radio]"
proof -
  let ?s = "demo_net\<lparr>ns_nf := AuNetfilterInit\<rparr>"
  have "passes ?s h (rx_packet ?s demo_tcp demo_radio)" for h
    by (simp add: passes_def AuNetfilterHook_def AuNetfilterInit_def nf_verdict_defs)
  then show ?thesis
    using IPv4HandlePacket_delivery [of ?s demo_tcp demo_radio] nf_init_wf(1) demo_tcp_facts demo_local
    by (auto simp: demo_net_def)
qed

theorem boot_policy_delivery_witness:
  "\<exists>evs. IPv4HandlePacket demo_net demo_tcp demo_radio = Some evs \<and> filter upcall evs \<noteq> []"
proof -
  have "ns_nf demo_net = xr_state" "nn_filename demo_radio \<in> {''virtio-net'', ''e1000''}"
    by (simp_all add: demo_net_def demo_radio_def)
  from boot_policy_delivery [OF this(1) demo_tcp_facts(1) this(2), of "0x5000" "0xE803"] show ?thesis
    using demo_tcp_facts demo_local by simp
qed

theorem IPV4SendPacket_local_witness:
  "\<exists>evs s'. IPV4SendPacket (\<lambda>_ t. t) (demo_net\<lparr>ns_nf := AuNetfilterInit\<rparr>) demo_tcp demo_radio = Some (evs, s') \<and>
     filter is_frame evs = [] \<and> filter upcall evs = [ToTCP demo_tcp demo_lo]"
proof -
  let ?s = "demo_net\<lparr>ns_nf := AuNetfilterInit\<rparr>"
  have "passes t h p" if "ns_nf t = AuNetfilterInit" for t h p
    using that by (simp add: passes_def AuNetfilterHook_def AuNetfilterInit_def nf_verdict_defs)
  note pass = this
  have "nf_wf (ns_nf ?s)" "nn_device demo_radio = Some (the (nn_device demo_radio))"
    "ns_adapters ?s ''lo'' = Some demo_lo" "0 \<le> au_pkt_local_depth (ns_origin ?s)"
    using nf_init_wf(1) by (simp_all add: demo_net_def demo_radio_def)
  moreover have "AuAddrIsLocal4 (ns_adapters ?s) (the (load32 demo_tcp 16))"
    using demo_local(2) demo_tcp_facts(3) by simp
  ultimately obtain evs s' inner where r: "IPV4SendPacket (\<lambda>_ t. t) ?s demo_tcp demo_radio = Some (evs, s')"
      "filter is_frame evs = []" "IPv4HandlePacket (reinjected ?s) demo_tcp demo_lo = Some inner"
      "filter upcall evs = filter upcall inner"
    using IPV4SendPacket_local [of ?s demo_tcp demo_radio "the (nn_device demo_radio)" demo_lo "\<lambda>_ t. t"]
      demo_tcp_facts(1) pass [of ?s]
    by (auto simp: demo_net_def)
  moreover have "filter upcall inner = [ToTCP demo_tcp demo_lo]"
    using IPv4HandlePacket_events [of "reinjected ?s" demo_tcp demo_lo] r(3) nf_init_wf(1) demo_tcp_facts
      pass [of "reinjected ?s"] demo_lo_local
    by (auto simp: reinjected_def ipv4_upcalls_def)
  ultimately show ?thesis by auto
qed

theorem AuAddrIsLocal4_last_octet_127_witness: "AuAddrIsLocal4 Map.empty (MAKE_IP 8 8 8 127)"
  by (rule AuAddrIsLocal4_last_octet_127) simp_all

definition demo_arp :: "u8 list" where
  "demo_arp = arp_bytes 2 (replicate 6 7) 9 (replicate 6 1) 5"

lemma six: "replicate 6 (x :: u8) = [x, x, x, x, x, x]"
  by (simp add: numeral_eq_Suc)

lemma demo_arp_handled:
  "\<exists>evs. ARPHandlePacket demo_radio demo_arp [] = Some (ARPProtocolAdd demo_radio 9 (replicate 6 7) [], evs)"
  by (simp add: ARPHandlePacket_def demo_radio_def demo_arp_def arp_bytes_def bytes16_def bytes32_def
      load16_def load32_def byte_at_def bytes_at_def htons_def ETHERNET_TYPE_IPV4_def dead_ndev_def
      AuARPGet_def six)

theorem ARPHandlePacket_keeps_witness:
  "distinct (map arp_ipAddress (ARPProtocolAdd demo_radio 9 (replicate 6 7) []))"
  using demo_arp_handled ARPHandlePacket_keeps [of demo_radio demo_arp "[]"] by fastforce

lemma csum_ten: "csum_words p 0 10 s =
    csum_words p 0 (Suc (Suc (Suc (Suc (Suc (Suc (Suc (Suc (Suc (Suc 0)))))))))) s"
  by (simp only: numeral_eq_Suc pred_numeral_simps BitM.simps)

lemma csum_eval: "load16 p (2 * i) = Some w \<Longrightarrow> csum_words p i (Suc k) acc =
    csum_words p (i + 1) k (if acc + ucast (htons w) > 0xFFFF
      then drop_bit 16 (acc + ucast (htons w)) + ((acc + ucast (htons w)) AND 0xFFFF)
      else acc + ucast (htons w))"
  by (simp add: Let_def)

theorem IPv4CalculateChecksum_verifies_witness:
  "IPv4CalculateChecksum (demo_tcp[10 := 0x6C, 11 := 0xD1]) = Some 0"
proof -
  have c: "IPv4CalculateChecksum demo_tcp = Some 0x6CD1"
    by (simp add: IPv4CalculateChecksum_def demo_tcp_def csum_ten csum_eval load16_def byte_at_def htons_def del: csum_words.simps(2))
  have d: "20 \<le> length demo_tcp" "demo_tcp ! 10 = 0" "demo_tcp ! 11 = 0" by (simp_all add: demo_tcp_def)
  have "ucast (drop_bit 8 (0x6CD1 :: u16)) = (0x6C :: u8)" "ucast (0x6CD1 :: u16) = (0xD1 :: u8)" by simp_all
  with IPv4CalculateChecksum_verifies [OF d c] show ?thesis by (simp only:)
qed

theorem AuNetworkRoute_falls_back_witness:
  "fst (AuNetworkRoute True (ns_adapters demo_net) (MAKE_IP 8 8 8 8) []) \<noteq> None"
proof -
  have "\<not> AuAddrIsLocal4 (ns_adapters demo_net) (MAKE_IP 8 8 8 8)"
    by (simp add: AuAddrIsLocal4_def MAKE_IP_def AuCheckNicLocal4_def AuGetNetworkAdapter_def demo_net_def
        AuNicAddrEquals4_def demo_lo_def demo_radio_def loopback_device_def dead_ndev_def htonl_def)
  moreover have "AuNetRadioNic (ns_adapters demo_net) = Some demo_radio"
    by (simp add: AuNetRadioNic_def AuGetNetworkAdapter_def demo_net_def)
  ultimately show ?thesis using AuNetworkRoute_falls_back by blast
qed

end
