(* ===== verification/Pipe.thy ===== *)
theory Pipe
  imports Ring Capability "HOL-Library.Monad_Syntax"
begin

text \<open>
  Pipes (KernelAA64/Fs/pipe.c): the ring with one slot kept free, reading and writing, the
  reference count, and the directory tree that holds the pipe nodes. Sizes are \<open>nat\<close>: the
  invariant keeps every difference the code forms non-negative. The outer option is a fault
  for an access outside an array; where it comes from a loop it is also not returning, and
  the theorems tell the two apart.
\<close>

section \<open>The ring\<close>

record AuPipe =
  pp_buffer :: "u8 list"
  pp_write :: nat
  pp_read :: nat
  pp_size :: nat
  pp_refcount :: nat

definition AuPipeUnread :: "AuPipe \<Rightarrow> nat" where
  "AuPipeUnread p =
     (if pp_read p = pp_write p then 0
      else if pp_read p > pp_write p then (pp_size p - pp_read p) + pp_write p
      else pp_write p - pp_read p)"

definition AuPipeGetAvailableBytes :: "AuPipe \<Rightarrow> nat" where
  "AuPipeGetAvailableBytes p =
     (if pp_read p = pp_write p then pp_size p - 1
      else if pp_read p > pp_write p then pp_read p - pp_write p - 1
      else (pp_size p - pp_write p) + pp_read p - 1)"

definition AuPipeIncrementRead :: "AuPipe \<Rightarrow> AuPipe" where
  "AuPipeIncrementRead p =
     p\<lparr>pp_read := (if pp_read p + 1 = pp_size p then 0 else pp_read p + 1)\<rparr>"

definition AuPipeIncrementWrite :: "AuPipe \<Rightarrow> AuPipe" where
  "AuPipeIncrementWrite p =
     p\<lparr>pp_write := (if pp_write p + 1 = pp_size p then 0 else pp_write p + 1)\<rparr>"

definition AuPipeIncrementWriteAmount :: "AuPipe \<Rightarrow> nat \<Rightarrow> AuPipe" where
  "AuPipeIncrementWriteAmount p amount = p\<lparr>pp_write := (pp_write p + amount) AND pp_size p\<rparr>"

function pipe_read_inner :: "AuPipe \<Rightarrow> u8 list \<Rightarrow> nat \<Rightarrow> nat \<Rightarrow> (AuPipe \<times> u8 list \<times> nat) option" where
  "pipe_read_inner p buf len collected =
     (if AuPipeUnread p > 0 \<and> collected < len then
        (if pp_read p < length (pp_buffer p) \<and> collected < length buf
         then pipe_read_inner (AuPipeIncrementRead p) (buf[collected := pp_buffer p ! pp_read p])
                len (collected + 1)
         else None)
      else Some (p, buf, collected))"
  by pat_completeness auto
termination by (relation "measure (\<lambda>(p, buf, len, collected). len - collected)") auto

partial_function (option) pipe_read_outer ::
    "AuPipe \<Rightarrow> u8 list \<Rightarrow> nat \<Rightarrow> nat \<Rightarrow> (nat \<times> u8 list \<times> AuPipe) option" where
  [code]: "pipe_read_outer p buf len collected =
     (if collected = 0 then
        (if AuPipeUnread p > 0 then
           Option.bind (pipe_read_inner p buf len collected)
             (\<lambda>(p', buf', collected'). pipe_read_outer p' buf' len collected')
         else Some (collected, buf, p))
      else Some (collected, buf, p))"

definition AuPipeRead :: "AuPipe \<Rightarrow> u8 list \<Rightarrow> nat \<Rightarrow> (nat \<times> u8 list \<times> AuPipe) option" where
  "AuPipeRead p buf len = pipe_read_outer p buf len 0"

function pipe_write_inner :: "AuPipe \<Rightarrow> u8 list \<Rightarrow> nat \<Rightarrow> nat \<Rightarrow> (AuPipe \<times> nat) option" where
  "pipe_write_inner p src len written =
     (if AuPipeGetAvailableBytes p > 0 \<and> written < len then
        (if pp_write p < length (pp_buffer p) \<and> written < length src
         then pipe_write_inner
                (AuPipeIncrementWrite (p\<lparr>pp_buffer := (pp_buffer p)[pp_write p := src ! written]\<rparr>))
                src len (written + 1)
         else None)
      else Some (p, written))"
  by pat_completeness auto
termination by (relation "measure (\<lambda>(p, src, len, written). len - written)") auto

text \<open>
  The writer spins until the bytes fit; \<open>env n\<close> is what other threads do to the pipe before
  the \<open>n\<close>-th test.
\<close>

partial_function (option) pipe_write_outer ::
    "(nat \<Rightarrow> AuPipe \<Rightarrow> AuPipe) \<Rightarrow> nat \<Rightarrow> AuPipe \<Rightarrow> u8 list \<Rightarrow> nat \<Rightarrow> nat \<Rightarrow> (nat \<times> AuPipe) option" where
  [code]: "pipe_write_outer env n p src len written =
     (if written < len then
        (if AuPipeGetAvailableBytes (env n p) > len then
           Option.bind (pipe_write_inner (env n p) src len written)
             (\<lambda>(p', written'). pipe_write_outer env (Suc n) p' src len written')
         else pipe_write_outer env (Suc n) (env n p) src len written)
      else Some (written, p))"

definition AuPipeWrite :: "(nat \<Rightarrow> AuPipe \<Rightarrow> AuPipe) \<Rightarrow> AuPipe \<Rightarrow> u8 list \<Rightarrow> nat \<Rightarrow> (nat \<times> AuPipe) option" where
  "AuPipeWrite env p src len = pipe_write_outer env 0 p src len 0"

definition AuPipeOpen :: "AuPipe \<Rightarrow> AuPipe" where
  "AuPipeOpen p = p\<lparr>pp_refcount := pp_refcount p + 1\<rparr>"

section \<open>The directory tree\<close>

text \<open>
  Nodes and containers by address. A directory node's device is its container; names that
  are looked up are cut to 15 characters.
\<close>

record pipefs =
  pf_nodes :: "nat \<rightharpoonup> AuVFSNode"
  pf_childs :: "nat \<rightharpoonup> nat list"
  pf_pipes :: "nat \<rightharpoonup> AuPipe"
  pf_root :: nat

definition FS_FLAG_DIRECTORY :: u16 where "FS_FLAG_DIRECTORY = 2"
definition FS_FLAG_DEVICE :: u16 where "FS_FLAG_DEVICE = 8"

definition slash :: char where "slash = CHR ''/''"

text \<open>\<open>strchr(s, '/')\<close> and one step past the match.\<close>

definition after_slash :: "string \<Rightarrow> string option" where
  "after_slash s = (case dropWhile (\<lambda>c. c \<noteq> slash) s of [] \<Rightarrow> None | _ # r \<Rightarrow> Some r)"

definition pathname_at :: "string \<Rightarrow> string" where
  "pathname_at s = takeWhile (\<lambda>c. c \<noteq> slash) (take 15 s)"

text \<open>
  One pass over the children of a container: a directory of that name ends it and becomes
  the container to go on with, a pipe of that name is remembered with its index.
\<close>

fun scan_childs :: "pipefs \<Rightarrow> string \<Rightarrow> nat list \<Rightarrow> nat \<Rightarrow> nat \<Rightarrow> (nat \<times> nat) option \<Rightarrow>
    (nat \<times> (nat \<times> nat) option) option" where
  "scan_childs fs name [] j dir found = Some (dir, found)"
| "scan_childs fs name (a # as) j dir found =
     (if a = 0 then scan_childs fs name as (j + 1) dir found
      else case pf_nodes fs a of None \<Rightarrow> None
      | Some n \<Rightarrow>
          if vn_filename n = name then
            (if vn_flags n AND FS_FLAG_DIRECTORY \<noteq> 0 then Some (vn_device n, found)
             else if vn_flags n AND FS_FLAG_PIPE \<noteq> 0 then scan_childs fs name as (j + 1) dir (Some (a, j))
             else scan_childs fs name as (j + 1) dir found)
          else scan_childs fs name as (j + 1) dir found)"

lemma after_slash_shorter: "after_slash s = Some r \<Longrightarrow> length r < length s"
proof -
  assume "after_slash s = Some r"
  then obtain c where "dropWhile (\<lambda>c. c \<noteq> slash) s = c # r"
    by (auto simp: after_slash_def split: list.splits)
  then have "length (dropWhile (\<lambda>c. c \<noteq> slash) s) = Suc (length r)" by simp
  moreover have "length (dropWhile (\<lambda>c. c \<noteq> slash) s) \<le> length s" by (rule length_dropWhile_le)
  ultimately show ?thesis by simp
qed

text \<open>
  The walk along a path. The search for the next separator starts one character past the
  component's first: on an empty component that is past the end of the string, a fault.
\<close>

function walk_path :: "pipefs \<Rightarrow> string \<Rightarrow> nat \<Rightarrow> (nat \<times> nat) option \<Rightarrow> (nat \<times> (nat \<times> nat) option) option" where
  "walk_path fs next dir found =
     (case pf_childs fs dir of None \<Rightarrow> None
      | Some childs \<Rightarrow>
         (case scan_childs fs (pathname_at next) childs 0 dir found of None \<Rightarrow> None
          | Some (dir', found') \<Rightarrow>
             (case next of [] \<Rightarrow> None
              | c # cs \<Rightarrow>
                 (case after_slash cs of None \<Rightarrow> Some (dir', found')
                  | Some next' \<Rightarrow> walk_path fs next' dir' found'))))"
  by pat_completeness auto
termination
  by (relation "measure (\<lambda>(fs, next, dir, found). length next)")
    (auto dest: after_slash_shorter)

definition walk_from_root :: "pipefs \<Rightarrow> string \<Rightarrow> (nat \<times> (nat \<times> nat) option) option" where
  "walk_from_root fs path =
     (case after_slash path of None \<Rightarrow> Some (pf_root fs, None)
      | Some next \<Rightarrow> walk_path fs next (pf_root fs) None)"

definition AuPipeFSAddFile :: "pipefs \<Rightarrow> string \<Rightarrow> nat \<Rightarrow> (int \<times> pipefs) option" where
  "AuPipeFSAddFile fs path file = do {
     (dir, _) \<leftarrow> walk_from_root fs path;
     childs \<leftarrow> pf_childs fs dir;
     Some (1, fs\<lparr>pf_childs := (pf_childs fs)(dir \<mapsto> (if file = 0 then childs else childs @ [file]))\<rparr>) }"

text \<open>The removal tests the device flag, although what is sought has the pipe flag.\<close>

definition AuPipeFSRemoveFile :: "pipefs \<Rightarrow> string \<Rightarrow> (int \<times> pipefs) option" where
  "AuPipeFSRemoveFile fs path = do {
     (dir, found) \<leftarrow> walk_from_root fs path;
     (case found of None \<Rightarrow> Some (-1, fs)
      | Some (a, index) \<Rightarrow> do {
          n \<leftarrow> pf_nodes fs a;
          if vn_flags n AND FS_FLAG_DIRECTORY \<noteq> 0 then Some (-1, fs)
          else if vn_flags n AND FS_FLAG_DEVICE \<noteq> 0 then do {
            childs \<leftarrow> pf_childs fs dir;
            Some (1, fs\<lparr>pf_childs := (pf_childs fs)(dir \<mapsto>
                         (if index < length childs then remove_at index childs else childs)),
                       pf_nodes := (pf_nodes fs)(a := None)\<rparr>) }
          else Some (-1, fs) }) }"

definition AuPipeFSOpen :: "pipefs \<Rightarrow> string \<Rightarrow> nat option option" where
  "AuPipeFSOpen fs path = map_option (\<lambda>(dir, found). map_option fst found) (walk_from_root fs path)"

text \<open>
  Closing drops a reference; the last one frees the pipe, clears the node's device and asks
  for the file named like the closed file to be removed.
\<close>

definition AuPipeClose :: "pipefs \<Rightarrow> nat \<Rightarrow> string \<Rightarrow> (int \<times> pipefs) option" where
  "AuPipeClose fs a filename =
     (case pf_nodes fs a of None \<Rightarrow> None
      | Some n \<Rightarrow>
          if a = 0 \<or> vn_device n = 0 then Some (1, fs)
          else (case pf_pipes fs (vn_device n) of None \<Rightarrow> None
                | Some p \<Rightarrow>
                    if pp_refcount p = 0 then Some (1, fs)
                    else if pp_refcount p - 1 = 0 then
                      map_option (\<lambda>(_, fs'). (1, fs'))
                        (AuPipeFSRemoveFile
                          (fs\<lparr>pf_pipes := (pf_pipes fs)(vn_device n := None),
                              pf_nodes := (pf_nodes fs)(a \<mapsto> n\<lparr>vn_device := 0\<rparr>)\<rparr>) filename)
                    else Some (1, fs\<lparr>pf_pipes := (pf_pipes fs)
                            (vn_device n \<mapsto> p\<lparr>pp_refcount := pp_refcount p - 1\<rparr>)\<rparr>)))"

definition CAP_READ :: u32 where "CAP_READ = 1"
definition CAP_WRITE :: u32 where "CAP_WRITE = 2"

text \<open>
  \<open>node_a\<close> and \<open>pipe_a\<close> are the addresses the allocator returned. A process without a free
  descriptor has the number -1, with which the code indexes the descriptor table: a fault.
\<close>

definition AuCreatePipe :: "proc_table \<Rightarrow> nat \<Rightarrow> pipefs \<Rightarrow> string \<Rightarrow> nat \<Rightarrow> nat \<Rightarrow> nat \<Rightarrow>
    (int \<times> proc_table \<times> pipefs) option" where
  "AuCreatePipe t thr fs name sz node_a pipe_a =
     (case calling_process t thr of None \<Rightarrow> Some (-1, t, fs)
      | Some i \<Rightarrow>
          if sz = 0 then Some (-1, t, fs)
          else let proc = procs t ! i; fd = AuProcessGetFileDesc proc in
            if fd < 0 then None
            else let
              pipe = \<lparr>pp_buffer = replicate sz 0, pp_write = 0, pp_read = 0, pp_size = sz, pp_refcount = 1\<rparr>;
              node = \<lparr>vn_filename = name, vn_flags = FS_FLAG_PIPE, vn_uid = cr_uid (creds proc),
                      vn_gid = cr_gid (creds proc), vn_device = pipe_a, vn_copies = 0\<rparr>;
              proc1 = proc\<lparr>proc_fds := (proc_fds proc)[nat fd := node_a]\<rparr>;
              proc2 = snd (BordoisilaCapCreate proc1 fd node_a CAP_OBJ_FILE (CAP_READ OR CAP_WRITE));
              fs1 = fs\<lparr>pf_nodes := (pf_nodes fs)(node_a \<mapsto> node), pf_pipes := (pf_pipes fs)(pipe_a \<mapsto> pipe)\<rparr>
            in map_option (\<lambda>(_, fs2). (fd, t\<lparr>procs := (procs t)[i := proc2]\<rparr>, fs2))
                 (AuPipeFSAddFile fs1 [slash] node_a))"

section \<open>The ring as a queue of bytes\<close>

declare pipe_read_inner.simps [simp del] pipe_write_inner.simps [simp del]

definition pipe_wf :: "AuPipe \<Rightarrow> bool" where
  "pipe_wf p \<longleftrightarrow> length (pp_buffer p) = pp_size p \<and> pp_read p < pp_size p \<and> pp_write p < pp_size p"

definition pipe_list :: "AuPipe \<Rightarrow> u8 list" where
  "pipe_list p = ring_list (pp_buffer p) (pp_read p) (AuPipeUnread p)"

lemma length_pipe_list [simp]: "length (pipe_list p) = AuPipeUnread p"
  by (simp add: pipe_list_def)

lemma pipe_space: "pipe_wf p \<Longrightarrow> AuPipeUnread p + AuPipeGetAvailableBytes p = pp_size p - 1"
  by (auto simp: pipe_wf_def AuPipeUnread_def AuPipeGetAvailableBytes_def)

lemma pipe_write_pos: "pipe_wf p \<Longrightarrow> pp_write p = (pp_read p + AuPipeUnread p) mod pp_size p"
  by (auto simp: pipe_wf_def AuPipeUnread_def mod_if)

lemma pipe_put:
  fixes d :: u8
  assumes "pipe_wf p" "AuPipeGetAvailableBytes p > 0"
    and p'_def: "p' = AuPipeIncrementWrite (p\<lparr>pp_buffer := (pp_buffer p)[pp_write p := d]\<rparr>)"
  shows "pipe_wf p' \<and> pipe_list p' = pipe_list p @ [d] \<and> pp_size p' = pp_size p \<and>
    AuPipeUnread p' = Suc (AuPipeUnread p) \<and>
    AuPipeGetAvailableBytes p' = AuPipeGetAvailableBytes p - 1 \<and> pp_refcount p' = pp_refcount p"
proof -
  have wf: "pipe_wf p'" using assms(1)
    by (auto simp: p'_def pipe_wf_def AuPipeIncrementWrite_def)
  have u: "AuPipeUnread p' = Suc (AuPipeUnread p)"
    using assms(1,2) by (auto simp: p'_def pipe_wf_def AuPipeIncrementWrite_def AuPipeUnread_def
        AuPipeGetAvailableBytes_def)
  have n: "AuPipeUnread p < pp_size p" using pipe_space [OF assms(1)] assms(2) by simp
  have "pipe_list p' = ring_list ((pp_buffer p)[pp_write p := d]) (pp_read p) (Suc (AuPipeUnread p))"
    unfolding pipe_list_def u by (simp add: p'_def AuPipeIncrementWrite_def)
  also have "\<dots> = pipe_list p @ [d]"
    using ring_list_snoc [of "AuPipeUnread p" "pp_buffer p" "pp_read p" d] n assms(1) pipe_write_pos [OF assms(1)]
    by (simp add: pipe_list_def pipe_wf_def)
  finally show ?thesis using wf u pipe_space [OF wf] pipe_space [OF assms(1)]
    by (auto simp: p'_def AuPipeIncrementWrite_def)
qed

lemma pipe_get:
  assumes "pipe_wf p" "AuPipeUnread p > 0"
  defines "p' \<equiv> AuPipeIncrementRead p"
  shows "pipe_wf p' \<and> pipe_list p = pp_buffer p ! pp_read p # pipe_list p' \<and> pp_size p' = pp_size p \<and>
    AuPipeUnread p = Suc (AuPipeUnread p')"
proof -
  have wf: "pipe_wf p'" using assms(1)
    by (auto simp: p'_def pipe_wf_def AuPipeIncrementRead_def)
  have u: "AuPipeUnread p = Suc (AuPipeUnread p')"
    using assms(1,2) by (auto simp: p'_def pipe_wf_def AuPipeIncrementRead_def AuPipeUnread_def split: if_splits)
  have "pp_read p' = (pp_read p + 1) mod length (pp_buffer p)" "pp_buffer p' = pp_buffer p"
    using assms(1) by (auto simp: p'_def AuPipeIncrementRead_def pipe_wf_def)
  then have "pipe_list p = pp_buffer p ! pp_read p # pipe_list p'"
    using assms(1) by (simp add: pipe_list_def u ring_list_Suc pipe_wf_def)
  with wf u show ?thesis by (simp add: p'_def AuPipeIncrementRead_def)
qed

lemma pipe_read_inner_ok:
  assumes "pipe_wf p" "len \<le> length buf" "collected \<le> len"
  shows "\<exists>p'. pipe_read_inner p buf len collected =
      Some (p', take collected buf @ take (len - collected) (pipe_list p) @
                drop (collected + min (len - collected) (AuPipeUnread p)) buf,
            collected + min (len - collected) (AuPipeUnread p)) \<and>
    pipe_wf p' \<and> pp_size p' = pp_size p \<and> pipe_list p' = drop (len - collected) (pipe_list p)"
  using assms
proof (induction "len - collected" arbitrary: p buf collected)
  case 0
  then have "pipe_read_inner p buf len collected = Some (p, buf, collected)"
    by (subst pipe_read_inner.simps) simp
  with 0 show ?case by simp
next
  case (Suc k)
  show ?case
  proof (cases "AuPipeUnread p > 0")
    case False
    then have "pipe_read_inner p buf len collected = Some (p, buf, collected)" "pipe_list p = []"
      by (subst pipe_read_inner.simps, simp, simp flip: length_0_conv)
    with False Suc.prems show ?thesis by simp
  next
    case True
    note g = pipe_get [OF Suc.prems(1) True]
    have lt: "collected < len" using Suc.hyps(2) by linarith
    let ?buf = "buf[collected := pp_buffer p ! pp_read p]"
    have "pipe_read_inner p buf len collected = pipe_read_inner (AuPipeIncrementRead p) ?buf len (collected + 1)"
      using True lt Suc.prems by (subst pipe_read_inner.simps) (simp add: pipe_wf_def)
    moreover have "k = len - (collected + 1)" using Suc.hyps(2) by linarith
    from Suc.hyps(1) [OF this, of "AuPipeIncrementRead p" ?buf] g Suc.prems lt
    obtain p' where p': "pipe_read_inner (AuPipeIncrementRead p) ?buf len (collected + 1) =
        Some (p', take (collected + 1) ?buf @ take (len - (collected + 1)) (pipe_list (AuPipeIncrementRead p)) @
          drop (collected + 1 + min (len - (collected + 1)) (AuPipeUnread (AuPipeIncrementRead p))) ?buf,
          collected + 1 + min (len - (collected + 1)) (AuPipeUnread (AuPipeIncrementRead p)))"
      "pipe_wf p'" "pp_size p' = pp_size p" "pipe_list p' = drop (len - (collected + 1)) (pipe_list (AuPipeIncrementRead p))"
      by auto
    have d: "len - collected = Suc (len - (collected + 1))" using lt by simp
    have "take (collected + 1) ?buf = take collected buf @ [pp_buffer p ! pp_read p]"
      using lt Suc.prems(2) by (simp add: take_Suc_conv_app_nth)
    then show ?thesis
      using calculation p' g unfolding d by simp
  qed
qed

lemma pipe_read_outer_stuck:
  assumes "AuPipeUnread p > 0"
  shows "pipe_read_outer p buf 0 0 = None"
proof (rule ccontr)
  assume "pipe_read_outer p buf 0 0 \<noteq> None"
  then obtain r where r: "pipe_read_outer p buf 0 0 = Some r" by auto
  let ?P = "\<lambda>(q :: AuPipe) (b :: u8 list) (len :: nat) (c :: nat) (r :: nat \<times> u8 list \<times> AuPipe).
      \<not> (len = 0 \<and> c = 0 \<and> AuPipeUnread q > 0)"
  have "?P p buf 0 0 r"
  proof (rule pipe_read_outer.raw_induct [of ?P, OF _ r])
    fix outer q b len c r
    assume IH: "\<And>q b len c r. outer q b len c = Some r \<Longrightarrow> ?P q b len c r"
      and eq: "(if c = 0 then if AuPipeUnread q > 0
           then Option.bind (pipe_read_inner q b len c) (\<lambda>(p', buf', collected'). outer p' buf' len collected')
           else Some (c, b, q) else Some (c, b, q)) = Some r"
    show "?P q b len c r"
    proof
      assume z: "len = 0 \<and> c = 0 \<and> AuPipeUnread q > 0"
      then have "pipe_read_inner q b len c = Some (q, b, 0)" by (subst pipe_read_inner.simps) simp
      with eq z have "outer q b 0 0 = Some r" by simp
      from IH [OF this] z show False by simp
    qed
  qed
  with assms show False by simp
qed

text \<open>
  C32. A read delivers the oldest bytes in order, as many as asked for and present, and
  removes exactly those; an empty pipe gives none. A read of no bytes from a pipe that holds
  some never returns.
\<close>

theorem AuPipeRead_oldest:
  assumes "pipe_wf p" "len \<le> length buf"
  shows "if len = 0 \<and> AuPipeUnread p > 0 then AuPipeRead p buf len = None
    else \<exists>p'. AuPipeRead p buf len =
        Some (min len (AuPipeUnread p),
              take len (pipe_list p) @ drop (min len (AuPipeUnread p)) buf, p') \<and>
      pipe_wf p' \<and> pipe_list p' = drop len (pipe_list p)"
proof (cases "AuPipeUnread p > 0")
  case False
  then have "pipe_list p = []" by (simp flip: length_0_conv)
  moreover have "AuPipeRead p buf len = Some (0, buf, p)"
    unfolding AuPipeRead_def using False by (subst pipe_read_outer.simps) simp
  ultimately show ?thesis using False assms(1) by simp
next
  case True
  show ?thesis
  proof (cases "len = 0")
    case True
    with \<open>AuPipeUnread p > 0\<close> show ?thesis by (simp add: AuPipeRead_def pipe_read_outer_stuck)
  next
    case False
    obtain p' where p': "pipe_read_inner p buf len 0 =
        Some (p', take len (pipe_list p) @ drop (min len (AuPipeUnread p)) buf, min len (AuPipeUnread p))"
      "pipe_wf p'" "pipe_list p' = drop len (pipe_list p)"
      using pipe_read_inner_ok [OF assms, of 0] by auto
    have "AuPipeRead p buf len = pipe_read_outer p' (take len (pipe_list p) @ drop (min len (AuPipeUnread p)) buf)
        len (min len (AuPipeUnread p))"
      unfolding AuPipeRead_def using True p'(1)
      by (subst pipe_read_outer.simps) simp
    also have "\<dots> = Some (min len (AuPipeUnread p), take len (pipe_list p) @ drop (min len (AuPipeUnread p)) buf, p')"
      using True False by (subst pipe_read_outer.simps) auto
    finally show ?thesis using p' False by auto
  qed
qed

lemma pipe_write_inner_ok:
  assumes "pipe_wf p" "len \<le> length src" "written \<le> len" "len - written \<le> AuPipeGetAvailableBytes p"
  shows "\<exists>p'. pipe_write_inner p src len written = Some (p', len) \<and> pipe_wf p' \<and> pp_size p' = pp_size p \<and>
    pipe_list p' = pipe_list p @ take (len - written) (drop written src)"
  using assms
proof (induction "len - written" arbitrary: p written)
  case 0
  then have "pipe_write_inner p src len written = Some (p, len)"
    by (subst pipe_write_inner.simps) simp
  with 0 show ?case by simp
next
  case (Suc k)
  have lt: "written < len" "AuPipeGetAvailableBytes p > 0" using Suc.hyps(2) Suc.prems(4) by linarith+
  let ?q = "AuPipeIncrementWrite (p\<lparr>pp_buffer := (pp_buffer p)[pp_write p := src ! written]\<rparr>)"
  note q = pipe_put [OF Suc.prems(1) lt(2) refl [of ?q]]
  have "pipe_write_inner p src len written = pipe_write_inner ?q src len (written + 1)"
    using lt Suc.prems by (subst pipe_write_inner.simps) (simp add: pipe_wf_def)
  moreover have "k = len - (written + 1)" using Suc.hyps(2) by linarith
  moreover have "take (len - written) (drop written src) = src ! written # take (len - (written + 1)) (drop (written + 1) src)"
  proof -
    have "drop written src = src ! written # drop (written + 1) src"
      using lt(1) Suc.prems(2) by (simp add: Cons_nth_drop_Suc)
    moreover have "len - written = Suc (len - (written + 1))" using lt(1) by simp
    ultimately show ?thesis by simp
  qed
  ultimately show ?case
    using Suc.hyps(1) [of "written + 1" ?q] q Suc.prems lt by auto
qed

definition alone :: "nat \<Rightarrow> AuPipe \<Rightarrow> AuPipe" where
  "alone = (\<lambda>_ p. p)"

lemma pipe_write_none:
  assumes "\<And>k q. I q \<Longrightarrow> I (env k q) \<and> AuPipeGetAvailableBytes (env k q) \<le> len" "I p" "w < len"
  shows "pipe_write_outer env n p src len w = None"
proof (rule ccontr)
  assume "pipe_write_outer env n p src len w \<noteq> None"
  then obtain r where r: "pipe_write_outer env n p src len w = Some r" by auto
  let ?P = "\<lambda>(e :: nat \<Rightarrow> AuPipe \<Rightarrow> AuPipe) (n :: nat) (q :: AuPipe) (s :: u8 list) (l :: nat) (c :: nat)
      (r :: nat \<times> AuPipe). \<not> (e = env \<and> l = len \<and> I q \<and> c < len)"
  have "?P env n p src len w r"
  proof (rule pipe_write_outer.raw_induct [of ?P, OF _ r])
    fix outer e n q s l c r
    assume IH: "\<And>e n q s l c r. outer e n q s l c = Some r \<Longrightarrow> ?P e n q s l c r"
      and eq: "(if c < l then if l < AuPipeGetAvailableBytes (e n q)
           then Option.bind (pipe_write_inner (e n q) s l c) (\<lambda>(p', written'). outer e (Suc n) p' s l written')
           else outer e (Suc n) (e n q) s l c else Some (c, q)) = Some r"
    show "?P e n q s l c r"
    proof
      assume z: "e = env \<and> l = len \<and> I q \<and> c < len"
      with assms(1) [of q n] eq have "outer e (Suc n) (e n q) s l c = Some r" by (simp add: not_less)
      from IH [OF this] z assms(1) [of q n] show False by simp
    qed
  qed
  with assms show False by simp
qed

text \<open>
  A write with nobody reading appends all its bytes, in order, when fewer than the free
  bytes are written; otherwise it never returns, even if the bytes would just fit.
\<close>

theorem AuPipeWrite_appends:
  assumes "pipe_wf p" "len \<le> length src"
  shows "if 0 < len \<and> AuPipeGetAvailableBytes p \<le> len then AuPipeWrite alone p src len = None
    else \<exists>p'. AuPipeWrite alone p src len = Some (len, p') \<and> pipe_wf p' \<and>
      pipe_list p' = pipe_list p @ take len src"
proof (cases "0 < len \<and> AuPipeGetAvailableBytes p \<le> len")
  case True
  then show ?thesis
    using pipe_write_none [of "\<lambda>q. q = p" alone len p 0 0 src] by (simp add: AuPipeWrite_def alone_def)
next
  case False
  show ?thesis
  proof (cases "len = 0")
    case True
    then show ?thesis using assms by (simp add: AuPipeWrite_def pipe_write_outer.simps [of _ _ _ _ 0 0])
  next
    case l: False
    obtain p' where p': "pipe_write_inner p src len 0 = Some (p', len)" "pipe_wf p'"
      "pipe_list p' = pipe_list p @ take len src"
      using pipe_write_inner_ok [OF assms, of 0] False l by auto
    have "AuPipeWrite alone p src len = pipe_write_outer alone 1 p' src len len"
      unfolding AuPipeWrite_def using False l p'(1)
      by (subst pipe_write_outer.simps) (simp add: alone_def)
    also have "\<dots> = Some (len, p')" by (subst pipe_write_outer.simps) simp
    finally show ?thesis using p' False l by auto
  qed
qed

text \<open>
  C33. A write of at least as many bytes as the pipe can hold never returns, whatever the
  readers and other writers do meanwhile.
\<close>

theorem AuPipeWrite_large_never_returns:
  assumes "pipe_wf p" "0 < len" "pp_size p - 1 \<le> len"
    "\<And>n q. pipe_wf q \<and> pp_size q = pp_size p \<Longrightarrow> pipe_wf (env n q) \<and> pp_size (env n q) = pp_size p"
  shows "AuPipeWrite env p src len = None"
proof -
  have "AuPipeGetAvailableBytes q \<le> len" if "pipe_wf q" "pp_size q = pp_size p" for q
    using pipe_space [OF that(1)] that(2) assms(3) by linarith
  then show ?thesis
    unfolding AuPipeWrite_def
    using pipe_write_none [of "\<lambda>q. pipe_wf q \<and> pp_size q = pp_size p" env len p 0 0 src] assms by blast
qed

section \<open>Removal of pipes\<close>

text \<open>
  A pipe is never removed from the directory tree: where no node has the device flag,
  as pipe nodes do not, removal fails and changes nothing, so after the last close the
  tree's children still list a node whose device is null.
\<close>

theorem AuPipeClose_keeps_entry:
  assumes "\<forall>b m. pf_nodes fs b = Some m \<longrightarrow> vn_flags m AND FS_FLAG_DEVICE = 0"
    "pf_nodes fs a = Some n" "a \<noteq> 0" "vn_device n \<noteq> 0" "pf_pipes fs (vn_device n) = Some p" "pp_refcount p = 1"
    "AuPipeClose fs a name = Some (r, fs')"
  shows "r = 1 \<and> pf_childs fs' = pf_childs fs \<and> pf_pipes fs' (vn_device n) = None \<and>
    pf_nodes fs' a = Some (n\<lparr>vn_device := 0\<rparr>)"
proof -
  have rem: "g' = g" if "AuPipeFSRemoveFile g path = Some (v, g')"
    "\<forall>b m. pf_nodes g b = Some m \<longrightarrow> vn_flags m AND FS_FLAG_DEVICE = 0" for g path v g'
    using that
    by (auto simp: AuPipeFSRemoveFile_def bind_eq_Some_conv split: option.splits prod.splits if_splits)
  let ?g = "fs\<lparr>pf_pipes := (pf_pipes fs)(vn_device n := None), pf_nodes := (pf_nodes fs)(a \<mapsto> n\<lparr>vn_device := 0\<rparr>)\<rparr>"
  obtain v where v: "AuPipeFSRemoveFile ?g name = Some (v, fs')" "r = 1"
    using assms by (auto simp: AuPipeClose_def)
  have "\<forall>b m. pf_nodes ?g b = Some m \<longrightarrow> vn_flags m AND FS_FLAG_DEVICE = 0"
    using assms(1,2) by auto
  from rem [OF v(1) this] v(2) show ?thesis by simp
qed

section \<open>Concrete instances\<close>

definition demo_pipe :: AuPipe where
  "demo_pipe = \<lparr>pp_buffer = [7, 0, 0, 5, 6], pp_write = 1, pp_read = 3, pp_size = 5, pp_refcount = 1\<rparr>"

lemma demo_pipe_wf: "pipe_wf demo_pipe"
  by (simp add: pipe_wf_def demo_pipe_def)

lemma demo_pipe_facts: "AuPipeUnread demo_pipe = 3" "AuPipeGetAvailableBytes demo_pipe = 1"
  "pipe_list demo_pipe = [5, 6, 7]"
  by (simp_all add: demo_pipe_def AuPipeUnread_def AuPipeGetAvailableBytes_def pipe_list_def
      ring_list_def upt_conv_Cons)

theorem AuPipeRead_oldest_witness:
  "\<exists>p'. AuPipeRead demo_pipe [0, 0] 2 = Some (2, [5, 6], p') \<and> pipe_list p' = [7]"
  using AuPipeRead_oldest [OF demo_pipe_wf, of 2 "[0, 0]"] by (auto simp: demo_pipe_facts)

theorem AuPipeWrite_appends_witness: "AuPipeWrite alone demo_pipe [9] 1 = None"
  using AuPipeWrite_appends [OF demo_pipe_wf, of 1 "[9]"] by (simp add: demo_pipe_facts)

theorem AuPipeWrite_large_never_returns_witness:
  "AuPipeWrite (\<lambda>_. AuPipeIncrementRead) demo_pipe [1, 2, 3, 4] 4 = None"
proof (rule AuPipeWrite_large_never_returns [OF demo_pipe_wf])
  show "\<And>n q. pipe_wf q \<and> pp_size q = pp_size demo_pipe \<Longrightarrow>
      pipe_wf (AuPipeIncrementRead q) \<and> pp_size (AuPipeIncrementRead q) = pp_size demo_pipe"
    by (auto simp: pipe_wf_def AuPipeIncrementRead_def)
qed (simp_all add: demo_pipe_def)

theorem AuPipeClose_keeps_entry_witness:
  "\<exists>r fs'. AuPipeClose \<lparr>pf_nodes = [8 \<mapsto> \<lparr>vn_filename = ''p'', vn_flags = FS_FLAG_PIPE, vn_uid = 0,
        vn_gid = 0, vn_device = 16, vn_copies = 0\<rparr>], pf_childs = [1 \<mapsto> [8]], pf_pipes = [16 \<mapsto> demo_pipe],
        pf_root = 1\<rparr> 8 ''/p'' = Some (r, fs') \<and> pf_childs fs' 1 = Some [8]"
proof -
  let ?n = "\<lparr>vn_filename = ''p'', vn_flags = FS_FLAG_PIPE, vn_uid = 0, vn_gid = 0, vn_device = 16, vn_copies = 0\<rparr>"
  let ?fs = "\<lparr>pf_nodes = [8 \<mapsto> ?n], pf_childs = [1 \<mapsto> [8]], pf_pipes = [16 \<mapsto> demo_pipe], pf_root = 1\<rparr>"
  have "\<exists>r fs'. AuPipeClose ?fs 8 ''/p'' = Some (r, fs')"
    by (simp add: AuPipeClose_def demo_pipe_def AuPipeFSRemoveFile_def walk_from_root_def after_slash_def
        slash_def pathname_at_def FS_FLAG_PIPE_def FS_FLAG_DIRECTORY_def FS_FLAG_DEVICE_def)
  moreover have "r = 1 \<and> pf_childs fs' = pf_childs ?fs" if "AuPipeClose ?fs 8 ''/p'' = Some (r, fs')" for r fs'
    using AuPipeClose_keeps_entry [OF _ _ _ _ _ _ that, of ?n demo_pipe]
    by (simp add: FS_FLAG_PIPE_def FS_FLAG_DEVICE_def demo_pipe_def)
  ultimately show ?thesis by auto
qed

end
