(* ===== verification/Postbox.thy ===== *)
theory Postbox
  imports Ring
begin

text \<open>
  Post boxes (KernelAA64/Ipc/postbox.c), the kernel's message queues: each box is a ring of
  23 event slots in one page, owned by a thread number; number 1 is the root's. The chain of
  boxes is a list. The state of threads is a parameter of sending, which reports the thread
  it unblocks. The page and the header of a new box are obtained: the code does not test for that. \<open>None\<close> is an access outside a box's page.
\<close>

record PostEvent =
  pe_type :: u8
  pe_to_id :: u16
  pe_from_id :: u16
  pe_dwords :: "u32 list"
  pe_ptrs :: "u64 list"
  pe_text :: "u8 list"

record PostBox =
  pb_slots :: "PostEvent list"
  pb_ownerID :: u16
  pb_headIdx :: nat
  pb_tailIdx :: nat
  pb_full :: bool
  pb_size :: nat

record pb_sys =
  pb_boxes :: "PostBox list"
  pb_root_created :: bool

definition POSTBOX_ROOT_ID :: u16 where "POSTBOX_ROOT_ID = 1"
definition POSTBOX_NO_EVENT :: int where "POSTBOX_NO_EVENT = -1"
definition PAGE_SIZE :: nat where "PAGE_SIZE = 4096"
definition POSTEVENT_SIZE_ALIGNED :: nat where "POSTEVENT_SIZE_ALIGNED = 176"

definition zero_event :: PostEvent where
  "zero_event = \<lparr>pe_type = 0, pe_to_id = 0, pe_from_id = 0, pe_dwords = [], pe_ptrs = [], pe_text = []\<rparr>"

section \<open>One box\<close>

definition PostBoxAdvanceIndex :: "PostBox \<Rightarrow> PostBox" where
  "PostBoxAdvanceIndex box =
     (let box1 = (if pb_full box then box\<lparr>pb_tailIdx := (pb_tailIdx box + 1) mod pb_size box\<rparr> else box);
          h = (pb_headIdx box1 + 1) mod pb_size box1
      in box1\<lparr>pb_headIdx := h, pb_full := (h = pb_tailIdx box1)\<rparr>)"

definition PostBoxRetreat :: "PostBox \<Rightarrow> PostBox" where
  "PostBoxRetreat box = box\<lparr>pb_full := False, pb_tailIdx := (pb_tailIdx box + 1) mod pb_size box\<rparr>"

definition IsPostBoxEmpty :: "PostBox \<Rightarrow> bool" where
  "IsPostBoxEmpty box \<longleftrightarrow> \<not> pb_full box \<and> pb_headIdx box = pb_tailIdx box"

definition IsPostBoxFull :: "PostBox \<Rightarrow> bool" where
  "IsPostBoxFull box \<longleftrightarrow> pb_full box"

text \<open>The branch of sending and of receiving that works on the box found.\<close>

definition box_put :: "PostEvent \<Rightarrow> PostBox \<Rightarrow> (bool \<times> PostBox) option" where
  "box_put e box =
     (if IsPostBoxFull box then Some (False, box)
      else if pb_headIdx box \<ge> length (pb_slots box) then None
      else Some (True, PostBoxAdvanceIndex (box\<lparr>pb_slots := (pb_slots box)[pb_headIdx box := e]\<rparr>)))"

definition box_get :: "PostBox \<Rightarrow> (PostEvent option \<times> PostBox) option" where
  "box_get box =
     (if IsPostBoxEmpty box then Some (None, box)
      else if pb_tailIdx box \<ge> length (pb_slots box) then None
      else Some (Some (pb_slots box ! pb_tailIdx box),
             PostBoxRetreat (box\<lparr>pb_slots := (pb_slots box)[pb_tailIdx box := zero_event]\<rparr>)))"

section \<open>The chain of boxes\<close>

definition PostBoxCreate :: "bool \<Rightarrow> u16 \<Rightarrow> pb_sys \<Rightarrow> pb_sys" where
  "PostBoxCreate root tid s =
     (let isroot = (root \<and> \<not> pb_root_created s);
          n = PAGE_SIZE div POSTEVENT_SIZE_ALIGNED;
          box = \<lparr>pb_slots = replicate n zero_event, pb_ownerID = (if isroot then POSTBOX_ROOT_ID else tid),
                 pb_headIdx = 0, pb_tailIdx = 0, pb_full = False, pb_size = n\<rparr>
      in \<lparr>pb_boxes = pb_boxes s @ [box], pb_root_created = pb_root_created s \<or> isroot\<rparr>)"

definition find_box :: "u16 \<Rightarrow> PostBox list \<Rightarrow> nat option" where
  "find_box oid boxes = first_index (\<lambda>b. pb_ownerID b = oid) boxes"

definition PostBoxDestroyByID :: "u16 \<Rightarrow> pb_sys \<Rightarrow> pb_sys" where
  "PostBoxDestroyByID oid s =
     (case find_box oid (pb_boxes s) of None \<Rightarrow> s
      | Some i \<Rightarrow> s\<lparr>pb_boxes := remove_at i (pb_boxes s)\<rparr>)"

record pb_thread =
  pt_name :: string
  pt_blocked :: bool

definition PostBoxPutEvent ::
    "(u16 \<Rightarrow> pb_thread option) \<Rightarrow> PostEvent \<Rightarrow> pb_sys \<Rightarrow> (u16 option \<times> pb_sys) option" where
  "PostBoxPutEvent threads event s =
     (let owner_id = pe_to_id event;
          wake = (case threads owner_id of None \<Rightarrow> None
                  | Some t \<Rightarrow> if pt_blocked t \<and> pt_name t \<noteq> ''exec'' then Some owner_id else None)
      in case find_box owner_id (pb_boxes s) of None \<Rightarrow> Some (wake, s)
      | Some i \<Rightarrow> map_option (\<lambda>(ok, box). (wake, s\<lparr>pb_boxes := (pb_boxes s)[i := box]\<rparr>))
                    (box_put event (pb_boxes s ! i)))"

text \<open>The event received, with the code's return value.\<close>

definition PostBoxGetEvent :: "bool \<Rightarrow> u16 \<Rightarrow> pb_sys \<Rightarrow> (int \<times> PostEvent option \<times> pb_sys) option" where
  "PostBoxGetEvent root thread_id s =
     (let owner_id = (if root then POSTBOX_ROOT_ID else thread_id)
      in case find_box owner_id (pb_boxes s) of None \<Rightarrow> Some (POSTBOX_NO_EVENT, None, s)
      | Some i \<Rightarrow> map_option (\<lambda>(e, box).
             (case e of None \<Rightarrow> POSTBOX_NO_EVENT | Some _ \<Rightarrow> 1, e, s\<lparr>pb_boxes := (pb_boxes s)[i := box]\<rparr>))
           (box_get (pb_boxes s ! i)))"

datatype pb_code = POSTBOX_CREATE | POSTBOX_CREATE_ROOT | POSTBOX_DESTROY | POSTBOX_PUT_EVENT PostEvent
  | POSTBOX_GET_EVENT | POSTBOX_GET_EVENT_ROOT

fun PostBoxIOControl :: "(u16 \<Rightarrow> pb_thread option) \<Rightarrow> u16 \<Rightarrow> pb_code \<Rightarrow> pb_sys \<Rightarrow>
    (int \<times> PostEvent option \<times> pb_sys) option" where
  "PostBoxIOControl threads tid POSTBOX_CREATE s = Some (1, None, PostBoxCreate False tid s)"
| "PostBoxIOControl threads tid POSTBOX_CREATE_ROOT s = Some (1, None, PostBoxCreate True tid s)"
| "PostBoxIOControl threads tid POSTBOX_DESTROY s = Some (1, None, PostBoxDestroyByID tid s)"
| "PostBoxIOControl threads tid (POSTBOX_PUT_EVENT e) s =
     map_option (\<lambda>(wake, s'). (1, None, s')) (PostBoxPutEvent threads e s)"
| "PostBoxIOControl threads tid POSTBOX_GET_EVENT s = PostBoxGetEvent False tid s"
| "PostBoxIOControl threads tid POSTBOX_GET_EVENT_ROOT s = PostBoxGetEvent True tid s"

section \<open>A box is a bounded queue\<close>

definition box_wf :: "PostBox \<Rightarrow> bool" where
  "box_wf b \<longleftrightarrow> 0 < pb_size b \<and> length (pb_slots b) = pb_size b \<and> pb_headIdx b < pb_size b \<and>
     pb_tailIdx b < pb_size b \<and> (pb_full b \<longrightarrow> pb_headIdx b = pb_tailIdx b)"

definition box_count :: "PostBox \<Rightarrow> nat" where
  "box_count b = (if pb_full b then pb_size b
     else if pb_tailIdx b \<le> pb_headIdx b then pb_headIdx b - pb_tailIdx b
     else pb_size b + pb_headIdx b - pb_tailIdx b)"

definition box_list :: "PostBox \<Rightarrow> PostEvent list" where
  "box_list b = ring_list (pb_slots b) (pb_tailIdx b) (box_count b)"

lemma length_box_list [simp]: "length (box_list b) = box_count b"
  by (simp add: box_list_def)

lemma box_full_iff: "box_wf b \<Longrightarrow> pb_full b \<longleftrightarrow> box_count b = pb_size b"
  by (auto simp: box_wf_def box_count_def)

lemma box_empty_iff: "box_wf b \<Longrightarrow> IsPostBoxEmpty b \<longleftrightarrow> box_count b = 0"
  by (auto simp: box_wf_def box_count_def IsPostBoxEmpty_def)

lemma box_count_le: "box_wf b \<Longrightarrow> box_count b \<le> pb_size b"
  by (auto simp: box_wf_def box_count_def)

lemma box_head: "box_wf b \<Longrightarrow> pb_headIdx b = (pb_tailIdx b + box_count b) mod pb_size b"
  by (auto simp: box_wf_def box_count_def mod_if)

lemma box_put_room:
  assumes "box_wf b" "box_count b < pb_size b"
  shows "\<exists>b'. box_put e b = Some (True, b') \<and> box_wf b' \<and> box_list b' = box_list b @ [e] \<and>
    pb_size b' = pb_size b \<and> pb_ownerID b' = pb_ownerID b"
proof -
  have nf: "\<not> pb_full b" using box_full_iff [OF assms(1)] assms(2) by simp
  define b' where "b' = PostBoxAdvanceIndex (b\<lparr>pb_slots := (pb_slots b)[pb_headIdx b := e]\<rparr>)"
  have b': "b' = b\<lparr>pb_slots := (pb_slots b)[pb_headIdx b := e],
      pb_headIdx := (pb_headIdx b + 1) mod pb_size b,
      pb_full := ((pb_headIdx b + 1) mod pb_size b = pb_tailIdx b)\<rparr>"
    using nf by (simp add: b'_def PostBoxAdvanceIndex_def Let_def)
  have wf: "box_wf b'" using assms(1) nf by (auto simp: b' box_wf_def)
  have cnt: "box_count b' = Suc (box_count b)"
    using assms(1) nf by (auto simp: b' box_wf_def box_count_def mod_if)
  have "box_list b' = box_list b @ [e]"
    using ring_list_snoc [of "box_count b" "pb_slots b" "pb_tailIdx b" e] assms box_head [OF assms(1)]
    by (simp add: box_list_def cnt box_wf_def) (simp add: b')
  moreover have "box_put e b = Some (True, b')"
    using nf assms(1) by (simp add: box_put_def IsPostBoxFull_def box_wf_def b'_def)
  ultimately show ?thesis using wf by (simp add: b')
qed

lemma box_get_some:
  assumes "box_wf b" "box_list b = e # es"
  shows "\<exists>b'. box_get b = Some (Some e, b') \<and> box_wf b' \<and> box_list b' = es \<and>
    pb_size b' = pb_size b \<and> pb_ownerID b' = pb_ownerID b"
proof -
  have c: "box_count b = Suc (length es)" using assms(2) length_box_list [of b] by simp
  have ne: "\<not> IsPostBoxEmpty b" using box_empty_iff [OF assms(1)] c by simp
  define b' where "b' = PostBoxRetreat (b\<lparr>pb_slots := (pb_slots b)[pb_tailIdx b := zero_event]\<rparr>)"
  have L: "length (pb_slots b) = pb_size b" "pb_tailIdx b < pb_size b" using assms(1) by (auto simp: box_wf_def)
  have wf: "box_wf b'" using assms(1) by (auto simp: b'_def PostBoxRetreat_def box_wf_def)
  have cnt: "box_count b' = length es"
    using assms(1) c by (auto simp: b'_def PostBoxRetreat_def box_wf_def box_count_def mod_if split: if_splits)
  have "e = pb_slots b ! pb_tailIdx b" "es = ring_list (pb_slots b) ((pb_tailIdx b + 1) mod pb_size b) (length es)"
    using assms(2) c L by (auto simp: box_list_def ring_list_Suc)
  moreover have bl: "box_list b' = ring_list ((pb_slots b)[pb_tailIdx b := zero_event])
      ((pb_tailIdx b + 1) mod pb_size b) (length es)"
    unfolding box_list_def cnt by (simp add: b'_def PostBoxRetreat_def)
  have "box_list b' = ring_list (pb_slots b) ((pb_tailIdx b + 1) mod pb_size b) (length es)"
  proof (rule nth_equalityI)
    fix i assume "i < length (box_list b')"
    then have i: "i < length es" using cnt by simp
    then have "(pb_tailIdx b + 1 + i) mod pb_size b \<noteq> pb_tailIdx b"
      using wrap_inj [of "Suc i" "pb_size b" 0 "pb_tailIdx b"] c box_count_le [OF assms(1)] L(2) by auto
    then show "box_list b' ! i = ring_list (pb_slots b) ((pb_tailIdx b + 1) mod pb_size b) (length es) ! i"
      using i L unfolding bl by (simp add: nth_ring_list mod_add_left_eq)
  qed (simp add: cnt)
  moreover have "box_get b = Some (Some (pb_slots b ! pb_tailIdx b), b')"
    using ne L by (simp add: box_get_def b'_def)
  ultimately show ?thesis using wf by (simp add: b'_def PostBoxRetreat_def)
qed

interpretation pb: bounded_fifo box_put box_get box_list pb_size box_wf
proof unfold_locales
  fix q :: PostBox and e
  assume "box_wf q" "length (box_list q) < pb_size q"
  then show "\<exists>q'. box_put e q = Some (True, q') \<and> box_wf q' \<and> box_list q' = box_list q @ [e] \<and> pb_size q' = pb_size q"
    using box_put_room [of q e] by auto
next
  fix q :: PostBox and e
  assume "box_wf q" "\<not> length (box_list q) < pb_size q"
  then show "\<exists>q'. box_put e q = Some (False, q') \<and> box_wf q' \<and> box_list q' = box_list q \<and> pb_size q' = pb_size q"
    using box_full_iff [of q] box_count_le [of q] by (simp add: box_put_def IsPostBoxFull_def)
next
  fix q :: PostBox and e es
  assume "box_wf q" "box_list q = e # es"
  then show "\<exists>q'. box_get q = Some (Some e, q') \<and> box_wf q' \<and> box_list q' = es \<and> pb_size q' = pb_size q"
    using box_get_some [of q e es] by auto
next
  fix q :: PostBox
  assume "box_wf q" "box_list q = []"
  then show "\<exists>q'. box_get q = Some (None, q') \<and> box_wf q' \<and> box_list q' = [] \<and> pb_size q' = pb_size q"
    using box_empty_iff [of q] length_box_list [of q] by (simp add: box_get_def)
qed (use box_count_le in auto)

section \<open>The post office\<close>

text \<open>
  What the boxes promise: an ordered chain of addresses with the messages waiting at each, at
  most 23, and whether the root's box has been made. A call concerns the first box of its
  address.
\<close>

record post_office =
  po_boxes :: "(u16 \<times> PostEvent list) list"
  po_root :: bool

definition box_room :: nat where "box_room = 23"

fun at_box :: "u16 \<Rightarrow> (PostEvent list \<Rightarrow> 'r \<times> PostEvent list) \<Rightarrow> (u16 \<times> PostEvent list) list \<Rightarrow>
    'r option \<times> (u16 \<times> PostEvent list) list" where
  "at_box oid f [] = (None, [])"
| "at_box oid f ((i, es) # bs) =
     (if i = oid then (Some (fst (f es)), (i, snd (f es)) # bs)
      else (fst (at_box oid f bs), (i, es) # snd (at_box oid f bs)))"

fun drop_box :: "u16 \<Rightarrow> (u16 \<times> PostEvent list) list \<Rightarrow> (u16 \<times> PostEvent list) list" where
  "drop_box oid [] = []"
| "drop_box oid ((i, es) # bs) = (if i = oid then bs else (i, es) # drop_box oid bs)"

definition take_event :: "u16 \<Rightarrow> post_office \<Rightarrow> int \<times> PostEvent option \<times> post_office" where
  "take_event oid po =
     (case at_box oid queue_get (po_boxes po) of (r, bs) \<Rightarrow>
        (case r of Some (Some e) \<Rightarrow> (1, Some e, po\<lparr>po_boxes := bs\<rparr>)
         | _ \<Rightarrow> (POSTBOX_NO_EVENT, None, po\<lparr>po_boxes := bs\<rparr>)))"

fun po_exec :: "u16 \<Rightarrow> pb_code \<Rightarrow> post_office \<Rightarrow> int \<times> PostEvent option \<times> post_office" where
  "po_exec tid POSTBOX_CREATE po = (1, None, po\<lparr>po_boxes := po_boxes po @ [(tid, [])]\<rparr>)"
| "po_exec tid POSTBOX_CREATE_ROOT po =
     (1, None, \<lparr>po_boxes = po_boxes po @ [(if po_root po then tid else POSTBOX_ROOT_ID, [])], po_root = True\<rparr>)"
| "po_exec tid POSTBOX_DESTROY po = (1, None, po\<lparr>po_boxes := drop_box tid (po_boxes po)\<rparr>)"
| "po_exec tid (POSTBOX_PUT_EVENT e) po =
     (1, None, po\<lparr>po_boxes := snd (at_box (pe_to_id e) (queue_put box_room e) (po_boxes po))\<rparr>)"
| "po_exec tid POSTBOX_GET_EVENT po = take_event tid po"
| "po_exec tid POSTBOX_GET_EVENT_ROOT po = take_event POSTBOX_ROOT_ID po"

text \<open>Calls of any threads in any order: the answers, and the boxes after them.\<close>

fun pb_run :: "(u16 \<Rightarrow> pb_thread option) \<Rightarrow> (u16 \<times> pb_code) list \<Rightarrow> pb_sys \<Rightarrow>
    ((int \<times> PostEvent option) list \<times> pb_sys) option" where
  "pb_run threads [] s = Some ([], s)"
| "pb_run threads ((tid, c) # cs) s =
     (case PostBoxIOControl threads tid c s of None \<Rightarrow> None
      | Some (r, e, s1) \<Rightarrow> map_option (\<lambda>(rs, s2). ((r, e) # rs, s2)) (pb_run threads cs s1))"

fun po_run :: "(u16 \<times> pb_code) list \<Rightarrow> post_office \<Rightarrow> (int \<times> PostEvent option) list \<times> post_office" where
  "po_run [] po = ([], po)"
| "po_run ((tid, c) # cs) po =
     (case po_exec tid c po of (r, e, po1) \<Rightarrow> case po_run cs po1 of (rs, po2) \<Rightarrow> ((r, e) # rs, po2))"

definition box_view :: "PostBox \<Rightarrow> u16 \<times> PostEvent list" where
  "box_view b = (pb_ownerID b, box_list b)"

definition pb_view :: "pb_sys \<Rightarrow> post_office" where
  "pb_view s = \<lparr>po_boxes = map box_view (pb_boxes s), po_root = pb_root_created s\<rparr>"

definition pb_wf :: "pb_sys \<Rightarrow> bool" where
  "pb_wf s \<longleftrightarrow> (\<forall>b \<in> set (pb_boxes s). box_wf b \<and> pb_size b = box_room)"

definition pb_empty :: pb_sys where
  "pb_empty = \<lparr>pb_boxes = [], pb_root_created = False\<rparr>"

section \<open>The boxes keep the promise\<close>

lemma find_box_Some: "find_box oid boxes = Some i \<Longrightarrow> i < length boxes \<and> pb_ownerID (boxes ! i) = oid"
  by (simp add: find_box_def first_index_Some)

lemma at_box_view:
  "at_box oid f (map box_view boxes) =
     (case find_box oid boxes of None \<Rightarrow> (None, map box_view boxes)
      | Some i \<Rightarrow> (Some (fst (f (box_list (boxes ! i)))),
          (map box_view boxes)[i := (oid, snd (f (box_list (boxes ! i))))]))"
  by (induction boxes) (auto simp: find_box_def box_view_def split: option.splits)

lemma drop_box_view:
  "drop_box oid (map box_view boxes) =
     (case find_box oid boxes of None \<Rightarrow> map box_view boxes | Some i \<Rightarrow> map box_view (remove_at i boxes))"
  by (induction boxes) (auto simp: find_box_def box_view_def split: option.splits)

lemma box_put_owner: "box_put e b = Some (ok, b') \<Longrightarrow> pb_ownerID b' = pb_ownerID b"
  by (auto simp: box_put_def PostBoxAdvanceIndex_def Let_def split: if_splits)

lemma box_get_owner: "box_get b = Some (e, b') \<Longrightarrow> pb_ownerID b' = pb_ownerID b"
  by (auto simp: box_get_def PostBoxRetreat_def split: if_splits)

lemma pb_view_update:
  "i < length (pb_boxes s) \<Longrightarrow> pb_ownerID b = pb_ownerID (pb_boxes s ! i) \<Longrightarrow>
   pb_view (s\<lparr>pb_boxes := (pb_boxes s)[i := b]\<rparr>) =
     (pb_view s)\<lparr>po_boxes := (map box_view (pb_boxes s))[i := (pb_ownerID (pb_boxes s ! i), box_list b)]\<rparr>"
  by (simp add: pb_view_def box_view_def map_update)

lemma pb_wf_update:
  "pb_wf s \<Longrightarrow> box_wf b \<Longrightarrow> pb_size b = box_room \<Longrightarrow> pb_wf (s\<lparr>pb_boxes := (pb_boxes s)[i := b]\<rparr>)"
  by (auto simp: pb_wf_def dest: in_set_updateD)

lemma PostBoxCreate_view:
  "pb_view (PostBoxCreate root tid s) =
     \<lparr>po_boxes = po_boxes (pb_view s) @ [(if root \<and> \<not> po_root (pb_view s) then POSTBOX_ROOT_ID else tid, [])],
      po_root = po_root (pb_view s) \<or> root\<rparr>"
  by (auto simp: PostBoxCreate_def pb_view_def box_view_def box_list_def box_count_def Let_def)

lemma PostBoxCreate_wf: "pb_wf s \<Longrightarrow> pb_wf (PostBoxCreate root tid s)"
  by (auto simp: PostBoxCreate_def pb_wf_def box_wf_def Let_def PAGE_SIZE_def POSTEVENT_SIZE_ALIGNED_def
      box_room_def)

lemma PostBoxDestroyByID_view:
  "pb_view (PostBoxDestroyByID tid s) = (pb_view s)\<lparr>po_boxes := drop_box tid (po_boxes (pb_view s))\<rparr>"
  by (simp add: PostBoxDestroyByID_def pb_view_def drop_box_view split: option.split)

lemma PostBoxDestroyByID_wf: "pb_wf s \<Longrightarrow> pb_wf (PostBoxDestroyByID tid s)"
  using set_remove_at by (fastforce simp: PostBoxDestroyByID_def pb_wf_def split: option.split)

lemma PostBoxPutEvent_view:
  assumes "pb_wf s"
  shows "\<exists>w s'. PostBoxPutEvent threads e s = Some (w, s') \<and> pb_wf s' \<and> pb_view s' =
    (pb_view s)\<lparr>po_boxes := snd (at_box (pe_to_id e) (queue_put box_room e) (po_boxes (pb_view s)))\<rparr>"
proof (cases "find_box (pe_to_id e) (pb_boxes s)")
  case None
  then show ?thesis using assms by (simp add: PostBoxPutEvent_def Let_def pb_view_def at_box_view)
next
  case (Some i)
  note i = find_box_Some [OF Some]
  then have b: "box_wf (pb_boxes s ! i)" "pb_size (pb_boxes s ! i) = box_room"
    using assms by (simp_all add: pb_wf_def)
  obtain b' where b': "box_put e (pb_boxes s ! i) = Some (fst (queue_put box_room e (box_list (pb_boxes s ! i))), b')"
    "box_wf b'" "pb_size b' = box_room" "box_list b' = snd (queue_put box_room e (box_list (pb_boxes s ! i)))"
    using pb.put_answer [OF b(1), of e] b(2) by auto
  have "PostBoxPutEvent threads e s = Some (fst (the (PostBoxPutEvent threads e s)), s\<lparr>pb_boxes := (pb_boxes s)[i := b']\<rparr>)"
    using Some b'(1) by (simp add: PostBoxPutEvent_def Let_def)
  moreover note pb_wf_update [OF assms b'(2,3), of i] pb_view_update [of i s b'] box_put_owner [OF b'(1)]
  ultimately show ?thesis
    using Some i b'(4) by (intro exI conjI) (assumption, assumption, simp add: pb_view_def at_box_view)
qed

lemma PostBoxGetEvent_view:
  assumes "pb_wf s" "oid = (if root then POSTBOX_ROOT_ID else tid)"
  shows "\<exists>s'. PostBoxGetEvent root tid s =
      Some (fst (take_event oid (pb_view s)), fst (snd (take_event oid (pb_view s))), s') \<and>
    pb_wf s' \<and> pb_view s' = snd (snd (take_event oid (pb_view s)))"
proof (cases "find_box oid (pb_boxes s)")
  case None
  then show ?thesis using assms by (simp add: PostBoxGetEvent_def Let_def take_event_def pb_view_def at_box_view)
next
  case (Some i)
  note i = find_box_Some [OF Some]
  then have b: "box_wf (pb_boxes s ! i)" "pb_size (pb_boxes s ! i) = box_room"
    using assms(1) by (simp_all add: pb_wf_def)
  obtain b' where b': "box_get (pb_boxes s ! i) = Some (fst (queue_get (box_list (pb_boxes s ! i))), b')"
    "box_wf b'" "pb_size b' = box_room" "box_list b' = snd (queue_get (box_list (pb_boxes s ! i)))"
    using pb.get_answer [OF b(1)] b(2) by auto
  let ?s = "s\<lparr>pb_boxes := (pb_boxes s)[i := b']\<rparr>"
  let ?r = "fst (queue_get (box_list (pb_boxes s ! i)))"
  have "PostBoxGetEvent root tid s = Some (case ?r of None \<Rightarrow> POSTBOX_NO_EVENT | Some _ \<Rightarrow> 1, ?r, ?s)"
    using Some b'(1) assms(2) by (simp add: PostBoxGetEvent_def Let_def)
  moreover have "take_event oid (pb_view s) = (case ?r of None \<Rightarrow> POSTBOX_NO_EVENT | Some _ \<Rightarrow> 1, ?r, pb_view ?s)"
    using Some i b'(4) pb_view_update [of i s b'] box_get_owner [OF b'(1)]
    by (simp add: take_event_def pb_view_def at_box_view split: option.split)
  ultimately show ?thesis using pb_wf_update [OF assms(1) b'(2,3), of i] by simp
qed

lemma pb_exec_refines:
  assumes "pb_wf s"
  shows "\<exists>s'. PostBoxIOControl threads tid c s =
      Some (fst (po_exec tid c (pb_view s)), fst (snd (po_exec tid c (pb_view s))), s') \<and>
    pb_wf s' \<and> pb_view s' = snd (snd (po_exec tid c (pb_view s)))"
proof (cases c)
  case (POSTBOX_PUT_EVENT e)
  then show ?thesis using PostBoxPutEvent_view [OF assms, of threads e] by auto
next
  case POSTBOX_GET_EVENT
  then show ?thesis using PostBoxGetEvent_view [OF assms, of tid False tid] by simp
next
  case POSTBOX_GET_EVENT_ROOT
  then show ?thesis using PostBoxGetEvent_view [OF assms, of POSTBOX_ROOT_ID True tid] by simp
qed (use assms in \<open>auto simp: PostBoxCreate_view PostBoxCreate_wf PostBoxDestroyByID_view
    PostBoxDestroyByID_wf\<close>)

lemma pb_run_refines:
  "pb_wf s \<Longrightarrow> \<exists>s'. pb_run threads cs s = Some (fst (po_run cs (pb_view s)), s') \<and>
     pb_view s' = snd (po_run cs (pb_view s)) \<and> pb_wf s'"
proof (induction cs arbitrary: s)
  case Nil
  then show ?case by simp
next
  case (Cons x cs)
  obtain tid c where x: "x = (tid, c)" by (cases x)
  obtain s1 where s1: "PostBoxIOControl threads tid c s =
      Some (fst (po_exec tid c (pb_view s)), fst (snd (po_exec tid c (pb_view s))), s1)"
    "pb_wf s1" "pb_view s1 = snd (snd (po_exec tid c (pb_view s)))"
    using pb_exec_refines [OF Cons.prems, of threads tid c] by blast
  with Cons.IH [OF s1(2)] show ?case by (auto simp: x case_prod_unfold)
qed

text \<open>
  C30. The post boxes are a post office: for any sequence of control calls (create, create
  root, destroy, send, receive, receive from the root's box) by any threads, no call leaves a
  box's page, and every call has the return value and the event of the abstract post office, in
  which each box is a queue of at most 23 messages. So a message sent to an address is
  appended to the first box of that address and lost exactly if it has 23 waiting or there is
  no such box; a receive takes the oldest message of the first box with the thread's own number,
  and a receive from the root takes, for any thread, the oldest message of the first box
  numbered 1.
\<close>

theorem PostBox_delivery:
  "\<exists>s. pb_run threads calls pb_empty = Some (fst (po_run calls \<lparr>po_boxes = [], po_root = False\<rparr>), s) \<and>
     pb_view s = snd (po_run calls \<lparr>po_boxes = [], po_root = False\<rparr>) \<and> pb_wf s"
  using pb_run_refines [of pb_empty threads calls] by (simp add: pb_wf_def pb_empty_def pb_view_def)

end
