(* ===== verification/Links.thy ===== *)
theory Links
  imports Prelude
begin

text \<open>
  Doubly linked lists threaded through structures in memory, as the scheduler, the wait
  queues and the heap keep them: a list is read through the two functions that give the
  successor and the predecessor of an address.
\<close>

definition first :: "nat list \<Rightarrow> nat \<Rightarrow> nat" where
  "first xs e = (case xs of [] \<Rightarrow> e | x # _ \<Rightarrow> x)"

definition lastp :: "nat \<Rightarrow> nat list \<Rightarrow> nat" where
  "lastp p xs = (if xs = [] then p else last xs)"

lemma first_simps [simp]: "first [] e = e" "first (x # xs) e = x"
  by (simp_all add: first_def)

lemma first_append [simp]: "first (xs @ ys) e = first xs (first ys e)"
  by (cases xs) auto

lemma lastp_simps [simp]: "lastp p [] = p" "lastp p (xs @ [x]) = x"
    "lastp p (x # xs) = lastp x xs"
  by (auto simp: lastp_def)

lemma lastp_append [simp]: "lastp p (xs @ ys) = lastp (lastp p xs) ys"
  by (induction xs arbitrary: p) auto

lemma first_mem: "xs \<noteq> [] \<Longrightarrow> first xs e \<in> set xs"
  by (cases xs) auto

lemma lastp_mem: "xs \<noteq> [] \<Longrightarrow> lastp p xs \<in> set xs"
  by (simp add: lastp_def)

text \<open>
  \<open>glinks z nx pv p xs e\<close>: the addresses \<open>xs\<close>, none of them the null address \<open>z\<close>, are linked
  both ways in this order, the predecessor of the first is \<open>p\<close> and the successor of the last
  is \<open>e\<close>. Null is 0 except for page numbers, of which 0 is one.
\<close>

fun glinks :: "nat \<Rightarrow> (nat \<Rightarrow> nat) \<Rightarrow> (nat \<Rightarrow> nat) \<Rightarrow> nat \<Rightarrow> nat list \<Rightarrow> nat \<Rightarrow> bool" where
  "glinks z nx pv p [] e \<longleftrightarrow> True"
| "glinks z nx pv p (x # xs) e \<longleftrightarrow> x \<noteq> z \<and> pv x = p \<and> nx x = first xs e \<and> glinks z nx pv x xs e"

abbreviation dlinks :: "(nat \<Rightarrow> nat) \<Rightarrow> (nat \<Rightarrow> nat) \<Rightarrow> nat \<Rightarrow> nat list \<Rightarrow> nat \<Rightarrow> bool" where
  "dlinks \<equiv> glinks 0"

lemma dlinks_append [simp]:
  "glinks z nx pv p (xs @ ys) e \<longleftrightarrow> glinks z nx pv p xs (first ys e) \<and> glinks z nx pv (lastp p xs) ys e"
  by (induction xs arbitrary: p) auto

lemma dlinks_cong:
  assumes "\<And>x. x \<in> set xs \<Longrightarrow> nx' x = nx x" "\<And>x. x \<in> set xs \<Longrightarrow> pv' x = pv x"
  shows "glinks z nx' pv' p xs e = glinks z nx pv p xs e"
  using assms by (induction xs arbitrary: p) auto

lemma dlinks_nonzero: "glinks z nx pv p xs e \<Longrightarrow> x \<in> set xs \<Longrightarrow> x \<noteq> z"
  by (induction xs arbitrary: p) auto

lemma dlinks_first_zero: "glinks z nx pv p xs e \<Longrightarrow> first xs z = z \<longleftrightarrow> xs = []"
  by (cases xs) auto

lemma dlinks_mid:
  assumes "glinks z nx pv p (xs @ t # ys) e"
  shows "pv t = lastp p xs" "nx t = first ys e" "t \<noteq> z"
  using assms by auto

text \<open>Taking an element out, and putting one in front.\<close>

lemma dlinks_unlink:
  assumes d: "glinks z nx pv z (xs @ t # ys) z" and dist: "distinct (xs @ t # ys)"
    and nx': "\<And>x. x \<in> set (xs @ ys) \<Longrightarrow> nx' x = (if x = lastp z xs then first ys z else nx x)"
    and pv': "\<And>x. x \<in> set (xs @ ys) \<Longrightarrow> pv' x = (if x = first ys z then lastp z xs else pv x)"
  shows "glinks z nx' pv' z (xs @ ys) z"
proof -
  have pre: "glinks z nx' pv' z xs (first ys z)"
  proof (cases xs rule: rev_cases)
    case (snoc zs l)
    have "first ys z \<notin> set xs"
      using dist dlinks_nonzero [OF d] first_mem [of ys z] by (cases "ys = []") auto
    then have "glinks z nx' pv' z zs l = glinks z nx pv z zs l"
      using snoc dist nx' pv' by (intro dlinks_cong) auto
    then show ?thesis
      using snoc d dist nx' [of l] pv' [of l] \<open>first ys z \<notin> set xs\<close> by auto
  qed simp
  have post: "glinks z nx' pv' (lastp z xs) ys z"
  proof (cases ys)
    case (Cons y zs)
    have l: "lastp z xs \<notin> set ys"
      using dist dlinks_nonzero [OF d] lastp_mem [of xs z] by (cases "xs = []") auto
    then have "glinks z nx' pv' y zs z = glinks z nx pv y zs z"
      using Cons dist nx' pv' by (intro dlinks_cong) auto
    then show ?thesis
      using Cons d dist nx' [of y] pv' [of y] l by auto
  qed simp
  show ?thesis
    using pre post by simp
qed

lemma dlinks_push:
  assumes d: "glinks z nx pv z xs z" and dist: "distinct (t # xs)" and t: "t \<noteq> z"
    and new: "nx' t = first xs z" "pv' t = z"
    and nx': "\<And>x. x \<in> set xs \<Longrightarrow> nx' x = nx x"
    and pv': "\<And>x. x \<in> set xs \<Longrightarrow> pv' x = (if x = first xs z then t else pv x)"
  shows "glinks z nx' pv' z (t # xs) z"
proof (cases xs)
  case Nil
  then show ?thesis using t new by simp
next
  case (Cons y zs)
  then have "glinks z nx' pv' y zs z = glinks z nx pv y zs z"
    using dist nx' pv' by (intro dlinks_cong) auto
  then show ?thesis
    using Cons d t new nx' [of y] pv' [of y] by simp
qed

end
