(* ===== verification/Sched.thy ===== *)
theory Sched
  imports Links
begin

text \<open>
  The scheduler's thread lists (KernelAA64/Hal/sched.c): four doubly linked lists threaded
  through the \<open>next\<close> and \<open>prev\<close> fields of the thread structures themselves. The threads
  live in a store indexed by address and every operation is modelled link by link. The
  scheduler lock only excludes concurrent callers; one operation is one step here.

  Read against this, an abstract state gives each list as the sequence of its threads;
  \<open>sched_wf\<close> relates the two, and the lemmas of this theory show what every list operation
  does to the sequences. Loops over a list are \<open>partial_function (option)\<close>: on a cyclic
  list they have no result.
\<close>

section \<open>Threads and the four lists\<close>

definition THREAD_STATE_READY :: u8 where "THREAD_STATE_READY = 1"
definition THREAD_STATE_BLOCKED :: u8 where "THREAD_STATE_BLOCKED = 3"
definition THREAD_STATE_SLEEP :: u8 where "THREAD_STATE_SLEEP = 4"
definition THREAD_STATE_KILLABLE :: u8 where "THREAD_STATE_KILLABLE = 5"
definition THREAD_STATE_LEFT_IN_KERNEL :: u8 where "THREAD_STATE_LEFT_IN_KERNEL = 6"
definition THREAD_STATE_PENDING_SIGNAL :: u8 where "THREAD_STATE_PENDING_SIGNAL = 7"
definition THREAD_STATE_RUNNING :: u8 where "THREAD_STATE_RUNNING = 8"

named_theorems thread_states
lemmas [thread_states] =
  THREAD_STATE_READY_def THREAD_STATE_BLOCKED_def THREAD_STATE_SLEEP_def
  THREAD_STATE_KILLABLE_def THREAD_STATE_LEFT_IN_KERNEL_def THREAD_STATE_RUNNING_def

text \<open>The fields of \<open>AA64Thread\<close> the scheduler decides on; saved registers are left out.\<close>

record AA64Thread =
  state :: u8
  thread_id :: u64
  sleepQuanta :: u64
  sleep_until_us :: u64
  blocked_on_poll :: bool
  sig_pending :: u64
  sigs :: "nat list"
  edf_enabled :: bool
  edf_waiting :: bool
  edf_period_us :: u64
  edf_wcet_us :: u64
  edf_deadline_us :: u64
  edf_release_us :: u64
  edf_misses :: u64
  nxt :: nat
  prv :: nat

text \<open>A list is the pair of its head and tail pointers, which the list routines are given.\<close>

datatype tlist = Ready | Blocked | Sleep | Trash

record Sched =
  thr :: "nat \<Rightarrow> AA64Thread"
  head :: "tlist \<Rightarrow> nat"
  tail :: "tlist \<Rightarrow> nat"
  current_thread :: nat
  idle_thr :: nat
  next_id :: u64
  scheduler_initialized :: bool
  scheduler_tick :: u64
  edf_util_q16 :: u64

definition on_thread :: "nat \<Rightarrow> (AA64Thread \<Rightarrow> AA64Thread) \<Rightarrow> Sched \<Rightarrow> Sched" where
  "on_thread t f s = s\<lparr>thr := (thr s)(t := f (thr s t))\<rparr>"

definition set_state :: "nat \<Rightarrow> u8 \<Rightarrow> Sched \<Rightarrow> Sched" where
  "set_state t v s = on_thread t (\<lambda>x. x\<lparr>state := v\<rparr>) s"

section \<open>Linking and unlinking\<close>

definition schedLink :: "tlist \<Rightarrow> nat \<Rightarrow> Sched \<Rightarrow> Sched" where
  "schedLink q t s =
     (let s = on_thread t (\<lambda>x. x\<lparr>nxt := 0, prv := 0\<rparr>) s;
          s = (if head s q = 0
               then s\<lparr>tail := (tail s)(q := t), head := (head s)(q := t)\<rparr>
               else let s = on_thread (tail s q) (\<lambda>x. x\<lparr>nxt := t\<rparr>) s
                    in on_thread t (\<lambda>x. x\<lparr>prv := tail s q\<rparr>) s)
      in s\<lparr>tail := (tail s)(q := t)\<rparr>)"

definition schedUnlink :: "tlist \<Rightarrow> nat \<Rightarrow> Sched \<Rightarrow> Sched" where
  "schedUnlink q t s =
     (if t = 0 \<or> head s q = 0 then s
      else
        let s = (if prv (thr s t) \<noteq> 0
                 then on_thread (prv (thr s t)) (\<lambda>x. x\<lparr>nxt := nxt (thr s t)\<rparr>) s
                 else if head s q = t then s\<lparr>head := (head s)(q := nxt (thr s t))\<rparr>
                 else s)
        in (if nxt (thr s t) \<noteq> 0
            then on_thread (nxt (thr s t)) (\<lambda>x. x\<lparr>prv := prv (thr s t)\<rparr>) s
            else if tail s q = t then s\<lparr>tail := (tail s)(q := prv (thr s t))\<rparr>
            else s))"

text \<open>The search loop \<open>for (x = head; x; x = x->next) if (x == t)\<close>.\<close>

partial_function (option) on_list :: "(nat \<Rightarrow> AA64Thread) \<Rightarrow> nat \<Rightarrow> nat \<Rightarrow> bool option" where
  "on_list h p t =
     (if p = 0 then Some False else if p = t then Some True else on_list h (nxt (h p)) t)"

text \<open>
  The loops that end a tick's sleeps and releases: the successor is read before the body
  runs, because the body relinks the current thread.
\<close>

partial_function (option)
  each_thread :: "(nat \<Rightarrow> Sched \<Rightarrow> Sched option) \<Rightarrow> nat \<Rightarrow> Sched \<Rightarrow> Sched option" where
  "each_thread body p s =
     (if p = 0 then Some s
      else case body p s of None \<Rightarrow> None
           | Some s' \<Rightarrow> each_thread body (nxt (thr s p)) s')"

section \<open>The operations on the lists\<close>

definition AuBlockThread :: "nat \<Rightarrow> Sched \<Rightarrow> Sched" where
  "AuBlockThread t s =
     schedLink Blocked t (schedUnlink Ready t (set_state t THREAD_STATE_BLOCKED s))"

definition AuUnblockThread :: "nat \<Rightarrow> Sched \<Rightarrow> Sched option" where
  "AuUnblockThread t s =
     (let s = (if state (thr s t) \<noteq> THREAD_STATE_LEFT_IN_KERNEL
               then set_state t THREAD_STATE_READY s else s)
      in case on_list (thr s) (head s Blocked) t of None \<Rightarrow> None
         | Some found \<Rightarrow>
             Some (if found then schedLink Ready t (schedUnlink Blocked t s) else s))"

definition AuThreadWakePoller :: "nat \<Rightarrow> Sched \<Rightarrow> Sched option" where
  "AuThreadWakePoller t s =
     (if t = 0 \<or> \<not> blocked_on_poll (thr s t) then Some s
      else
        let wake = (\<lambda>s. schedLink Ready t
                          (if state (thr s t) \<noteq> THREAD_STATE_LEFT_IN_KERNEL
                           then set_state t THREAD_STATE_READY s else s))
        in case on_list (thr s) (head s Blocked) t of None \<Rightarrow> None
           | Some True \<Rightarrow> Some (wake (schedUnlink Blocked t s))
           | Some False \<Rightarrow>
               (case on_list (thr s) (head s Sleep) t of None \<Rightarrow> None
                | Some True \<Rightarrow>
                    Some (wake (schedUnlink Sleep t (on_thread t (\<lambda>x. x\<lparr>sleepQuanta := 0\<rparr>) s)))
                | Some False \<Rightarrow> Some s))"

text \<open>\<open>now\<close> is what \<open>AuGetCurrentUS\<close> returns.\<close>

definition AuSleepThread :: "u64 \<Rightarrow> nat \<Rightarrow> u64 \<Rightarrow> Sched \<Rightarrow> Sched" where
  "AuSleepThread now t ms s =
     schedLink Sleep t (schedUnlink Ready t
       (on_thread t (\<lambda>x. x\<lparr>state := THREAD_STATE_SLEEP, sleepQuanta := ms,
                             sleep_until_us := now + ms * 1000\<rparr>) s))"

definition AuThreadMakeReady :: "nat \<Rightarrow> Sched \<Rightarrow> Sched option" where
  "AuThreadMakeReady t s =
     (if state (thr s t) = THREAD_STATE_SLEEP
      then Some (set_state t THREAD_STATE_READY
                  (schedLink Ready t (schedUnlink Sleep t
                    (on_thread t (\<lambda>x. x\<lparr>sleepQuanta := 0\<rparr>) s))))
      else if state (thr s t) = THREAD_STATE_BLOCKED then AuUnblockThread t s
      else Some s)"

text \<open>
  \<open>AuScheduleNext\<close> parks the running thread and goes to the idle thread; the context switch
  itself is assembly.
\<close>

definition AuScheduleNext :: "Sched \<Rightarrow> Sched" where
  "AuScheduleNext s =
     (if \<not> scheduler_initialized s then s
      else (set_state (current_thread s) THREAD_STATE_LEFT_IN_KERNEL s)
             \<lparr>current_thread := idle_thr s\<rparr>)"

definition AuSchedYieldMs :: "u64 \<Rightarrow> u64 \<Rightarrow> Sched \<Rightarrow> int \<times> Sched" where
  "AuSchedYieldMs now ms s =
     (if \<not> scheduler_initialized s then (-1, s)
      else if current_thread s = 0 \<or> current_thread s = idle_thr s then (-1, s)
      else (0, AuScheduleNext (AuSleepThread now (current_thread s) (if ms = 0 then 1 else ms) s)))"

definition AuSchedulerStart :: "Sched \<Rightarrow> Sched" where
  "AuSchedulerStart s = s\<lparr>scheduler_initialized := True\<rparr>"

text \<open>
  \<open>AuHandleSleepThreads\<close>: the clock is read for each sleeper; the model takes one reading
  for the whole walk.
\<close>

definition wake_if_due :: "u64 \<Rightarrow> nat \<Rightarrow> Sched \<Rightarrow> Sched option" where
  "wake_if_due now t s =
     (let s = (if sleepQuanta (thr s t) > 0 \<and> now \<ge> sleep_until_us (thr s t)
               then on_thread t (\<lambda>x. x\<lparr>sleepQuanta := 0\<rparr>) s else s)
      in Some (if sleepQuanta (thr s t) = 0
               then let s = (if state (thr s t) \<noteq> THREAD_STATE_LEFT_IN_KERNEL
                             then set_state t THREAD_STATE_READY s else s)
                    in schedLink Ready t (schedUnlink Sleep t s)
               else s))"

definition AuHandleSleepThreads :: "u64 \<Rightarrow> Sched \<Rightarrow> Sched option" where
  "AuHandleSleepThreads now s = each_thread (wake_if_due now) (head s Sleep) s"

text \<open>
  \<open>AuThreadFindByID\<close>, \<open>AuThreadFindByIDBlockList\<close> and \<open>AuThreadFindByIDSleepList\<close> are one
  loop over three lists; the result 0 is the null pointer.
\<close>

partial_function (option) find_id :: "(nat \<Rightarrow> AA64Thread) \<Rightarrow> nat \<Rightarrow> u64 \<Rightarrow> nat option" where
  "find_id h p i =
     (if p = 0 then Some 0 else if thread_id (h p) = i then Some p else find_id h (nxt (h p)) i)"

definition AuThreadFindByID :: "u64 \<Rightarrow> Sched \<Rightarrow> nat option" where
  "AuThreadFindByID i s = find_id (thr s) (head s Ready) i"

definition AuThreadFindByIDBlockList :: "u64 \<Rightarrow> Sched \<Rightarrow> nat option" where
  "AuThreadFindByIDBlockList i s = find_id (thr s) (head s Blocked) i"

definition AuThreadFindByIDSleepList :: "u64 \<Rightarrow> Sched \<Rightarrow> nat option" where
  "AuThreadFindByIDSleepList i s = find_id (thr s) (head s Sleep) i"

text \<open>
  \<open>AuCreateKthread\<close>: \<open>t\<close> is the zeroed structure \<open>kmalloc\<close> returned. The entry point, the
  kernel stack and the signal trampoline are not modelled.
\<close>

definition blank_thread :: AA64Thread where
  "blank_thread =
     \<lparr>state = 0, thread_id = 0, sleepQuanta = 0, sleep_until_us = 0, blocked_on_poll = False,
      sig_pending = 0, sigs = replicate 32 0, edf_enabled = False, edf_waiting = False,
      edf_period_us = 0, edf_wcet_us = 0, edf_deadline_us = 0, edf_release_us = 0,
      edf_misses = 0, nxt = 0, prv = 0\<rparr>"

definition AuCreateKthread :: "nat \<Rightarrow> Sched \<Rightarrow> Sched" where
  "AuCreateKthread t s =
     schedLink Ready t
       ((on_thread t (\<lambda>_. blank_thread\<lparr>state := THREAD_STATE_READY,
                                         thread_id := next_id s\<rparr>) s)
          \<lparr>next_id := next_id s + 1\<rparr>)"

definition AuSchedulerInitialize :: "nat \<Rightarrow> (nat \<Rightarrow> AA64Thread) \<Rightarrow> Sched" where
  "AuSchedulerInitialize t mem =
     (AuCreateKthread t
       \<lparr>thr = mem, head = (\<lambda>_. 0), tail = (\<lambda>_. 0), current_thread = 0, idle_thr = 0,
        next_id = 0, scheduler_initialized = False, scheduler_tick = 0, edf_util_q16 = 0\<rparr>)
       \<lparr>idle_thr := t, current_thread := t, scheduler_tick := 0\<rparr>"

section \<open>The consistency check\<close>

definition SCHED_VALIDATE_STEPS :: nat where "SCHED_VALIDATE_STEPS = 8192"

text \<open>
  The loop of \<open>schedValidateOne\<close>: \<open>n\<close> is \<open>SCHED_VALIDATE_STEPS - steps\<close>; the result is the
  last thread visited and the number of threads, \<open>None\<close> an early \<open>return false\<close>.
\<close>

fun validate_walk ::
  "(nat \<Rightarrow> AA64Thread) \<Rightarrow> u8 set \<Rightarrow> nat \<Rightarrow> nat \<Rightarrow> nat \<Rightarrow> nat \<Rightarrow> (nat \<times> nat) option"
where
  "validate_walk h ok p prev c n =
     (if p = 0 then Some (prev, c)
      else (case n of 0 \<Rightarrow> None
            | Suc m \<Rightarrow>
                if prv (h p) \<noteq> prev then None
                else if state (h p) \<notin> ok then None
                else validate_walk h ok (nxt (h p)) p (c + 1) m))"

declare validate_walk.simps [simp del]

definition schedValidateOne :: "tlist \<Rightarrow> u8 set \<Rightarrow> Sched \<Rightarrow> bool \<times> nat" where
  "schedValidateOne q ok s =
     (case validate_walk (thr s) ok (head s q) 0 0 SCHED_VALIDATE_STEPS of
        None \<Rightarrow> (False, 0)
      | Some (p, c) \<Rightarrow>
          (p = tail s q \<and> \<not> (tail s q \<noteq> 0 \<and> nxt (thr s (tail s q)) \<noteq> 0), c))"

fun list_states :: "tlist \<Rightarrow> u8 set" where
  "list_states Ready = {THREAD_STATE_READY, THREAD_STATE_RUNNING, THREAD_STATE_LEFT_IN_KERNEL}"
| "list_states Blocked = {THREAD_STATE_BLOCKED, THREAD_STATE_LEFT_IN_KERNEL}"
| "list_states Sleep = {THREAD_STATE_SLEEP, THREAD_STATE_LEFT_IN_KERNEL}"
| "list_states Trash = {THREAD_STATE_KILLABLE}"

definition AuSchedValidateLists :: "Sched \<Rightarrow> bool" where
  "AuSchedValidateLists s =
     (let (ok1, c1) = schedValidateOne Ready (list_states Ready) s;
          (ok2, c2) = schedValidateOne Blocked (list_states Blocked) s;
          (ok3, c3) = schedValidateOne Sleep (list_states Sleep) s;
          (ok4, c4) = schedValidateOne Trash (list_states Trash) s
      in ok1 \<and> ok2 \<and> ok3 \<and> ok4 \<and> c1 + c2 + c3 + c4 > 0)"

section \<open>What a well-formed set of lists is\<close>

text \<open>The links of the threads.\<close>

abbreviation dl :: "(nat \<Rightarrow> AA64Thread) \<Rightarrow> nat \<Rightarrow> nat list \<Rightarrow> nat \<Rightarrow> bool" where
  "dl h \<equiv> dlinks (\<lambda>x. nxt (h x)) (\<lambda>x. prv (h x))"

definition list_at :: "Sched \<Rightarrow> tlist \<Rightarrow> nat list \<Rightarrow> bool" where
  "list_at s q xs \<longleftrightarrow>
     distinct xs \<and> dl (thr s) 0 xs 0 \<and> head s q = first xs 0 \<and> tail s q = lastp 0 xs"

definition sched_wf :: "Sched \<Rightarrow> (tlist \<Rightarrow> nat list) \<Rightarrow> bool" where
  "sched_wf s A \<longleftrightarrow>
     (\<forall>q. list_at s q (A q)) \<and> (\<forall>q r. q \<noteq> r \<longrightarrow> set (A q) \<inter> set (A r) = {})"

text \<open>The abstract effect of the link routines.\<close>

definition put_last :: "tlist \<Rightarrow> nat \<Rightarrow> (tlist \<Rightarrow> nat list) \<Rightarrow> tlist \<Rightarrow> nat list" where
  "put_last q t A = A(q := A q @ [t])"

definition take_out :: "tlist \<Rightarrow> nat \<Rightarrow> (tlist \<Rightarrow> nat list) \<Rightarrow> tlist \<Rightarrow> nat list" where
  "take_out q t A = A(q := remove1 t (A q))"

definition move :: "tlist \<Rightarrow> tlist \<Rightarrow> nat \<Rightarrow> (tlist \<Rightarrow> nat list) \<Rightarrow> tlist \<Rightarrow> nat list" where
  "move q r t A = put_last r t (take_out q t A)"

lemma dl_cong:
  assumes "\<And>x. x \<in> set xs \<Longrightarrow> nxt (h' x) = nxt (h x)"
    and "\<And>x. x \<in> set xs \<Longrightarrow> prv (h' x) = prv (h x)"
  shows "dl h' p xs e = dl h p xs e"
  using assms by (rule dlinks_cong)

subsection \<open>What the operations leave alone\<close>

lemma on_thread_sel [simp]:
  "head (on_thread t f s) = head s" "tail (on_thread t f s) = tail s"
  "current_thread (on_thread t f s) = current_thread s" "idle_thr (on_thread t f s) = idle_thr s"
  "next_id (on_thread t f s) = next_id s" "scheduler_tick (on_thread t f s) = scheduler_tick s"
  "scheduler_initialized (on_thread t f s) = scheduler_initialized s"
  "edf_util_q16 (on_thread t f s) = edf_util_q16 s"
  "thr (on_thread t f s) x = (if x = t then f (thr s t) else thr s x)"
  by (simp_all add: on_thread_def)

lemma set_state_sel [simp]:
  "head (set_state t v s) = head s" "tail (set_state t v s) = tail s"
  "current_thread (set_state t v s) = current_thread s" "idle_thr (set_state t v s) = idle_thr s"
  "next_id (set_state t v s) = next_id s" "scheduler_tick (set_state t v s) = scheduler_tick s"
  "scheduler_initialized (set_state t v s) = scheduler_initialized s"
  "edf_util_q16 (set_state t v s) = edf_util_q16 s"
  "thr (set_state t v s) x = (if x = t then thr s t\<lparr>state := v\<rparr> else thr s x)"
  by (simp_all add: set_state_def)

definition core :: "AA64Thread \<Rightarrow> AA64Thread" where
  "core x = x\<lparr>nxt := 0, prv := 0\<rparr>"

lemma core_schedLink [simp]: "core (thr (schedLink q t s) x) = core (thr s x)"
  by (simp add: schedLink_def Let_def core_def)

lemma core_schedUnlink [simp]: "core (thr (schedUnlink q t s) x) = core (thr s x)"
  by (simp add: schedUnlink_def Let_def core_def)

lemma state_self: "state x = v \<Longrightarrow> x\<lparr>state := v\<rparr> = x"
  by (cases x) simp

lemma core_eqD:
  assumes "core x = core y"
  shows "state x = state y" "thread_id x = thread_id y" "sleepQuanta x = sleepQuanta y"
    "sleep_until_us x = sleep_until_us y" "blocked_on_poll x = blocked_on_poll y"
    "sig_pending x = sig_pending y" "sigs x = sigs y" "edf_enabled x = edf_enabled y"
    "edf_waiting x = edf_waiting y" "edf_period_us x = edf_period_us y"
    "edf_wcet_us x = edf_wcet_us y" "edf_deadline_us x = edf_deadline_us y"
    "edf_release_us x = edf_release_us y" "edf_misses x = edf_misses y"
  using assms by (cases x; cases y; simp add: core_def)+

lemmas link_payload [simp] =
  core_eqD [OF core_schedLink] core_eqD [OF core_schedUnlink]

lemma link_globals [simp]:
  "current_thread (schedLink q t s) = current_thread s" "idle_thr (schedLink q t s) = idle_thr s"
  "next_id (schedLink q t s) = next_id s" "scheduler_tick (schedLink q t s) = scheduler_tick s"
  "scheduler_initialized (schedLink q t s) = scheduler_initialized s"
  "edf_util_q16 (schedLink q t s) = edf_util_q16 s"
  "current_thread (schedUnlink q t s) = current_thread s"
  "idle_thr (schedUnlink q t s) = idle_thr s"
  "next_id (schedUnlink q t s) = next_id s" "scheduler_tick (schedUnlink q t s) = scheduler_tick s"
  "scheduler_initialized (schedUnlink q t s) = scheduler_initialized s"
  "edf_util_q16 (schedUnlink q t s) = edf_util_q16 s"
  by (simp_all add: schedLink_def schedUnlink_def Let_def)

subsection \<open>Linking and unlinking on a well-formed list\<close>

lemma sched_wf_cong:
  assumes "\<And>x. nxt (thr s' x) = nxt (thr s x)" "\<And>x. prv (thr s' x) = prv (thr s x)"
    and "head s' = head s" "tail s' = tail s"
  shows "sched_wf s' A = sched_wf s A"
proof -
  have "list_at s' q xs = list_at s q xs" for q xs
    using dl_cong [of xs "thr s'" "thr s" 0 0] assms by (simp add: list_at_def)
  then show ?thesis by (simp add: sched_wf_def)
qed

lemma list_at_frame:
  assumes "list_at s q xs" "head s' q = head s q" "tail s' q = tail s q"
    and "\<And>x. x \<in> set xs \<Longrightarrow> nxt (thr s' x) = nxt (thr s x)"
    and "\<And>x. x \<in> set xs \<Longrightarrow> prv (thr s' x) = prv (thr s x)"
  shows "list_at s' q xs"
  using assms dl_cong [of xs "thr s'" "thr s" 0 0] by (simp add: list_at_def)

lemma schedLink_at:
  assumes "list_at s q xs" "t \<noteq> 0" "t \<notin> set xs"
  shows "list_at (schedLink q t s) q (xs @ [t])"
proof (cases xs rule: rev_cases)
  case Nil
  then show ?thesis
    using assms by (simp add: list_at_def schedLink_def Let_def)
next
  case (snoc ys l)
  then have l: "l \<noteq> t" "l \<notin> set ys" "t \<notin> set ys" "head s q \<noteq> 0" "tail s q = l"
    and d: "dl (thr s) 0 ys l" "l \<noteq> 0" "prv (thr s l) = lastp 0 ys"
    using assms by (cases ys; auto simp: list_at_def)+
  have "dl (thr (schedLink q t s)) 0 ys l = dl (thr s) 0 ys l"
    using l by (intro dl_cong) (auto simp: schedLink_def Let_def)
  then show ?thesis
    using l d assms snoc by (simp add: list_at_def schedLink_def Let_def)
qed

lemma schedLink_other:
  assumes "list_at s r ys" "list_at s q xs" "r \<noteq> q" "t \<notin> set ys" "set xs \<inter> set ys = {}"
  shows "list_at (schedLink q t s) r ys"
proof (rule list_at_frame [OF assms(1)])
  have "head s q \<noteq> 0 \<Longrightarrow> tail s q \<in> set xs"
    using assms(2) by (cases "xs = []") (auto simp: list_at_def lastp_mem)
  then have *: "x \<in> set ys \<Longrightarrow> head s q \<noteq> 0 \<Longrightarrow> x \<noteq> tail s q" for x
    using assms(5) by auto
  show "nxt (thr (schedLink q t s) x) = nxt (thr s x)" if "x \<in> set ys" for x
    using that * assms(4) by (auto simp: schedLink_def Let_def)
  show "prv (thr (schedLink q t s) x) = prv (thr s x)" if "x \<in> set ys" for x
    using that * assms(4) by (auto simp: schedLink_def Let_def)
qed (use assms in \<open>simp_all add: schedLink_def Let_def\<close>)

lemma schedLink_wf:
  assumes "sched_wf s A" "t \<noteq> 0" "\<And>r. t \<notin> set (A r)"
  shows "sched_wf (schedLink q t s) (put_last q t A)"
  unfolding sched_wf_def put_last_def
proof (intro conjI allI impI)
  fix r
  show "list_at (schedLink q t s) r ((A(q := A q @ [t])) r)"
    using assms schedLink_at [of s q "A q" t] schedLink_other [of s r "A r" q "A q" t]
    by (cases "r = q") (auto simp: sched_wf_def)
qed (use assms in \<open>auto simp: sched_wf_def\<close>)

lemma schedUnlink_links:
  assumes "list_at s q (xs @ t # ys)"
  shows "prv (thr s t) = lastp 0 xs" "nxt (thr s t) = first ys 0" "t \<noteq> 0"
    "head s q = first xs t" "tail s q = lastp t ys" "head s q \<noteq> 0"
  using assms by (cases xs; auto simp: list_at_def)+

lemma schedUnlink_at:
  assumes "list_at s q (xs @ t # ys)"
  shows "list_at (schedUnlink q t s) q (xs @ ys)"
proof -
  note links = schedUnlink_links [OF assms]
  have d: "distinct (xs @ t # ys)" "dl (thr s) 0 (xs @ t # ys) 0"
    using assms by (simp_all add: list_at_def)
  have nz: "xs \<noteq> [] \<Longrightarrow> lastp 0 xs \<noteq> 0" "ys \<noteq> [] \<Longrightarrow> first ys 0 \<noteq> 0"
    using lastp_mem [of xs 0] first_mem [of ys 0] dlinks_nonzero [OF d(2)] by fastforce+
  have "0 \<notin> set (xs @ ys)" "t \<notin> set (xs @ ys)"
    using d(1) dlinks_nonzero [OF d(2)] by auto
  then have "dl (thr (schedUnlink q t s)) 0 (xs @ ys) 0"
    using links by (intro dlinks_unlink [OF d(2,1)]) (auto simp: schedUnlink_def Let_def)
  then show ?thesis
    using d links nz
    by (cases xs rule: rev_cases; cases ys) (auto simp: list_at_def schedUnlink_def Let_def)
qed

lemma remove1_split: "distinct (xs @ t # ys) \<Longrightarrow> remove1 t (xs @ t # ys) = xs @ ys"
  by (simp add: remove1_append)

lemma schedUnlink_other:
  assumes "list_at s r zs" "list_at s q (xs @ t # ys)" "r \<noteq> q" "set (xs @ t # ys) \<inter> set zs = {}"
  shows "list_at (schedUnlink q t s) r zs"
proof (rule list_at_frame [OF assms(1)])
  note links = schedUnlink_links [OF assms(2)]
  have d: "dl (thr s) 0 xs t" "dl (thr s) t ys 0"
    using assms(2) by (auto simp: list_at_def)
  have p: "prv (thr s t) \<noteq> 0 \<Longrightarrow> prv (thr s t) \<in> set xs"
    using links lastp_mem [of xs 0] by (cases "xs = []") auto
  have n: "nxt (thr s t) \<noteq> 0 \<Longrightarrow> nxt (thr s t) \<in> set ys"
    using links first_mem [of ys 0] by (cases "ys = []") auto
  show "nxt (thr (schedUnlink q t s) x) = nxt (thr s x)" if "x \<in> set zs" for x
    using that p n assms(4) by (auto simp: schedUnlink_def Let_def)
  show "prv (thr (schedUnlink q t s) x) = prv (thr s x)" if "x \<in> set zs" for x
    using that p n assms(4) by (auto simp: schedUnlink_def Let_def)
qed (use assms(3) in \<open>simp_all add: schedUnlink_def Let_def\<close>)

lemma schedUnlink_wf:
  assumes "sched_wf s A" "t \<in> set (A q)"
  shows "sched_wf (schedUnlink q t s) (take_out q t A)"
proof -
  obtain xs ys where q: "A q = xs @ t # ys"
    using assms(2) split_list by metis
  have at: "list_at s r (A r)" for r
    using assms(1) by (simp add: sched_wf_def)
  have dis: "r \<noteq> p \<Longrightarrow> set (A r) \<inter> set (A p) = {}" for r p
    using assms(1) by (simp add: sched_wf_def)
  have rem: "remove1 t (A q) = xs @ ys"
    using at [of q] q by (simp add: list_at_def remove1_append)
  have "list_at (schedUnlink q t s) r (take_out q t A r)" for r
  proof (cases "r = q")
    case True
    then show ?thesis
      using schedUnlink_at at [of q] q rem by (simp add: take_out_def)
  next
    case False
    then show ?thesis
      using schedUnlink_other [OF at [of r], of q xs t ys] at [of q] q dis [of q r]
      by (simp add: take_out_def)
  qed
  moreover have "set (take_out q t A r) \<subseteq> set (A r)" for r
    using set_remove1_subset [of t "A r"] by (auto simp: take_out_def)
  then have "r \<noteq> p \<Longrightarrow> set (take_out q t A r) \<inter> set (take_out q t A p) = {}" for r p
    using dis by blast
  ultimately show ?thesis
    by (simp add: sched_wf_def)
qed

lemma sched_wf_distinct: "sched_wf s A \<Longrightarrow> distinct (A q)"
  by (simp add: sched_wf_def list_at_def)

lemma sched_wf_nonzero: "sched_wf s A \<Longrightarrow> t \<in> set (A q) \<Longrightarrow> t \<noteq> 0"
  unfolding sched_wf_def list_at_def using dlinks_nonzero by blast

lemma sched_wf_unique: "sched_wf s A \<Longrightarrow> t \<in> set (A q) \<Longrightarrow> t \<in> set (A r) \<Longrightarrow> q = r"
  unfolding sched_wf_def by blast

lemma sched_wf_head: "sched_wf s A \<Longrightarrow> head s q = first (A q) 0"
  by (simp add: sched_wf_def list_at_def)

lemma move_wf:
  assumes "sched_wf s A" "t \<in> set (A q)"
  shows "sched_wf (schedLink r t (schedUnlink q t s)) (move q r t A)"
  unfolding move_def
proof (rule schedLink_wf)
  show "sched_wf (schedUnlink q t s) (take_out q t A)"
    using assms by (rule schedUnlink_wf)
  show "t \<noteq> 0"
    using assms by (rule sched_wf_nonzero)
  show "t \<notin> set (take_out q t A p)" for p
    using sched_wf_unique [OF assms, of p] sched_wf_distinct [OF assms(1)]
    by (auto simp: take_out_def)
qed

lemma sched_wf_payload [simp]:
  assumes "\<And>x. nxt (f x) = nxt x" "\<And>x. prv (f x) = prv x"
  shows "sched_wf (on_thread t f s) A = sched_wf s A"
  using assms by (intro sched_wf_cong) auto

lemma sched_wf_set_state [simp]: "sched_wf (set_state t v s) A = sched_wf s A"
  by (simp add: set_state_def)

lemma on_list_dl:
  "dl h p xs 0 \<Longrightarrow> on_list h (first xs 0) t = Some (t \<in> set xs)"
proof (induction xs arbitrary: p)
  case Nil
  then show ?case by (simp add: on_list.simps)
next
  case (Cons x xs)
  then have "on_list h (first xs 0) t = Some (t \<in> set xs)"
    by (meson glinks.simps(2))
  with Cons.prems show ?case
    by (subst on_list.simps) auto
qed

lemma on_list_wf: "sched_wf s A \<Longrightarrow> on_list (thr s) (head s q) t = Some (t \<in> set (A q))"
  unfolding sched_wf_def list_at_def using on_list_dl by metis

lemma find_id_dl:
  "dl h p xs 0 \<Longrightarrow>
     find_id h (first xs 0) i =
       Some (case List.find (\<lambda>x. thread_id (h x) = i) xs of None \<Rightarrow> 0 | Some t \<Rightarrow> t)"
proof (induction xs arbitrary: p)
  case Nil
  then show ?case by (simp add: find_id.simps)
next
  case (Cons x xs)
  then have "find_id h (first xs 0) i =
      Some (case List.find (\<lambda>x. thread_id (h x) = i) xs of None \<Rightarrow> 0 | Some t \<Rightarrow> t)"
    by (meson glinks.simps(2))
  with Cons.prems show ?case
    by (subst find_id.simps) auto
qed

section \<open>What each operation does to the lists\<close>

lemma AuBlockThread_wf:
  assumes "sched_wf s A" "t \<in> set (A Ready)"
  shows "sched_wf (AuBlockThread t s) (move Ready Blocked t A)"
    and "state (thr (AuBlockThread t s) x) = (if x = t then THREAD_STATE_BLOCKED else state (thr s x))"
  using assms by (simp_all add: AuBlockThread_def move_wf)

lemma AuSleepThread_wf:
  assumes "sched_wf s A" "t \<in> set (A Ready)"
  shows "sched_wf (AuSleepThread now t ms s) (move Ready Sleep t A)"
    and "state (thr (AuSleepThread now t ms s) x) =
           (if x = t then THREAD_STATE_SLEEP else state (thr s x))"
  using assms by (simp_all add: AuSleepThread_def move_wf)

text \<open>A parked thread keeps \<open>LEFT_IN_KERNEL\<close> when it becomes runnable again.\<close>

definition woken :: "u8 \<Rightarrow> u8" where
  "woken v = (if v = THREAD_STATE_LEFT_IN_KERNEL then v else THREAD_STATE_READY)"

lemma AuUnblockThread_wf:
  assumes "sched_wf s A"
  obtains s' where "AuUnblockThread t s = Some s'"
    "sched_wf s' (if t \<in> set (A Blocked) then move Blocked Ready t A else A)"
    "\<And>x. core (thr s' x) =
           core (if x = t then thr s t\<lparr>state := woken (state (thr s t))\<rparr> else thr s x)"
    "idle_thr s' = idle_thr s" "current_thread s' = current_thread s"
    "edf_util_q16 s' = edf_util_q16 s"
proof -
  define s1 where "s1 = (if state (thr s t) \<noteq> THREAD_STATE_LEFT_IN_KERNEL
               then set_state t THREAD_STATE_READY s else s)"
  define s2 where
    "s2 = (if t \<in> set (A Blocked) then schedLink Ready t (schedUnlink Blocked t s1) else s1)"
  have w1: "sched_wf s1 A"
    using assms by (simp add: s1_def)
  have "AuUnblockThread t s = Some s2"
    using on_list_wf [OF w1, of Blocked t]
    by (simp add: AuUnblockThread_def s2_def s1_def Let_def)
  moreover have "sched_wf s2 (if t \<in> set (A Blocked) then move Blocked Ready t A else A)"
    using w1 by (simp add: s2_def move_wf)
  ultimately show thesis
  proof (rule that)
    fix x
    have "core (thr s2 x) = core (thr s1 x)"
      by (simp add: s2_def)
    also have "\<dots> = core (if x = t then thr s t\<lparr>state := woken (state (thr s t))\<rparr> else thr s x)"
      by (simp add: s1_def woken_def state_self)
    finally show "core (thr s2 x) =
        core (if x = t then thr s t\<lparr>state := woken (state (thr s t))\<rparr> else thr s x)" .
  qed (simp_all add: s1_def s2_def)
qed

lemma AuThreadMakeReady_wf:
  assumes "sched_wf s A" "state (thr s t) = THREAD_STATE_SLEEP \<longrightarrow> t \<in> set (A Sleep)"
  obtains s' where "AuThreadMakeReady t s = Some s'"
    "sched_wf s' (if state (thr s t) = THREAD_STATE_SLEEP then move Sleep Ready t A
                  else if state (thr s t) = THREAD_STATE_BLOCKED \<and> t \<in> set (A Blocked)
                  then move Blocked Ready t A else A)"
    "\<And>x. state (thr s' x) =
           (if x = t \<and> state (thr s t) \<in> {THREAD_STATE_SLEEP, THREAD_STATE_BLOCKED}
            then THREAD_STATE_READY else state (thr s x))"
    "idle_thr s' = idle_thr s" "current_thread s' = current_thread s"
proof (cases "state (thr s t) = THREAD_STATE_BLOCKED")
  case True
  obtain s' where "AuUnblockThread t s = Some s'"
    "sched_wf s' (if t \<in> set (A Blocked) then move Blocked Ready t A else A)"
    "\<And>x. core (thr s' x) =
           core (if x = t then thr s t\<lparr>state := woken (state (thr s t))\<rparr> else thr s x)"
    "idle_thr s' = idle_thr s" "current_thread s' = current_thread s"
    using AuUnblockThread_wf [OF assms(1)] by metis
  moreover from this have "state (thr s' x) = (if x = t then THREAD_STATE_READY else state (thr s x))" for x
    using True core_eqD(1) [of "thr s' x"] by (auto simp: woken_def thread_states)
  moreover have "THREAD_STATE_BLOCKED \<noteq> THREAD_STATE_SLEEP"
    by (simp add: thread_states)
  ultimately show thesis
    using True by (intro that [of s']) (simp_all add: AuThreadMakeReady_def)
next
  case False
  show thesis
  proof (cases "state (thr s t) = THREAD_STATE_SLEEP")
    case True
    with assms have "t \<in> set (A Sleep)" by simp
    with True assms show thesis
      by (intro that [of "set_state t THREAD_STATE_READY
            (schedLink Ready t (schedUnlink Sleep t (on_thread t (\<lambda>x. x\<lparr>sleepQuanta := 0\<rparr>) s)))"])
        (simp_all add: AuThreadMakeReady_def move_wf)
  next
    case sl: False
    with False assms show thesis
      by (intro that [of s]) (simp_all add: AuThreadMakeReady_def)
  qed
qed

lemma AuThreadWakePoller_wf:
  assumes "sched_wf s A"
  obtains s' where "AuThreadWakePoller t s = Some s'"
    "sched_wf s' (if t = 0 \<or> \<not> blocked_on_poll (thr s t) then A
                  else if t \<in> set (A Blocked) then move Blocked Ready t A
                  else if t \<in> set (A Sleep) then move Sleep Ready t A else A)"
    "\<And>x. state (thr s' x) =
           (if x = t \<and> t \<noteq> 0 \<and> blocked_on_poll (thr s t) \<and> t \<in> set (A Blocked) \<union> set (A Sleep)
            then woken (state (thr s t)) else state (thr s x))"
    "idle_thr s' = idle_thr s" "current_thread s' = current_thread s"
proof -
  define wake where "wake = (\<lambda>s. schedLink Ready t
      (if state (thr s t) \<noteq> THREAD_STATE_LEFT_IN_KERNEL
       then set_state t THREAD_STATE_READY s else s))"
  have wake: "sched_wf (wake (schedUnlink q t s0)) (move q Ready t A)"
      "state (thr (wake (schedUnlink q t s0)) x) =
         (if x = t then woken (state (thr s0 t)) else state (thr s0 x))"
      "idle_thr (wake (schedUnlink q t s0)) = idle_thr s0"
      "current_thread (wake (schedUnlink q t s0)) = current_thread s0"
    if "sched_wf s0 A" "t \<in> set (A q)" for s0 q x
  proof -
    have w: "sched_wf (schedUnlink q t s0) (take_out q t A)"
      using that by (rule schedUnlink_wf)
    show "sched_wf (wake (schedUnlink q t s0)) (move q Ready t A)"
      unfolding wake_def move_def
      using w sched_wf_nonzero [OF that] sched_wf_unique [OF that] sched_wf_distinct [OF that(1)]
      by (intro schedLink_wf) (auto simp: take_out_def split: if_splits)
  qed (simp_all add: wake_def woken_def)
  show thesis
  proof (cases "t = 0 \<or> \<not> blocked_on_poll (thr s t)")
    case True
    then show thesis
      using assms by (intro that) (auto simp: AuThreadWakePoller_def)
  next
    case False
    then have d: "AuThreadWakePoller t s =
        Some (if t \<in> set (A Blocked) then wake (schedUnlink Blocked t s)
              else if t \<in> set (A Sleep)
              then wake (schedUnlink Sleep t (on_thread t (\<lambda>x. x\<lparr>sleepQuanta := 0\<rparr>) s))
              else s)"
      using on_list_wf [OF assms] by (simp add: AuThreadWakePoller_def wake_def Let_def)
    let ?z = "on_thread t (\<lambda>x. x\<lparr>sleepQuanta := 0\<rparr>) s"
    have z: "sched_wf ?z A"
      using assms by simp
    show thesis
    proof (cases "t \<in> set (A Blocked)")
      case True
      then show thesis
        using d False wake [OF assms True] by (intro that [of "wake (schedUnlink Blocked t s)"]) simp_all
    next
      case nb: False
      show thesis
      proof (cases "t \<in> set (A Sleep)")
        case True
        then show thesis
          using d False nb wake [OF z True] by (intro that [of "wake (schedUnlink Sleep t ?z)"]) simp_all
      next
        case ns: False
        then show thesis
          using d False nb assms by (intro that [of s]) simp_all
      qed
    qed
  qed
qed

lemma AuCreateKthread_wf:
  assumes "sched_wf s A" "t \<noteq> 0" "\<And>q. t \<notin> set (A q)"
  shows "sched_wf (AuCreateKthread t s) (put_last Ready t A)"
    and "state (thr (AuCreateKthread t s) x) = (if x = t then THREAD_STATE_READY else state (thr s x))"
proof -
  define s1 where "s1 = (on_thread t (\<lambda>_. blank_thread\<lparr>state := THREAD_STATE_READY,
                                         thread_id := next_id s\<rparr>) s)\<lparr>next_id := next_id s + 1\<rparr>"
  have c: "AuCreateKthread t s = schedLink Ready t s1"
    by (simp add: s1_def AuCreateKthread_def)
  have "list_at s1 q (A q)" for q
  proof (rule list_at_frame [of s q "A q"])
    show "list_at s q (A q)"
      using assms(1) by (simp add: sched_wf_def)
    have "x \<noteq> t" if "x \<in> set (A q)" for x
      using that assms(3) [of q] by auto
    then show "nxt (thr s1 x) = nxt (thr s x)" "prv (thr s1 x) = prv (thr s x)" if "x \<in> set (A q)" for x
      using that by (simp_all add: s1_def)
  qed (simp_all add: s1_def)
  then have "sched_wf s1 A"
    using assms(1) by (simp add: sched_wf_def)
  then show "sched_wf (AuCreateKthread t s) (put_last Ready t A)"
    unfolding c using assms(2,3) by (rule schedLink_wf)
  show "state (thr (AuCreateKthread t s) x) = (if x = t then THREAD_STATE_READY else state (thr s x))"
    by (simp add: c s1_def)
qed

section \<open>Walks that move threads to the ready list\<close>

text \<open>
  A body that moves exactly the threads with the property \<open>D\<close> from the list \<open>q\<close> to the
  ready list, and touches no other thread, drains those threads in their order.
\<close>

definition drain :: "tlist \<Rightarrow> (nat \<Rightarrow> bool) \<Rightarrow> (tlist \<Rightarrow> nat list) \<Rightarrow> tlist \<Rightarrow> nat list" where
  "drain q D A = A(q := filter (\<lambda>t. \<not> D t) (A q), Ready := A Ready @ filter D (A q))"

lemma each_thread_drains:
  assumes "sched_wf s A" "A q = ps @ ys" "q \<noteq> Ready" "set ys \<subseteq> U"
    and "\<And>x. core (thr s x) = core (if x \<in> set ys then h x else g x)"
    and body: "\<And>s A t. sched_wf s A \<Longrightarrow> t \<in> set (A q) \<Longrightarrow> t \<in> U \<Longrightarrow>
        core (thr s t) = core (h t) \<Longrightarrow>
        \<exists>s'. body t s = Some s' \<and> sched_wf s' (if D t then move q Ready t A else A) \<and>
             idle_thr s' = idle_thr s \<and> current_thread s' = current_thread s \<and>
             edf_util_q16 s' = edf_util_q16 s \<and>
             (\<forall>x. core (thr s' x) = core (if x = t then g t else thr s x))"
  shows "\<exists>s'. each_thread body (first ys 0) s = Some s' \<and>
           sched_wf s' (A(q := ps @ filter (\<lambda>t. \<not> D t) ys, Ready := A Ready @ filter D ys)) \<and>
           idle_thr s' = idle_thr s \<and> current_thread s' = current_thread s \<and>
           edf_util_q16 s' = edf_util_q16 s \<and>
           (\<forall>x. core (thr s' x) = core (g x))"
  using assms(1-5)
proof (induction ys arbitrary: s A ps)
  case Nil
  then show ?case
    by (simp add: each_thread.simps fun_upd_idem)
next
  case (Cons y ys)
  have y: "y \<in> set (A q)" "y \<in> U" "y \<noteq> 0"
    using Cons.prems sched_wf_nonzero [of s A y q] by auto
  have nx: "nxt (thr s y) = first ys 0"
    using schedUnlink_links(2) [of s q ps y ys] Cons.prems(1,2) unfolding sched_wf_def by metis
  have notin: "y \<notin> set ys" "y \<notin> set ps"
    using sched_wf_distinct [OF Cons.prems(1), of q] Cons.prems(2) by auto
  obtain s1 where s1: "body y s = Some s1" "sched_wf s1 (if D y then move q Ready y A else A)"
      "idle_thr s1 = idle_thr s" "current_thread s1 = current_thread s"
      "edf_util_q16 s1 = edf_util_q16 s"
      "\<And>x. core (thr s1 x) = core (if x = y then g y else thr s x)"
    using body [OF Cons.prems(1) y(1,2)] Cons.prems(5) by auto
  define A1 where "A1 = (if D y then move q Ready y A else A)"
  define ps1 where "ps1 = (if D y then ps else ps @ [y])"
  have A1: "A1 q = ps1 @ ys" "A1 Ready = A Ready @ (if D y then [y] else [])"
      "\<And>r. r \<noteq> q \<Longrightarrow> r \<noteq> Ready \<Longrightarrow> A1 r = A r"
    using Cons.prems(2,3) notin
    by (auto simp: A1_def ps1_def move_def put_last_def take_out_def remove1_append)
  have "\<exists>s'. each_thread body (first ys 0) s1 = Some s' \<and>
           sched_wf s' (A1(q := ps1 @ filter (\<lambda>t. \<not> D t) ys, Ready := A1 Ready @ filter D ys)) \<and>
           idle_thr s' = idle_thr s1 \<and> current_thread s' = current_thread s1 \<and>
           edf_util_q16 s' = edf_util_q16 s1 \<and>
           (\<forall>x. core (thr s' x) = core (g x))"
    using s1 A1 Cons.prems(3-5) notin by (intro Cons.IH) (auto simp: A1_def)
  moreover have "A1(q := ps1 @ filter (\<lambda>t. \<not> D t) ys, Ready := A1 Ready @ filter D ys) =
      A(q := ps @ filter (\<lambda>t. \<not> D t) (y # ys), Ready := A Ready @ filter D (y # ys))"
    using A1 by (auto simp: ps1_def fun_eq_iff)
  ultimately show ?case
    using y(3) s1 nx by (subst each_thread.simps) auto
qed

text \<open>
  The same for a body that decides by the payload of the thread: \<open>D\<close> says which threads it
  moves, \<open>f\<close> what it does to the payload.
\<close>

lemma drain_walk:
  assumes "sched_wf s A" "q \<noteq> Ready"
    and body: "\<And>s A t. sched_wf s A \<Longrightarrow> t \<in> set (A q) \<Longrightarrow>
        \<exists>s'. body t s = Some s' \<and> sched_wf s' (if D (thr s t) then move q Ready t A else A) \<and>
             idle_thr s' = idle_thr s \<and> current_thread s' = current_thread s \<and>
             edf_util_q16 s' = edf_util_q16 s \<and>
             (\<forall>x. core (thr s' x) = core (if x = t then f (thr s t) else thr s x))"
    and D: "\<And>x y. core x = core y \<Longrightarrow> D x = D y"
    and f: "\<And>x y. core x = core y \<Longrightarrow> core (f x) = core (f y)"
  obtains s' where "each_thread body (head s q) s = Some s'"
    "sched_wf s' (drain q (\<lambda>t. D (thr s t)) A)"
    "idle_thr s' = idle_thr s" "current_thread s' = current_thread s"
    "edf_util_q16 s' = edf_util_q16 s"
    "\<And>x. core (thr s' x) = core (if x \<in> set (A q) then f (thr s x) else thr s x)"
proof -
  let ?g = "\<lambda>x. if x \<in> set (A q) then f (thr s x) else thr s x"
  have "\<exists>s'. each_thread body (first (A q) 0) s = Some s' \<and>
      sched_wf s' (A(q := [] @ filter (\<lambda>t. \<not> D (thr s t)) (A q),
        Ready := A Ready @ filter (\<lambda>t. D (thr s t)) (A q))) \<and>
      idle_thr s' = idle_thr s \<and> current_thread s' = current_thread s \<and>
      edf_util_q16 s' = edf_util_q16 s \<and> (\<forall>x. core (thr s' x) = core (?g x))"
  proof (rule each_thread_drains [where h = "thr s" and U = "set (A q)"])
    fix z B t
    assume z: "sched_wf z B" "t \<in> set (B q)" "t \<in> set (A q)" "core (thr z t) = core (thr s t)"
    obtain z' where z': "body t z = Some z'"
      "sched_wf z' (if D (thr z t) then move q Ready t B else B)"
      "idle_thr z' = idle_thr z" "current_thread z' = current_thread z"
      "edf_util_q16 z' = edf_util_q16 z"
      "\<forall>x. core (thr z' x) = core (if x = t then f (thr z t) else thr z x)"
      using body [OF z(1,2)] by blast
    have "core (thr z' x) = core (if x = t then ?g t else thr z x)" for x
      using z'(6) z(3) f [OF z(4)] by (cases "x = t") simp_all
    then show "\<exists>s'. body t z = Some s' \<and>
        sched_wf s' (if D (thr s t) then move q Ready t B else B) \<and>
        idle_thr s' = idle_thr z \<and> current_thread s' = current_thread z \<and>
        edf_util_q16 s' = edf_util_q16 z \<and>
        (\<forall>x. core (thr s' x) = core (if x = t then ?g t else thr z x))"
      using z'(1-5) D [OF z(4)] by (intro exI [of _ z']) simp
  qed (use assms(1,2) in simp_all)
  then show thesis
    using that sched_wf_head [OF assms(1), of q] by (auto simp: drain_def)
qed

section \<open>The sleepers of a tick\<close>

definition sleep_due :: "u64 \<Rightarrow> AA64Thread \<Rightarrow> bool" where
  "sleep_due now x \<longleftrightarrow> sleepQuanta x = 0 \<or> now \<ge> sleep_until_us x"

definition after_sleep :: "u64 \<Rightarrow> AA64Thread \<Rightarrow> AA64Thread" where
  "after_sleep now x =
     (if sleep_due now x then x\<lparr>sleepQuanta := 0, state := woken (state x)\<rparr> else x)"

lemma quanta_self: "sleepQuanta x = v \<Longrightarrow> x\<lparr>sleepQuanta := v\<rparr> = x"
  by (cases x) simp

lemma wake_if_due_body:
  assumes "sched_wf s A" "t \<in> set (A Sleep)"
  shows "\<exists>s'. wake_if_due now t s = Some s' \<and>
     sched_wf s' (if sleep_due now (thr s t) then move Sleep Ready t A else A) \<and>
     idle_thr s' = idle_thr s \<and> current_thread s' = current_thread s \<and>
     edf_util_q16 s' = edf_util_q16 s \<and>
     (\<forall>x. core (thr s' x) = core (if x = t then after_sleep now (thr s t) else thr s x))"
proof -
  define s1 where "s1 = (if sleepQuanta (thr s t) > 0 \<and> now \<ge> sleep_until_us (thr s t)
      then on_thread t (\<lambda>x. x\<lparr>sleepQuanta := 0\<rparr>) s else s)"
  define s2 where "s2 = (if state (thr s1 t) \<noteq> THREAD_STATE_LEFT_IN_KERNEL
      then set_state t THREAD_STATE_READY s1 else s1)"
  have due: "sleepQuanta (thr s1 t) = 0 \<longleftrightarrow> sleep_due now (thr s t)"
    by (auto simp: s1_def sleep_due_def word_gt_0)
  have w: "sched_wf s1 A" "sched_wf s2 A"
    using assms(1) by (simp_all add: s1_def s2_def)
  have eq: "wake_if_due now t s =
      Some (if sleep_due now (thr s t) then schedLink Ready t (schedUnlink Sleep t s2) else s1)"
    using due by (simp add: wake_if_due_def s1_def s2_def Let_def)
  show ?thesis
  proof (cases "sleep_due now (thr s t)")
    case True
    have "thr s2 x = (if x = t then after_sleep now (thr s t) else thr s x)" for x
      using True by (auto simp: s2_def s1_def after_sleep_def woken_def sleep_due_def state_self
          quanta_self word_gt_0)
    then show ?thesis
      using eq True w(2) assms(2) by (simp add: move_wf) (simp add: s1_def s2_def)
  next
    case False
    then have "s1 = s"
      by (simp add: s1_def sleep_due_def)
    then show ?thesis
      using eq False assms(1) by (simp add: after_sleep_def)
  qed
qed

lemma after_sleep_core: "core x = core y \<Longrightarrow> core (after_sleep now x) = core (after_sleep now y)"
  by (cases x; cases y) (auto simp add: core_def after_sleep_def sleep_due_def woken_def)

lemma sleep_due_core: "core x = core y \<Longrightarrow> sleep_due now x = sleep_due now y"
  using core_eqD(3,4) [of x y] by (simp add: sleep_due_def)

lemma AuHandleSleepThreads_drains:
  assumes "sched_wf s A"
  obtains s' where "AuHandleSleepThreads now s = Some s'"
    "sched_wf s' (drain Sleep (\<lambda>t. sleep_due now (thr s t)) A)"
    "idle_thr s' = idle_thr s" "current_thread s' = current_thread s"
    "edf_util_q16 s' = edf_util_q16 s"
    "\<And>x. core (thr s' x) =
       core (if x \<in> set (A Sleep) then after_sleep now (thr s x) else thr s x)"
  unfolding AuHandleSleepThreads_def
  by (rule drain_walk [OF assms _ wake_if_due_body sleep_due_core after_sleep_core]) auto

section \<open>A concrete scheduler\<close>

text \<open>The idle thread at address 1 and a second thread at address 2, which is running.\<close>

definition nobody :: "tlist \<Rightarrow> nat list" where
  "nobody = (\<lambda>_. [])"

definition demo_init :: Sched where
  "demo_init = AuSchedulerInitialize 1 (\<lambda>_. blank_thread)"

definition demo_sched :: Sched where
  "demo_sched = (AuSchedulerStart (AuCreateKthread 2 demo_init))\<lparr>current_thread := 2\<rparr>"

lemma sched_wf_empty:
  assumes "head s = (\<lambda>_. 0)" "tail s = (\<lambda>_. 0)"
  shows "sched_wf s nobody"
  using assms by (simp add: sched_wf_def list_at_def nobody_def)

lemma AuSchedulerInitialize_wf:
  assumes "t \<noteq> 0"
  shows "sched_wf (AuSchedulerInitialize t mem) (put_last Ready t nobody)"
    and "state (thr (AuSchedulerInitialize t mem) x) =
           (if x = t then THREAD_STATE_READY else state (mem x))"
    and "idle_thr (AuSchedulerInitialize t mem) = t" "current_thread (AuSchedulerInitialize t mem) = t"
proof -
  define s0 where "s0 = \<lparr>thr = mem, head = (\<lambda>_. 0), tail = (\<lambda>_. 0), current_thread = 0, idle_thr = 0,
        next_id = 0, scheduler_initialized = False, scheduler_tick = 0, edf_util_q16 = 0\<rparr>"
  let ?s = "AuSchedulerInitialize t mem" and ?A = "put_last Ready t nobody"
  have s: "?s = (AuCreateKthread t s0)\<lparr>idle_thr := t, current_thread := t, scheduler_tick := 0\<rparr>"
    by (simp add: AuSchedulerInitialize_def s0_def)
  have "sched_wf s0 nobody"
    by (rule sched_wf_empty) (simp_all add: s0_def)
  then have c: "sched_wf (AuCreateKthread t s0) ?A"
      "\<And>x. state (thr (AuCreateKthread t s0) x) = (if x = t then THREAD_STATE_READY else state (thr s0 x))"
    using AuCreateKthread_wf [of s0 nobody t] assms by (simp_all add: nobody_def)
  show "sched_wf ?s ?A"
    using c(1) sched_wf_cong [of ?s "AuCreateKthread t s0" ?A] by (simp add: s)
  show "state (thr ?s x) = (if x = t then THREAD_STATE_READY else state (mem x))"
    using c(2) by (simp add: s s0_def)
qed (simp_all add: AuSchedulerInitialize_def)

definition demo_lists :: "tlist \<Rightarrow> nat list" where
  "demo_lists = nobody(Ready := [1, 2])"

lemma demo_created: "sched_wf (AuCreateKthread 2 demo_init) demo_lists"
proof -
  have "sched_wf (AuCreateKthread 2 demo_init) (put_last Ready 2 (put_last Ready 1 nobody))"
    unfolding demo_init_def using AuSchedulerInitialize_wf(1) [of 1]
    by (intro AuCreateKthread_wf) (simp_all add: put_last_def nobody_def)
  then show ?thesis
    by (simp add: demo_lists_def put_last_def nobody_def)
qed

lemma demo_sched_wf: "sched_wf demo_sched demo_lists"
  using demo_created sched_wf_cong [of demo_sched "AuCreateKthread 2 demo_init" demo_lists]
  by (simp add: demo_sched_def AuSchedulerStart_def)

lemma demo_sched_payload:
  "state (thr demo_sched 1) = THREAD_STATE_READY" "state (thr demo_sched 2) = THREAD_STATE_READY"
  "edf_enabled (thr demo_sched x) = False" "edf_util_q16 demo_sched = 0"
  "current_thread demo_sched = 2" "idle_thr demo_sched = 1" "scheduler_initialized demo_sched"
  by (simp_all add: demo_sched_def AuSchedulerStart_def AuCreateKthread_def demo_init_def
      AuSchedulerInitialize_def blank_thread_def)

end
