(* ===== verification/Signal.thy ===== *)
theory Signal
  imports Sched
begin

text \<open>
  Signals (KernelAA64/signal.c): a bit set of pending signals per thread, and delivery on
  the way back to user mode by redirecting the interrupted register frame to the handler.
  The frame at the thread's stack pointer is the record \<open>sig_ctx\<close>; only the registers
  the code names are fields of their own.
\<close>

definition SIGTTOU :: int where "SIGTTOU = 22"

record AA64Registers =
  reg_x0 :: u64
  reg_x30 :: u64
  reg_rest :: "u64 list"

text \<open>The interrupted frame, the return address, and the \<open>signal\<close> field of the thread.\<close>

record sig_ctx =
  frame :: AA64Registers
  elr_el1 :: u64
  saved_regs :: AA64Registers
  saved_elr :: u64
  sigret_address :: u64

definition AuAllocSignal :: "nat \<Rightarrow> int \<Rightarrow> Sched \<Rightarrow> (int \<times> Sched) option" where
  "AuAllocSignal t signum s =
     (if t = 0 then Some (1, s)
      else if signum \<le> 0 then Some (1, s)
      else if signum > SIGTTOU then Some (1, s)
      else
        case AuThreadMakeReady t
               (on_thread t (\<lambda>x. x\<lparr>sig_pending := sig_pending x OR push_bit (nat signum) 1\<rparr>) s) of
          None \<Rightarrow> None
        | Some s \<Rightarrow> Some (0, s))"

text \<open>The loop of \<open>ctzl\<close>, which is entered with a word that is not zero.\<close>

function ctzl_loop :: "u64 \<Rightarrow> nat \<Rightarrow> nat" where
  "ctzl_loop x n = (if x = 0 \<or> x AND 1 \<noteq> 0 then n else ctzl_loop (drop_bit 1 x) (n + 1))"
  by pat_completeness auto

definition ctzl :: "u64 \<Rightarrow> nat" where
  "ctzl x = (if x = 0 then 64 else ctzl_loop x 0)"

definition AuSignalDispatch :: "nat \<Rightarrow> Sched \<Rightarrow> nat \<times> Sched" where
  "AuSignalDispatch t s =
     (let deliverable = sig_pending (thr s t)
      in if deliverable \<noteq> 0
         then (ctzl deliverable,
               on_thread t (\<lambda>x. x\<lparr>sig_pending := sig_pending x AND
                                     NOT (push_bit (ctzl deliverable) 1)\<rparr>) s)
         else (0, s))"

text \<open>
  The loop of \<open>AuSignalDeliver\<close> ends because every round clears a pending bit; the signals
  left when it stops are the state of the thread. The result is the signal delivered, 0 for
  none.
\<close>

partial_function (option)
  deliver_loop :: "nat \<Rightarrow> Sched \<Rightarrow> (nat \<times> Sched) option" where
  "deliver_loop t s =
     (let (signo, s') = AuSignalDispatch t s
      in if signo = 0 then Some (0, s')
         else if signo \<ge> 32 \<or> sigs (thr s' t) ! signo = 0 then deliver_loop t s'
         else Some (signo, s'))"

definition AuSignalDeliver :: "nat \<Rightarrow> Sched \<Rightarrow> sig_ctx \<Rightarrow> (bool \<times> Sched \<times> sig_ctx) option" where
  "AuSignalDeliver t s c =
     (case deliver_loop t s of None \<Rightarrow> None
      | Some (signo, s') \<Rightarrow>
          Some (if signo = 0 then (False, s', c)
                else (True, s',
                  c\<lparr>saved_regs := frame c, saved_elr := elr_el1 c,
                    frame := (frame c)\<lparr>reg_x0 := of_nat signo, reg_x30 := sigret_address c\<rparr>,
                    elr_el1 := of_nat (sigs (thr s' t) ! signo)\<rparr>)))"

section \<open>Counting trailing zeros\<close>

termination ctzl_loop
proof (relation "measure (\<lambda>(x, n). unat x)")
  fix x :: u64 and n :: nat
  assume "\<not> (x = 0 \<or> x AND 1 \<noteq> 0)"
  then have "0 < unat x" by (simp add: unat_gt_0)
  moreover have "unat (drop_bit 1 x) = unat x div 2"
    by (simp add: drop_bit_Suc unat_div)
  ultimately show "((drop_bit 1 x, n + 1), x, n) \<in> measure (\<lambda>(x, n). unat x)"
    by simp
qed simp

declare ctzl_loop.simps [simp del]

lemma ctzl_loop_bit:
  "x \<noteq> 0 \<Longrightarrow> \<exists>k. ctzl_loop x n = n + k \<and> bit x k \<and> (\<forall>i < k. \<not> bit x i)"
proof (induction x n rule: ctzl_loop.induct)
  case (1 x n)
  have odd: "x AND 1 \<noteq> 0 \<longleftrightarrow> bit x 0"
    by (simp add: bit_0 odd_iff_mod_2_eq_one and_one_eq)
  show ?case
  proof (cases "bit x 0")
    case True
    then show ?thesis
      using odd by (intro exI [of _ 0]) (simp add: ctzl_loop.simps)
  next
    case False
    have "drop_bit 1 x \<noteq> 0"
    proof
      assume "drop_bit 1 x = 0"
      then have "\<not> bit x (Suc i)" for i
        using bit_drop_bit_eq [of 1 x] by (auto simp: fun_eq_iff)
      then have "\<not> bit x i" for i
        using False by (cases i) auto
      then have "x = 0"
        by (intro bit_eqI) simp
      then show False using "1.prems" by simp
    qed
    then obtain k where k: "ctzl_loop (drop_bit 1 x) (n + 1) = n + 1 + k" "bit (drop_bit 1 x) k"
      "\<forall>i < k. \<not> bit (drop_bit 1 x) i"
      using "1.IH" "1.prems" False odd by auto
    have "\<not> bit x i" if "i < Suc k" for i
      using that False k(3) by (cases i) (auto simp: bit_drop_bit_eq)
    then show ?thesis
      using k False odd "1.prems"
      by (intro exI [of _ "Suc k"]) (simp add: ctzl_loop.simps [of x n] bit_drop_bit_eq)
  qed
qed

lemma ctzl_bit:
  assumes "x \<noteq> 0"
  shows "bit x (ctzl x)" "i < ctzl x \<Longrightarrow> \<not> bit x i"
  using ctzl_loop_bit [OF assms, of 0] assms by (auto simp: ctzl_def)

section \<open>Dispatch and delivery\<close>

lemma dispatch_none: "sig_pending (thr s t) = 0 \<Longrightarrow> AuSignalDispatch t s = (0, s)"
  by (simp add: AuSignalDispatch_def)

lemma dispatch_some:
  assumes "sig_pending (thr s t) \<noteq> 0" "AuSignalDispatch t s = (n, s')"
  shows "bit (sig_pending (thr s t)) n" "\<And>i. i < n \<Longrightarrow> \<not> bit (sig_pending (thr s t)) i"
    "\<And>i. bit (sig_pending (thr s' t)) i \<longleftrightarrow> bit (sig_pending (thr s t)) i \<and> i \<noteq> n"
    "sigs (thr s' t) = sigs (thr s t)"
proof -
  let ?p = "sig_pending (thr s t)"
  have n: "n = ctzl ?p" "s' = on_thread t (\<lambda>x. x\<lparr>sig_pending := sig_pending x AND
      NOT (push_bit (ctzl ?p) 1)\<rparr>) s"
    using assms by (auto simp: AuSignalDispatch_def Let_def)
  show "bit ?p n" "\<And>i. i < n \<Longrightarrow> \<not> bit ?p i"
    using ctzl_bit [OF assms(1)] n(1) by auto
  show "bit (sig_pending (thr s' t)) i \<longleftrightarrow> bit ?p i \<and> i \<noteq> n" for i
    using bit_imp_le_length [of ?p i] unfolding n
    by (auto simp: bit_simps)
  show "sigs (thr s' t) = sigs (thr s t)"
    by (simp add: n)
qed

text \<open>Signal 0 is never pending: allocation refuses it.\<close>

definition sig_ok :: "Sched \<Rightarrow> nat \<Rightarrow> bool" where
  "sig_ok s t \<longleftrightarrow> \<not> bit (sig_pending (thr s t)) 0"

definition deliverable :: "AA64Thread \<Rightarrow> nat \<Rightarrow> bool" where
  "deliverable x n \<longleftrightarrow> bit (sig_pending x) n \<and> n < 32 \<and> sigs x ! n \<noteq> 0"

lemma deliver_loop_result:
  assumes "sig_ok s t"
  shows "\<exists>n s'. deliver_loop t s = Some (n, s') \<and> sigs (thr s' t) = sigs (thr s t) \<and>
    (if \<exists>i. deliverable (thr s t) i
     then deliverable (thr s t) n \<and> n \<noteq> 0 \<and> (\<forall>i < n. \<not> deliverable (thr s t) i) \<and>
       (\<forall>i. bit (sig_pending (thr s' t)) i \<longleftrightarrow> bit (sig_pending (thr s t)) i \<and> n < i)
     else n = 0 \<and> sig_pending (thr s' t) = 0)"
  using assms
proof (induction "card {i. bit (sig_pending (thr s t)) i}" arbitrary: s rule: less_induct)
  case less
  let ?p = "sig_pending (thr s t)"
  show ?case
  proof (cases "?p = 0")
    case True
    then show ?thesis
      by (subst deliver_loop.simps) (simp add: dispatch_none deliverable_def)
  next
    case False
    obtain n s1 where d: "AuSignalDispatch t s = (n, s1)" by fastforce
    note r = dispatch_some [OF False d]
    have n0: "n \<noteq> 0"
      using r(1) less.prems by (auto simp: sig_ok_def intro: gr0I)
    show ?thesis
    proof (cases "deliverable (thr s t) n")
      case True
      have "deliver_loop t s = Some (n, s1)"
        using True d n0 r(4) by (subst deliver_loop.simps) (simp add: deliverable_def)
      moreover have "bit (sig_pending (thr s1 t)) i \<longleftrightarrow> bit ?p i \<and> n < i" for i
        using r(2,3) [of i] by (metis linorder_neqE_nat less_irrefl)
      moreover have "\<not> deliverable (thr s t) i" if "i < n" for i
        using r(2) [OF that] by (simp add: deliverable_def)
      ultimately show ?thesis
        using True n0 r(4) by (intro exI [of _ n] exI [of _ s1]) auto
    next
      case skip: False
      have fin: "finite {i. bit ?p i}"
        by (rule finite_subset [of _ "{..<64}"]) (auto dest: bit_imp_le_length)
      have "{i. bit (sig_pending (thr s1 t)) i} = {i. bit ?p i} - {n}"
        using r(3) by auto
      then have "card {i. bit (sig_pending (thr s1 t)) i} < card {i. bit ?p i}"
        using fin r(1) by (metis card_Diff1_less mem_Collect_eq)
      moreover have "sig_ok s1 t"
        using less.prems r(3) by (simp add: sig_ok_def)
      ultimately obtain m s' where IH: "deliver_loop t s1 = Some (m, s')"
        "sigs (thr s' t) = sigs (thr s1 t)"
        "if \<exists>i. deliverable (thr s1 t) i
         then deliverable (thr s1 t) m \<and> m \<noteq> 0 \<and> (\<forall>i < m. \<not> deliverable (thr s1 t) i) \<and>
           (\<forall>i. bit (sig_pending (thr s' t)) i \<longleftrightarrow> bit (sig_pending (thr s1 t)) i \<and> m < i)
         else m = 0 \<and> sig_pending (thr s' t) = 0"
        using less.hyps by blast
      have same: "deliverable (thr s1 t) i \<longleftrightarrow> deliverable (thr s t) i" for i
      proof (cases "i = n")
        case True
        then show ?thesis
          using skip r(3) [of n] by (simp add: deliverable_def)
      next
        case False
        then show ?thesis
          unfolding deliverable_def r(3,4) by simp
      qed
      have "deliver_loop t s = deliver_loop t s1"
        using skip d n0 r(1,4) by (subst deliver_loop.simps) (auto simp: deliverable_def)
      moreover have "if \<exists>i. deliverable (thr s t) i
         then deliverable (thr s t) m \<and> m \<noteq> 0 \<and> (\<forall>i < m. \<not> deliverable (thr s t) i) \<and>
           (\<forall>i. bit (sig_pending (thr s' t)) i \<longleftrightarrow> bit ?p i \<and> m < i)
         else m = 0 \<and> sig_pending (thr s' t) = 0"
      proof (cases "\<exists>i. deliverable (thr s t) i")
        case True
        then have m: "deliverable (thr s t) m" "m \<noteq> 0" "\<forall>i < m. \<not> deliverable (thr s t) i"
          "\<forall>i. bit (sig_pending (thr s' t)) i \<longleftrightarrow> bit (sig_pending (thr s1 t)) i \<and> m < i"
          using IH(3) [unfolded same if_P [OF True]] by blast+
        have "n \<le> m"
          using m(1) r(2) unfolding deliverable_def by (meson not_le)
        then have "bit (sig_pending (thr s' t)) i \<longleftrightarrow> bit ?p i \<and> m < i" for i
          unfolding m(4) [rule_format] r(3) by auto
        then show ?thesis
          unfolding if_P [OF True] using m(1-3) by blast
      next
        case False
        then show ?thesis
          unfolding if_not_P [OF False] using IH(3) [unfolded same if_not_P [OF False]] by blast
      qed
      ultimately show ?thesis
        using IH(1,2) r(4) by (intro exI [of _ m] exI [of _ s']) simp
    qed
  qed
qed

text \<open>
  C28. Delivery always ends. It hands the thread the lowest-numbered pending signal it has a
  handler for, by entering the handler with the number in the first argument register and
  the old frame saved; it forgets every lower signal without a handler and leaves the higher
  ones pending. Without such a signal the frame is untouched and nothing stays pending.
\<close>

theorem AuSignalDeliver_lowest:
  assumes "sig_ok s t"
  shows "\<exists>s' c'. AuSignalDeliver t s c = Some (\<exists>i. deliverable (thr s t) i, s', c') \<and>
    (if \<exists>i. deliverable (thr s t) i
     then (\<exists>n. deliverable (thr s t) n \<and> (\<forall>i < n. \<not> deliverable (thr s t) i) \<and>
       (\<forall>i. bit (sig_pending (thr s' t)) i \<longleftrightarrow> bit (sig_pending (thr s t)) i \<and> n < i) \<and>
       reg_x0 (frame c') = of_nat n \<and> elr_el1 c' = of_nat (sigs (thr s t) ! n) \<and>
       reg_x30 (frame c') = sigret_address c \<and> saved_regs c' = frame c \<and> saved_elr c' = elr_el1 c)
     else c' = c \<and> sig_pending (thr s' t) = 0)"
proof -
  obtain n s' where d: "deliver_loop t s = Some (n, s')" "sigs (thr s' t) = sigs (thr s t)"
    "if \<exists>i. deliverable (thr s t) i
     then deliverable (thr s t) n \<and> n \<noteq> 0 \<and> (\<forall>i < n. \<not> deliverable (thr s t) i) \<and>
       (\<forall>i. bit (sig_pending (thr s' t)) i \<longleftrightarrow> bit (sig_pending (thr s t)) i \<and> n < i)
     else n = 0 \<and> sig_pending (thr s' t) = 0"
    using deliver_loop_result [OF assms] by blast
  show ?thesis
  proof (cases "\<exists>i. deliverable (thr s t) i")
    case True
    then have "deliverable (thr s t) n" "n \<noteq> 0" "\<forall>i < n. \<not> deliverable (thr s t) i"
      "\<forall>i. bit (sig_pending (thr s' t)) i \<longleftrightarrow> bit (sig_pending (thr s t)) i \<and> n < i"
      using d(3) [unfolded if_P [OF True]] by blast+
    then show ?thesis
      using True d(1,2) by (simp add: AuSignalDeliver_def) blast
  next
    case False
    then show ?thesis
      using d by (simp add: AuSignalDeliver_def)
  qed
qed

lemma AuThreadMakeReady_pending:
  assumes "sched_wf s A" "t \<in> set (A q)" "state (thr s t) = THREAD_STATE_SLEEP \<longrightarrow> q = Sleep"
  shows "\<exists>s'. AuThreadMakeReady t s = Some s' \<and> sig_pending (thr s' t) = sig_pending (thr s t)"
  using on_list_wf [of "set_state t THREAD_STATE_READY s" A Blocked t] assms(1)
  by (auto simp: AuThreadMakeReady_def AuUnblockThread_def Let_def thread_states)

text \<open>
  Allocation records exactly the signal named, refuses numbers outside 1 to 22 without
  any effect, and so never makes signal 0 pending.
\<close>

theorem AuAllocSignal_records:
  assumes "sched_wf s A" "t \<noteq> 0" "t \<in> set (A q)" "state (thr s t) = THREAD_STATE_SLEEP \<longrightarrow> q = Sleep"
    "sig_ok s t"
  shows "\<exists>r s'. AuAllocSignal t signum s = Some (r, s') \<and> (r = 0 \<longleftrightarrow> 1 \<le> signum \<and> signum \<le> 22) \<and>
    (r = 0 \<longrightarrow> (\<forall>i. bit (sig_pending (thr s' t)) i \<longleftrightarrow> bit (sig_pending (thr s t)) i \<or> i = nat signum)) \<and>
    (r \<noteq> 0 \<longrightarrow> s' = s) \<and> sig_ok s' t"
proof (cases "1 \<le> signum \<and> signum \<le> 22")
  case False
  then show ?thesis
    using assms(2,5) by (auto simp: AuAllocSignal_def SIGTTOU_def)
next
  case True
  let ?z = "on_thread t (\<lambda>x. x\<lparr>sig_pending := sig_pending x OR push_bit (nat signum) 1\<rparr>) s"
  have "sched_wf ?z A"
    using assms(1) by simp
  then obtain s' where s': "AuThreadMakeReady t ?z = Some s'" "sig_pending (thr s' t) = sig_pending (thr ?z t)"
    using AuThreadMakeReady_pending [of ?z A t] assms(3,4) by auto
  have bits: "bit (sig_pending (thr s' t)) i \<longleftrightarrow> bit (sig_pending (thr s t)) i \<or> i = nat signum" for i
    using True unfolding s'(2) by (auto simp: bit_simps)
  have "AuAllocSignal t signum s = Some (0, s')"
    using True assms(2) s'(1) by (simp add: AuAllocSignal_def SIGTTOU_def)
  moreover have "sig_ok s' t"
    using bits [of 0] assms(5) True by (simp add: sig_ok_def)
  ultimately show ?thesis
    using bits True by (intro exI [of _ 0] exI [of _ s']) simp
qed

section \<open>Concrete instances\<close>

definition demo_signal :: Sched where
  "demo_signal = on_thread 2 (\<lambda>x. x\<lparr>sig_pending := 0x28, sigs := (replicate 32 0)[5 := 4096]\<rparr>) demo_sched"

definition demo_ctx :: sig_ctx where
  "demo_ctx = \<lparr>frame = \<lparr>reg_x0 = 7, reg_x30 = 8, reg_rest = []\<rparr>, elr_el1 = 64,
     saved_regs = \<lparr>reg_x0 = 0, reg_x30 = 0, reg_rest = []\<rparr>, saved_elr = 0,
     sigret_address = 0xD0000000\<rparr>"

theorem AuSignalDeliver_lowest_witness:
  "\<exists>s' c'. AuSignalDeliver 2 demo_signal demo_ctx = Some (True, s', c') \<and> elr_el1 c' = 4096"
proof -
  have only: "deliverable (thr demo_signal 2) i \<longleftrightarrow> i = 5" for i
    by (cases "i = 5") (auto simp: deliverable_def demo_signal_def nth_list_update bit_simps)
  moreover have "sig_ok demo_signal 2"
    by (simp add: sig_ok_def demo_signal_def)
  ultimately show ?thesis
    using AuSignalDeliver_lowest [of demo_signal 2 demo_ctx]
    by (auto simp: demo_signal_def)
qed

theorem AuAllocSignal_records_witness:
  "\<exists>s'. AuAllocSignal 2 9 demo_signal = Some (0, s') \<and> bit (sig_pending (thr s' 2)) 9"
proof -
  have "sched_wf demo_signal demo_lists"
    using demo_sched_wf by (simp add: demo_signal_def)
  then show ?thesis
    using AuAllocSignal_records [of demo_signal demo_lists 2 Ready 9]
    by (auto simp: demo_lists_def demo_signal_def demo_sched_payload sig_ok_def thread_states)
qed

end
