(* ===== verification/Hashmap.thy ===== *)
theory Hashmap
  imports Prelude
begin

text \<open>
  The kernel's chained hash map (KernelAA64/hashmap.c). A chain is the list of its entries;
  a map over strings and one over integers differ in the hash function and in what is done
  with a freed entry. Keys are compared by value, as \<open>strcmp\<close> and \<open>==\<close> do; a value is
  an address, 0 the null pointer. \<open>None\<close> is a null dereference or a remainder by zero.
  The contract that the clients use is the locale \<open>dictionary\<close>.
\<close>

section \<open>The operations\<close>

text \<open>\<open>char\<close> is unsigned on AArch64; a key is its bytes without the terminator.\<close>

definition hashmap_string_hash :: "u8 list \<Rightarrow> u32" where
  "hashmap_string_hash key =
     foldl (\<lambda>h c. ucast c + push_bit 6 h + push_bit 16 h - h) 0 key"

definition hashmap_int_hash :: "u64 \<Rightarrow> u32" where
  "hashmap_int_hash key = ucast key"

record 'k hashmap =
  hash_func :: "'k \<Rightarrow> u32"
  frees_entries :: bool
  size :: nat
  entries :: "('k \<times> nat) list list"
  leaked :: nat

text \<open>
  The entries a map has dropped without giving their memory back are counted in \<open>leaked\<close>.
\<close>

definition AuHashmapCreate :: "nat \<Rightarrow> u8 list hashmap" where
  "AuHashmapCreate n =
     \<lparr>hash_func = hashmap_string_hash, frees_entries = True, size = n, entries = replicate n [], leaked = 0\<rparr>"

definition AuHashmapCreateInt :: "nat \<Rightarrow> u64 hashmap" where
  "AuHashmapCreateInt n =
     \<lparr>hash_func = hashmap_int_hash, frees_entries = False, size = n, entries = replicate n [], leaked = 0\<rparr>"

definition bucket :: "'k hashmap \<Rightarrow> 'k \<Rightarrow> nat option" where
  "bucket hm key = (if size hm = 0 then None else Some (unat (hash_func hm key) mod size hm))"

text \<open>The loop of \<open>AuHashmapSet\<close>: the old value, if the key is there, and the new chain.\<close>

fun chain_set :: "('k \<times> nat) list \<Rightarrow> 'k \<Rightarrow> nat \<Rightarrow> nat \<times> ('k \<times> nat) list" where
  "chain_set [] key value = (0, [(key, value)])"
| "chain_set ((k, v) # es) key value =
     (if k = key then (v, (k, value) # es)
      else let (out, es') = chain_set es key value in (out, (k, v) # es'))"

definition AuHashmapSet :: "'k hashmap \<Rightarrow> 'k \<Rightarrow> nat \<Rightarrow> (nat \<times> 'k hashmap) option" where
  "AuHashmapSet hm key value =
     (case bucket hm key of None \<Rightarrow> None
      | Some h \<Rightarrow>
          let (out, es) = chain_set (entries hm ! h) key value
          in Some (out, hm\<lparr>entries := (entries hm)[h := es]\<rparr>))"

fun chain_get :: "('k \<times> nat) list \<Rightarrow> 'k \<Rightarrow> nat" where
  "chain_get [] key = 0"
| "chain_get ((k, v) # es) key = (if k = key then v else chain_get es key)"

definition AuHashmapGet :: "'k hashmap \<Rightarrow> 'k \<Rightarrow> nat option" where
  "AuHashmapGet hm key =
     (case bucket hm key of None \<Rightarrow> None | Some h \<Rightarrow> Some (chain_get (entries hm ! h) key))"

text \<open>
  The loop of \<open>AuHashmapRemove\<close> over the entries behind the first, entered without a test
  that there are any: the result is the value, whether an entry was unlinked, and the rest.
\<close>

fun chain_remove :: "('k \<times> nat) list \<Rightarrow> 'k \<Rightarrow> nat \<times> bool \<times> ('k \<times> nat) list" where
  "chain_remove [] key = (0, False, [])"
| "chain_remove ((k, v) # es) key =
     (if k = key then (v, True, es)
      else let (out, done, es') = chain_remove es key in (out, done, (k, v) # es'))"

definition AuHashmapRemove :: "'k hashmap \<Rightarrow> 'k \<Rightarrow> (nat \<times> 'k hashmap) option" where
  "AuHashmapRemove hm key =
     (case bucket hm key of None \<Rightarrow> None
      | Some h \<Rightarrow>
          let lost = (if frees_entries hm then 0 else 1 :: nat) in
          (case entries hm ! h of
             [] \<Rightarrow> Some (0, hm)
           | (k, v) # es \<Rightarrow>
               if k = key
               then Some (v, hm\<lparr>entries := (entries hm)[h := es], leaked := leaked hm + lost\<rparr>)
               else if es = [] then None
               else let (out, found, es') = chain_remove es key
                    in Some (out, hm\<lparr>entries := (entries hm)[h := (k, v) # es'],
                                      leaked := leaked hm + (if found then lost else 0)\<rparr>)))"

fun chain_has :: "('k \<times> nat) list \<Rightarrow> 'k \<Rightarrow> bool" where
  "chain_has [] key = False"
| "chain_has ((k, v) # es) key = (if k = key then True else chain_has es key)"

definition AuHashmapHas :: "'k hashmap \<Rightarrow> 'k \<Rightarrow> bool option" where
  "AuHashmapHas hm key =
     (case bucket hm key of None \<Rightarrow> None | Some h \<Rightarrow> Some (chain_has (entries hm ! h) key))"

text \<open>\<open>AuHashmapFree\<close> gives the number of entries back that were not freed.\<close>

definition AuHashmapFree :: "'k hashmap \<Rightarrow> nat" where
  "AuHashmapFree hm =
     leaked hm + (if frees_entries hm then 0 else sum_list (List.map length (entries hm)))"

definition AuHashmapIsEmpty :: "'k hashmap \<Rightarrow> bool" where
  "AuHashmapIsEmpty hm \<longleftrightarrow> list_all (\<lambda>es. es = []) (entries hm)"

section \<open>The contract of a dictionary\<close>

text \<open>
  What clients rely on, over any representation with an invariant and a look-up: setting
  and removing report the old value and act on the key alone. Removing may fault.
\<close>

locale dictionary =
  fixes invar :: "'m \<Rightarrow> bool"
    and lookup :: "'m \<Rightarrow> 'k \<Rightarrow> nat option"
    and setv :: "'m \<Rightarrow> 'k \<Rightarrow> nat \<Rightarrow> (nat \<times> 'm) option"
    and getv :: "'m \<Rightarrow> 'k \<Rightarrow> nat option"
    and hasv :: "'m \<Rightarrow> 'k \<Rightarrow> bool option"
    and remv :: "'m \<Rightarrow> 'k \<Rightarrow> (nat \<times> 'm) option"
  assumes set_law: "invar m \<Longrightarrow> \<exists>m'. setv m k v = Some (case lookup m k of None \<Rightarrow> 0 | Some w \<Rightarrow> w, m') \<and>
      invar m' \<and> lookup m' = (lookup m)(k \<mapsto> v)"
    and get_law: "invar m \<Longrightarrow> getv m k = Some (case lookup m k of None \<Rightarrow> 0 | Some w \<Rightarrow> w)"
    and has_law: "invar m \<Longrightarrow> hasv m k = Some (lookup m k \<noteq> None)"
    and rem_law: "invar m \<Longrightarrow> remv m k = Some (r, m') \<Longrightarrow>
      r = (case lookup m k of None \<Rightarrow> 0 | Some w \<Rightarrow> w) \<and> invar m' \<and> lookup m' = (lookup m)(k := None)"
    and rem_present: "invar m \<Longrightarrow> lookup m k \<noteq> None \<Longrightarrow> remv m k \<noteq> None"

datatype 'k dict_cmd = Set 'k nat | Get 'k | Has 'k | Rem 'k

text \<open>The reference: the same commands on a map; each answers with a number.\<close>

fun map_exec :: "'k dict_cmd \<Rightarrow> ('k \<rightharpoonup> nat) \<Rightarrow> nat \<times> ('k \<rightharpoonup> nat)" where
  "map_exec (Set k v) m = (case m k of None \<Rightarrow> 0 | Some w \<Rightarrow> w, m(k \<mapsto> v))"
| "map_exec (Get k) m = (case m k of None \<Rightarrow> 0 | Some w \<Rightarrow> w, m)"
| "map_exec (Has k) m = (of_bool (m k \<noteq> None), m)"
| "map_exec (Rem k) m = (case m k of None \<Rightarrow> 0 | Some w \<Rightarrow> w, m(k := None))"

fun map_run :: "'k dict_cmd list \<Rightarrow> ('k \<rightharpoonup> nat) \<Rightarrow> nat list" where
  "map_run [] m = []"
| "map_run (c # cs) m = (let (r, m') = map_exec c m in r # map_run cs m')"

fun dict_exec ::
  "('m \<Rightarrow> 'k \<Rightarrow> nat \<Rightarrow> (nat \<times> 'm) option) \<Rightarrow> ('m \<Rightarrow> 'k \<Rightarrow> nat option) \<Rightarrow> ('m \<Rightarrow> 'k \<Rightarrow> bool option) \<Rightarrow>
   ('m \<Rightarrow> 'k \<Rightarrow> (nat \<times> 'm) option) \<Rightarrow> 'k dict_cmd \<Rightarrow> 'm \<Rightarrow> (nat \<times> 'm) option"
where
  "dict_exec setv getv hasv remv (Set k v) m = setv m k v"
| "dict_exec setv getv hasv remv (Get k) m = map_option (\<lambda>r. (r, m)) (getv m k)"
| "dict_exec setv getv hasv remv (Has k) m = map_option (\<lambda>b. (of_bool b, m)) (hasv m k)"
| "dict_exec setv getv hasv remv (Rem k) m = remv m k"

fun dict_run :: "('k dict_cmd \<Rightarrow> 'm \<Rightarrow> (nat \<times> 'm) option) \<Rightarrow> 'k dict_cmd list \<Rightarrow> 'm \<Rightarrow> nat list option" where
  "dict_run exec [] m = Some []"
| "dict_run exec (c # cs) m =
     (case exec c m of None \<Rightarrow> None | Some (r, m') \<Rightarrow> map_option ((#) r) (dict_run exec cs m'))"

text \<open>A removal of a key that is not there; only such a command may fault.\<close>

fun safe_run :: "'k dict_cmd list \<Rightarrow> ('k \<rightharpoonup> nat) \<Rightarrow> bool" where
  "safe_run [] m \<longleftrightarrow> True"
| "safe_run (c # cs) m \<longleftrightarrow>
     (case c of Rem k \<Rightarrow> m k \<noteq> None | _ \<Rightarrow> True) \<and> safe_run cs (snd (map_exec c m))"

context dictionary
begin

lemma exec_ok:
  assumes "invar m" "\<And>k. c = Rem k \<Longrightarrow> lookup m k \<noteq> None"
  shows "\<exists>m'. dict_exec setv getv hasv remv c m = Some (fst (map_exec c (lookup m)), m') \<and>
    invar m' \<and> lookup m' = snd (map_exec c (lookup m))"
proof (cases c)
  case (Set k v)
  then show ?thesis using set_law [OF assms(1)] by simp
next
  case (Get k)
  then show ?thesis using get_law [OF assms(1)] assms(1) by simp
next
  case (Has k)
  then show ?thesis using has_law [OF assms(1)] assms(1) by simp
next
  case (Rem k)
  then have "remv m k \<noteq> None"
    using rem_present assms by blast
  then obtain r m' where "remv m k = Some (r, m')"
    by auto
  then show ?thesis
    using rem_law [OF assms(1)] Rem by simp
qed

lemma run_is_map:
  assumes "invar m" "safe_run cs (lookup m)"
  shows "dict_run (dict_exec setv getv hasv remv) cs m = Some (map_run cs (lookup m))"
  using assms
proof (induction cs arbitrary: m)
  case (Cons c cs)
  obtain m' where m': "dict_exec setv getv hasv remv c m = Some (fst (map_exec c (lookup m)), m')"
    "invar m'" "lookup m' = snd (map_exec c (lookup m))"
    using exec_ok [OF Cons.prems(1), of c] Cons.prems(2) by (auto split: dict_cmd.splits)
  have "dict_run (dict_exec setv getv hasv remv) cs m' = Some (map_run cs (lookup m'))"
    using Cons.prems(2) m' by (intro Cons.IH) simp_all
  then show ?case
    using m' by (simp add: case_prod_beta)
qed simp

text \<open>A run that does not fault gives the answers of the map even without that restriction.\<close>

lemma run_agrees:
  assumes "invar m" "dict_run (dict_exec setv getv hasv remv) cs m = Some rs"
  shows "rs = map_run cs (lookup m)"
  using assms
proof (induction cs arbitrary: m rs)
  case (Cons c cs)
  obtain r m' rs' where step: "dict_exec setv getv hasv remv c m = Some (r, m')"
    "dict_run (dict_exec setv getv hasv remv) cs m' = Some rs'" "rs = r # rs'"
    using Cons.prems(2) by (auto split: option.splits)
  have "r = fst (map_exec c (lookup m)) \<and> invar m' \<and> lookup m' = snd (map_exec c (lookup m))"
  proof (cases "\<exists>k. c = Rem k")
    case True
    then show ?thesis
      using rem_law [OF Cons.prems(1)] step(1) by fastforce
  next
    case False
    then show ?thesis
      using exec_ok [OF Cons.prems(1), of c] step(1) by auto
  qed
  then show ?case
    using Cons.IH [of m' rs'] step by (auto simp: case_prod_beta)
qed simp

end

section \<open>The hash map is a dictionary\<close>

definition hm_wf :: "'k hashmap \<Rightarrow> bool" where
  "hm_wf hm \<longleftrightarrow> 0 < size hm \<and> length (entries hm) = size hm \<and>
     (\<forall>i < size hm. distinct (List.map fst (entries hm ! i)) \<and>
        (\<forall>k \<in> fst ` set (entries hm ! i). unat (hash_func hm k) mod size hm = i))"

definition hm_lookup :: "'k hashmap \<Rightarrow> 'k \<Rightarrow> nat option" where
  "hm_lookup hm key = map_of (entries hm ! (unat (hash_func hm key) mod size hm)) key"

lemma bucket_wf: "hm_wf hm \<Longrightarrow> bucket hm key = Some (unat (hash_func hm key) mod size hm)"
  by (simp add: bucket_def hm_wf_def)

lemma chain_get_map: "chain_get es key = (case map_of es key of None \<Rightarrow> 0 | Some v \<Rightarrow> v)"
  by (induction es key rule: chain_get.induct) auto

lemma chain_has_map: "chain_has es key \<longleftrightarrow> map_of es key \<noteq> None"
  by (induction es key rule: chain_has.induct) auto

lemma chain_set_fst [simp]: "fst (chain_set es key v) = (case map_of es key of None \<Rightarrow> 0 | Some w \<Rightarrow> w)"
  by (induction es key v rule: chain_set.induct) (auto simp: case_prod_beta Let_def)

lemma chain_set_snd:
  "map_of (snd (chain_set es key v)) = (map_of es)(key \<mapsto> v)"
  "fst ` set (snd (chain_set es key v)) = insert key (fst ` set es)"
  by (induction es key v rule: chain_set.induct) (auto simp: case_prod_beta Let_def fun_upd_twist)

lemma chain_set_distinct:
  "distinct (List.map fst es) \<Longrightarrow> distinct (List.map fst (snd (chain_set es key v)))"
proof (induction es key v rule: chain_set.induct)
  case (2 k w es key v)
  have "fst ` set (snd (chain_set es key v)) = insert key (fst ` set es)"
    by (rule chain_set_snd(2))
  then show ?case
    using 2 by (auto simp: case_prod_beta Let_def simp flip: set_map)
qed simp

lemma chain_remove_map:
  assumes "distinct (List.map fst es)"
  shows "fst (chain_remove es key) = (case map_of es key of None \<Rightarrow> 0 | Some w \<Rightarrow> w)"
    and "map_of (snd (snd (chain_remove es key))) = (map_of es)(key := None)"
    and "fst ` set (snd (snd (chain_remove es key))) \<subseteq> fst ` set es"
    and "distinct (List.map fst (snd (snd (chain_remove es key))))"
  using assms
proof (induction es key rule: chain_remove.induct)
  case (2 k v es key)
  {
    case 1
    then show ?case using 2 by (simp add: case_prod_beta Let_def)
  next
    case 2
    then show ?case
      using "2.IH"(2) by (auto simp: case_prod_beta Let_def fun_upd_twist map_of_eq_None_iff fun_eq_iff)
  next
    case 3
    then show ?case using "2.IH"(3) by (auto simp: case_prod_beta Let_def)
  next
    case 4
    then show ?case using "2.IH"(3,4) by (auto simp: case_prod_beta Let_def)
  }
qed simp_all

lemma hm_update_chain:
  assumes "hm_wf hm" "h = unat (hash_func hm key) mod size hm"
    and "distinct (List.map fst es)" "fst ` set es \<subseteq> insert key (fst ` set (entries hm ! h))"
    and "\<And>k. k \<noteq> key \<Longrightarrow> map_of es k = map_of (entries hm ! h) k"
  shows "hm_wf (hm\<lparr>entries := (entries hm)[h := es], leaked := n\<rparr>)"
    and "hm_lookup (hm\<lparr>entries := (entries hm)[h := es], leaked := n\<rparr>) =
           (hm_lookup hm)(key := map_of es key)"
proof -
  have h: "h < length (entries hm)"
    using assms(1,2) by (simp add: hm_wf_def)
  show "hm_wf (hm\<lparr>entries := (entries hm)[h := es], leaked := n\<rparr>)"
  proof -
    let ?es = "(entries hm)[h := es]"
    have "distinct (List.map fst (?es ! i)) \<and>
        (\<forall>k \<in> fst ` set (?es ! i). unat (hash_func hm k) mod size hm = i)" if i: "i < size hm" for i
    proof (cases "i = h")
      case True
      have "unat (hash_func hm k) mod size hm = h" if "k \<in> insert key (fst ` set (entries hm ! h))" for k
        using that assms(1,2) i True unfolding hm_wf_def by blast
      then show ?thesis
        using True h assms(3,4) by auto
    next
      case False
      then show ?thesis
        using assms(1) i by (simp add: hm_wf_def)
    qed
    then show ?thesis
      using assms(1) by (simp add: hm_wf_def)
  qed
  show "hm_lookup (hm\<lparr>entries := (entries hm)[h := es], leaked := n\<rparr>) =
           (hm_lookup hm)(key := map_of es key)"
  proof
    fix k
    show "hm_lookup (hm\<lparr>entries := (entries hm)[h := es], leaked := n\<rparr>) k =
           ((hm_lookup hm)(key := map_of es key)) k"
      using assms(2,5) h
      by (cases "k = key") (auto simp: hm_lookup_def nth_list_update)
  qed
qed

lemma hm_remove_faults:
  assumes "hm_wf hm"
  shows "AuHashmapRemove hm key = None \<longleftrightarrow>
    (\<exists>k v. entries hm ! (unat (hash_func hm key) mod size hm) = [(k, v)] \<and> k \<noteq> key)"
  by (auto simp: AuHashmapRemove_def bucket_wf [OF assms] Let_def case_prod_beta split: list.splits)

lemma hm_remove_ok:
  assumes wf: "hm_wf hm" and rem: "AuHashmapRemove hm key = Some (r, hm')"
  shows "r = (case hm_lookup hm key of None \<Rightarrow> 0 | Some w \<Rightarrow> w) \<and> hm_wf hm' \<and>
    hm_lookup hm' = (hm_lookup hm)(key := None)"
proof -
  let ?h = "unat (hash_func hm key) mod size hm"
  have d: "distinct (List.map fst (entries hm ! ?h))"
    using wf by (simp add: hm_wf_def)
  show ?thesis
  proof (cases "entries hm ! ?h")
    case Nil
    then have "r = 0" "hm' = hm"
      using rem by (auto simp: AuHashmapRemove_def bucket_wf [OF wf] Let_def)
    then show ?thesis
      using wf Nil by (auto simp: hm_lookup_def fun_eq_iff)
  next
    case (Cons e es)
    obtain k v where e: "e = (k, v)" by fastforce
    define es' where "es' = (if k = key then es else (k, v) # snd (snd (chain_remove es key)))"
    define n where "n = leaked hm + (if (k = key \<or> fst (snd (chain_remove es key))) \<and>
        \<not> frees_entries hm then 1 else 0)"
    have n: "hm' = hm\<lparr>entries := (entries hm)[?h := es'], leaked := n\<rparr>"
      "r = (if k = key then v else fst (chain_remove es key))"
      using rem Cons e unfolding es'_def n_def
      by (auto simp: AuHashmapRemove_def bucket_wf [OF wf] Let_def case_prod_beta split: if_splits)
    have d': "distinct (List.map fst es)" "k \<notin> fst ` set es"
      using d Cons e by simp_all
    note D = chain_remove_map [OF d'(1), of key]
    have es': "distinct (List.map fst es')" "fst ` set es' \<subseteq> insert key (fst ` set (entries hm ! ?h))"
      "map_of es' = (map_of (entries hm ! ?h))(key := None)"
    proof -
      have "k \<notin> fst ` set (snd (snd (chain_remove es key)))"
        using d'(2) D(3) by blast
      then show "distinct (List.map fst es')"
        using d' D(4) by (simp add: es'_def)
      show "fst ` set es' \<subseteq> insert key (fst ` set (entries hm ! ?h))"
        using D(3) Cons e by (auto simp: es'_def)
      have "map_of es k = None"
        using d'(2) by (simp add: map_of_eq_None_iff)
      then show "map_of es' = (map_of (entries hm ! ?h))(key := None)"
        using D(2) Cons e by (cases "k = key") (simp_all add: es'_def fun_upd_twist fun_upd_idem)
    qed
    have keep: "map_of es' k' = map_of (entries hm ! ?h) k'" if "k' \<noteq> key" for k'
      using that es'(3) by simp
    have "hm_wf hm'"
      unfolding n(1) by (rule hm_update_chain(1) [OF wf refl es'(1,2) keep])
    moreover have "hm_lookup hm' = (hm_lookup hm)(key := map_of es' key)"
      unfolding n(1) by (rule hm_update_chain(2) [OF wf refl es'(1,2) keep])
    moreover have "r = (case hm_lookup hm key of None \<Rightarrow> 0 | Some w \<Rightarrow> w)"
      using n(2) D(1) Cons e by (simp add: hm_lookup_def)
    ultimately show ?thesis
      using es'(3) by simp
  qed
qed

text \<open>
  Removal faults, by reading through the null pointer behind the only entry, exactly
  when the chain of the key consists of one entry and that entry has another key.
\<close>

theorem AuHashmapRemove_faults:
  assumes "hm_wf hm"
  shows "AuHashmapRemove hm key = None \<longleftrightarrow>
    (\<exists>k v. entries hm ! (unat (hash_func hm key) mod size hm) = [(k, v)] \<and> k \<noteq> key)"
  by (rule hm_remove_faults [OF assms])

interpretation hm: dictionary hm_wf hm_lookup AuHashmapSet AuHashmapGet AuHashmapHas AuHashmapRemove
proof unfold_locales
  fix hm :: "'k hashmap" and key v
  let ?h = "unat (hash_func hm key) mod size hm"
  assume wf: "hm_wf hm"
  then have d: "distinct (List.map fst (entries hm ! ?h))"
    by (simp add: hm_wf_def)
  define es where "es = snd (chain_set (entries hm ! ?h) key v)"
  have es: "map_of es = (map_of (entries hm ! ?h))(key \<mapsto> v)"
    "fst ` set es = insert key (fst ` set (entries hm ! ?h))" "distinct (List.map fst es)"
    unfolding es_def by (rule chain_set_snd, rule chain_set_snd, rule chain_set_distinct [OF d])
  have sub: "fst ` set es \<subseteq> insert key (fst ` set (entries hm ! ?h))"
    using es(2) by simp
  have keep: "map_of es k = map_of (entries hm ! ?h) k" if "k \<noteq> key" for k
    using that es(1) by simp
  note upd = hm_update_chain [OF wf refl es(3) sub keep, where n = "leaked hm"]
  have "AuHashmapSet hm key v = Some (case hm_lookup hm key of None \<Rightarrow> 0 | Some w \<Rightarrow> w,
      hm\<lparr>entries := (entries hm)[?h := es], leaked := leaked hm\<rparr>)"
    by (simp add: AuHashmapSet_def bucket_wf [OF wf] case_prod_beta es_def hm_lookup_def)
  then show "\<exists>m'. AuHashmapSet hm key v = Some (case hm_lookup hm key of None \<Rightarrow> 0 | Some w \<Rightarrow> w, m') \<and>
      hm_wf m' \<and> hm_lookup m' = (hm_lookup hm)(key \<mapsto> v)"
    using upd es by simp
  show "AuHashmapGet hm key = Some (case hm_lookup hm key of None \<Rightarrow> 0 | Some w \<Rightarrow> w)"
    by (simp add: AuHashmapGet_def bucket_wf [OF wf] chain_get_map hm_lookup_def)
  show "AuHashmapHas hm key = Some (hm_lookup hm key \<noteq> None)"
    by (simp add: AuHashmapHas_def bucket_wf [OF wf] chain_has_map hm_lookup_def)
next
  fix hm hm' :: "'k hashmap" and key r
  assume wf: "hm_wf hm" and rem: "AuHashmapRemove hm key = Some (r, hm')"
  then show "r = (case hm_lookup hm key of None \<Rightarrow> 0 | Some w \<Rightarrow> w) \<and> hm_wf hm' \<and>
      hm_lookup hm' = (hm_lookup hm)(key := None)"
    by (rule hm_remove_ok)
next
  fix hm :: "'k hashmap" and key
  assume "hm_wf hm" "hm_lookup hm key \<noteq> None"
  then show "AuHashmapRemove hm key \<noteq> None"
    unfolding hm_remove_faults [OF \<open>hm_wf hm\<close>] by (auto simp: hm_lookup_def)
qed


section \<open>Runs of commands\<close>

definition hashmap_run :: "'k dict_cmd list \<Rightarrow> 'k hashmap \<Rightarrow> nat list option" where
  "hashmap_run = dict_run (dict_exec AuHashmapSet AuHashmapGet AuHashmapHas AuHashmapRemove)"

lemma hm_empty:
  assumes "0 < n" "entries hm = replicate n []" "size hm = n"
  shows "hm_wf hm" and "hm_lookup hm = Map.empty"
  using assms by (auto simp: hm_wf_def hm_lookup_def fun_eq_iff)

text \<open>
  C29. A run of commands on a new map over strings gives, as long as it does not fault, the
  answers of a mathematical map, whatever the size and the collisions; and it does not
  fault when every key that is removed is there.
\<close>

theorem AuHashmap_is_a_map:
  assumes "0 < n"
  shows "(hashmap_run cs (AuHashmapCreate n) = None \<or>
      hashmap_run cs (AuHashmapCreate n) = Some (map_run cs Map.empty)) \<and>
    (safe_run cs Map.empty \<longrightarrow> hashmap_run cs (AuHashmapCreate n) \<noteq> None)"
proof -
  have wf: "hm_wf (AuHashmapCreate n)" and lk: "hm_lookup (AuHashmapCreate n) = Map.empty"
    by (rule hm_empty [OF assms], simp_all add: AuHashmapCreate_def)+
  have "rs = map_run cs Map.empty" if "hashmap_run cs (AuHashmapCreate n) = Some rs" for rs
    using hm.run_agrees [OF wf that [unfolded hashmap_run_def]] unfolding lk .
  then show ?thesis
    using hm.run_is_map [OF wf, of cs] unfolding hashmap_run_def lk
    by (cases "hashmap_run cs (AuHashmapCreate n)") (auto simp: hashmap_run_def)
qed

text \<open>The commands of the witness collide in a map of one chain.\<close>

definition demo_cmds :: "u8 list dict_cmd list" where
  "demo_cmds = [Set [97] 5, Set [98] 6, Get [97], Rem [97], Has [97], Get [98]]"

theorem AuHashmap_is_a_map_witness:
  "hashmap_run demo_cmds (AuHashmapCreate 1) = Some [0, 0, 5, 5, 0, 6]"
proof -
  have "safe_run demo_cmds Map.empty"
    by (simp add: demo_cmds_def)
  moreover have "map_run demo_cmds Map.empty = [0, 0, 5, 5, 0, 6]"
    by (simp add: demo_cmds_def)
  ultimately show ?thesis
    using AuHashmap_is_a_map [of 1 demo_cmds] by auto
qed

theorem AuHashmapRemove_faults_witness:
  "AuHashmapRemove \<lparr>hash_func = hashmap_int_hash, frees_entries = False, size = 1,
     entries = [[(3, 9)]], leaked = 0\<rparr> 4 = None"
proof -
  have "hm_wf \<lparr>hash_func = hashmap_int_hash, frees_entries = False, size = 1,
      entries = [[(3 :: u64, 9)]], leaked = 0\<rparr>"
    by (simp add: hm_wf_def)
  then show ?thesis
    using AuHashmapRemove_faults [of "\<lparr>hash_func = hashmap_int_hash, frees_entries = False, size = 1,
      entries = [[(3 :: u64, 9)]], leaked = 0\<rparr>" 4] by simp
qed

end
