(* ===== verification/Edf.thy ===== *)
theory Edf
  imports Sched "HOL-Library.Product_Lexorder"
begin

text \<open>
  The earliest-deadline-first class of the scheduler (KernelAA64/Hal/sched_edf.c): admission
  against a utilisation bound, the end of a period, the releases of a timer tick, and the
  choice of the thread with the earliest deadline. Times are microseconds as \<open>u64\<close>;
  \<open>now\<close> is what \<open>AuGetCurrentUS\<close> returns.
\<close>

section \<open>The operations\<close>

text \<open>The C code divides only by a period it has checked to be positive.\<close>

definition edf_job_util_q16 :: "u64 \<Rightarrow> u64 \<Rightarrow> u64" where
  "edf_job_util_q16 period_us wcet_us = push_bit 16 wcet_us div period_us"

definition AuEDFSetParams :: "u64 \<Rightarrow> nat \<Rightarrow> u64 \<Rightarrow> u64 \<Rightarrow> Sched \<Rightarrow> bool \<times> Sched" where
  "AuEDFSetParams now t period_us wcet_us s =
     (if t = 0 \<or> t = idle_thr s then (False, s)
      else if period_us = 0 \<or> wcet_us = 0 \<or> wcet_us > period_us then (False, s)
      else
        let add = edf_job_util_q16 period_us wcet_us;
            old = (if edf_enabled (thr s t)
                   then edf_job_util_q16 (edf_period_us (thr s t)) (edf_wcet_us (thr s t)) else 0)
        in if edf_util_q16 s - old + add > 0x10000 then (False, s)
           else (True,
             (on_thread t (\<lambda>x. x\<lparr>edf_period_us := period_us, edf_wcet_us := wcet_us,
                 edf_release_us := now, edf_deadline_us := now + period_us,
                 edf_misses := 0, edf_waiting := False, edf_enabled := True\<rparr>) s)
               \<lparr>edf_util_q16 := edf_util_q16 s - old + add\<rparr>))"

definition AuEDFRemove :: "nat \<Rightarrow> Sched \<Rightarrow> Sched" where
  "AuEDFRemove t s =
     (if t = 0 \<or> \<not> edf_enabled (thr s t) then s
      else
        (on_thread t (\<lambda>x. x\<lparr>edf_enabled := False, edf_waiting := False\<rparr>) s)
          \<lparr>edf_util_q16 := edf_util_q16 s -
             edf_job_util_q16 (edf_period_us (thr s t)) (edf_wcet_us (thr s t))\<rparr>)"

text \<open>The new release time and the deadline misses of a job that ends at \<open>now\<close>.\<close>

definition edf_next_job :: "u64 \<Rightarrow> AA64Thread \<Rightarrow> AA64Thread" where
  "edf_next_job now x =
     (let m = (if now > edf_deadline_us x then edf_misses x + 1 else edf_misses x);
          r = edf_release_us x + edf_period_us x;
          skipped = (now - r) div edf_period_us x + 1;
          m' = (if r \<le> now then m + skipped else m);
          r' = (if r \<le> now then r + skipped * edf_period_us x else r)
      in x\<lparr>edf_misses := m', edf_release_us := r', edf_deadline_us := r' + edf_period_us x,
           edf_waiting := True\<rparr>)"

definition AuEDFWaitPeriod :: "u64 \<Rightarrow> nat \<Rightarrow> Sched \<Rightarrow> Sched" where
  "AuEDFWaitPeriod now t s =
     (if t = 0 \<or> \<not> edf_enabled (thr s t) then s
      else AuScheduleNext (AuBlockThread t (on_thread t (edf_next_job now) s)))"

definition edf_release_due :: "u64 \<Rightarrow> AA64Thread \<Rightarrow> bool" where
  "edf_release_due now x \<longleftrightarrow>
     edf_enabled x \<and> edf_waiting x \<and>
     (state x = THREAD_STATE_BLOCKED \<or> state x = THREAD_STATE_LEFT_IN_KERNEL) \<and>
     now \<ge> edf_release_us x"

definition release_if_due :: "u64 \<Rightarrow> nat \<Rightarrow> Sched \<Rightarrow> Sched option" where
  "release_if_due now t s =
     (if edf_release_due now (thr s t)
      then AuUnblockThread t (on_thread t (\<lambda>x. x\<lparr>edf_waiting := False\<rparr>) s)
      else Some s)"

definition AuEDFHandleReleases :: "u64 \<Rightarrow> Sched \<Rightarrow> Sched option" where
  "AuEDFHandleReleases now s = each_thread (release_if_due now) (head s Blocked) s"

definition runnable :: "AA64Thread \<Rightarrow> bool" where
  "runnable x \<longleftrightarrow> state x = THREAD_STATE_READY \<or> state x = THREAD_STATE_LEFT_IN_KERNEL"

text \<open>The loop of \<open>AuEDFPickNext\<close>; \<open>best\<close> is 0 until a candidate is found.\<close>

definition edf_better :: "(nat \<Rightarrow> AA64Thread) \<Rightarrow> nat \<Rightarrow> nat \<Rightarrow> bool" where
  "edf_better h best t \<longleftrightarrow>
     best = 0 \<or> edf_deadline_us (h t) < edf_deadline_us (h best) \<or>
     (edf_deadline_us (h t) = edf_deadline_us (h best) \<and> thread_id (h t) < thread_id (h best))"

definition edf_candidate :: "(nat \<Rightarrow> AA64Thread) \<Rightarrow> nat \<Rightarrow> nat \<Rightarrow> bool" where
  "edf_candidate h idle t \<longleftrightarrow> t \<noteq> idle \<and> edf_enabled (h t) \<and> runnable (h t)"

partial_function (option)
  edf_pick_loop :: "(nat \<Rightarrow> AA64Thread) \<Rightarrow> nat \<Rightarrow> nat \<Rightarrow> nat \<Rightarrow> nat option" where
  "edf_pick_loop h idle p best =
     (if p = 0 then Some best
      else edf_pick_loop h idle (nxt (h p))
             (if edf_candidate h idle p \<and> edf_better h best p then p else best))"

definition AuEDFPickNext :: "Sched \<Rightarrow> nat option" where
  "AuEDFPickNext s = edf_pick_loop (thr s) (idle_thr s) (head s Ready) 0"

definition AuEDFGetMisses :: "nat \<Rightarrow> Sched \<Rightarrow> u64" where
  "AuEDFGetMisses t s = (if t \<noteq> 0 then edf_misses (thr s t) else 0)"

section \<open>Admission\<close>

definition job_util :: "AA64Thread \<Rightarrow> nat" where
  "job_util x = unat (edf_job_util_q16 (edf_period_us x) (edf_wcet_us x))"

text \<open>
  The running total is the sum of the utilisations of the admitted threads, and it is
  within the bound.
\<close>

definition edf_inv :: "Sched \<Rightarrow> bool" where
  "edf_inv s \<longleftrightarrow>
     finite {t. edf_enabled (thr s t)} \<and>
     (\<forall>t. edf_enabled (thr s t) \<longrightarrow> edf_wcet_us (thr s t) \<le> edf_period_us (thr s t) \<and>
        edf_period_us (thr s t) \<noteq> 0) \<and>
     unat (edf_util_q16 s) = (\<Sum>t | edf_enabled (thr s t). job_util (thr s t)) \<and>
     unat (edf_util_q16 s) \<le> 0x10000"

lemma edf_job_util_le:
  assumes "wcet \<le> period" "period \<noteq> 0"
  shows "unat (edf_job_util_q16 period wcet) \<le> 0x10000"
proof -
  have p: "0 < unat period"
    using assms(2) by (simp add: unat_gt_0)
  have "unat (push_bit 16 wcet) \<le> unat wcet * 0x10000"
    by (simp add: push_bit_eq_mult unat_word_ariths)
  also have "\<dots> \<le> unat period * 0x10000"
    using assms(1) by (simp add: word_le_nat_alt)
  finally have "unat (push_bit 16 wcet) div unat period \<le> unat period * 0x10000 div unat period"
    by (rule div_le_mono)
  then show ?thesis
    using p by (simp add: edf_job_util_q16_def unat_div)
qed

lemma edf_total_word:
  fixes u old add :: u64
  assumes "unat u \<le> 0x10000" "unat old \<le> unat u" "unat add \<le> 0x10000"
  shows "unat (u - old + add) = unat u - unat old + unat add"
proof -
  have "unat (u - old) = unat u - unat old"
    using assms(2) by (simp add: unat_sub word_le_nat_alt)
  moreover from this have "unat (u - old) + unat add < 2 ^ 64"
    using assms by simp
  then have "unat (u - old + add) = unat (u - old) + unat add"
    by (simp add: unat_word_ariths)
  ultimately show ?thesis by simp
qed

lemma edf_inv_cong:
  assumes "\<And>t. edf_enabled (thr s' t) = edf_enabled (thr s t)"
    and "\<And>t. edf_period_us (thr s' t) = edf_period_us (thr s t)"
    and "\<And>t. edf_wcet_us (thr s' t) = edf_wcet_us (thr s t)"
    and "edf_util_q16 s' = edf_util_q16 s"
  shows "edf_inv s' = edf_inv s"
  using assms by (simp add: edf_inv_def job_util_def)

lemma edf_inv_old:
  assumes "edf_inv s" "edf_enabled (thr s t)"
  shows "unat (edf_util_q16 s) =
    job_util (thr s t) + (\<Sum>x \<in> {x. edf_enabled (thr s x)} - {t}. job_util (thr s x))"
  using assms by (simp add: edf_inv_def sum.remove)

lemma AuEDFSetParams_total:
  assumes inv: "edf_inv s" and res: "AuEDFSetParams now t p w s = (True, s')"
  shows "unat (edf_util_q16 s') =
     (\<Sum>x \<in> {x. edf_enabled (thr s x)} - {t}. job_util (thr s x)) + unat (edf_job_util_q16 p w) \<and>
     unat (edf_util_q16 s') \<le> 0x10000"
proof -
  define old where "old = (if edf_enabled (thr s t)
    then edf_job_util_q16 (edf_period_us (thr s t)) (edf_wcet_us (thr s t)) else 0)"
  define u where "u = edf_util_q16 s - old + edf_job_util_q16 p w"
  have r: "p \<noteq> 0" "w \<le> p" "u \<le> 0x10000" "edf_util_q16 s' = u"
    using res by (auto simp: AuEDFSetParams_def Let_def u_def old_def split: if_splits)
  have total: "unat (edf_util_q16 s) =
      unat old + (\<Sum>x \<in> {x. edf_enabled (thr s x)} - {t}. job_util (thr s x))"
  proof (cases "edf_enabled (thr s t)")
    case True
    then show ?thesis using edf_inv_old [OF inv True] by (simp add: old_def job_util_def)
  next
    case False
    then show ?thesis using inv by (simp add: edf_inv_def old_def)
  qed
  then have "unat u = unat (edf_util_q16 s) - unat old + unat (edf_job_util_q16 p w)"
    unfolding u_def using inv edf_job_util_le [OF r(2,1)]
    by (intro edf_total_word) (auto simp: edf_inv_def)
  moreover have "unat u \<le> 0x10000"
    using r(3) by (simp add: word_le_nat_alt)
  ultimately show ?thesis using total r(4) by simp
qed

lemma AuEDFSetParams_inv:
  assumes "edf_inv s" "AuEDFSetParams now t p w s = (r, s')"
  shows "edf_inv s'"
proof (cases r)
  case False
  then have "s' = s"
    using assms(2) by (auto simp: AuEDFSetParams_def Let_def split: if_splits)
  with assms(1) show ?thesis by simp
next
  case True
  let ?E = "{x. edf_enabled (thr s x)}"
  have res: "AuEDFSetParams now t p w s = (True, s')"
    using assms(2) True by simp
  then have t: "p \<noteq> 0" "w \<le> p" "edf_enabled (thr s' t)" "edf_period_us (thr s' t) = p"
      "edf_wcet_us (thr s' t) = w" and o: "\<And>x. x \<noteq> t \<Longrightarrow> thr s' x = thr s x"
    by (auto simp: AuEDFSetParams_def Let_def split: if_splits)
  have E: "{x. edf_enabled (thr s' x)} = insert t (?E - {t})"
    using t(3) o by (auto, metis)
  have "(\<Sum>x \<in> insert t (?E - {t}). job_util (thr s' x)) =
      unat (edf_job_util_q16 p w) + (\<Sum>x \<in> ?E - {t}. job_util (thr s x))"
  proof -
    have "finite (?E - {t})"
      using assms(1) by (simp add: edf_inv_def)
    then have "(\<Sum>x \<in> insert t (?E - {t}). job_util (thr s' x)) =
        job_util (thr s' t) + (\<Sum>x \<in> ?E - {t}. job_util (thr s' x))"
      by (intro sum.insert) simp_all
    also have "(\<Sum>x \<in> ?E - {t}. job_util (thr s' x)) = (\<Sum>x \<in> ?E - {t}. job_util (thr s x))"
      using o by (intro sum.cong) auto
    finally show ?thesis
      using t by (simp add: job_util_def)
  qed
  moreover have "x = t \<or> thr s' x = thr s x" for x
    using o by blast
  then have "edf_enabled (thr s' x) \<longrightarrow> edf_wcet_us (thr s' x) \<le> edf_period_us (thr s' x) \<and>
      edf_period_us (thr s' x) \<noteq> 0" for x
    using t assms(1) unfolding edf_inv_def by metis
  ultimately show ?thesis
    using AuEDFSetParams_total [OF assms(1) res] assms(1) E by (simp add: edf_inv_def)
qed

lemma AuEDFRemove_inv:
  assumes "edf_inv s"
  shows "edf_inv (AuEDFRemove t s)"
proof (cases "t = 0 \<or> \<not> edf_enabled (thr s t)")
  case True
  then show ?thesis using assms by (auto simp: AuEDFRemove_def)
next
  case False
  let ?E = "{x. edf_enabled (thr s x)}" and ?s = "AuEDFRemove t s"
  have E: "{x. edf_enabled (thr ?s x)} = ?E - {t}"
    using False by (auto simp: AuEDFRemove_def)
  have total: "unat (edf_util_q16 s) =
      job_util (thr s t) + (\<Sum>x \<in> ?E - {t}. job_util (thr s x))"
    using edf_inv_old assms False by blast
  have u: "edf_util_q16 ?s =
      edf_util_q16 s - edf_job_util_q16 (edf_period_us (thr s t)) (edf_wcet_us (thr s t))"
    using False by (simp add: AuEDFRemove_def)
  have less: "unat (edf_util_q16 ?s) = unat (edf_util_q16 s) - job_util (thr s t)"
    using total unfolding u job_util_def by (intro unat_sub) (simp add: word_le_nat_alt)
  with total have "unat (edf_util_q16 ?s) = (\<Sum>x \<in> ?E - {t}. job_util (thr s x))"
    by simp
  also have "\<dots> = (\<Sum>x \<in> ?E - {t}. job_util (thr ?s x))"
    using False by (intro sum.cong) (auto simp: AuEDFRemove_def)
  finally have sum: "unat (edf_util_q16 ?s) = (\<Sum>x \<in> ?E - {t}. job_util (thr ?s x))" .
  have same: "thr ?s x = thr s x" if "edf_enabled (thr ?s x)" for x
    using that False by (auto simp: AuEDFRemove_def split: if_splits)
  have "unat (edf_util_q16 s) \<le> 0x10000" "finite (?E - {t})"
    using assms by (simp_all add: edf_inv_def)
  moreover from this have "unat (edf_util_q16 ?s) \<le> 0x10000"
    using less by linarith
  moreover have "\<forall>x. edf_enabled (thr ?s x) \<longrightarrow>
      edf_wcet_us (thr ?s x) \<le> edf_period_us (thr ?s x) \<and> edf_period_us (thr ?s x) \<noteq> 0"
    using same assms unfolding edf_inv_def by metis
  ultimately show ?thesis
    unfolding edf_inv_def E using sum by blast
qed

lemma core_AuBlockThread:
  "core (thr (AuBlockThread t s) x) =
     core (if x = t then thr s t\<lparr>state := THREAD_STATE_BLOCKED\<rparr> else thr s x)"
  by (simp add: AuBlockThread_def)

lemma AuEDFWaitPeriod_inv:
  assumes "edf_inv s"
  shows "edf_inv (AuEDFWaitPeriod now t s)"
proof (cases "t = 0 \<or> \<not> edf_enabled (thr s t)")
  case True
  then show ?thesis using assms by (auto simp: AuEDFWaitPeriod_def)
next
  case False
  have "edf_enabled (thr (AuEDFWaitPeriod now t s) x) = edf_enabled (thr s x)"
    "edf_period_us (thr (AuEDFWaitPeriod now t s) x) = edf_period_us (thr s x)"
    "edf_wcet_us (thr (AuEDFWaitPeriod now t s) x) = edf_wcet_us (thr s x)" for x
    using False by (simp_all add: AuEDFWaitPeriod_def AuScheduleNext_def AuBlockThread_def
        edf_next_job_def Let_def)
  moreover have "edf_util_q16 (AuEDFWaitPeriod now t s) = edf_util_q16 s"
    using False by (simp add: AuEDFWaitPeriod_def AuScheduleNext_def AuBlockThread_def)
  ultimately show ?thesis using assms edf_inv_cong by metis
qed

section \<open>Runs of the admission operations\<close>

datatype edf_cmd = Admit u64 nat u64 u64 | Drop nat | End_period u64 nat

fun edf_exec :: "edf_cmd \<Rightarrow> Sched \<Rightarrow> Sched" where
  "edf_exec (Admit now t p w) s = snd (AuEDFSetParams now t p w s)"
| "edf_exec (Drop t) s = AuEDFRemove t s"
| "edf_exec (End_period now t) s = AuEDFWaitPeriod now t s"

lemma edf_exec_inv: "edf_inv s \<Longrightarrow> edf_inv (edf_exec c s)"
  using AuEDFSetParams_inv AuEDFRemove_inv AuEDFWaitPeriod_inv
  by (cases c) (auto, metis prod.collapse)

lemma edf_run_inv: "edf_inv s \<Longrightarrow> edf_inv (fold edf_exec cs s)"
  by (induction cs arbitrary: s) (simp_all add: edf_exec_inv)

lemma edf_inv_initial:
  assumes "\<And>t. \<not> edf_enabled (thr s t)" "edf_util_q16 s = 0"
  shows "edf_inv s"
  using assms by (simp add: edf_inv_def)

text \<open>
  C18. Admission control: from a state without real-time threads, any sequence of admissions,
  removals and period ends keeps the running total equal to the sum of the utilisations of
  the threads then admitted, in units of 2^-16 and rounded down, and never above one.
\<close>

theorem edf_admission:
  assumes "\<And>t. \<not> edf_enabled (thr s t)" "edf_util_q16 s = 0"
  shows "let s' = fold edf_exec cs s in
    finite {t. edf_enabled (thr s' t)} \<and>
    unat (edf_util_q16 s') =
      (\<Sum>t | edf_enabled (thr s' t).
         unat (push_bit 16 (edf_wcet_us (thr s' t)) div edf_period_us (thr s' t))) \<and>
    unat (edf_util_q16 s') \<le> 0x10000"
  using edf_run_inv [OF edf_inv_initial [OF assms], of cs]
  by (simp add: edf_inv_def Let_def job_util_def edf_job_util_q16_def)

text \<open>
  The shift in the utilisation is done in 64 bits: a task with a worst-case time of
  2^48 microseconds and the same period, which needs the whole processor, counts for nothing
  and is admitted next to any task set.
\<close>

theorem AuEDFSetParams_shift_wraps:
  assumes "t \<noteq> 0" "t \<noteq> idle_thr s" "edf_inv s" "\<not> edf_enabled (thr s t)"
  shows "fst (AuEDFSetParams now t (2 ^ 48) (2 ^ 48) s) \<and>
    edf_util_q16 (snd (AuEDFSetParams now t (2 ^ 48) (2 ^ 48) s)) = edf_util_q16 s"
proof -
  have "edf_job_util_q16 (2 ^ 48) (2 ^ 48) = 0"
    by (simp add: edf_job_util_q16_def push_bit_eq_mult)
  moreover have "edf_util_q16 s \<le> 0x10000"
    using assms(3) by (simp add: edf_inv_def word_le_nat_alt)
  ultimately show ?thesis
    using assms by (simp add: AuEDFSetParams_def)
qed

section \<open>The end of a period\<close>

lemma skip_periods:
  fixes r p n :: nat
  assumes "0 < p" "r + p \<le> n"
  shows "n < r + p + ((n - (r + p)) div p + 1) * p"
    and "r + p + ((n - (r + p)) div p + 1) * p \<le> n + p"
proof -
  have "(n - (r + p)) div p * p + (n - (r + p)) mod p = n - (r + p)"
    by (rule div_mult_mod_eq)
  moreover have "(n - (r + p)) mod p < p"
    using assms(1) by (rule mod_less_divisor)
  ultimately show "n < r + p + ((n - (r + p)) div p + 1) * p"
    and "r + p + ((n - (r + p)) div p + 1) * p \<le> n + p"
    using assms unfolding add_mult_distrib by linarith+
qed

lemma edf_next_job_times:
  assumes p: "edf_period_us x \<noteq> 0"
    and room: "unat now + 2 * unat (edf_period_us x) < 2 ^ 64"
      "unat (edf_release_us x) + 2 * unat (edf_period_us x) < 2 ^ 64"
  defines "y \<equiv> edf_next_job now x"
  shows "\<exists>k \<ge> 1. unat (edf_release_us y) = unat (edf_release_us x) + k * unat (edf_period_us x) \<and>
    now < edf_release_us y \<and>
    (k = 1 \<or> unat (edf_release_us y) \<le> unat now + unat (edf_period_us x)) \<and>
    unat (edf_deadline_us y) = unat (edf_release_us y) + unat (edf_period_us x) \<and>
    edf_misses y = edf_misses x + of_nat (k - 1) + (if now > edf_deadline_us x then 1 else 0)"
proof -
  let ?p = "unat (edf_period_us x)" and ?r = "unat (edf_release_us x)" and ?n = "unat now"
  define r where "r = edf_release_us x + edf_period_us x"
  have p0: "0 < ?p" using p by (simp add: unat_gt_0)
  have r: "unat r = ?r + ?p"
    using room by (simp add: r_def unat_word_ariths)
  have late: "r \<le> now \<longleftrightarrow> ?r + ?p \<le> ?n" and early: "now < r \<longleftrightarrow> ?n < ?r + ?p"
    by (simp_all add: word_le_nat_alt word_less_nat_alt r)
  show ?thesis
  proof (cases "r \<le> now")
    case False
    then have "edf_release_us y = r" "edf_deadline_us y = r + edf_period_us x"
        "edf_misses y = edf_misses x + (if now > edf_deadline_us x then 1 else 0)"
      by (simp_all add: y_def edf_next_job_def Let_def r_def)
    moreover have "unat (r + edf_period_us x) = unat r + ?p"
      using room r by (simp add: unat_word_ariths)
    ultimately show ?thesis
      using False r by (intro exI [of _ 1]) (simp add: not_le)
  next
    case True
    define d where "d = (now - r) div edf_period_us x"
    define k where "k = (?n - (?r + ?p)) div ?p + 1"
    have le: "?r + ?p \<le> ?n" using True late by simp
    note k = skip_periods [OF p0 le, folded k_def]
    have d: "unat d = k - 1"
      using True r by (simp add: d_def k_def unat_div unat_sub)
    have y: "edf_release_us y = r + (d + 1) * edf_period_us x"
        "edf_deadline_us y = edf_release_us y + edf_period_us x"
        "edf_misses y = (if now > edf_deadline_us x then edf_misses x + 1 else edf_misses x) + (d + 1)"
      using True by (simp_all add: y_def edf_next_job_def Let_def r_def d_def)
    have dk: "d = of_nat (k - 1)"
      unfolding d [symmetric] by simp
    have k1: "1 \<le> k" by (simp add: k_def)
    then have dk1: "d + 1 = of_nat k"
      by (simp add: dk of_nat_diff)
    have kp: "?r + ?p + k * ?p < 2 ^ 64"
      using k room by linarith
    have eq: "r + (d + 1) * edf_period_us x = of_nat (?r + ?p + k * ?p)"
      by (simp add: dk1 flip: r)
    have rel: "unat (edf_release_us y) = ?r + ?p + k * ?p"
      unfolding y(1) eq unat_of_nat using kp by simp
    then have "unat (edf_deadline_us y) = unat (edf_release_us y) + ?p"
      using y(2) k room by (simp add: unat_word_ariths)
    moreover have "now < edf_release_us y"
      using k rel by (simp add: word_less_nat_alt)
    moreover have "edf_misses y = edf_misses x + of_nat (Suc k - 1) +
        (if now > edf_deadline_us x then 1 else 0)"
      using y(3) dk1 by simp
    ultimately show ?thesis
      using rel k by (intro exI [of _ "Suc k"]) simp
  qed
qed

lemma AuEDFWaitPeriod_thread:
  fixes now :: u64
  assumes "t \<noteq> 0" "edf_enabled (thr s t)"
  defines "y \<equiv> thr (AuEDFWaitPeriod now t s) t" and "j \<equiv> edf_next_job now (thr s t)"
  shows "edf_release_us y = edf_release_us j" "edf_deadline_us y = edf_deadline_us j"
    "edf_misses y = edf_misses j" "edf_waiting y"
    "state y = (if scheduler_initialized s \<and> current_thread s = t
                then THREAD_STATE_LEFT_IN_KERNEL else THREAD_STATE_BLOCKED)"
  using assms(1,2)
  by (simp_all add: y_def j_def AuEDFWaitPeriod_def AuScheduleNext_def AuBlockThread_def
      edf_next_job_def Let_def)

text \<open>
  C19. At the end of a job the thread waits, parked or blocked, for the next release that is
  still ahead: releases stay on the grid of the period, whole periods that have passed are
  skipped and each counts as a missed deadline, and the deadline is one period later.
\<close>

theorem AuEDFWaitPeriod_grid:
  assumes "t \<noteq> 0" "edf_enabled (thr s t)" "edf_period_us (thr s t) \<noteq> 0"
    and "unat now + 2 * unat (edf_period_us (thr s t)) < 2 ^ 64"
    and "unat (edf_release_us (thr s t)) + 2 * unat (edf_period_us (thr s t)) < 2 ^ 64"
  shows "let x = thr s t; y = thr (AuEDFWaitPeriod now t s) t in
    edf_waiting y \<and> state y \<in> {THREAD_STATE_LEFT_IN_KERNEL, THREAD_STATE_BLOCKED} \<and>
    (\<exists>k \<ge> 1. unat (edf_release_us y) = unat (edf_release_us x) + k * unat (edf_period_us x) \<and>
      now < edf_release_us y \<and>
      (k = 1 \<or> unat (edf_release_us y) \<le> unat now + unat (edf_period_us x)) \<and>
      unat (edf_deadline_us y) = unat (edf_release_us y) + unat (edf_period_us x) \<and>
      edf_misses y = edf_misses x + of_nat (k - 1) + (if now > edf_deadline_us x then 1 else 0))"
  unfolding Let_def AuEDFWaitPeriod_thread [OF assms(1,2)]
  by (intro conjI edf_next_job_times [OF assms(3-5)] TrueI)
    (simp_all add: AuEDFWaitPeriod_thread [OF assms(1,2)])

section \<open>The choice of the earliest deadline\<close>

definition edf_key :: "AA64Thread \<Rightarrow> nat \<times> nat" where
  "edf_key x = (unat (edf_deadline_us x), unat (thread_id x))"

lemma edf_better_key:
  "edf_better h b t \<longleftrightarrow> b = 0 \<or> edf_key (h t) < edf_key (h b)"
  by (auto simp: edf_better_def edf_key_def word_less_nat_alt word_unat_eq_iff)

lemma edf_pick_loop_dl:
  assumes "dl h p xs 0" "b \<noteq> 0 \<longrightarrow> b \<in> set ys \<and> edf_candidate h i b"
    and "\<forall>x \<in> set ys. edf_candidate h i x \<longrightarrow> b \<noteq> 0 \<and> edf_key (h b) \<le> edf_key (h x)"
  shows "\<exists>r. edf_pick_loop h i (first xs 0) b = Some r \<and>
    (r \<noteq> 0 \<longrightarrow> r \<in> set (ys @ xs) \<and> edf_candidate h i r) \<and>
    (\<forall>x \<in> set (ys @ xs). edf_candidate h i x \<longrightarrow> r \<noteq> 0 \<and> edf_key (h r) \<le> edf_key (h x))"
  using assms
proof (induction xs arbitrary: p b ys)
  case Nil
  then show ?case by (simp add: edf_pick_loop.simps)
next
  case (Cons x xs)
  define b' where "b' = (if edf_candidate h i x \<and> edf_better h b x then x else b)"
  have x: "x \<noteq> 0" "nxt (h x) = first xs 0" "dl h x xs 0"
    using Cons.prems(1) by auto
  have "\<exists>r. edf_pick_loop h i (first xs 0) b' = Some r \<and>
    (r \<noteq> 0 \<longrightarrow> r \<in> set ((ys @ [x]) @ xs) \<and> edf_candidate h i r) \<and>
    (\<forall>z \<in> set ((ys @ [x]) @ xs). edf_candidate h i z \<longrightarrow> r \<noteq> 0 \<and> edf_key (h r) \<le> edf_key (h z))"
  proof (rule Cons.IH [OF x(3)])
    show "b' \<noteq> 0 \<longrightarrow> b' \<in> set (ys @ [x]) \<and> edf_candidate h i b'"
      using Cons.prems(2) by (auto simp: b'_def)
    show "\<forall>z \<in> set (ys @ [x]). edf_candidate h i z \<longrightarrow> b' \<noteq> 0 \<and> edf_key (h b') \<le> edf_key (h z)"
      using Cons.prems(3) x(1) by (fastforce simp: b'_def edf_better_key)
  qed
  moreover have "edf_pick_loop h i (first (x # xs) 0) b = edf_pick_loop h i (first xs 0) b'"
    using x by (subst edf_pick_loop.simps) (simp add: b'_def)
  ultimately show ?case
    by simp
qed

lemma AuEDFPickNext_ok:
  assumes "sched_wf s A"
  obtains r where "AuEDFPickNext s = Some r"
    "r \<noteq> 0 \<longrightarrow> r \<in> set (A Ready) \<and> edf_candidate (thr s) (idle_thr s) r"
    "\<forall>x \<in> set (A Ready). edf_candidate (thr s) (idle_thr s) x \<longrightarrow>
       r \<noteq> 0 \<and> edf_key (thr s r) \<le> edf_key (thr s x)"
  using edf_pick_loop_dl [of "thr s" 0 "A Ready" 0 "[]" "idle_thr s"] assms
  by (auto simp: AuEDFPickNext_def sched_wf_def list_at_def)

text \<open>
  The scan of the ready list returns a runnable real-time thread with the earliest
  deadline, the lowest thread number among equals, and the null pointer exactly when there
  is none.
\<close>

theorem AuEDFPickNext_earliest:
  assumes "sched_wf s A"
  shows "\<exists>r. AuEDFPickNext s = Some r \<and>
    (r = 0 \<longleftrightarrow> (\<forall>x \<in> set (A Ready). \<not> edf_candidate (thr s) (idle_thr s) x)) \<and>
    (r \<noteq> 0 \<longrightarrow> r \<in> set (A Ready) \<and> edf_candidate (thr s) (idle_thr s) r \<and>
       (\<forall>x \<in> set (A Ready). edf_candidate (thr s) (idle_thr s) x \<longrightarrow>
          edf_deadline_us (thr s r) < edf_deadline_us (thr s x) \<or>
          edf_deadline_us (thr s r) = edf_deadline_us (thr s x) \<and>
          thread_id (thr s r) \<le> thread_id (thr s x)))"
proof -
  obtain r where r: "AuEDFPickNext s = Some r"
    "r \<noteq> 0 \<longrightarrow> r \<in> set (A Ready) \<and> edf_candidate (thr s) (idle_thr s) r"
    "\<forall>x \<in> set (A Ready). edf_candidate (thr s) (idle_thr s) x \<longrightarrow>
       r \<noteq> 0 \<and> edf_key (thr s r) \<le> edf_key (thr s x)"
    using AuEDFPickNext_ok [OF assms] by blast
  have le: "edf_key x \<le> edf_key y \<longleftrightarrow> edf_deadline_us x < edf_deadline_us y \<or>
      edf_deadline_us x = edf_deadline_us y \<and> thread_id x \<le> thread_id y" for x y
    by (auto simp: edf_key_def word_less_nat_alt word_le_nat_alt word_unat_eq_iff)
  show ?thesis
    using r unfolding le by (intro exI [of _ r]) auto
qed

section \<open>Ticks: releases and sleeps\<close>

lemma AuUnblockThread_body:
  assumes "sched_wf s A" "t \<in> set (A Blocked)"
  obtains s' where "AuUnblockThread t s = Some s'" "sched_wf s' (move Blocked Ready t A)"
    "\<And>x. core (thr s' x) =
           core (if x = t then thr s t\<lparr>state := woken (state (thr s t))\<rparr> else thr s x)"
    "idle_thr s' = idle_thr s" "current_thread s' = current_thread s"
    "edf_util_q16 s' = edf_util_q16 s"
  using AuUnblockThread_wf [OF assms(1), of t] assms(2) by auto

definition after_release :: "u64 \<Rightarrow> AA64Thread \<Rightarrow> AA64Thread" where
  "after_release now x =
     (if edf_release_due now x then x\<lparr>edf_waiting := False, state := woken (state x)\<rparr> else x)"

lemma edf_release_due_core: "core x = core y \<Longrightarrow> edf_release_due now x = edf_release_due now y"
  using core_eqD [of x y] by (simp add: edf_release_due_def)

lemma after_release_core:
  "core x = core y \<Longrightarrow> core (after_release now x) = core (after_release now y)"
  by (cases x; cases y) (auto simp add: core_def after_release_def edf_release_due_def woken_def)

lemma release_if_due_body:
  assumes "sched_wf s A" "t \<in> set (A Blocked)"
  shows "\<exists>s'. release_if_due now t s = Some s' \<and>
     sched_wf s' (if edf_release_due now (thr s t) then move Blocked Ready t A else A) \<and>
     idle_thr s' = idle_thr s \<and> current_thread s' = current_thread s \<and>
     edf_util_q16 s' = edf_util_q16 s \<and>
     (\<forall>x. core (thr s' x) = core (if x = t then after_release now (thr s t) else thr s x))"
proof (cases "edf_release_due now (thr s t)")
  case False
  then show ?thesis
    using assms(1) by (simp add: release_if_due_def after_release_def)
next
  case True
  let ?s = "on_thread t (\<lambda>x. x\<lparr>edf_waiting := False\<rparr>) s"
  have "sched_wf ?s A"
    using assms(1) by simp
  then obtain s' where s': "AuUnblockThread t ?s = Some s'" "sched_wf s' (move Blocked Ready t A)"
    "\<And>x. core (thr s' x) =
           core (if x = t then thr ?s t\<lparr>state := woken (state (thr ?s t))\<rparr> else thr ?s x)"
    "idle_thr s' = idle_thr ?s" "current_thread s' = current_thread ?s"
    "edf_util_q16 s' = edf_util_q16 ?s"
    using AuUnblockThread_body assms(2) by metis
  have "core (thr s' x) = core (if x = t then after_release now (thr s t) else thr s x)" for x
    using s'(3) [of x] True by (simp add: after_release_def)
  then show ?thesis
    using s' True by (intro exI [of _ s']) (simp add: release_if_due_def)
qed

lemma AuEDFHandleReleases_drains:
  assumes "sched_wf s A"
  obtains s' where "AuEDFHandleReleases now s = Some s'"
    "sched_wf s' (drain Blocked (\<lambda>t. edf_release_due now (thr s t)) A)"
    "idle_thr s' = idle_thr s" "current_thread s' = current_thread s"
    "edf_util_q16 s' = edf_util_q16 s"
    "\<And>x. core (thr s' x) =
       core (if x \<in> set (A Blocked) then after_release now (thr s x) else thr s x)"
  unfolding AuEDFHandleReleases_def
  by (rule drain_walk [OF assms _ release_if_due_body edf_release_due_core after_release_core]) auto

section \<open>Concrete instances\<close>

theorem edf_admission_witness:
  "unat (edf_util_q16 (edf_exec (Admit 0 2 200000 5000) demo_sched)) \<le> 0x10000 \<and>
   edf_enabled (thr (edf_exec (Admit 0 2 200000 5000) demo_sched) 2)"
proof -
  have "unat (edf_util_q16 (edf_exec (Admit 0 2 200000 5000) demo_sched)) \<le> 0x10000"
    using edf_admission [of demo_sched "[Admit 0 2 200000 5000]"]
    by (simp add: demo_sched_payload Let_def del: edf_exec.simps)
  then show ?thesis
    by (simp add: AuEDFSetParams_def demo_sched_payload edf_job_util_q16_def push_bit_eq_mult)
qed

theorem AuEDFSetParams_shift_wraps_witness:
  "fst (AuEDFSetParams 0 2 (2 ^ 48) (2 ^ 48) demo_sched)"
  using AuEDFSetParams_shift_wraps [of 2 demo_sched 0] edf_inv_initial [of demo_sched]
  by (simp add: demo_sched_payload)

definition demo_rt :: Sched where
  "demo_rt = snd (AuEDFSetParams 0 2 200000 5000 demo_sched)"

lemma demo_rt_payload:
  "edf_enabled (thr demo_rt 2)" "edf_period_us (thr demo_rt 2) = 200000"
  "edf_release_us (thr demo_rt 2) = 0" "edf_deadline_us (thr demo_rt 2) = 200000"
  "edf_misses (thr demo_rt 2) = 0" "state (thr demo_rt 2) = THREAD_STATE_READY" "idle_thr demo_rt = 1"
  by (simp_all add: demo_rt_def AuEDFSetParams_def demo_sched_payload edf_job_util_q16_def
      push_bit_eq_mult)

lemma demo_rt_wf: "sched_wf demo_rt demo_lists"
  using demo_sched_wf sched_wf_cong [of demo_rt demo_sched demo_lists]
  by (simp add: demo_rt_def AuEDFSetParams_def demo_sched_payload edf_job_util_q16_def
      push_bit_eq_mult)

theorem AuEDFWaitPeriod_grid_witness:
  "\<exists>k \<ge> 1. unat (edf_release_us (thr (AuEDFWaitPeriod 450000 2 demo_rt) 2)) = k * 200000 \<and>
     450000 < edf_release_us (thr (AuEDFWaitPeriod 450000 2 demo_rt) 2)"
  using AuEDFWaitPeriod_grid [of 2 demo_rt 450000] by (auto simp: demo_rt_payload Let_def)

theorem AuEDFPickNext_earliest_witness: "AuEDFPickNext demo_rt = Some 2"
  using AuEDFPickNext_earliest [OF demo_rt_wf]
  by (auto simp: demo_lists_def demo_rt_payload edf_candidate_def runnable_def)

end
