(* ===== verification/Dispatch.thy ===== *)
theory Dispatch
  imports Edf
begin

text \<open>
  Which thread runs next (\<open>AA64NextThread\<close> and the decisions of \<open>AuScheduleThread\<close> in
  KernelAA64/Hal/sched.c), the disposal of dead threads, and the scheduler as a whole: a
  step relation of all its operations, its invariant, and the consistency check the kernel
  runs on itself. Saving and restoring registers is assembly and not modelled.
\<close>

section \<open>The next thread\<close>

text \<open>
  The round-robin loop; \<open>n\<close> counts the steps still allowed of \<open>SCHED_VALIDATE_STEPS\<close>.
\<close>

fun next_loop :: "(nat \<Rightarrow> AA64Thread) \<Rightarrow> nat \<Rightarrow> nat \<Rightarrow> nat \<Rightarrow> nat \<Rightarrow> nat \<Rightarrow> nat" where
  "next_loop h idle front start cursor 0 = idle"
| "next_loop h idle front start cursor (Suc n) =
     (if cursor = 0 then idle
      else if cursor \<noteq> idle \<and> runnable (h cursor) then cursor
      else let c = (if nxt (h cursor) \<noteq> 0 then nxt (h cursor) else front)
           in if c = start then idle else next_loop h idle front start c n)"

definition rr_start :: "Sched \<Rightarrow> nat" where
  "rr_start s =
     (if current_thread s \<noteq> 0 \<and> nxt (thr s (current_thread s)) \<noteq> 0
      then nxt (thr s (current_thread s)) else head s Ready)"

definition AA64NextThread :: "Sched \<Rightarrow> Sched option" where
  "AA64NextThread s =
     (case AuEDFPickNext s of None \<Rightarrow> None
      | Some edf \<Rightarrow>
          Some (s\<lparr>current_thread :=
            (if edf \<noteq> 0 then edf
             else next_loop (thr s) (idle_thr s) (head s Ready) (rr_start s) (rr_start s)
                    SCHED_VALIDATE_STEPS)\<rparr>))"

text \<open>
  The decisions of a tick: \<open>now\<close> is the time read for the accounting and the releases,
  \<open>now'\<close> the time read by the walk over the sleepers.
\<close>

definition AuScheduleThread :: "u64 \<Rightarrow> u64 \<Rightarrow> Sched \<Rightarrow> Sched option" where
  "AuScheduleThread now now' s =
     (if \<not> scheduler_initialized s then Some s
      else
        let s = (if state (thr s (current_thread s)) = THREAD_STATE_RUNNING
                 then set_state (current_thread s) THREAD_STATE_READY s else s);
            s = s\<lparr>scheduler_tick := scheduler_tick s + 1\<rparr>
        in case AuHandleSleepThreads now' s of None \<Rightarrow> None
           | Some s \<Rightarrow>
        (case AuEDFHandleReleases now s of None \<Rightarrow> None
         | Some s \<Rightarrow>
        (case AA64NextThread s of None \<Rightarrow> None
         | Some s \<Rightarrow>
             let c = current_thread s;
                 s = (if state (thr s c) = THREAD_STATE_READY
                      then set_state c THREAD_STATE_RUNNING s else s)
             in Some (if state (thr s c) = THREAD_STATE_LEFT_IN_KERNEL
                      then set_state c THREAD_STATE_READY s else s))))"

section \<open>Disposal\<close>

definition unlink_if_on :: "tlist \<Rightarrow> nat \<Rightarrow> Sched \<Rightarrow> Sched option" where
  "unlink_if_on q t s =
     (case on_list (thr s) (head s q) t of None \<Rightarrow> None
      | Some found \<Rightarrow> Some (if found then schedUnlink q t s else s))"

definition AuThreadMoveToTrash :: "nat \<Rightarrow> Sched \<Rightarrow> Sched option" where
  "AuThreadMoveToTrash t s =
     (if t = 0 then Some s
      else if state (thr s t) = THREAD_STATE_KILLABLE then Some s
      else
        case unlink_if_on Ready t (set_state t THREAD_STATE_KILLABLE (AuEDFRemove t s)) of
          None \<Rightarrow> None
        | Some s \<Rightarrow>
            (case unlink_if_on Blocked t s of None \<Rightarrow> None
             | Some s \<Rightarrow>
                 (case unlink_if_on Sleep t s of None \<Rightarrow> None
                  | Some s \<Rightarrow> Some (schedLink Trash t s))))"

text \<open>
  The end of one thread of a process (clean.c); the threads of the process are its array up
  to \<open>num_thread\<close>, 0 for an empty slot. The resources it frees are not the scheduler's.
\<close>

definition AuExitSubThread :: "nat list \<Rightarrow> nat \<Rightarrow> u64 \<Rightarrow> Sched \<Rightarrow> Sched option" where
  "AuExitSubThread threads thread tid s =
     (if list_ex (\<lambda>t. t \<noteq> 0 \<and> thread_id (thr s t) = tid \<and> t = thread) threads
      then AuThreadMoveToTrash thread (set_state thread THREAD_STATE_KILLABLE s)
      else Some s)"

definition AuThreadCleanTrash :: "nat \<Rightarrow> Sched \<Rightarrow> Sched" where
  "AuThreadCleanTrash t s = schedUnlink Trash t s"

section \<open>Round robin\<close>

text \<open>
  The loop goes through the ready list from \<open>start\<close> to its end and then from its head up
  to \<open>start\<close>: it finds the first runnable thread of the rotated list.
\<close>

definition can_run :: "Sched \<Rightarrow> nat \<Rightarrow> bool" where
  "can_run s t \<longleftrightarrow> t \<noteq> idle_thr s \<and> runnable (thr s t)"

lemma next_loop_wrapped:
  assumes "dl h p us (first vs 0)" "us = ws @ zs" "zs \<noteq> []" "vs \<noteq> []" "first vs 0 \<notin> set us"
    "first vs 0 \<noteq> 0" "length zs \<le> n"
  shows "next_loop h idle front (first vs 0) (first zs 0) n =
    (case List.find (\<lambda>t. t \<noteq> idle \<and> runnable (h t)) zs of None \<Rightarrow> idle | Some t \<Rightarrow> t)"
  using assms
proof (induction zs arbitrary: ws n)
  case Nil
  then show ?case by simp
next
  case (Cons z zs)
  then obtain m where n: "n = Suc m" "length zs \<le> m"
    by (cases n) auto
  have z: "z \<noteq> 0" "nxt (h z) = first zs (first vs 0)"
    using Cons.prems(1,2) by auto
  show ?case
  proof (cases "zs = []")
    case True
    then show ?thesis using z n Cons.prems(6) by simp
  next
    case False
    then have "first zs (first vs 0) = first zs 0" "first zs 0 \<in> set us" "first zs 0 \<noteq> 0"
      using Cons.prems(1,2) by (cases zs; simp)+
    moreover from this have "first zs 0 \<noteq> first vs 0"
      using Cons.prems(5) by metis
    ultimately show ?thesis
      using z n False Cons.prems Cons.IH [of "ws @ [z]" m] by auto
  qed
qed

lemma next_loop_rotates:
  assumes "dl h 0 (us @ vs) 0" "distinct (us @ vs)" "vs = ws @ zs" "zs \<noteq> []"
    "length zs + length us \<le> n"
  shows "next_loop h idle (first (us @ vs) 0) (first vs 0) (first zs 0) n =
    (case List.find (\<lambda>t. t \<noteq> idle \<and> runnable (h t)) (zs @ us) of None \<Rightarrow> idle | Some t \<Rightarrow> t)"
  using assms(3-5)
proof (induction zs arbitrary: ws n)
  case Nil
  then show ?case by simp
next
  case (Cons z zs)
  then obtain m where n: "n = Suc m" "length zs + length us \<le> m"
    by (cases n) auto
  have z: "z \<noteq> 0" "nxt (h z) = first zs 0" "first vs 0 \<in> set vs" "first vs 0 \<noteq> 0"
    using assms(1) Cons.prems(1) by (cases ws; simp)+
  have dvs: "dl h (lastp 0 us) vs 0" "dl h 0 us (first vs 0)"
    using assms(1) by auto
  show ?case
  proof (cases "zs = []")
    case False
    then have nz: "first zs 0 \<noteq> 0" "first zs 0 \<in> set zs"
      using dvs Cons.prems(1) by (cases zs; simp)+
    have "first vs 0 \<notin> set zs"
      using assms(2) Cons.prems(1) by (cases ws) auto
    then have "first zs 0 \<noteq> first vs 0"
      using nz by metis
    then show ?thesis
      using z n nz False Cons.prems Cons.IH [of "ws @ [z]" m] by auto
  next
    case last: True
    show ?thesis
    proof (cases "us = []")
      case True
      then show ?thesis using z n last by simp
    next
      case us: False
      then have u: "first us (first vs 0) = first us 0" "first us 0 \<in> set us"
        by (cases us; simp)+
      have out: "first vs 0 \<notin> set us"
        using assms(2) z(3) by auto
      then have "first us 0 \<noteq> first vs 0"
        using u(2) by metis
      moreover have "next_loop h idle (first (us @ vs) 0) (first vs 0) (first us 0) m =
          (case List.find (\<lambda>t. t \<noteq> idle \<and> runnable (h t)) us of None \<Rightarrow> idle | Some t \<Rightarrow> t)"
        using next_loop_wrapped [OF dvs(2), of "[]" us m idle] us out z(4) n last Cons.prems
        by simp
      ultimately show ?thesis
        using z n last u by simp
    qed
  qed
qed

lemma AA64NextThread_ok:
  assumes "sched_wf s A" "A Ready = us @ vs" "vs \<noteq> []" "rr_start s = first vs 0"
    "length (A Ready) \<le> SCHED_VALIDATE_STEPS"
  obtains r where "AuEDFPickNext s = Some r"
    "AA64NextThread s = Some (s\<lparr>current_thread :=
       (if r \<noteq> 0 then r
        else case List.find (can_run s) (vs @ us) of None \<Rightarrow> idle_thr s | Some t \<Rightarrow> t)\<rparr>)"
proof -
  have dl: "dl (thr s) 0 (us @ vs) 0" "distinct (us @ vs)" "head s Ready = first (us @ vs) 0"
    using assms(1) unfolding sched_wf_def list_at_def assms(2) [symmetric] by blast+
  have loop: "next_loop (thr s) (idle_thr s) (first (us @ vs) 0) (first vs 0) (first vs 0)
      SCHED_VALIDATE_STEPS =
    (case List.find (can_run s) (vs @ us) of None \<Rightarrow> idle_thr s | Some t \<Rightarrow> t)"
    using next_loop_rotates [OF dl(1,2), of "[]" vs SCHED_VALIDATE_STEPS "idle_thr s"] assms(2,3,5)
    by (simp add: can_run_def [abs_def])
  obtain r where "AuEDFPickNext s = Some r"
    using AuEDFPickNext_ok [OF assms(1)] by metis
  then show thesis
    using that loop assms(4) dl(3) by (simp add: AA64NextThread_def)
qed


section \<open>The scheduler as a state machine\<close>

definition listed :: "tlist \<Rightarrow> nat \<Rightarrow> Sched \<Rightarrow> bool" where
  "listed q t s \<longleftrightarrow> on_list (thr s) (head s q) t = Some True"

text \<open>
  The steps and what their callers establish: only the running thread blocks or sleeps, and
  only while it is on the ready list; a thread is unblocked by whom it waits on; the idle
  thread neither waits nor dies; a dead thread is reaped only when it is not running.
\<close>

inductive sched_step :: "Sched \<Rightarrow> Sched \<Rightarrow> bool" where
  create: "t \<noteq> 0 \<Longrightarrow> (\<And>q. on_list (thr s) (head s q) t = Some False) \<Longrightarrow>
    sched_step s (AuCreateKthread t s)"
| start: "sched_step s (AuSchedulerStart s)"
| block: "listed Ready (current_thread s) s \<Longrightarrow> current_thread s \<noteq> idle_thr s \<Longrightarrow>
    sched_step s (AuBlockThread (current_thread s) s)"
| sleep: "listed Ready (current_thread s) s \<Longrightarrow> current_thread s \<noteq> idle_thr s \<Longrightarrow>
    sched_step s (AuSleepThread now (current_thread s) ms s)"
| park: "\<not> listed Trash (current_thread s) s \<Longrightarrow> sched_step s (AuScheduleNext s)"
| yield: "listed Ready (current_thread s) s \<Longrightarrow> AuSchedYieldMs now ms s = (r, s') \<Longrightarrow> sched_step s s'"
| unblock: "\<not> listed Trash t s \<Longrightarrow>
    (listed Sleep t s \<Longrightarrow> state (thr s t) = THREAD_STATE_LEFT_IN_KERNEL) \<Longrightarrow> AuUnblockThread t s = Some s' \<Longrightarrow> sched_step s s'"
| wake_poller: "AuThreadWakePoller t s = Some s' \<Longrightarrow> sched_step s s'"
| make_ready: "listed q t s \<Longrightarrow> AuThreadMakeReady t s = Some s' \<Longrightarrow> sched_step s s'"
| trash: "listed q t s \<Longrightarrow> t \<noteq> idle_thr s \<Longrightarrow> AuThreadMoveToTrash t s = Some s' \<Longrightarrow> sched_step s s'"
| reap: "listed Trash t s \<Longrightarrow> t \<noteq> current_thread s \<Longrightarrow> sched_step s (AuThreadCleanTrash t s)"
| admit: "AuEDFSetParams now t p w s = (r, s') \<Longrightarrow> sched_step s s'"
| drop: "sched_step s (AuEDFRemove t s)"
| end_period: "listed Ready (current_thread s) s \<Longrightarrow> current_thread s \<noteq> idle_thr s \<Longrightarrow>
    sched_step s (AuEDFWaitPeriod now (current_thread s) s)"
| tick: "AuScheduleThread now now' s = Some s' \<Longrightarrow> sched_step s s'"

definition current_ok :: "nat \<Rightarrow> (tlist \<Rightarrow> nat list) \<Rightarrow> bool" where
  "current_ok c A \<longleftrightarrow> (\<exists>q. c \<in> set (A q)) \<and>
     (\<forall>q \<in> {Blocked, Sleep}. c \<in> set (A q) \<longrightarrow> last (A q) = c)"

definition sched_inv :: "Sched \<Rightarrow> (tlist \<Rightarrow> nat list) \<Rightarrow> bool" where
  "sched_inv s A \<longleftrightarrow> sched_wf s A \<and>
     (\<forall>q. \<forall>t \<in> set (A q). state (thr s t) \<in> list_states q) \<and>
     idle_thr s \<in> set (A Ready) \<and> current_ok (current_thread s) A"

declare list_states.simps [simp del]

lemma list_states_simps [simp]:
  "THREAD_STATE_READY \<in> list_states q \<longleftrightarrow> q = Ready"
  "THREAD_STATE_RUNNING \<in> list_states q \<longleftrightarrow> q = Ready"
  "THREAD_STATE_BLOCKED \<in> list_states q \<longleftrightarrow> q = Blocked"
  "THREAD_STATE_SLEEP \<in> list_states q \<longleftrightarrow> q = Sleep"
  "THREAD_STATE_KILLABLE \<in> list_states q \<longleftrightarrow> q = Trash"
  "THREAD_STATE_LEFT_IN_KERNEL \<in> list_states q \<longleftrightarrow> q \<noteq> Trash"
  by (cases q; simp add: thread_states list_states.simps)+

lemma woken_Ready [simp]: "woken v \<in> list_states Ready"
  by (simp add: woken_def)

lemma listed_iff: "sched_wf s A \<Longrightarrow> listed q t s \<longleftrightarrow> t \<in> set (A q)"
  by (simp add: listed_def on_list_wf)

lemma set_move:
  assumes "distinct (A q)" "q \<noteq> r"
  shows "set (move q r t A p) =
    (if p = r then insert t (set (A r)) else if p = q then set (A q) - {t} else set (A p))"
  using assms by (simp add: move_def put_last_def take_out_def)

lemma last_remove1: "xs \<noteq> [] \<Longrightarrow> last xs \<noteq> t \<Longrightarrow> last (remove1 t xs) = last xs"
proof (induction xs)
  case (Cons x xs)
  show ?case
  proof (cases "xs = []")
    case False
    then have "last xs \<in> set (remove1 t xs)"
      using Cons.prems(2) by simp
    then have "remove1 t xs \<noteq> []"
      by auto
    then show ?thesis
      using Cons False by auto
  qed (use Cons in auto)
qed simp

lemma current_ok_move:
  assumes "current_ok c A" "sched_wf s A" "t \<in> set (A q)" "q \<noteq> r"
    "r \<in> {Blocked, Sleep} \<longrightarrow> t = c"
  shows "current_ok c (move q r t A)"
proof (cases "t = c")
  case True
  have "c \<notin> set (A p)" if "p \<noteq> q" for p
    using sched_wf_unique [OF assms(2,3)] True that by blast
  then have "c \<in> set (move q r t A p) \<longleftrightarrow> p = r" for p
    using True assms(4) set_move [of A q r t p, OF sched_wf_distinct [OF assms(2)]] by auto
  moreover have "last (move q r t A r) = c"
    using True by (simp add: move_def put_last_def)
  ultimately show ?thesis
    by (auto simp: current_ok_def)
next
  case False
  obtain p where p: "c \<in> set (A p)"
    using assms(1) by (auto simp: current_ok_def)
  then have "c \<in> set (move q r t A p)"
    using False set_move [of A q r t p] assms(4) sched_wf_distinct [OF assms(2)] by auto
  moreover have "last (move q r t A p') = c" if "p' \<in> {Blocked, Sleep}" "c \<in> set (move q r t A p')" for p'
  proof -
    have "p' \<noteq> r" using that(1) assms(5) False by auto
    then have "c \<in> set (A p')" "move q r t A p' = (if p' = q then remove1 t (A q) else A p')"
      using that(2) set_remove1_subset [of t "A q"]
      by (auto simp: move_def put_last_def take_out_def split: if_splits)
    moreover from this that(1) have "last (A p') = c" "A p' \<noteq> []"
      using assms(1) by (auto simp: current_ok_def)
    ultimately show ?thesis
      using last_remove1 [of "A p'" t] False by auto
  qed
  ultimately show ?thesis
    by (auto simp: current_ok_def)
qed

lemma sched_inv_move:
  assumes inv: "sched_inv s A" and t: "t \<in> set (A q)" "q \<noteq> r" "r \<in> {Blocked, Sleep} \<longrightarrow> t = current_thread s"
    and idle: "r \<noteq> Ready \<longrightarrow> t \<noteq> idle_thr s"
    and s': "sched_wf s' (move q r t A)" "idle_thr s' = idle_thr s"
      "current_thread s' = current_thread s"
    and st: "\<And>x. state (thr s' x) = (if x = t then v else state (thr s x))" "v \<in> list_states r"
  shows "sched_inv s' (move q r t A)"
proof -
  have wf: "sched_wf s A" using inv by (simp add: sched_inv_def)
  note m = set_move [of A q r t, OF sched_wf_distinct [OF wf] t(2)]
  have "state (thr s' x) \<in> list_states p" if x: "x \<in> set (move q r t A p)" for p x
  proof (cases "x = t")
    case True
    have "p = r"
      using x True sched_wf_unique [OF wf t(1)] by (auto simp: m split: if_splits)
    then show ?thesis using True st by simp
  next
    case False
    then have "x \<in> set (A p)"
      using x by (auto simp: m split: if_splits)
    then show ?thesis
      using False st(1) inv by (simp add: sched_inv_def)
  qed
  moreover have "idle_thr s' \<in> set (move q r t A Ready)"
    using inv idle s'(2) t(2) by (auto simp: m sched_inv_def)
  moreover have "current_ok (current_thread s') (move q r t A)"
    using current_ok_move [OF _ wf t(1,2)] inv s'(3) t(3) by (simp add: sched_inv_def)
  ultimately show ?thesis
    using s'(1) by (simp add: sched_inv_def)
qed

lemma set_drain:
  assumes "q \<noteq> Ready"
  shows "set (drain q D A p) =
    (if p = Ready then set (A Ready) \<union> {t \<in> set (A q). D t}
     else if p = q then {t \<in> set (A q). \<not> D t} else set (A p))"
  using assms by (auto simp: drain_def)

lemma last_filter: "xs \<noteq> [] \<Longrightarrow> P (last xs) \<Longrightarrow> last (filter P xs) = last xs"
  by (induction xs rule: rev_induct) auto

lemma sched_inv_drain:
  assumes inv: "sched_inv s A" and q: "q \<in> {Blocked, Sleep}"
    and s': "sched_wf s' (drain q D A)" "idle_thr s' = idle_thr s"
      "current_thread s' = current_thread s"
    and st: "\<And>x. state (thr s' x) =
      (if x \<in> set (A q) \<and> D x then woken (state (thr s x)) else state (thr s x))"
  shows "sched_inv s' (drain q D A)"
proof -
  let ?c = "current_thread s"
  have wf: "sched_wf s A" and co: "current_ok ?c A" using inv by (simp_all add: sched_inv_def)
  have qr: "q \<noteq> Ready" using q by auto
  note m = set_drain [OF qr, of D A]
  have "state (thr s' x) \<in> list_states p" if x: "x \<in> set (drain q D A p)" for p x
  proof (cases "x \<in> set (A q) \<and> D x")
    case True
    then have "p = Ready"
      using x sched_wf_unique [OF wf, of x q p] by (auto simp: m split: if_splits)
    then show ?thesis using True by (simp add: st)
  next
    case False
    then have "x \<in> set (A p)"
      using x by (auto simp: m split: if_splits)
    then show ?thesis
      using False inv unfolding st sched_inv_def by metis
  qed
  moreover have "current_ok ?c (drain q D A)"
  proof -
    obtain p where p: "?c \<in> set (A p)"
      using co by (auto simp: current_ok_def)
    have "?c \<in> set (drain q D A (if p = q \<and> D ?c then Ready else p))"
      using p qr by (auto simp: m)
    moreover have "last (drain q D A r) = ?c" if r: "r \<in> {Blocked, Sleep}" "?c \<in> set (drain q D A r)" for r
    proof -
      have "?c \<in> set (A r)" "r = q \<longrightarrow> \<not> D ?c"
        using r by (auto simp: m split: if_splits)
      moreover from this have "last (A r) = ?c" "A r \<noteq> []"
        using co r(1) by (auto simp: current_ok_def)
      ultimately show ?thesis
        using r(1) qr last_filter [of "A q" "\<lambda>t. \<not> D t"] by (auto simp: drain_def)
    qed
    ultimately show ?thesis
      unfolding current_ok_def by blast
  qed
  moreover have "idle_thr s' \<in> set (drain q D A Ready)"
    using inv s'(2) by (simp add: m sched_inv_def)
  ultimately show ?thesis
    using s' by (simp add: sched_inv_def)
qed

text \<open>Changes of the payload and of the globals.\<close>

lemma sched_inv_same:
  assumes "sched_inv s A" "sched_wf s' A" "idle_thr s' = idle_thr s" "current_ok (current_thread s') A"
    and "\<And>x q. x \<in> set (A q) \<Longrightarrow> state (thr s' x) \<in> list_states q"
  shows "sched_inv s' A"
  using assms by (simp add: sched_inv_def)

lemma current_ok_Ready:
  "sched_wf s A \<Longrightarrow> c \<in> set (A Ready) \<Longrightarrow> current_ok c A"
  using sched_wf_unique [of s A c Ready] by (auto simp: current_ok_def)

section \<open>The walk of the round robin stays on the ready list\<close>

lemma next_loop_in:
  assumes "\<And>x. x \<in> W \<Longrightarrow> x \<noteq> 0 \<Longrightarrow> nxt (h x) \<in> W" "front \<in> W" "cursor \<in> W"
  shows "next_loop h idle front start cursor n = idle \<or>
    (next_loop h idle front start cursor n \<in> W \<and> next_loop h idle front start cursor n \<noteq> 0 \<and>
     runnable (h (next_loop h idle front start cursor n)))"
  using assms(3)
proof (induction n arbitrary: cursor)
  case (Suc n)
  define c where "c = (if nxt (h cursor) \<noteq> 0 then nxt (h cursor) else front)"
  have "cursor \<noteq> 0 \<Longrightarrow> c \<in> W"
    using assms(1,2) Suc.prems by (simp add: c_def)
  moreover have "next_loop h idle front start cursor (Suc n) =
      (if cursor = 0 then idle else if cursor \<noteq> idle \<and> runnable (h cursor) then cursor
       else if c = start then idle else next_loop h idle front start c n)"
    by (simp add: c_def Let_def)
  ultimately show ?case
    using Suc.IH [of c] Suc.prems by (simp del: next_loop.simps)
qed simp

lemma nxt_on_list:
  assumes "sched_wf s A" "x \<in> set (A q)"
  shows "nxt (thr s x) \<in> insert 0 (set (A q))"
    and "last (A q) = x \<Longrightarrow> nxt (thr s x) = 0"
proof -
  obtain xs ys where q: "A q = xs @ x # ys"
    using assms(2) split_list by metis
  then have "list_at s q (xs @ x # ys)"
    using assms(1) unfolding sched_wf_def by metis
  note links = schedUnlink_links(2) [OF this]
  show "nxt (thr s x) \<in> insert 0 (set (A q))"
    using links q first_mem [of ys 0] by (cases "ys = []") auto
  show "nxt (thr s x) = 0" if "last (A q) = x"
  proof -
    have "ys = []"
      using that q sched_wf_distinct [OF assms(1), of q] by (cases ys rule: rev_cases) auto
    then show ?thesis using links by simp
  qed
qed

lemma AA64NextThread_inv:
  assumes "sched_inv s A"
  obtains s' where "AA64NextThread s = Some s'" "thr s' = thr s" "sched_inv s' A"
    "current_thread s' \<in> set (A Ready)"
proof -
  let ?c = "current_thread s" and ?W = "{0} \<union> set (A Ready) \<union> set (A Trash)"
  have wf: "sched_wf s A" and idle: "idle_thr s \<in> set (A Ready)" and co: "current_ok ?c A"
    and st: "\<And>q t. t \<in> set (A q) \<Longrightarrow> state (thr s t) \<in> list_states q"
    using assms by (simp_all add: sched_inv_def)
  have closed: "x \<in> ?W \<Longrightarrow> x \<noteq> 0 \<Longrightarrow> nxt (thr s x) \<in> ?W" for x
    using nxt_on_list(1) [OF wf] by blast
  have front: "head s Ready \<in> ?W"
  proof -
    have "A Ready \<noteq> []" using idle by auto
    then show ?thesis
      using first_mem [of "A Ready" 0] sched_wf_head [OF wf, of Ready] by simp
  qed
  obtain q where q: "?c \<in> set (A q)"
    using co by (auto simp: current_ok_def)
  have start: "rr_start s \<in> ?W"
  proof (cases "q \<in> {Blocked, Sleep}")
    case True
    then have "nxt (thr s ?c) = 0"
      using nxt_on_list(2) [OF wf q] co q by (auto simp: current_ok_def)
    then show ?thesis using front by (simp add: rr_start_def)
  next
    case False
    then have "?c \<in> ?W"
      using q by (cases q) auto
    then show ?thesis
      using front closed [of ?c] unfolding rr_start_def by metis
  qed
  obtain r where r: "AuEDFPickNext s = Some r" "r \<noteq> 0 \<longrightarrow> r \<in> set (A Ready)"
    using AuEDFPickNext_ok [OF wf] by metis
  define s' where "s' = s\<lparr>current_thread := (if r \<noteq> 0 then r
      else next_loop (thr s) (idle_thr s) (head s Ready) (rr_start s) (rr_start s) SCHED_VALIDATE_STEPS)\<rparr>"
  have dead: "\<not> runnable (thr s t)" if "t \<in> set (A Trash)" for t
    using st [OF that] by (auto simp: runnable_def)
  have c': "current_thread s' \<in> set (A Ready)"
  proof -
    define c where
      "c = next_loop (thr s) (idle_thr s) (head s Ready) (rr_start s) (rr_start s) SCHED_VALIDATE_STEPS"
    have "c = idle_thr s \<or> (c \<in> ?W \<and> c \<noteq> 0 \<and> runnable (thr s c))"
      unfolding c_def by (rule next_loop_in) (use closed front start in blast)+
    then have "c \<in> set (A Ready)"
      using idle dead by auto
    then show ?thesis
      using r(2) by (simp add: s'_def c_def)
  qed
  have "sched_wf s' A"
    using wf sched_wf_cong [of s' s A] by (simp add: s'_def)
  then have "sched_inv s' A"
    using c' st idle by (intro sched_inv_same [OF assms]) (auto simp: s'_def current_ok_Ready)
  then show thesis
    using that c' r(1) by (simp add: AA64NextThread_def s'_def)
qed

section \<open>Every step keeps the invariant\<close>

lemma sched_inv_state:
  assumes "sched_inv s A" "\<And>q. t \<in> set (A q) \<Longrightarrow> v \<in> list_states q"
  shows "sched_inv (set_state t v s) A"
  using assms by (intro sched_inv_same [OF assms(1)]) (auto simp: sched_inv_def)

lemma sched_inv_payload:
  assumes "sched_inv s A" "sched_wf s' A" "\<And>x. state (thr s' x) = state (thr s x)"
    "idle_thr s' = idle_thr s" "current_thread s' = current_thread s"
  shows "sched_inv s' A"
  using assms by (simp add: sched_inv_def)

lemma AuScheduleThread_inv:
  assumes "sched_inv s A"
  obtains s' B where "AuScheduleThread now now' s = Some s'" "sched_inv s' B"
    "scheduler_initialized s \<Longrightarrow> current_thread s' \<in> set (B Ready)"
proof (cases "scheduler_initialized s")
  case False
  then show thesis
    using that [of s A] assms by (simp add: AuScheduleThread_def)
next
  case True
  define s0 where "s0 = (if state (thr s (current_thread s)) = THREAD_STATE_RUNNING
      then set_state (current_thread s) THREAD_STATE_READY s else s)"
  define s1 where "s1 = s0\<lparr>scheduler_tick := scheduler_tick s0 + 1\<rparr>"
  have run: "q = Ready" if "state (thr s (current_thread s)) = THREAD_STATE_RUNNING"
    "current_thread s \<in> set (A q)" for q
    using assms that unfolding sched_inv_def by (metis list_states_simps(2))
  have i0: "sched_inv s0 A"
    using assms run by (auto simp: s0_def intro!: sched_inv_state)
  then have "sched_wf s1 A"
    using sched_wf_cong [of s1 s0 A] by (simp add: s1_def sched_inv_def)
  then have i1: "sched_inv s1 A"
    by (rule sched_inv_payload [OF i0]) (simp_all add: s1_def)
  obtain s2 where s2: "AuHandleSleepThreads now' s1 = Some s2"
    "sched_inv s2 (drain Sleep (\<lambda>t. sleep_due now' (thr s1 t)) A)"
  proof -
    from i1 have "sched_wf s1 A" by (simp add: sched_inv_def)
    then obtain s2 where h: "AuHandleSleepThreads now' s1 = Some s2"
      "sched_wf s2 (drain Sleep (\<lambda>t. sleep_due now' (thr s1 t)) A)"
      "idle_thr s2 = idle_thr s1" "current_thread s2 = current_thread s1"
      "\<And>x. core (thr s2 x) =
         core (if x \<in> set (A Sleep) then after_sleep now' (thr s1 x) else thr s1 x)"
      using AuHandleSleepThreads_drains by metis
    have "state (thr s2 x) = (if x \<in> set (A Sleep) \<and> sleep_due now' (thr s1 x)
        then woken (state (thr s1 x)) else state (thr s1 x))" for x
      using core_eqD(1) [OF h(5) [of x]] by (simp add: after_sleep_def)
    then show thesis
      using that h sched_inv_drain [OF i1, of Sleep s2] by simp
  qed
  let ?B = "drain Sleep (\<lambda>t. sleep_due now' (thr s1 t)) A"
  let ?C = "drain Blocked (\<lambda>t. edf_release_due now (thr s2 t)) ?B"
  obtain s3 where s3: "AuEDFHandleReleases now s2 = Some s3" "sched_inv s3 ?C"
  proof -
    from s2(2) have "sched_wf s2 ?B" by (simp add: sched_inv_def)
    then obtain s3 where h: "AuEDFHandleReleases now s2 = Some s3" "sched_wf s3 ?C"
      "idle_thr s3 = idle_thr s2" "current_thread s3 = current_thread s2"
      "\<And>x. core (thr s3 x) =
         core (if x \<in> set (?B Blocked) then after_release now (thr s2 x) else thr s2 x)"
      using AuEDFHandleReleases_drains by metis
    have "state (thr s3 x) = (if x \<in> set (?B Blocked) \<and> edf_release_due now (thr s2 x)
        then woken (state (thr s2 x)) else state (thr s2 x))" for x
      using core_eqD(1) [OF h(5) [of x]] by (simp add: after_release_def)
    then show thesis
      using that h sched_inv_drain [OF s2(2), of Blocked s3] by simp
  qed
  obtain s4 where s4: "AA64NextThread s3 = Some s4" "sched_inv s4 ?C"
    "current_thread s4 \<in> set (?C Ready)"
    using AA64NextThread_inv [OF s3(2)] by metis
  let ?c = "current_thread s4"
  define s5 where "s5 = (if state (thr s4 ?c) = THREAD_STATE_READY
      then set_state ?c THREAD_STATE_RUNNING s4 else s4)"
  define s6 where "s6 = (if state (thr s5 ?c) = THREAD_STATE_LEFT_IN_KERNEL
      then set_state ?c THREAD_STATE_READY s5 else s5)"
  have only: "?c \<in> set (?C q) \<Longrightarrow> q = Ready" for q
    using sched_wf_unique [of s4 ?C ?c Ready q] s4(2,3) unfolding sched_inv_def by blast
  have "sched_inv s5 ?C"
    using s4(2) only by (auto simp: s5_def intro!: sched_inv_state)
  then have "sched_inv s6 ?C"
    using only by (auto simp: s6_def intro!: sched_inv_state)
  moreover have "current_thread s6 = ?c"
    by (simp add: s6_def s5_def)
  moreover have "AuScheduleThread now now' s = Some s6"
    unfolding AuScheduleThread_def Let_def s0_def [symmetric] s1_def [symmetric]
    using True s2(1) s3(1) s4(1) by (simp add: s5_def [symmetric]) (simp add: s6_def)
  ultimately show thesis
    using that s4(3) by metis
qed

lemma unlink_if_on_wf:
  assumes "sched_wf s A"
  obtains s' where "unlink_if_on q t s = Some s'"
    "sched_wf s' (if t \<in> set (A q) then take_out q t A else A)"
    "\<And>x. core (thr s' x) = core (thr s x)" "idle_thr s' = idle_thr s"
    "current_thread s' = current_thread s"
  using assms on_list_wf [OF assms, of q t]
  by (intro that [of "if t \<in> set (A q) then schedUnlink q t s else s"])
    (simp_all add: unlink_if_on_def schedUnlink_wf)

lemma AuEDFRemove_payload:
  "sched_wf (AuEDFRemove t s) A = sched_wf s A" "state (thr (AuEDFRemove t s) x) = state (thr s x)"
  "idle_thr (AuEDFRemove t s) = idle_thr s" "current_thread (AuEDFRemove t s) = current_thread s"
proof -
  show "sched_wf (AuEDFRemove t s) A = sched_wf s A"
    by (rule sched_wf_cong) (simp_all add: AuEDFRemove_def)
qed (simp_all add: AuEDFRemove_def)

lemma AuThreadMoveToTrash_wf:
  assumes "sched_wf s A" "t \<in> set (A q)" "q \<noteq> Trash" "state (thr s t) \<noteq> THREAD_STATE_KILLABLE"
  obtains s' where "AuThreadMoveToTrash t s = Some s'" "sched_wf s' (move q Trash t A)"
    "\<And>x. state (thr s' x) = (if x = t then THREAD_STATE_KILLABLE else state (thr s x))"
    "idle_thr s' = idle_thr s" "current_thread s' = current_thread s"
proof -
  define s0 where "s0 = set_state t THREAD_STATE_KILLABLE (AuEDFRemove t s)"
  have w0: "sched_wf s0 A"
    using assms(1) by (simp add: s0_def AuEDFRemove_payload)
  have on: "t \<in> set (A p) \<longleftrightarrow> p = q" for p
    using sched_wf_unique [OF assms(1,2), of p] assms(2) by auto
  have out: "t \<notin> set (take_out q t A p)" for p
    using sched_wf_distinct [OF assms(1)] on by (auto simp: take_out_def)
  let ?B = "\<lambda>qs. if q \<in> qs then take_out q t A else A"
  have step: "(if t \<in> set (?B qs p) then take_out p t (?B qs) else ?B qs) = ?B (insert p qs)"
    if "p \<notin> qs" for p qs
    using on out that by auto
  obtain s1 where s1: "unlink_if_on Ready t s0 = Some s1" "sched_wf s1 (?B {Ready})"
    "\<And>x. core (thr s1 x) = core (thr s0 x)" "idle_thr s1 = idle_thr s0" "current_thread s1 = current_thread s0"
    by (rule unlink_if_on_wf [of s0 "?B {}" Ready t]) (use w0 step [of Ready "{}"] in simp_all)
  obtain s2 where s2: "unlink_if_on Blocked t s1 = Some s2" "sched_wf s2 (?B {Blocked, Ready})"
    "\<And>x. core (thr s2 x) = core (thr s1 x)" "idle_thr s2 = idle_thr s1" "current_thread s2 = current_thread s1"
    using step [of Blocked "{Ready}"] by (rule_tac unlink_if_on_wf [OF s1(2), of Blocked t]) simp_all
  obtain s3 where s3: "unlink_if_on Sleep t s2 = Some s3" "sched_wf s3 (?B {Sleep, Blocked, Ready})"
    "\<And>x. core (thr s3 x) = core (thr s2 x)" "idle_thr s3 = idle_thr s2" "current_thread s3 = current_thread s2"
    using step [of Sleep "{Blocked, Ready}"] by (rule_tac unlink_if_on_wf [OF s2(2), of Sleep t]) simp_all
  have w3: "sched_wf s3 (take_out q t A)"
    using s3(2) assms(3) by (cases q) auto
  have t0: "t \<noteq> 0"
    using sched_wf_nonzero [OF assms(1,2)] .
  have "sched_wf (schedLink Trash t s3) (move q Trash t A)"
    unfolding move_def using w3 t0 out by (rule schedLink_wf)
  moreover have "AuThreadMoveToTrash t s = Some (schedLink Trash t s3)"
    using t0 assms(4) s1(1) s2(1) s3(1) by (simp add: AuThreadMoveToTrash_def s0_def)
  moreover have "state (thr s3 x) = state (thr s0 x)" for x
    using core_eqD(1) s1(3) s2(3) s3(3) by metis
  then have "state (thr (schedLink Trash t s3) x) =
      (if x = t then THREAD_STATE_KILLABLE else state (thr s x))" for x
    by (simp add: s0_def AuEDFRemove_payload)
  ultimately show thesis
    using that s1 s2 s3 by (simp add: s0_def AuEDFRemove_payload)
qed

lemma AuScheduleNext_inv:
  assumes "sched_inv s A" "current_thread s \<notin> set (A Trash)"
  shows "sched_inv (AuScheduleNext s) A"
proof (cases "scheduler_initialized s")
  case True
  have "idle_thr s \<in> set (A Ready)" "sched_wf s A"
    using assms(1) by (simp_all add: sched_inv_def)
  moreover have "sched_wf (AuScheduleNext s) A"
    using sched_wf_cong [of "AuScheduleNext s" s A] calculation(2) by (simp add: AuScheduleNext_def)
  moreover have "state (thr (AuScheduleNext s) x) \<in> list_states q" if "x \<in> set (A q)" for x q
    using assms that True by (auto simp: AuScheduleNext_def sched_inv_def)
  ultimately show ?thesis
    using True by (intro sched_inv_same [OF assms(1)]) (simp_all add: AuScheduleNext_def current_ok_Ready)
qed (use assms in \<open>simp add: AuScheduleNext_def\<close>)

lemma sched_inv_D:
  assumes "sched_inv s A"
  shows "sched_wf s A" "t \<in> set (A q) \<Longrightarrow> state (thr s t) \<in> list_states q"
    "idle_thr s \<in> set (A Ready)" "current_ok (current_thread s) A"
  using assms by (simp_all add: sched_inv_def)

lemma AuBlockThread_inv:
  assumes "sched_inv s A" "current_thread s \<in> set (A Ready)" "current_thread s \<noteq> idle_thr s"
  shows "sched_inv (AuBlockThread (current_thread s) s) (move Ready Blocked (current_thread s) A)"
  using AuBlockThread_wf [OF sched_inv_D(1) [OF assms(1)] assms(2)] assms
  by (intro sched_inv_move [OF assms(1,2), where v = THREAD_STATE_BLOCKED])
    (simp_all add: AuBlockThread_def)

lemma AuSleepThread_inv:
  assumes "sched_inv s A" "current_thread s \<in> set (A Ready)" "current_thread s \<noteq> idle_thr s"
  shows "sched_inv (AuSleepThread now (current_thread s) ms s) (move Ready Sleep (current_thread s) A)"
  using AuSleepThread_wf [OF sched_inv_D(1) [OF assms(1)] assms(2), of now ms] assms
  by (intro sched_inv_move [OF assms(1,2), where v = THREAD_STATE_SLEEP])
    (simp_all add: AuSleepThread_def)

lemma set_move_Ready:
  assumes "sched_wf s A" "t \<in> set (A Ready)" "r \<noteq> Ready" "r \<noteq> Trash"
  shows "t \<notin> set (move Ready r t A Trash)"
  using sched_wf_unique [OF assms(1,2), of Trash] assms
  by (auto simp: set_move [OF sched_wf_distinct [OF assms(1)]])

lemma current_ok_mono:
  assumes "current_ok c A" "\<And>q. c \<in> set (A q) \<Longrightarrow> c \<in> set (B q)"
    and "B Blocked = A Blocked" "B Sleep = A Sleep"
  shows "current_ok c B"
proof -
  obtain q where "c \<in> set (A q)"
    using assms(1) unfolding current_ok_def by blast
  then have "c \<in> set (B q)"
    by (rule assms(2))
  then show ?thesis
    using assms(1,3,4) unfolding current_ok_def by auto
qed

lemma create_inv:
  assumes "sched_inv s A" "t \<noteq> 0" "\<And>q. on_list (thr s) (head s q) t = Some False"
  shows "sched_inv (AuCreateKthread t s) (put_last Ready t A)"
proof -
  note inv = sched_inv_D [OF assms(1)]
  have out: "t \<notin> set (A q)" for q
    using assms(3) [of q] on_list_wf [OF inv(1), of q t] by simp
  note c = AuCreateKthread_wf [OF inv(1) assms(2) out]
  have set_B: "set (put_last Ready t A q) = (if q = Ready then insert t (set (A q)) else set (A q))" for q
    by (auto simp: put_last_def)
  have "state (thr (AuCreateKthread t s) x) \<in> list_states q" if "x \<in> set (put_last Ready t A q)" for x q
    using that inv(2) out by (auto simp: c(2) set_B split: if_splits)
  moreover have "current_ok (current_thread s) (put_last Ready t A)"
    by (rule current_ok_mono [OF inv(4)]) (auto simp: set_B, simp_all add: put_last_def)
  ultimately show ?thesis
    using c(1) inv(3) by (simp add: sched_inv_def set_B) (simp add: AuCreateKthread_def)
qed

lemma reap_inv:
  assumes "sched_inv s A" "t \<in> set (A Trash)" "t \<noteq> current_thread s"
  shows "sched_inv (AuThreadCleanTrash t s) (take_out Trash t A)"
proof -
  note inv = sched_inv_D [OF assms(1)]
  have set_B: "set (take_out Trash t A q) = (if q = Trash then set (A q) - {t} else set (A q))" for q
    using sched_wf_distinct [OF inv(1)] by (simp add: take_out_def)
  have "current_ok (current_thread s) (take_out Trash t A)"
    using assms(3) by (intro current_ok_mono [OF inv(4)]) (auto simp: set_B, simp_all add: take_out_def)
  then show ?thesis
    using schedUnlink_wf [OF inv(1) assms(2)] inv(2,3)
    by (simp add: sched_inv_def AuThreadCleanTrash_def set_B)
qed

lemma yield_inv:
  assumes "sched_inv s A" and yield: "listed Ready (current_thread s) s" "AuSchedYieldMs now ms s = (r, s')"
  shows "\<exists>B. sched_inv s' B"
proof -
  note inv = sched_inv_D [OF assms(1)]
  note on = listed_iff [OF inv(1)]
  let ?c = "current_thread s"
  let ?z = "AuSleepThread now ?c (if ms = 0 then 1 else ms) s"
  show ?thesis
  proof (cases "scheduler_initialized s \<and> ?c \<noteq> 0 \<and> ?c \<noteq> idle_thr s")
    case True
    have r: "?c \<in> set (A Ready)" using yield on by blast
    have "sched_inv ?z (move Ready Sleep ?c A)"
      using AuSleepThread_inv [OF assms(1) r] True by blast
    moreover have "current_thread ?z = ?c" by (simp add: AuSleepThread_def)
    ultimately have "sched_inv (AuScheduleNext ?z) (move Ready Sleep ?c A)"
      using set_move_Ready [OF inv(1) r, of Sleep] by (intro AuScheduleNext_inv) auto
    moreover have "s' = AuScheduleNext ?z"
      using yield True by (auto simp: AuSchedYieldMs_def)
    ultimately show ?thesis by blast
  next
    case False
    then have "s' = s" using yield by (auto simp: AuSchedYieldMs_def split: if_splits)
    then show ?thesis using assms(1) by blast
  qed
qed

lemma unblock_inv:
  assumes "sched_inv s A" and unblock: "\<not> listed Trash t s"
    "listed Sleep t s \<Longrightarrow> state (thr s t) = THREAD_STATE_LEFT_IN_KERNEL" "AuUnblockThread t s = Some s'"
  shows "\<exists>B. sched_inv s' B"
proof -
  note inv = sched_inv_D [OF assms(1)]
  note on = listed_iff [OF inv(1)]
  obtain z where z: "AuUnblockThread t s = Some z"
    "sched_wf z (if t \<in> set (A Blocked) then move Blocked Ready t A else A)"
    "\<And>x. core (thr z x) =
       core (if x = t then thr s t\<lparr>state := woken (state (thr s t))\<rparr> else thr s x)"
    "idle_thr z = idle_thr s" "current_thread z = current_thread s"
    using AuUnblockThread_wf [OF inv(1), of t] by metis
  have st: "state (thr z x) = (if x = t then woken (state (thr s t)) else state (thr s x))" for x
    using core_eqD(1) [OF z(3) [of x]] by simp
  have "\<exists>B. sched_inv z B"
  proof (cases "t \<in> set (A Blocked)")
    case True
    then have "sched_inv z (move Blocked Ready t A)"
      using sched_inv_move [OF assms(1) True, of Ready z "woken (state (thr s t))"] z st by simp
    then show ?thesis by blast
  next
    case False
    have "state (thr z x) \<in> list_states q" if x: "x \<in> set (A q)" for q x
    proof (cases "x = t")
      case True
      then have "q = Ready \<or> q = Sleep" using False unblock(1) x on by (cases q) auto
      then show ?thesis using True unblock(2) x on st [of x] by (auto simp: woken_def)
    next
      case False
      then show ?thesis using inv(2) [OF x] st by simp
    qed
    then have "sched_inv z A" using False inv z by (auto simp: sched_inv_def)
    then show ?thesis by blast
  qed
  then show ?thesis using unblock(3) z(1) by auto
qed

lemma wake_poller_inv:
  assumes "sched_inv s A" and wake_poller: "AuThreadWakePoller t s = Some s'"
  shows "\<exists>B. sched_inv s' B"
proof -
  note inv = sched_inv_D [OF assms(1)]
  note on = listed_iff [OF inv(1)]
  obtain z where z: "AuThreadWakePoller t s = Some z"
    "sched_wf z (if t = 0 \<or> \<not> blocked_on_poll (thr s t) then A
                else if t \<in> set (A Blocked) then move Blocked Ready t A
                else if t \<in> set (A Sleep) then move Sleep Ready t A else A)"
    "\<And>x. state (thr z x) =
         (if x = t \<and> t \<noteq> 0 \<and> blocked_on_poll (thr s t) \<and> t \<in> set (A Blocked) \<union> set (A Sleep)
          then woken (state (thr s t)) else state (thr s x))"
    "idle_thr z = idle_thr s" "current_thread z = current_thread s"
    using AuThreadWakePoller_wf [OF inv(1)] by metis
  show ?thesis
  proof (cases "t \<noteq> 0 \<and> blocked_on_poll (thr s t) \<and> t \<in> set (A Blocked) \<union> set (A Sleep)")
    case False
    then have "sched_inv z A"
      using z by (intro sched_inv_payload [OF assms(1)]) (auto split: if_splits)
    then show ?thesis using wake_poller z(1) by auto
  next
    case True
    define q where "q = (if t \<in> set (A Blocked) then Blocked else Sleep)"
    have q: "t \<in> set (A q)" "sched_wf z (move q Ready t A)" "q \<noteq> Ready"
      using True z(2) by (auto simp: q_def)
    have "sched_inv z (move q Ready t A)"
      using sched_inv_move [OF assms(1) q(1,3), of z "woken (state (thr s t))"] q z(3-5) True by simp
    then show ?thesis using wake_poller z(1) by auto
  qed
qed

lemma make_ready_inv:
  assumes "sched_inv s A" and make_ready: "listed q t s" "AuThreadMakeReady t s = Some s'"
  shows "\<exists>B. sched_inv s' B"
proof -
  note inv = sched_inv_D [OF assms(1)]
  note on = listed_iff [OF inv(1)]
  have t: "t \<in> set (A q)" using make_ready on by blast
  then have in_q: "state (thr s t) \<in> list_states q" by (rule inv(2))
  let ?v = "state (thr s t)"
  have "?v = THREAD_STATE_SLEEP \<longrightarrow> t \<in> set (A Sleep)"
    using t in_q by auto
  then obtain z where z: "AuThreadMakeReady t s = Some z"
    "sched_wf z (if ?v = THREAD_STATE_SLEEP then move Sleep Ready t A
                else if ?v = THREAD_STATE_BLOCKED \<and> t \<in> set (A Blocked)
                then move Blocked Ready t A else A)"
    "\<And>x. state (thr z x) =
         (if x = t \<and> ?v \<in> {THREAD_STATE_SLEEP, THREAD_STATE_BLOCKED}
          then THREAD_STATE_READY else state (thr s x))"
    "idle_thr z = idle_thr s" "current_thread z = current_thread s"
    using AuThreadMakeReady_wf [OF inv(1)] by metis
  show ?thesis
  proof (cases "?v \<in> {THREAD_STATE_SLEEP, THREAD_STATE_BLOCKED}")
    case False
    then have "sched_inv z A"
      using z by (intro sched_inv_payload [OF assms(1)]) (auto split: if_splits)
    then show ?thesis using make_ready z(1) by auto
  next
    case True
    have "q = Sleep \<and> ?v = THREAD_STATE_SLEEP \<or> q = Blocked \<and> ?v = THREAD_STATE_BLOCKED"
      using True in_q by auto
    then have q: "sched_wf z (move q Ready t A)" "q \<noteq> Ready"
      using z(2) t by (auto simp: thread_states)
    have "sched_inv z (move q Ready t A)"
      using sched_inv_move [OF assms(1) t q(2), of z THREAD_STATE_READY] q z(3-5) True by simp
    then show ?thesis using make_ready z(1) by auto
  qed
qed

lemma trash_inv:
  assumes "sched_inv s A" and trash: "listed q t s" "t \<noteq> idle_thr s" "AuThreadMoveToTrash t s = Some s'"
  shows "\<exists>B. sched_inv s' B"
proof -
  note inv = sched_inv_D [OF assms(1)]
  note on = listed_iff [OF inv(1)]
  show ?thesis
  proof (cases "q = Trash \<or> state (thr s t) = THREAD_STATE_KILLABLE")
    case True
    then have "state (thr s t) = THREAD_STATE_KILLABLE"
      using trash on inv(2) [of t Trash] by (auto simp: list_states.simps)
    then have "s' = s" using trash by (simp add: AuThreadMoveToTrash_def split: if_splits)
    then show ?thesis using assms(1) by blast
  next
    case False
    have t: "t \<in> set (A q)" using trash on by blast
    obtain z where z: "AuThreadMoveToTrash t s = Some z" "sched_wf z (move q Trash t A)"
      "\<And>x. state (thr z x) = (if x = t then THREAD_STATE_KILLABLE else state (thr s x))"
      "idle_thr z = idle_thr s" "current_thread z = current_thread s"
      using AuThreadMoveToTrash_wf [OF inv(1) t] False by metis
    then have "sched_inv z (move q Trash t A)"
      using sched_inv_move [OF assms(1) t, of Trash z THREAD_STATE_KILLABLE] False trash by simp
    then show ?thesis using trash z(1) by auto
  qed
qed

lemma admit_inv:
  assumes "sched_inv s A" and admit: "AuEDFSetParams now t p w s = (r, s')"
  shows "\<exists>B. sched_inv s' B"
proof -
  note inv = sched_inv_D [OF assms(1)]
  have "sched_wf s' A = sched_wf s A"
    using admit by (intro sched_wf_cong) (auto simp: AuEDFSetParams_def Let_def split: if_splits)
  moreover have "state (thr s' x) = state (thr s x)" "idle_thr s' = idle_thr s"
    "current_thread s' = current_thread s" for x
    using admit by (auto simp: AuEDFSetParams_def Let_def split: if_splits)
  ultimately show ?thesis using sched_inv_payload [OF assms(1)] inv(1) by blast
qed

lemma start_inv:
  assumes "sched_inv s A"
  shows "sched_inv (AuSchedulerStart s) A"
proof (rule sched_inv_payload [OF assms])
  show "sched_wf (AuSchedulerStart s) A"
    using sched_inv_D(1) [OF assms] sched_wf_cong [of "AuSchedulerStart s" s A]
    by (simp add: AuSchedulerStart_def)
qed (simp_all add: AuSchedulerStart_def)

lemma drop_inv: "sched_inv s A \<Longrightarrow> sched_inv (AuEDFRemove t s) A"
  using sched_inv_payload sched_inv_D(1) AuEDFRemove_payload by metis

lemma end_period_inv:
  assumes "sched_inv s A" and end_period: "listed Ready (current_thread s) s" "current_thread s \<noteq> idle_thr s"
    "s' = AuEDFWaitPeriod now (current_thread s) s"
  shows "\<exists>B. sched_inv s' B"
proof -
  note inv = sched_inv_D [OF assms(1)]
  note on = listed_iff [OF inv(1)]
  let ?c = "current_thread s"
  let ?z = "on_thread ?c (edf_next_job now) s"
  show ?thesis
  proof (cases "?c \<noteq> 0 \<and> edf_enabled (thr s ?c)")
    case True
    have r: "?c \<in> set (A Ready)" using end_period on by blast
    have job: "nxt (edf_next_job now x) = nxt x" "prv (edf_next_job now x) = prv x"
      "state (edf_next_job now x) = state x" for x
      by (simp_all add: edf_next_job_def Let_def)
    then have "sched_inv ?z A"
      using inv(1) by (intro sched_inv_payload [OF assms(1)]) simp_all
    then have "sched_inv (AuBlockThread ?c ?z) (move Ready Blocked ?c A)"
      using AuBlockThread_inv [of ?z A] r end_period by simp
    moreover have "current_thread (AuBlockThread ?c ?z) = ?c" by (simp add: AuBlockThread_def)
    ultimately have "sched_inv (AuScheduleNext (AuBlockThread ?c ?z)) (move Ready Blocked ?c A)"
      using set_move_Ready [OF inv(1) r, of Blocked] by (intro AuScheduleNext_inv) auto
    then show ?thesis
      using end_period True by (auto simp: AuEDFWaitPeriod_def)
  next
    case False
    then have "s' = s" using end_period by (auto simp: AuEDFWaitPeriod_def)
    then show ?thesis using assms(1) by blast
  qed
qed

lemma tick_inv: "sched_inv s A \<Longrightarrow> AuScheduleThread now now' s = Some s' \<Longrightarrow> \<exists>B. sched_inv s' B"
  using AuScheduleThread_inv by (metis option.inject)

lemma sched_step_inv:
  assumes "sched_step s s'" "sched_inv s A"
  shows "\<exists>B. sched_inv s' B"
  using assms(1)
proof cases
  case (make_ready q t)
  then show ?thesis using make_ready_inv [OF assms(2)] by blast
next
  case (trash q t)
  then show ?thesis using trash_inv [OF assms(2)] by blast
qed (use assms(2) listed_iff [OF sched_inv_D(1) [OF assms(2)]] in
    \<open>blast intro: create_inv start_inv AuBlockThread_inv AuSleepThread_inv AuScheduleNext_inv
      yield_inv unblock_inv wake_poller_inv reap_inv admit_inv drop_inv end_period_inv tick_inv\<close>)+

section \<open>The consistency check\<close>

lemma dl_unique:
  "dl h p xs 0 \<Longrightarrow> dl h q ys 0 \<Longrightarrow> first xs 0 = first ys 0 \<Longrightarrow> xs = ys"
proof (induction xs arbitrary: p q ys)
  case Nil
  then show ?case by (cases ys) auto
next
  case (Cons x xs)
  then obtain zs where ys: "ys = x # zs" by (cases ys) auto
  then have "xs = zs"
    using Cons.prems by (intro Cons.IH [of x x]) auto
  then show ?case using ys by simp
qed

lemma dl_distinct: "dl h p xs 0 \<Longrightarrow> distinct xs"
proof (induction xs arbitrary: p)
  case (Cons x xs)
  have "x \<notin> set xs"
  proof
    assume "x \<in> set xs"
    then obtain as bs where xs: "xs = as @ x # bs" using split_list by metis
    then have "dl h x xs 0" "dl h x bs 0" "first xs 0 = first bs 0"
      using Cons.prems by auto
    then have "xs = bs" by (rule dl_unique)
    then show False using xs by simp
  qed
  then show ?case using Cons by auto
qed simp

lemma validate_walk_iff:
  "validate_walk h ok p prev c n = Some (l, c') \<longleftrightarrow>
     (\<exists>xs. dl h prev xs 0 \<and> p = first xs 0 \<and> length xs \<le> n \<and> (\<forall>x \<in> set xs. state (h x) \<in> ok) \<and>
           l = lastp prev xs \<and> c' = c + length xs)"
proof (induction n arbitrary: p prev c)
  case 0
  show ?case by (cases "p = 0") (auto simp: validate_walk.simps)
next
  case (Suc n)
  show ?case
  proof (cases "p = 0")
    case True
    have "first xs 0 = 0 \<longleftrightarrow> xs = []" if "dl h prev xs 0" for xs
      using that by (rule dlinks_first_zero)
    then show ?thesis using True by (auto simp: validate_walk.simps)
  next
    case False
    have "(\<exists>xs. dl h prev xs 0 \<and> p = first xs 0 \<and> length xs \<le> Suc n \<and>
        (\<forall>x \<in> set xs. state (h x) \<in> ok) \<and> l = lastp prev xs \<and> c' = c + length xs) \<longleftrightarrow>
      prv (h p) = prev \<and> state (h p) \<in> ok \<and>
      (\<exists>ys. dl h p ys 0 \<and> nxt (h p) = first ys 0 \<and> length ys \<le> n \<and>
        (\<forall>x \<in> set ys. state (h x) \<in> ok) \<and> l = lastp p ys \<and> c' = c + 1 + length ys)"
      (is "?L \<longleftrightarrow> ?R")
    proof
      assume ?L
      then obtain xs where xs: "dl h prev xs 0" "p = first xs 0" "length xs \<le> Suc n"
        "\<forall>x \<in> set xs. state (h x) \<in> ok" "l = lastp prev xs" "c' = c + length xs" by blast
      from xs(2) False obtain ys where ys: "xs = p # ys" by (cases xs) auto
      show ?R
        using xs(1,3-6) unfolding ys by (intro conjI exI [of _ ys]) simp_all
    next
      assume R: ?R
      then obtain ys where "dl h p ys 0" "nxt (h p) = first ys 0" "length ys \<le> n"
        "\<forall>x \<in> set ys. state (h x) \<in> ok" "l = lastp p ys" "c' = c + 1 + length ys" by blast
      then show ?L using R False by (intro exI [of _ "p # ys"] conjI) simp_all
    qed
    then show ?thesis
      using False Suc.IH [of "nxt (h p)" p "c + 1"] by (simp add: validate_walk.simps [of h ok p])
  qed
qed

lemma schedValidateOne_iff:
  "schedValidateOne q ok s = (True, c) \<longleftrightarrow>
     (\<exists>xs. list_at s q xs \<and> length xs \<le> SCHED_VALIDATE_STEPS \<and>
        (\<forall>x \<in> set xs. state (thr s x) \<in> ok) \<and> c = length xs)"
proof -
  have tail: "lastp 0 xs = 0 \<or> nxt (thr s (lastp 0 xs)) = 0" if "dl (thr s) 0 xs 0" for xs
    using that by (cases xs rule: rev_cases) auto
  show ?thesis (is "?L \<longleftrightarrow> ?R")
  proof
    assume ?L
    then obtain l where w: "validate_walk (thr s) ok (head s q) 0 0 SCHED_VALIDATE_STEPS = Some (l, c)"
      "l = tail s q"
      by (auto simp: schedValidateOne_def split: option.splits)
    then obtain xs where "dl (thr s) 0 xs 0" "head s q = first xs 0" "length xs \<le> SCHED_VALIDATE_STEPS"
      "\<forall>x \<in> set xs. state (thr s x) \<in> ok" "l = lastp 0 xs" "c = length xs"
      unfolding validate_walk_iff by auto
    then show ?R
      using w(2) dl_distinct by (intro exI [of _ xs]) (auto simp: list_at_def)
  next
    assume ?R
    then obtain xs where xs: "list_at s q xs" "length xs \<le> SCHED_VALIDATE_STEPS"
      "\<forall>x \<in> set xs. state (thr s x) \<in> ok" "c = length xs" by blast
    then have "validate_walk (thr s) ok (head s q) 0 0 SCHED_VALIDATE_STEPS = Some (tail s q, c)"
      unfolding validate_walk_iff list_at_def by (intro exI [of _ xs]) simp
    then show ?L
      using tail [of xs] xs(1) by (auto simp: schedValidateOne_def list_at_def)
  qed
qed

lemma schedValidateLists_intro:
  assumes "\<And>q. list_at s q (A q)" "\<And>q. length (A q) \<le> 8192"
    "\<And>q t. t \<in> set (A q) \<Longrightarrow> state (thr s t) \<in> list_states q" "x \<in> set (A q)"
  shows "AuSchedValidateLists s"
proof -
  have v: "schedValidateOne q (list_states q) s = (True, length (A q))" for q
    using assms(1-3) unfolding schedValidateOne_iff SCHED_VALIDATE_STEPS_def by blast
  have "0 < length (A Ready) + length (A Blocked) + length (A Sleep) + length (A Trash)"
    using assms(4) by (cases q) auto
  then show ?thesis
    by (simp add: AuSchedValidateLists_def v)
qed

text \<open>
  C20. The consistency check is exact: it passes if and only if each of the four heads and
  tails delimits a doubly linked list without repetition, of at most 8192 threads in states
  that list may hold, and at least one thread is listed.
\<close>

theorem AuSchedValidateLists_iff:
  "AuSchedValidateLists s \<longleftrightarrow>
     (\<exists>A. (\<forall>q. list_at s q (A q) \<and> length (A q) \<le> 8192 \<and>
              (\<forall>t \<in> set (A q). state (thr s t) \<in> list_states q)) \<and>
          (\<exists>q. A q \<noteq> []))"
  (is "?L \<longleftrightarrow> ?R")
proof
  let ?one = "\<lambda>q xs. list_at s q xs \<and> length xs \<le> SCHED_VALIDATE_STEPS \<and>
      (\<forall>t \<in> set xs. state (thr s t) \<in> list_states q)"
  {
    assume ?L
    then obtain a b c d where v: "schedValidateOne Ready (list_states Ready) s = (True, a)"
      "schedValidateOne Blocked (list_states Blocked) s = (True, b)"
      "schedValidateOne Sleep (list_states Sleep) s = (True, c)"
      "schedValidateOne Trash (list_states Trash) s = (True, d)" "a + b + c + d > 0"
      by (auto simp: AuSchedValidateLists_def split: prod.splits)
    obtain xs ys zs ws where l: "?one Ready xs" "?one Blocked ys" "?one Sleep zs" "?one Trash ws"
      "length xs = a" "length ys = b" "length zs = c" "length ws = d"
      using v(1-4) unfolding schedValidateOne_iff by blast
    define A where "A = (\<lambda>q. case q of Ready \<Rightarrow> xs | Blocked \<Rightarrow> ys | Sleep \<Rightarrow> zs | Trash \<Rightarrow> ws)"
    have "?one q (A q)" for q
      using l(1-4) by (cases q) (simp_all add: A_def)
    moreover have "A Ready = xs" "A Blocked = ys" "A Sleep = zs" "A Trash = ws"
      by (simp_all add: A_def)
    then have "\<exists>q. A q \<noteq> []"
      using v(5) l(5-8) by (metis add_is_0 less_numeral_extra(3) list.size(3))
    ultimately show ?R
      unfolding SCHED_VALIDATE_STEPS_def by blast
  next
    assume ?R
    then obtain A q where A: "\<And>q. ?one q (A q)" "A q \<noteq> []"
      unfolding SCHED_VALIDATE_STEPS_def by blast
    then obtain x where "x \<in> set (A q)"
      by (cases "A q") auto
    then show ?L
      using A(1) schedValidateLists_intro [of s A x q] by (simp add: SCHED_VALIDATE_STEPS_def)
  }
qed

section \<open>Reachable states\<close>

lemma sched_steps_inv: "sched_step\<^sup>*\<^sup>* s s' \<Longrightarrow> sched_inv s A \<Longrightarrow> \<exists>B. sched_inv s' B"
  by (induction arbitrary: A rule: converse_rtranclp_induct) (auto dest: sched_step_inv)

lemma AuSchedulerInitialize_inv:
  assumes "t \<noteq> 0"
  shows "sched_inv (AuSchedulerInitialize t mem) (put_last Ready t nobody)"
proof -
  note init = AuSchedulerInitialize_wf [OF assms]
  have "set (put_last Ready t nobody q) = (if q = Ready then {t} else {})" for q
    by (simp add: put_last_def nobody_def)
  then show ?thesis
    using init by (simp add: sched_inv_def current_ok_def)
qed


text \<open>What the check reports when one listed thread has a state its list may not hold.\<close>

lemma schedValidateLists_fails:
  assumes "sched_wf s A" "t \<in> set (A q)" "state (thr s t) \<notin> list_states q"
  shows "\<not> AuSchedValidateLists s"
proof
  assume "AuSchedValidateLists s"
  then obtain c where "schedValidateOne q (list_states q) s = (True, c)"
    by (cases q) (auto simp: AuSchedValidateLists_def split: prod.splits)
  then obtain xs where xs: "list_at s q xs" "\<forall>x \<in> set xs. state (thr s x) \<in> list_states q"
    unfolding schedValidateOne_iff by blast
  have "list_at s q (A q)" using assms(1) by (simp add: sched_wf_def)
  then have "dl (thr s) 0 (A q) 0" "head s q = first (A q) 0" by (simp_all add: list_at_def)
  moreover have "dl (thr s) 0 xs 0" "head s q = first xs 0" using xs(1) by (simp_all add: list_at_def)
  ultimately have "xs = A q" by (intro dl_unique [of "thr s" 0 xs 0 "A q"]) simp_all
  then show False using xs(2) assms(2,3) by blast
qed

text \<open>
  \<open>AuExitSubThread\<close> marks the thread before it calls \<open>AuThreadMoveToTrash\<close>, which then does
  nothing: the thread stays on its list and the consistency check fails from then on.
\<close>

theorem AuExitSubThread_leaves_thread_listed:
  assumes "sched_wf s A" "t \<in> set (A q)" "q \<noteq> Trash" "t \<in> set threads" "thread_id (thr s t) = i"
  shows "\<exists>s'. AuExitSubThread threads t i s = Some s' \<and> sched_wf s' A \<and>
    state (thr s' t) = THREAD_STATE_KILLABLE \<and> \<not> AuSchedValidateLists s'"
proof -
  have "t \<noteq> 0" using sched_wf_nonzero [OF assms(1,2)] .
  then have "AuExitSubThread threads t i s = Some (set_state t THREAD_STATE_KILLABLE s)"
    using assms(4,5) by (auto simp: AuExitSubThread_def AuThreadMoveToTrash_def list_ex_iff)
  then show ?thesis
    using assms(1-3) schedValidateLists_fails [of "set_state t THREAD_STATE_KILLABLE s" A t q] by simp
qed

text \<open>
  A wake of a thread in the trash gives it the ready state there; \<open>AuProcessWakeWaiters\<close> makes
  such a call when a waiter was killed while it waited.
\<close>

theorem AuUnblockThread_of_killed:
  assumes "sched_wf s A" "t \<in> set (A Trash)" "state (thr s t) = THREAD_STATE_KILLABLE"
  shows "\<exists>s'. AuUnblockThread t s = Some s' \<and> sched_wf s' A \<and> \<not> AuSchedValidateLists s'"
proof -
  have nb: "t \<notin> set (A Blocked)" using sched_wf_unique [OF assms(1,2)] by blast
  obtain z where z: "AuUnblockThread t s = Some z" "sched_wf z A"
    "core (thr z t) = core (thr s t\<lparr>state := woken (state (thr s t))\<rparr>)"
    using AuUnblockThread_wf [OF assms(1), of t] nb by metis
  have "state (thr z t) = THREAD_STATE_READY"
    using core_eqD(1) [OF z(3)] assms(3) by (simp add: woken_def thread_states)
  then have "\<not> AuSchedValidateLists z"
    using schedValidateLists_fails [OF z(2) assms(2)] by simp
  with z(1,2) show ?thesis by blast
qed


text \<open>
  A thread that yields for some time is parked with a state of its own, so it counts
  neither as asleep nor as blocked: a call to make it ready, which is how a signal wakes
  its receiver, leaves it where it is, on the sleep list.
\<close>

theorem yielded_thread_not_made_ready:
  assumes "sched_wf s A" "current_thread s \<in> set (A Ready)" "scheduler_initialized s"
    "current_thread s \<noteq> idle_thr s"
  shows "\<exists>s'. AuSchedYieldMs now ms s = (0, s') \<and> listed Sleep (current_thread s) s' \<and>
    AuThreadMakeReady (current_thread s) s' = Some s'"
proof -
  let ?c = "current_thread s"
  let ?z = "AuSleepThread now ?c (if ms = 0 then 1 else ms) s"
  have c: "?c \<noteq> 0" "current_thread ?z = ?c" "scheduler_initialized ?z"
    using sched_wf_nonzero [OF assms(1,2)] assms(3) by (simp_all add: AuSleepThread_def)
  have "sched_wf (AuScheduleNext ?z) (move Ready Sleep ?c A)"
    using AuSleepThread_wf(1) [OF assms(1,2), of now] sched_wf_cong [of "AuScheduleNext ?z" ?z]
    by (simp add: AuScheduleNext_def)
  then have "listed Sleep ?c (AuScheduleNext ?z)"
    by (simp add: listed_iff move_def put_last_def)
  moreover have "state (thr (AuScheduleNext ?z) ?c) = THREAD_STATE_LEFT_IN_KERNEL"
    using c by (simp add: AuScheduleNext_def)
  ultimately show ?thesis
    using assms(3,4) c(1) by (simp add: AuSchedYieldMs_def AuThreadMakeReady_def thread_states)
qed

section \<open>Concrete instances\<close>

lemma sched_wf_functional:
  assumes "sched_wf s A" "sched_wf s B"
  shows "A = B"
proof
  fix q
  show "A q = B q"
    using assms dl_unique [of "thr s" 0 "A q" 0 "B q"] by (simp add: sched_wf_def list_at_def)
qed


theorem AuSchedValidateLists_iff_witness: "AuSchedValidateLists demo_sched"
proof -
  have "list_at demo_sched q (demo_lists q)" for q
    using demo_sched_wf by (simp add: sched_wf_def)
  moreover have "length (demo_lists q) \<le> 8192" "t \<in> set (demo_lists q) \<Longrightarrow>
      state (thr demo_sched t) \<in> list_states q" for q t
    by (auto simp: demo_lists_def nobody_def demo_sched_payload simp del: One_nat_def split: if_splits)
  moreover have "demo_lists Ready \<noteq> []"
    by (simp add: demo_lists_def)
  ultimately show ?thesis
    unfolding AuSchedValidateLists_iff by blast
qed


theorem yielded_thread_not_made_ready_witness:
  "\<exists>s'. AuSchedYieldMs 0 5 demo_sched = (0, s') \<and> AuThreadMakeReady 2 s' = Some s'"
  using yielded_thread_not_made_ready [OF demo_sched_wf, of 0 5]
  by (auto simp: demo_sched_payload demo_lists_def)

end
