(* ===== verification/WaitQ.thy ===== *)
theory WaitQ
  imports Dispatch Process
begin

text \<open>
  Wait queues (KernelAA64/Sync/waitq.c), the poll tables built on them and the scan of the
  poll system call (KernelAA64/Sync/poll.c). The entries live in a store indexed by address,
  a queue is the cell of its head pointer; waking hands the threads of the entries to
  \<open>AuThreadWakePoller\<close> of the scheduler. \<open>live\<close> is the set of entries that are allocated.
\<close>

section \<open>The operations\<close>

record AuWaitQEntry =
  e_thread :: nat
  e_queue :: nat
  e_next :: nat
  e_prev :: nat
  owner_next :: nat

record AuWaitQueue =
  wents :: "nat \<Rightarrow> AuWaitQEntry"
  qhead :: "nat \<Rightarrow> nat"
  live :: "nat set"
  wsched :: Sched

definition on_ent :: "nat \<Rightarrow> (AuWaitQEntry \<Rightarrow> AuWaitQEntry) \<Rightarrow> AuWaitQueue \<Rightarrow> AuWaitQueue" where
  "on_ent e f w = w\<lparr>wents := (wents w)(e := f (wents w e))\<rparr>"

definition set_qhead :: "nat \<Rightarrow> nat \<Rightarrow> AuWaitQueue \<Rightarrow> AuWaitQueue" where
  "set_qhead q v w = w\<lparr>qhead := (qhead w)(q := v)\<rparr>"

definition AuWaitQueueInitialize :: "nat \<Rightarrow> AuWaitQueue \<Rightarrow> AuWaitQueue" where
  "AuWaitQueueInitialize q w = (if q = 0 then w else set_qhead q 0 w)"

definition AuWaitQueueAdd :: "nat \<Rightarrow> nat \<Rightarrow> AuWaitQueue \<Rightarrow> AuWaitQueue" where
  "AuWaitQueueAdd q e w =
     (if q = 0 \<or> e = 0 then w
      else
        let w = on_ent e (\<lambda>x. x\<lparr>e_prev := 0, e_queue := q, e_next := qhead w q\<rparr>) w;
            w = (if qhead w q \<noteq> 0 then on_ent (qhead w q) (\<lambda>x. x\<lparr>e_prev := e\<rparr>) w else w)
        in set_qhead q e w)"

definition AuWaitQueueRemove :: "nat \<Rightarrow> AuWaitQueue \<Rightarrow> AuWaitQueue" where
  "AuWaitQueueRemove e w =
     (if e = 0 then w
      else
        let q = e_queue (wents w e) in
        if q = 0 then w
        else
          let w = (if e_prev (wents w e) \<noteq> 0
                   then on_ent (e_prev (wents w e)) (\<lambda>x. x\<lparr>e_next := e_next (wents w e)\<rparr>) w
                   else set_qhead q (e_next (wents w e)) w);
              w = (if e_next (wents w e) \<noteq> 0
                   then on_ent (e_next (wents w e)) (\<lambda>x. x\<lparr>e_prev := e_prev (wents w e)\<rparr>) w
                   else w)
          in on_ent e (\<lambda>x. x\<lparr>e_next := 0, e_prev := 0, e_queue := 0\<rparr>) w)"

text \<open>The loops follow the pointers; on a cyclic chain they have no result.\<close>

partial_function (option) wake_loop :: "nat \<Rightarrow> AuWaitQueue \<Rightarrow> AuWaitQueue option" where
  "wake_loop e w =
     (if e = 0 then Some w
      else
        let n = e_next (wents w e) in
        if e_thread (wents w e) = 0 then wake_loop n w
        else case AuThreadWakePoller (e_thread (wents w e)) (wsched w) of
               None \<Rightarrow> None
             | Some s \<Rightarrow> wake_loop n (w\<lparr>wsched := s\<rparr>))"

definition AuWaitQueue_Wake :: "nat \<Rightarrow> AuWaitQueue \<Rightarrow> AuWaitQueue option" where
  "AuWaitQueue_Wake q w = (if q = 0 then Some w else wake_loop (qhead w q) w)"

partial_function (option) detach_loop :: "nat \<Rightarrow> AuWaitQueue \<Rightarrow> AuWaitQueue option" where
  "detach_loop e w =
     (if e = 0 then Some w
      else detach_loop (e_next (wents w e)) (on_ent e (\<lambda>x. x\<lparr>e_next := 0, e_prev := 0\<rparr>) w))"

definition AuWaitQueue_DetachAll :: "nat \<Rightarrow> AuWaitQueue \<Rightarrow> AuWaitQueue option" where
  "AuWaitQueue_DetachAll q w =
     (if q = 0 then Some w
      else case AuWaitQueue_Wake q w of None \<Rightarrow> None
           | Some w \<Rightarrow> map_option (set_qhead q 0) (detach_loop (qhead w q) w))"

text \<open>Also the loop at the end of \<open>AuPoll\<close>.\<close>

partial_function (option) AuWaitQ_DestroyChain :: "nat \<Rightarrow> AuWaitQueue \<Rightarrow> AuWaitQueue option" where
  "AuWaitQ_DestroyChain c w =
     (if c = 0 then Some w
      else
        let n = owner_next (wents w c);
            w = AuWaitQueueRemove c w
        in AuWaitQ_DestroyChain n (w\<lparr>live := live w - {c}\<rparr>))"

record AuPollTable =
  pt_thread :: nat
  pt_priv :: nat
  pt_chain :: nat
  pt_error :: int

text \<open>\<open>e\<close> is the address \<open>kmalloc\<close> returns, 0 when there is no memory.\<close>

definition AuPollWait :: "nat \<Rightarrow> nat \<Rightarrow> AuPollTable \<Rightarrow> AuWaitQueue \<Rightarrow> AuPollTable \<times> AuWaitQueue" where
  "AuPollWait e q pt w =
     (if q = 0 then (pt, w)
      else if e = 0 then (pt\<lparr>pt_error := -1\<rparr>, w)
      else
        (pt\<lparr>pt_chain := e\<rparr>,
         AuWaitQueueAdd q e
           ((on_ent e (\<lambda>_. \<lparr>e_thread = pt_thread pt, e_queue = 0, e_next = 0,
                            e_prev = pt_priv pt, owner_next = pt_chain pt\<rparr>) w)
              \<lparr>live := insert e (live w)\<rparr>)))"

definition POLLIN :: u16 where "POLLIN = 1"
definition POLLOUT :: u16 where "POLLOUT = 4"
definition POLLERR :: u16 where "POLLERR = 8"
definition POLLHUP :: u16 where "POLLHUP = 16"
definition POLLNVAL :: u16 where "POLLNVAL = 32"

text \<open>
  \<open>AuPollGetFile\<close> indexes the descriptor table with the user's number without a bound;
  \<open>None\<close> is the access outside the table, \<open>Some 0\<close> the null pointer.
\<close>

definition AuPollGetFile :: "proc_table \<Rightarrow> nat \<Rightarrow> int \<Rightarrow> nat option" where
  "AuPollGetFile t th fd =
     (if th = 0 then Some 0
      else if fd = -1 then Some 0
      else case calling_process t th of
             None \<Rightarrow> Some 0
           | Some i \<Rightarrow>
               if 0 \<le> fd \<and> nat fd < length (proc_fds (procs t ! i))
               then Some (proc_fds (procs t ! i) ! nat fd) else None)"

text \<open>
  One pass of the loop over the descriptors in \<open>AuPoll\<close>. \<open>ask\<close> gives for a file the answer
  of its \<open>poll\<close> routine, \<open>None\<close> when it has none; the registration of the caller in the
  queues of the file, which the routine does through \<open>AuPollWait\<close>, is not part of the answer.
  The result is the new \<open>ready\<close> count and the \<open>revents\<close> of the kernel's copy.
\<close>

definition poll_mask :: "(nat \<Rightarrow> u16 option) \<Rightarrow> nat \<Rightarrow> u16 \<Rightarrow> u16" where
  "poll_mask ask file events =
     (let mask = (if file = 0 then POLLNVAL
                  else case ask file of Some m \<Rightarrow> m | None \<Rightarrow> POLLIN OR POLLOUT)
      in mask AND (events OR POLLERR OR POLLHUP OR POLLNVAL))"

fun poll_scan ::
  "proc_table \<Rightarrow> nat \<Rightarrow> (nat \<Rightarrow> u16 option) \<Rightarrow> (int \<times> u16) list \<Rightarrow> nat \<Rightarrow> (nat \<times> u16 list) option"
where
  "poll_scan t th ask [] ready = Some (ready, [])"
| "poll_scan t th ask ((fd, events) # fds) ready =
     (if fd < 0 then map_option (\<lambda>(r, ms). (r, 0 # ms)) (poll_scan t th ask fds ready)
      else case AuPollGetFile t th fd of
             None \<Rightarrow> None
           | Some file \<Rightarrow>
               let mask = poll_mask ask file events
               in map_option (\<lambda>(r, ms). (r, mask # ms))
                    (poll_scan t th ask fds (if mask \<noteq> 0 then ready + 1 else ready)))"


section \<open>Well-formed queues\<close>

text \<open>
  The links of the entries. The queue \<open>q\<close> holds the entries \<open>Q q\<close>, and an allocated entry
  that names a queue is on it.
\<close>

abbreviation wl :: "(nat \<Rightarrow> AuWaitQEntry) \<Rightarrow> nat \<Rightarrow> nat list \<Rightarrow> nat \<Rightarrow> bool" where
  "wl h \<equiv> dlinks (\<lambda>x. e_next (h x)) (\<lambda>x. e_prev (h x))"

definition wq_at :: "AuWaitQueue \<Rightarrow> nat \<Rightarrow> nat list \<Rightarrow> bool" where
  "wq_at w q es \<longleftrightarrow> distinct es \<and> wl (wents w) 0 es 0 \<and> qhead w q = first es 0"

definition wq_wf :: "AuWaitQueue \<Rightarrow> (nat \<Rightarrow> nat list) \<Rightarrow> bool" where
  "wq_wf w Q \<longleftrightarrow> Q 0 = [] \<and> (\<forall>q. q \<noteq> 0 \<longrightarrow> wq_at w q (Q q)) \<and>
     (\<forall>q. \<forall>e \<in> set (Q q). e_queue (wents w e) = q \<and> e \<in> live w) \<and>
     (\<forall>e \<in> live w. e_queue (wents w e) \<noteq> 0 \<longrightarrow> e \<in> set (Q (e_queue (wents w e))))"

lemma on_ent_sel [simp]:
  "wents (on_ent e f w) x = (if x = e then f (wents w e) else wents w x)"
  "qhead (on_ent e f w) = qhead w" "live (on_ent e f w) = live w" "wsched (on_ent e f w) = wsched w"
  by (simp_all add: on_ent_def)

lemma set_qhead_sel [simp]:
  "wents (set_qhead q v w) = wents w" "qhead (set_qhead q v w) = (qhead w)(q := v)"
  "live (set_qhead q v w) = live w" "wsched (set_qhead q v w) = wsched w"
  by (simp_all add: set_qhead_def)

lemma wl_cong:
  assumes "\<And>x. x \<in> set xs \<Longrightarrow> e_next (h' x) = e_next (h x) \<and> e_prev (h' x) = e_prev (h x)"
  shows "wl h' p xs e = wl h p xs e"
  using assms by (intro dlinks_cong) auto

lemma wq_wf_D:
  assumes "wq_wf w Q" "q \<noteq> 0"
  shows "distinct (Q q)" "wl (wents w) 0 (Q q) 0" "qhead w q = first (Q q) 0"
    "\<And>e. e \<in> set (Q q) \<Longrightarrow> e_queue (wents w e) = q \<and> e \<in> live w \<and> e \<noteq> 0"
  using assms dlinks_nonzero unfolding wq_wf_def wq_at_def by blast+

lemma wq_wf_member:
  assumes "wq_wf w Q" "e \<in> live w"
  shows "e \<in> set (Q q) \<longleftrightarrow> q \<noteq> 0 \<and> e_queue (wents w e) = q"
  using assms unfolding wq_wf_def by (metis empty_iff list.set(1))

lemma wq_wf_proj:
  assumes "wq_wf w Q"
  shows "Q 0 = []" "q \<noteq> 0 \<Longrightarrow> wq_at w q (Q q)"
    "e \<in> set (Q q) \<Longrightarrow> e_queue (wents w e) = q" "e \<in> set (Q q) \<Longrightarrow> e \<in> live w"
    "e \<in> live w \<Longrightarrow> e_queue (wents w e) \<noteq> 0 \<Longrightarrow> e \<in> set (Q (e_queue (wents w e)))"
  using assms unfolding wq_wf_def by blast+

lemma wq_at_frame:
  assumes "wq_at w q es" "qhead w' q = qhead w q"
    and "\<And>x. x \<in> set es \<Longrightarrow> e_next (wents w' x) = e_next (wents w x) \<and>
      e_prev (wents w' x) = e_prev (wents w x)"
  shows "wq_at w' q es"
  using assms wl_cong [of es "wents w'" "wents w" 0 0] by (simp add: wq_at_def)

lemma AuWaitQueueAdd_at:
  assumes "wq_at w q es" "q \<noteq> 0" "e \<noteq> 0" "e \<notin> set es"
  shows "wq_at (AuWaitQueueAdd q e w) q (e # es)"
proof -
  have d: "wl (wents w) 0 es 0" "distinct (e # es)" "qhead w q = first es 0"
    using assms by (simp_all add: wq_at_def)
  have "0 \<notin> set es" "e \<notin> set es"
    using dlinks_nonzero [OF d(1)] d(2) by auto
  then have "wl (wents (AuWaitQueueAdd q e w)) 0 (e # es) 0"
    using assms(2,3) d(3) first_mem [of es 0]
    by (intro dlinks_push [OF d(1,2)]) (cases "es = []"; auto simp: AuWaitQueueAdd_def Let_def)+
  then show ?thesis
    using assms d by (simp add: wq_at_def AuWaitQueueAdd_def Let_def)
qed

lemma AuWaitQueueAdd_queue [simp]:
  "q \<noteq> 0 \<Longrightarrow> e \<noteq> 0 \<Longrightarrow>
     e_queue (wents (AuWaitQueueAdd q e w) x) = (if x = e then q else e_queue (wents w x))"
  "live (AuWaitQueueAdd q e w) = live w" "wsched (AuWaitQueueAdd q e w) = wsched w"
  "e_thread (wents (AuWaitQueueAdd q e w) x) = e_thread (wents w x)"
  "owner_next (wents (AuWaitQueueAdd q e w) x) = owner_next (wents w x)"
  by (auto simp: AuWaitQueueAdd_def Let_def)

lemma AuWaitQueueAdd_wf:
  assumes wf: "wq_wf w Q" and q: "q \<noteq> 0" and e: "e \<noteq> 0" "e \<in> live w" "e_queue (wents w e) = 0"
  shows "wq_wf (AuWaitQueueAdd q e w) (Q(q := e # Q q))"
proof -
  have out: "e \<notin> set (Q r)" for r
    using wq_wf_member [OF wf e(2)] e(3) by auto
  have hd: "qhead w q \<noteq> 0 \<Longrightarrow> qhead w q \<in> set (Q q)"
    using wq_wf_D(3) [OF wf q] by (cases "Q q") auto
  have at: "wq_at (AuWaitQueueAdd q e w) r ((Q(q := e # Q q)) r)" if "r \<noteq> 0" for r
  proof (cases "r = q")
    case True
    then show ?thesis
      using AuWaitQueueAdd_at [of w q "Q q" e] wf q e out by (simp add: wq_wf_def)
  next
    case False
    have "wq_at w r (Q r)"
      using wf that by (simp add: wq_wf_def)
    moreover have "x \<noteq> e \<and> (qhead w q \<noteq> 0 \<longrightarrow> x \<noteq> qhead w q)" if "x \<in> set (Q r)" for x
      using that out hd wq_wf_D(4) [OF wf] False \<open>r \<noteq> 0\<close> q by metis
    ultimately show ?thesis
      using False q e by (auto intro!: wq_at_frame [of w] simp: AuWaitQueueAdd_def Let_def)
  qed
  then show ?thesis
    using wf q e out unfolding wq_wf_def by (auto simp: fun_upd_def)
qed

lemma AuWaitQueueRemove_at:
  assumes "wq_at w q (xs @ e # ys)" "q \<noteq> 0" "e_queue (wents w e) = q"
  shows "wq_at (AuWaitQueueRemove e w) q (xs @ ys)"
proof -
  have d: "distinct (xs @ e # ys)" "wl (wents w) 0 xs e" "wl (wents w) e ys 0" "e \<noteq> 0"
    "e_prev (wents w e) = lastp 0 xs" "e_next (wents w e) = first ys 0" "qhead w q = first xs e"
    using assms by (auto simp: wq_at_def)
  have nz: "xs \<noteq> [] \<Longrightarrow> lastp 0 xs \<noteq> 0" "ys \<noteq> [] \<Longrightarrow> first ys 0 \<noteq> 0"
    using d lastp_mem [of xs 0] first_mem [of ys 0] dlinks_nonzero by blast+
  have w0: "wl (wents w) 0 (xs @ e # ys) 0"
    using assms(1) by (simp add: wq_at_def)
  have "0 \<notin> set (xs @ ys)" "e \<notin> set (xs @ ys)"
    using d(1) dlinks_nonzero [OF w0] by auto
  then have "wl (wents (AuWaitQueueRemove e w)) 0 (xs @ ys) 0"
    using d assms(2,3)
    by (intro dlinks_unlink [OF w0 d(1)]) (auto simp: AuWaitQueueRemove_def Let_def)
  moreover have "qhead (AuWaitQueueRemove e w) q = first (xs @ ys) 0"
    using d(4-7) nz(1) assms(2,3) by (cases xs) (auto simp: AuWaitQueueRemove_def Let_def)
  ultimately show ?thesis
    using d(1) by (simp add: wq_at_def)
qed

lemma AuWaitQueueRemove_queue [simp]:
  "e_queue (wents (AuWaitQueueRemove e w) x) = (if x = e \<and> e \<noteq> 0 then 0 else e_queue (wents w x))"
  "live (AuWaitQueueRemove e w) = live w" "wsched (AuWaitQueueRemove e w) = wsched w"
  "e_thread (wents (AuWaitQueueRemove e w) x) = e_thread (wents w x)"
  "owner_next (wents (AuWaitQueueRemove e w) x) = owner_next (wents w x)"
  by (auto simp: AuWaitQueueRemove_def Let_def)

lemma AuWaitQueueRemove_wf:
  assumes wf: "wq_wf w Q" and e: "e \<in> live w"
  shows "wq_wf (AuWaitQueueRemove e w) (\<lambda>q. remove1 e (Q q))"
proof (cases "e = 0 \<or> e_queue (wents w e) = 0")
  case True
  then have "remove1 e (Q q) = Q q" for q
    using wq_wf_member [OF wf e] wq_wf_D(4) [OF wf] by (metis remove1_idem)
  moreover have "AuWaitQueueRemove e w = w"
    using True by (auto simp: AuWaitQueueRemove_def)
  ultimately show ?thesis
    using wf by simp
next
  case False
  define q where "q = e_queue (wents w e)"
  then have q: "q \<noteq> 0" "e \<noteq> 0" and "e \<in> set (Q q)"
    using False wq_wf_member [OF wf e] by auto
  then obtain xs ys where Q: "Q q = xs @ e # ys"
    by (meson split_list)
  note D = wq_wf_D [OF wf q(1)]
  have other: "remove1 e (Q r) = Q r" if "r \<noteq> q" for r
    using that wq_wf_member [OF wf e] q_def by (metis remove1_idem)
  have near: "e_prev (wents w e) = lastp 0 xs" "e_next (wents w e) = first ys 0"
    using D(2) Q by auto
  have at: "wq_at (AuWaitQueueRemove e w) r (remove1 e (Q r))" if "r \<noteq> 0" for r
  proof (cases "r = q")
    case True
    have rem: "remove1 e (Q q) = xs @ ys"
      using D(1) Q by (simp add: remove1_append)
    have "wq_at w q (xs @ e # ys)"
      using wf q(1) Q unfolding wq_wf_def by metis
    then show ?thesis
      unfolding True rem by (rule AuWaitQueueRemove_at [OF _ q(1) q_def [symmetric]])
  next
    case False
    have "wq_at w r (Q r)"
      using wf that by (simp add: wq_wf_def)
    moreover have "x \<notin> set (Q q)" if "x \<in> set (Q r)" for x
      using that wq_wf_D(4) [OF wf] False \<open>r \<noteq> 0\<close> q by metis
    then have "x \<noteq> e \<and> (e_prev (wents w e) \<noteq> 0 \<longrightarrow> x \<noteq> e_prev (wents w e)) \<and>
        (e_next (wents w e) \<noteq> 0 \<longrightarrow> x \<noteq> e_next (wents w e))" if "x \<in> set (Q r)" for x
      using that Q near lastp_mem [of xs 0] first_mem [of ys 0] by (cases xs; cases ys) auto
    ultimately show ?thesis
      unfolding other [OF False] using False q q_def
      by (auto intro!: wq_at_frame [of w] simp: AuWaitQueueRemove_def Let_def)
  qed
  have sets: "set (remove1 e (Q r)) = set (Q r) - {e}" for r
  proof (cases "r = q")
    case False
    then have "e \<notin> set (Q r)"
      using wq_wf_member [OF wf e] q_def by auto
    then show ?thesis by (simp add: remove1_idem)
  qed (use D(1) in simp)
  have "Q 0 = []"
    using wf by (simp add: wq_wf_def)
  moreover have "e_queue (wents w x) = r \<and> x \<in> live w" if "x \<in> set (Q r)" for x r
    using wf that by (simp add: wq_wf_def)
  moreover have "x \<in> set (Q (e_queue (wents w x)))" if "x \<in> live w" "e_queue (wents w x) \<noteq> 0" for x
    using wf that by (simp add: wq_wf_def)
  ultimately show ?thesis
    using at q unfolding wq_wf_def sets by auto
qed

lemma free_wf:
  assumes "wq_wf w Q" "\<And>q. c \<notin> set (Q q)"
  shows "wq_wf (w\<lparr>live := live w - {c}\<rparr>) Q"
  using assms unfolding wq_wf_def wq_at_def by auto

section \<open>Poll tables\<close>

text \<open>The chain of a poll table is linked through \<open>owner_next\<close>.\<close>

fun chain_at :: "(nat \<Rightarrow> AuWaitQEntry) \<Rightarrow> nat \<Rightarrow> nat list \<Rightarrow> bool" where
  "chain_at h c [] \<longleftrightarrow> c = 0"
| "chain_at h c (x # xs) \<longleftrightarrow> c = x \<and> x \<noteq> 0 \<and> chain_at h (owner_next (h x)) xs"

lemma chain_at_cong:
  "(\<And>x. x \<in> set cs \<Longrightarrow> owner_next (h' x) = owner_next (h x)) \<Longrightarrow> chain_at h' c cs = chain_at h c cs"
  by (induction cs arbitrary: c) auto

definition without :: "nat list \<Rightarrow> (nat \<Rightarrow> nat list) \<Rightarrow> nat \<Rightarrow> nat list" where
  "without cs Q q = List.filter (\<lambda>e. e \<notin> set cs) (Q q)"

lemma DestroyChain_ok:
  assumes "wq_wf w Q" "chain_at (wents w) c cs" "distinct cs" "set cs \<subseteq> live w"
  shows "\<exists>w'. AuWaitQ_DestroyChain c w = Some w' \<and> wq_wf w' (without cs Q) \<and>
    live w' = live w - set cs \<and> wsched w' = wsched w"
  using assms
proof (induction cs arbitrary: c w Q)
  case Nil
  then show ?case by (simp add: AuWaitQ_DestroyChain.simps without_def)
next
  case (Cons x cs)
  define w1 where "w1 = (AuWaitQueueRemove x w)\<lparr>live := live w - {x}\<rparr>"
  have wf: "wq_wf (AuWaitQueueRemove x w) (\<lambda>q. remove1 x (Q q))"
    using Cons.prems by (intro AuWaitQueueRemove_wf) auto
  have out: "remove1 x (Q q) = List.filter (\<lambda>e. e \<noteq> x) (Q q)" for q
    using Cons.prems(1) wq_wf_D(1) [OF Cons.prems(1), of q]
    by (cases "q = 0") (simp_all add: wq_wf_def distinct_remove1_removeAll removeAll_filter_not_eq, metis)
  then have w1: "wq_wf w1 (\<lambda>q. List.filter (\<lambda>e. e \<noteq> x) (Q q))"
    using free_wf [OF wf, of x] by (simp add: w1_def)
  have ch: "chain_at (wents w1) (owner_next (wents w x)) cs"
    using Cons.prems(2) chain_at_cong [of cs "wents w1" "wents w"] by (simp add: w1_def)
  have sub: "set cs \<subseteq> live w1"
    using Cons.prems(3,4) by (auto simp: w1_def)
  obtain w' where w': "AuWaitQ_DestroyChain (owner_next (wents w x)) w1 = Some w'"
    "wq_wf w' (without cs (\<lambda>q. List.filter (\<lambda>e. e \<noteq> x) (Q q)))"
    "live w' = live w1 - set cs" "wsched w' = wsched w1"
    using Cons.IH [OF w1 ch _ sub] Cons.prems(3) distinct.simps(2) by metis
  have "without cs (\<lambda>q. List.filter (\<lambda>e. e \<noteq> x) (Q q)) = without (x # cs) Q"
    by (auto simp: without_def fun_eq_iff intro!: filter_cong)
  moreover have "AuWaitQ_DestroyChain c w = Some w'"
    using Cons.prems(2) w'(1) by (subst AuWaitQ_DestroyChain.simps) (simp add: w1_def Let_def)
  ultimately show ?case
    using w' by (auto simp: w1_def)
qed

text \<open>\<open>poll_register\<close> is the run of registrations of one scan: each pair is a queue and the
  entry that \<open>kmalloc\<close> gives for it.\<close>

fun poll_register :: "(nat \<times> nat) list \<Rightarrow> AuPollTable \<Rightarrow> AuWaitQueue \<Rightarrow> AuPollTable \<times> AuWaitQueue" where
  "poll_register [] pt w = (pt, w)"
| "poll_register ((q, e) # rs) pt w =
     (let (pt', w') = AuPollWait e q pt w in poll_register rs pt' w')"


definition registered :: "(nat \<times> nat) list \<Rightarrow> (nat \<times> nat) list" where
  "registered rs = List.filter (\<lambda>(q, e). q \<noteq> 0 \<and> e \<noteq> 0) rs"

fun grow :: "(nat \<times> nat) list \<Rightarrow> (nat \<Rightarrow> nat list) \<Rightarrow> nat \<Rightarrow> nat list" where
  "grow [] Q = Q"
| "grow ((q, e) # rs) Q = grow rs (if q = 0 \<or> e = 0 then Q else Q(q := e # Q q))"

lemma new_entry_wf:
  assumes wf: "wq_wf w Q" and e: "e \<notin> live w" "e_queue x = 0"
  shows "wq_wf ((on_ent e (\<lambda>_. x) w)\<lparr>live := insert e (live w)\<rparr>) Q"
proof -
  have out: "e \<notin> set (Q q)" for q
    using wq_wf_proj(4) [OF wf] e(1) by blast
  have "wq_at ((on_ent e (\<lambda>_. x) w)\<lparr>live := insert e (live w)\<rparr>) q (Q q)" if "q \<noteq> 0" for q
    using out by (intro wq_at_frame [OF wq_wf_proj(2) [OF wf that]]) auto
  then show ?thesis
    using wq_wf_proj [OF wf] out e unfolding wq_wf_def by auto
qed

lemma AuPollWait_ok:
  assumes wf: "wq_wf w Q" and ch: "chain_at (wents w) (pt_chain pt) cs" "set cs \<subseteq> live w"
    and q: "q \<noteq> 0" "e \<noteq> 0" "e \<notin> live w" and st: "AuPollWait e q pt w = (pt', w')"
  shows "wq_wf w' (Q(q := e # Q q)) \<and> chain_at (wents w') (pt_chain pt') (e # cs) \<and>
    live w' = insert e (live w) \<and> wsched w' = wsched w \<and> e_thread (wents w' e) = pt_thread pt"
proof -
  define x where "x = \<lparr>e_thread = pt_thread pt, e_queue = 0, e_next = 0, e_prev = pt_priv pt,
      owner_next = pt_chain pt\<rparr>"
  define w1 where "w1 = (on_ent e (\<lambda>_. x) w)\<lparr>live := insert e (live w)\<rparr>"
  have w': "pt' = pt\<lparr>pt_chain := e\<rparr>" "w' = AuWaitQueueAdd q e w1"
    using st q by (simp_all add: AuPollWait_def w1_def x_def)
  have "wq_wf w1 Q"
    unfolding w1_def by (rule new_entry_wf [OF wf q(3)]) (simp add: x_def)
  then have "wq_wf w' (Q(q := e # Q q))"
    unfolding w' using q by (intro AuWaitQueueAdd_wf) (auto simp: w1_def x_def)
  moreover have "chain_at (wents w') (pt_chain pt) cs"
    using ch q(3) by (subst chain_at_cong [of cs _ "wents w"]) (auto simp: w' w1_def)
  ultimately show ?thesis
    using q by (simp add: w') (simp add: w1_def x_def)
qed

lemma poll_register_ok:
  assumes "wq_wf w Q" "chain_at (wents w) (pt_chain pt) cs" "set cs \<subseteq> live w"
    and "distinct (List.map snd (registered rs))" "snd ` set (registered rs) \<inter> live w = {}"
    and "poll_register rs pt w = (pt', w')"
  shows "wq_wf w' (grow rs Q) \<and>
    chain_at (wents w') (pt_chain pt') (rev (List.map snd (registered rs)) @ cs) \<and>
    live w' = snd ` set (registered rs) \<union> live w \<and> wsched w' = wsched w"
  using assms
proof (induction rs arbitrary: pt w Q cs)
  case Nil
  then show ?case by (simp add: registered_def)
next
  case (Cons r rs)
  obtain q e where r: "r = (q, e)" by fastforce
  obtain pt1 w1 where st: "AuPollWait e q pt w = (pt1, w1)" by fastforce
  have run: "poll_register rs pt1 w1 = (pt', w')"
    using Cons.prems(6) by (simp add: r st)
  show ?case
  proof (cases "q = 0 \<or> e = 0")
    case True
    then have "w1 = w" "pt_chain pt1 = pt_chain pt"
      using st by (auto simp: AuPollWait_def split: if_splits)
    moreover have nothing: "registered (r # rs) = registered rs" "grow (r # rs) Q = grow rs Q"
      using True by (auto simp: r registered_def)
    ultimately show ?thesis
      using Cons.IH [of w Q pt1 cs] Cons.prems run nothing by simp
  next
    case False
    then have e: "e \<notin> live w" "e \<notin> snd ` set (registered rs)"
      using Cons.prems(4,5) by (auto simp: r registered_def)
    have new: "wq_wf w1 (Q(q := e # Q q))" "chain_at (wents w1) (pt_chain pt1) (e # cs)"
      "live w1 = insert e (live w)" "wsched w1 = wsched w"
      using AuPollWait_ok [OF Cons.prems(1-3) _ _ e(1) st] False by simp_all
    have reg: "registered (r # rs) = (q, e) # registered rs"
      "grow (r # rs) Q = grow rs (Q(q := e # Q q))"
      using False by (simp_all add: r registered_def)
    have "wq_wf w' (grow rs (Q(q := e # Q q))) \<and>
        chain_at (wents w') (pt_chain pt') (rev (List.map snd (registered rs)) @ e # cs) \<and>
        live w' = snd ` set (registered rs) \<union> live w1 \<and> wsched w' = wsched w1"
    proof (rule Cons.IH [OF new(1,2) _ _ _ run])
      show "set (e # cs) \<subseteq> live w1"
        using Cons.prems(3) new(3) by auto
      show "snd ` set (registered rs) \<inter> live w1 = {}"
        using Cons.prems(5) e(2) new(3) unfolding reg by auto
      show "distinct (List.map snd (registered rs))"
        using Cons.prems(4) unfolding reg by simp
    qed
    then show ?thesis
      unfolding reg using new(3,4) by simp
  qed
qed

lemma grow_without:
  assumes "\<And>q. set (Q q) \<inter> set cs = {}" "snd ` set (registered rs) \<subseteq> set cs"
  shows "without cs (grow rs Q) = without cs Q"
  using assms(2)
proof (induction rs arbitrary: Q)
  case (Cons r rs)
  then show ?case
    by (cases r) (auto simp: registered_def without_def fun_eq_iff)
qed simp

text \<open>
  C27. The registrations of a poll leave nothing behind: whatever queues a poll table was
  entered into, and even when memory ran out half way, destroying its chain ends, takes its
  entries out of every queue, frees them, and leaves the queues as they were before.
\<close>

theorem poll_cleans_up:
  assumes wf: "wq_wf w Q" and empty: "pt_chain pt = 0"
    and fresh: "distinct (List.map snd (registered rs))" "snd ` set (registered rs) \<inter> live w = {}"
    and reg: "poll_register rs pt w = (pt', w')"
  shows "wq_wf w' (grow rs Q) \<and>
    (\<exists>w''. AuWaitQ_DestroyChain (pt_chain pt') w' = Some w'' \<and> wq_wf w'' Q \<and>
       live w'' = live w \<and> wsched w'' = wsched w)"
proof -
  let ?cs = "rev (List.map snd (registered rs))"
  have cs: "set ?cs = snd ` set (registered rs)" by auto
  have ok: "wq_wf w' (grow rs Q)" "chain_at (wents w') (pt_chain pt') ?cs"
    "live w' = snd ` set (registered rs) \<union> live w" "wsched w' = wsched w"
    using poll_register_ok [OF wf _ _ fresh reg, of "[]"] empty by simp_all
  obtain w'' where w'': "AuWaitQ_DestroyChain (pt_chain pt') w' = Some w''"
    "wq_wf w'' (without ?cs (grow rs Q))" "live w'' = live w' - set ?cs" "wsched w'' = wsched w'"
    using DestroyChain_ok [OF ok(1,2)] fresh(1) ok(3) by auto
  have out: "set (Q q) \<inter> set ?cs = {}" for q
    using wf fresh(2) cs by (fastforce simp: wq_wf_def)
  have "without ?cs (grow rs Q) = without ?cs Q"
    using grow_without [of Q ?cs rs] out cs by simp
  also have "\<dots> = Q"
    using out by (auto simp: without_def fun_eq_iff intro!: filter_True)
  finally have "without ?cs (grow rs Q) = Q" .
  moreover have "live w'' = live w"
    using w''(3) ok(3) fresh(2) cs by auto
  ultimately show ?thesis
    using ok w'' by auto
qed


section \<open>Waking\<close>

fun wake_threads :: "nat list \<Rightarrow> Sched \<Rightarrow> Sched option" where
  "wake_threads [] s = Some s"
| "wake_threads (t # ts) s =
     (if t = 0 then wake_threads ts s
      else case AuThreadWakePoller t s of None \<Rightarrow> None | Some s' \<Rightarrow> wake_threads ts s')"

lemma wake_loop_run:
  "wl (wents w) p es 0 \<Longrightarrow> wake_loop (first es 0) w =
     map_option (\<lambda>s. w\<lparr>wsched := s\<rparr>) (wake_threads (List.map (\<lambda>e. e_thread (wents w e)) es) (wsched w))"
proof (induction es arbitrary: p w)
  case Nil
  then show ?case by (simp add: wake_loop.simps)
next
  case (Cons x es)
  then have l: "x \<noteq> 0" "e_next (wents w x) = first es 0" "wl (wents w) x es 0"
    by auto
  show ?case
  proof (cases "e_thread (wents w x) = 0")
    case True
    then show ?thesis
      using Cons.IH [OF l(3)] l by (subst wake_loop.simps) simp
  next
    case False
    show ?thesis
    proof (cases "AuThreadWakePoller (e_thread (wents w x)) (wsched w)")
      case None
      then show ?thesis
        using False l by (subst wake_loop.simps) simp
    next
      case (Some s)
      have "wake_loop (first es 0) (w\<lparr>wsched := s\<rparr>) =
          map_option (\<lambda>s. w\<lparr>wsched := s\<rparr>) (wake_threads (List.map (\<lambda>e. e_thread (wents w e)) es) s)"
        using Cons.IH [of "w\<lparr>wsched := s\<rparr>" x] l(3) by simp
      then show ?thesis
        using False l Some by (subst wake_loop.simps) simp
    qed
  qed
qed

lemma poller_flag [simp]:
  "AuThreadWakePoller t s = Some s' \<Longrightarrow> blocked_on_poll (thr s' x) = blocked_on_poll (thr s x)"
  by (auto simp: AuThreadWakePoller_def Let_def split: if_splits option.splits bool.splits)

definition pollers :: "nat set \<Rightarrow> Sched \<Rightarrow> nat set" where
  "pollers T s = {t \<in> T. t \<noteq> 0 \<and> blocked_on_poll (thr s t)}"

text \<open>What waking the threads \<open>P\<close> does to the membership of the lists.\<close>

definition woken_lists :: "nat set \<Rightarrow> (tlist \<Rightarrow> nat list) \<Rightarrow> tlist \<Rightarrow> nat set" where
  "woken_lists P A q =
     (case q of Ready \<Rightarrow> set (A Ready) \<union> (P \<inter> (set (A Blocked) \<union> set (A Sleep)))
      | Trash \<Rightarrow> set (A Trash) | _ \<Rightarrow> set (A q) - P)"

lemma wake_one:
  assumes "sched_wf s A"
  obtains s' B where "AuThreadWakePoller t s = Some s'" "sched_wf s' B"
    "\<And>q. set (B q) = woken_lists (pollers {t} s) A q"
proof -
  obtain s' where s': "AuThreadWakePoller t s = Some s'"
    "sched_wf s' (if t = 0 \<or> \<not> blocked_on_poll (thr s t) then A
                  else if t \<in> set (A Blocked) then move Blocked Ready t A
                  else if t \<in> set (A Sleep) then move Sleep Ready t A else A)"
    using AuThreadWakePoller_wf [OF assms] by metis
  have d: "distinct (A q)" for q
    using assms by (simp add: sched_wf_def list_at_def)
  have un: "t \<in> set (A Blocked) \<Longrightarrow> t \<notin> set (A Sleep)"
    using assms by (auto simp: sched_wf_def)
  show thesis
    using s' d un
    by (intro that [OF s'])
      (auto simp: woken_lists_def pollers_def move_def put_last_def take_out_def split: tlist.splits)
qed

lemma wake_threads_ok:
  assumes "sched_wf s A"
  shows "\<exists>s' B. wake_threads ts s = Some s' \<and> sched_wf s' B \<and>
    (\<forall>q. set (B q) = woken_lists (pollers (set ts) s) A q)"
  using assms
proof (induction ts arbitrary: s A)
  case Nil
  then show ?case
    by (auto simp: woken_lists_def pollers_def split: tlist.splits)
next
  case (Cons t ts)
  show ?case
  proof (cases "t = 0")
    case True
    then have "pollers (set (t # ts)) s = pollers (set ts) s"
      by (auto simp: pollers_def)
    then show ?thesis
      using Cons True by simp
  next
    case False
    obtain s1 A1 where s1: "AuThreadWakePoller t s = Some s1" "sched_wf s1 A1"
      "\<And>q. set (A1 q) = woken_lists (pollers {t} s) A q"
      using wake_one [OF Cons.prems, of t] by metis
    obtain s' B where s': "wake_threads ts s1 = Some s'" "sched_wf s' B"
      "\<And>q. set (B q) = woken_lists (pollers (set ts) s1) A1 q"
      using Cons.IH [OF s1(2)] by metis
    have "pollers (set ts) s1 = pollers (set ts) s"
      using s1(1) by (simp add: pollers_def)
    moreover have "pollers (set (t # ts)) s = pollers {t} s \<union> pollers (set ts) s"
      by (auto simp: pollers_def)
    ultimately have "set (B q) = woken_lists (pollers (set (t # ts)) s) A q" for q
      using s'(3) s1(3) by (auto simp: woken_lists_def split: tlist.splits)
    then show ?thesis
      using s1 s' False by auto
  qed
qed

text \<open>
  C26. Waking a queue ends and makes every thread with an entry in it that waits in a poll
  ready, whether it is blocked or asleep; every other thread stays on its list, so a thread
  whose poll has registered but not yet raised its flag is not woken.
\<close>

theorem AuWaitQueue_Wake_readies:
  assumes "wq_wf w Q" "q \<noteq> 0" "sched_wf (wsched w) A"
  shows "\<exists>s B. AuWaitQueue_Wake q w = Some (w\<lparr>wsched := s\<rparr>) \<and> sched_wf s B \<and>
    (\<forall>r. set (B r) =
       woken_lists (pollers ((\<lambda>e. e_thread (wents w e)) ` set (Q q)) (wsched w)) A r)"
proof -
  obtain s B where "wake_threads (List.map (\<lambda>e. e_thread (wents w e)) (Q q)) (wsched w) = Some s"
    "sched_wf s B"
    "\<And>r. set (B r) =
       woken_lists (pollers ((\<lambda>e. e_thread (wents w e)) ` set (Q q)) (wsched w)) A r"
    using wake_threads_ok [OF assms(3), of "List.map (\<lambda>e. e_thread (wents w e)) (Q q)"] by auto
  then show ?thesis
    using wake_loop_run [OF wq_wf_D(2) [OF assms(1,2)]] wq_wf_D(3) [OF assms(1,2)] assms(2)
    by (auto simp: AuWaitQueue_Wake_def)
qed


lemma detach_loop_run:
  assumes "wl (wents w) p es 0" "distinct es"
  shows "\<exists>w'. detach_loop (first es 0) w = Some w' \<and> qhead w' = qhead w \<and> wsched w' = wsched w \<and>
    (\<forall>x. wents w' x =
       (if x \<in> set es then wents w x\<lparr>e_next := 0, e_prev := 0\<rparr> else wents w x))"
  using assms
proof (induction es arbitrary: p w)
  case Nil
  then show ?case by (simp add: detach_loop.simps)
next
  case (Cons x es)
  define w1 where "w1 = on_ent x (\<lambda>x. x\<lparr>e_next := 0, e_prev := 0\<rparr>) w"
  have l: "x \<noteq> 0" "e_next (wents w x) = first es 0" "wl (wents w) x es 0"
    using Cons.prems by auto
  have "wl (wents w1) x es 0"
    using l(3) Cons.prems(2) by (subst wl_cong [of es _ "wents w"]) (auto simp: w1_def)
  then obtain w' where "detach_loop (first es 0) w1 = Some w'" "qhead w' = qhead w1"
    "wsched w' = wsched w1"
    "\<And>y. wents w' y = (if y \<in> set es then wents w1 y\<lparr>e_next := 0, e_prev := 0\<rparr> else wents w1 y)"
    using Cons.IH Cons.prems(2) by (metis distinct.simps(2))
  then show ?case
    using l Cons.prems(2) by (subst detach_loop.simps) (auto simp: w1_def)
qed

text \<open>
  C40. Detaching all entries leaves each with its queue pointer set. When one of them is
  removed later, as its owner's clean-up does, the queue loses everything that was added to
  it in between: its head is cleared, and waking the queue wakes nobody.
\<close>

theorem AuWaitQueue_DetachAll_loses_entries:
  assumes wf: "wq_wf w Q" and q: "q \<noteq> 0" and sw: "sched_wf (wsched w) A"
    and e: "e \<in> set (Q q)" and new: "n \<noteq> 0" "n \<noteq> e"
  shows "\<exists>w1. AuWaitQueue_DetachAll q w = Some w1 \<and>
    (let w2 = AuWaitQueueRemove e (AuWaitQueueAdd q n w1)
     in qhead (AuWaitQueueAdd q n w1) q = n \<and> qhead w2 q = 0 \<and> AuWaitQueue_Wake q w2 = Some w2)"
proof -
  obtain s where wake: "AuWaitQueue_Wake q w = Some (w\<lparr>wsched := s\<rparr>)"
    using AuWaitQueue_Wake_readies [OF wf q sw] by auto
  note D = wq_wf_D [OF wf q]
  obtain w' where w': "detach_loop (first (Q q) 0) (w\<lparr>wsched := s\<rparr>) = Some w'"
    "wents w' e = wents w e\<lparr>e_next := 0, e_prev := 0\<rparr>"
    using detach_loop_run [of "w\<lparr>wsched := s\<rparr>" 0 "Q q"] D(1,2) e by auto
  have "AuWaitQueue_DetachAll q w = Some (set_qhead q 0 w')"
    using wake w'(1) D(3) q by (simp add: AuWaitQueue_DetachAll_def)
  moreover have "e \<noteq> 0" "e_queue (wents w e) = q"
    using D(4) e by auto
  ultimately show ?thesis
    using w'(2) q new
    by (auto simp: Let_def AuWaitQueueAdd_def AuWaitQueueRemove_def AuWaitQueue_Wake_def wake_loop.simps)
qed

section \<open>The scan of the poll system call\<close>

definition poll_answer :: "proc_table \<Rightarrow> nat \<Rightarrow> (nat \<Rightarrow> u16 option) \<Rightarrow> int \<times> u16 \<Rightarrow> u16" where
  "poll_answer t i ask = (\<lambda>(fd, events).
     if fd < 0 then 0 else poll_mask ask (proc_fds (procs t ! i) ! nat fd) events)"

lemma poll_scan_ok:
  assumes "table_wf t" "th \<noteq> 0" "calling_process t th = Some i"
  shows "poll_scan t th ask fds n =
    (if \<forall>(fd, ev) \<in> set fds. fd < int FILE_DESC_PER_PROCESS
     then Some (n + length (List.filter (\<lambda>f. poll_answer t i ask f \<noteq> 0) fds),
                List.map (poll_answer t i ask) fds)
     else None)"
proof -
  have len: "length (proc_fds (procs t ! i)) = FILE_DESC_PER_PROCESS"
    using assms table_wf_nth calling_process_lt by (metis proc_wf_def)
  show ?thesis
  proof (induction fds arbitrary: n)
    case (Cons f fds)
    obtain fd ev where f: "f = (fd, ev)" by fastforce
    consider "fd < 0" | "0 \<le> fd" "fd < int FILE_DESC_PER_PROCESS" | "fd \<ge> int FILE_DESC_PER_PROCESS"
      by linarith
    then show ?case
    proof cases
      case 1
      moreover have "fd < int FILE_DESC_PER_PROCESS"
        using 1 by simp
      ultimately show ?thesis
        using Cons by (simp add: f poll_answer_def)
    next
      case 2
      then have "AuPollGetFile t th fd = Some (proc_fds (procs t ! i) ! nat fd)"
        using assms len by (simp add: AuPollGetFile_def nat_less_iff)
      then show ?thesis
        using Cons 2 by (simp add: f poll_answer_def Let_def)
    next
      case 3
      then have "AuPollGetFile t th fd = None"
        using assms len by (simp add: AuPollGetFile_def FILE_DESC_PER_PROCESS_def)
      moreover have "\<not> fd < 0" "\<not> fd < int FILE_DESC_PER_PROCESS"
        using 3 by (simp_all add: FILE_DESC_PER_PROCESS_def)
      ultimately show ?thesis
        by (simp add: f)
    qed
  qed simp
qed

text \<open>
  A scan over descriptors of a well-formed process answers each in turn; it counts the
  descriptors with an answer that is not empty, and it never touches anything outside the
  descriptor table exactly when every descriptor number is below the table's size.
\<close>

theorem poll_scan_faults:
  assumes "table_wf t" "th \<noteq> 0" "calling_process t th = Some i"
  shows "poll_scan t th ask fds 0 =
    (if \<forall>(fd, ev) \<in> set fds. fd < int FILE_DESC_PER_PROCESS
     then Some (length (List.filter (\<lambda>f. poll_answer t i ask f \<noteq> 0) fds),
                List.map (poll_answer t i ask) fds)
     else None)"
  using poll_scan_ok [OF assms, of ask fds 0] by simp


section \<open>Witnesses\<close>

text \<open>Thread 2 polls two queues; the second registration finds no memory.\<close>

definition demo_polled :: Sched where
  "demo_polled = AuBlockThread 2 (on_thread 2 (\<lambda>x. x\<lparr>blocked_on_poll := True\<rparr>) demo_sched)"

definition demo_waitq :: AuWaitQueue where
  "demo_waitq =
     \<lparr>wents = \<lambda>_. \<lparr>e_thread = 0, e_queue = 0, e_next = 0, e_prev = 0, owner_next = 0\<rparr>,
      qhead = \<lambda>_. 0, live = {}, wsched = demo_polled\<rparr>"

definition demo_table :: AuPollTable where
  "demo_table = \<lparr>pt_thread = 2, pt_priv = 0, pt_chain = 0, pt_error = 0\<rparr>"

definition demo_regs :: "(nat \<times> nat) list" where "demo_regs = [(1, 10), (2, 0), (2, 11)]"

lemma demo_waitq_wf: "wq_wf demo_waitq (\<lambda>_. [])"
  by (simp add: wq_wf_def wq_at_def demo_waitq_def)

lemma demo_regs_fresh:
  "distinct (List.map snd (registered demo_regs))"
  "snd ` set (registered demo_regs) \<inter> live demo_waitq = {}"
  by (simp_all add: demo_regs_def registered_def demo_waitq_def)

lemma demo_regs_wf:
  "wq_wf (snd (poll_register demo_regs demo_table demo_waitq)) (grow demo_regs (\<lambda>_. []))"
  using poll_register_ok [OF demo_waitq_wf _ _ demo_regs_fresh, of demo_table "[]"]
  by (cases "poll_register demo_regs demo_table demo_waitq") (simp add: demo_table_def)

lemma demo_regs_sched:
  "wsched (snd (poll_register demo_regs demo_table demo_waitq)) = demo_polled"
  "e_thread (wents (snd (poll_register demo_regs demo_table demo_waitq)) 10) = 2"
  by (simp_all add: demo_regs_def AuPollWait_def demo_table_def Let_def)
    (simp_all add: demo_waitq_def)

lemma demo_polled_wf: "sched_wf demo_polled (move Ready Blocked 2 demo_lists)"
proof -
  have "sched_wf (on_thread 2 (\<lambda>x. x\<lparr>blocked_on_poll := True\<rparr>) demo_sched) demo_lists"
    using demo_sched_wf by simp
  then show ?thesis
    unfolding demo_polled_def by (rule AuBlockThread_wf) (simp add: demo_lists_def)
qed

theorem poll_cleans_up_witness:
  "\<exists>w. AuWaitQ_DestroyChain (pt_chain (fst (poll_register demo_regs demo_table demo_waitq)))
         (snd (poll_register demo_regs demo_table demo_waitq)) = Some w \<and> live w = {}"
proof -
  obtain pt w where reg: "poll_register demo_regs demo_table demo_waitq = (pt, w)" by fastforce
  then show ?thesis
    using poll_cleans_up [OF demo_waitq_wf _ demo_regs_fresh reg]
    by (auto simp: demo_table_def demo_waitq_def)
qed

theorem AuWaitQueue_Wake_readies_witness:
  "\<exists>s B. AuWaitQueue_Wake 1 (snd (poll_register demo_regs demo_table demo_waitq)) =
       Some ((snd (poll_register demo_regs demo_table demo_waitq))\<lparr>wsched := s\<rparr>) \<and>
     sched_wf s B \<and> 2 \<in> set (B Ready)"
proof -
  let ?w = "snd (poll_register demo_regs demo_table demo_waitq)"
  have "sched_wf (wsched ?w) (move Ready Blocked 2 demo_lists)"
    using demo_polled_wf by (simp add: demo_regs_sched)
  moreover have "grow demo_regs (\<lambda>_. []) 1 = [10]"
    by (simp add: demo_regs_def)
  moreover have "blocked_on_poll (thr demo_polled 2)"
    by (simp add: demo_polled_def AuBlockThread_def)
  moreover have "2 \<in> set (move Ready Blocked 2 demo_lists Blocked)"
    by (simp add: move_def put_last_def take_out_def)
  ultimately show ?thesis
    using AuWaitQueue_Wake_readies [OF demo_regs_wf, of 1 "move Ready Blocked 2 demo_lists"]
    by (fastforce simp: demo_regs_sched woken_lists_def pollers_def)
qed

theorem AuWaitQueue_DetachAll_loses_entries_witness:
  "\<exists>w1. AuWaitQueue_DetachAll 1 (snd (poll_register demo_regs demo_table demo_waitq)) = Some w1 \<and>
     qhead (AuWaitQueueRemove 10 (AuWaitQueueAdd 1 12 w1)) 1 = 0"
proof -
  have "sched_wf (wsched (snd (poll_register demo_regs demo_table demo_waitq)))
      (move Ready Blocked 2 demo_lists)"
    using demo_polled_wf by (simp add: demo_regs_sched)
  moreover have "10 \<in> set (grow demo_regs (\<lambda>_. []) 1)"
    by (simp add: demo_regs_def)
  ultimately show ?thesis
    using AuWaitQueue_DetachAll_loses_entries [OF demo_regs_wf, of 1 _ 10 12] by (auto simp: Let_def)
qed

text \<open>A process whose main thread is 5, with one open file that has no \<open>poll\<close> routine.\<close>

definition demo_poll_procs :: proc_table where
  "demo_poll_procs =
     \<lparr>procs = [\<lparr>proc_id = 1, main_thread = 5,
        creds = \<lparr>cr_caps = 0, cr_uid = 0, cr_gid = 0, cr_sgid = replicate AURORA_MAX_GROUPS 0,
                 cr_num_sgid = 0\<rparr>,
        proc_caps = replicate FILE_DESC_PER_PROCESS \<lparr>cap_object = 0, cap_object_type = 0,
          cap_rights = 0, cap_owner = 0, cap_flags = 0, cap_valid = False\<rparr>,
        proc_fds = (replicate FILE_DESC_PER_PROCESS 0)[3 := 77]\<rparr>],
      proc_slot = \<lambda>_. None\<rparr>"

theorem poll_scan_faults_witness:
  "poll_scan demo_poll_procs 5 (\<lambda>_. None) [(3, POLLIN), (-1, POLLIN), (4, POLLIN)] 0 =
     Some (2, [POLLIN, 0, POLLNVAL]) \<and>
   poll_scan demo_poll_procs 5 (\<lambda>_. None) [(60, POLLIN)] 0 = None"
proof -
  have wf: "table_wf demo_poll_procs"
    by (simp add: table_wf_def demo_poll_procs_def proc_wf_def cred_wf_def)
  have caller: "calling_process demo_poll_procs 5 = Some 0"
    by (simp add: calling_process_def AuProcessFindThread_def demo_poll_procs_def)
  have "proc_fds (procs demo_poll_procs ! 0) ! 3 = 77" "proc_fds (procs demo_poll_procs ! 0) ! 4 = 0"
    by (simp_all add: demo_poll_procs_def FILE_DESC_PER_PROCESS_def)
  then show ?thesis
    unfolding poll_scan_faults [OF wf _ caller, simplified]
    by (simp add: poll_answer_def poll_mask_def FILE_DESC_PER_PROCESS_def POLLIN_def POLLOUT_def
        POLLERR_def POLLHUP_def POLLNVAL_def)
qed

end
