(* ===== verification/Tlsf.thy ===== *)
theory Tlsf
  imports Links
begin

text \<open>
  The kernel heap's allocator (KernelAA64/Mm/tlsf.c, BaseHdr/Mm/tlsf.h): two-level segregated
  free lists over blocks that carry their size and two flags in a header word. Headers and
  the free-list links behind them live in a memory indexed by address; sums of sizes that
  may exceed a \<open>size_t\<close> are reduced modulo \<open>2 ^ 64\<close> where the code adds them. The build with
  \<open>__XENEVA_DEBUG_ALLOC__\<close> is not modelled. An access outside the bucket array is \<open>None\<close>.
\<close>

section \<open>Headers\<close>

definition TLSF_HEADER_SIZE :: nat where "TLSF_HEADER_SIZE = 16"
definition TLSF_MIN_BLOCK_SIZE :: nat where "TLSF_MIN_BLOCK_SIZE = 32"
definition TLSF_SENTINEL_SIZE :: nat where "TLSF_SENTINEL_SIZE = 16"
definition SL_INDEX_COUNT_LOG2 :: nat where "SL_INDEX_COUNT_LOG2 = 5"
definition SL_INDEX_COUNT :: nat where "SL_INDEX_COUNT = 32"
definition FL_INDEX_COUNT :: nat where "FL_INDEX_COUNT = 64"
definition BLOCK_FLAG_FREE :: u64 where "BLOCK_FLAG_FREE = 1"
definition BLOCK_FLAG_PREV_FREE :: u64 where "BLOCK_FLAG_PREV_FREE = 2"

definition BLOCK_SIZE_MASK :: u64 where
  "BLOCK_SIZE_MASK = NOT (BLOCK_FLAG_FREE OR BLOCK_FLAG_PREV_FREE)"

lemmas tlsf_consts =
  TLSF_HEADER_SIZE_def TLSF_MIN_BLOCK_SIZE_def TLSF_SENTINEL_SIZE_def SL_INDEX_COUNT_LOG2_def
  SL_INDEX_COUNT_def FL_INDEX_COUNT_def

definition TLSF_ALIGN_UP :: "nat \<Rightarrow> nat" where
  "TLSF_ALIGN_UP x = (x + 15) div 16 * 16"

text \<open>A header with the two links that a free block keeps in its payload.\<close>

record free_block =
  hdr_size :: u64
  prev_size :: nat
  next_free :: nat
  prev_free :: nat

record tlsf_pool =
  fl_bitmap :: u64
  sl_bitmap :: "nat \<Rightarrow> u32"
  buckets :: "nat \<Rightarrow> nat \<Rightarrow> nat"
  pool_size :: nat
  used_size :: nat
  tmem :: "nat \<Rightarrow> free_block"

definition on_blk :: "nat \<Rightarrow> (free_block \<Rightarrow> free_block) \<Rightarrow> tlsf_pool \<Rightarrow> tlsf_pool" where
  "on_blk a f p = p\<lparr>tmem := (tmem p)(a := f (tmem p a))\<rparr>"

definition blk_size :: "free_block \<Rightarrow> nat" where
  "blk_size b = unat (hdr_size b AND BLOCK_SIZE_MASK)"

definition blk_is_free :: "free_block \<Rightarrow> bool" where
  "blk_is_free b \<longleftrightarrow> hdr_size b AND BLOCK_FLAG_FREE \<noteq> 0"

definition blk_prev_free :: "free_block \<Rightarrow> bool" where
  "blk_prev_free b \<longleftrightarrow> hdr_size b AND BLOCK_FLAG_PREV_FREE \<noteq> 0"

definition blk_next :: "tlsf_pool \<Rightarrow> nat \<Rightarrow> nat" where
  "blk_next p a = a + blk_size (tmem p a)"

definition blk_set_size :: "nat \<Rightarrow> bool \<Rightarrow> bool \<Rightarrow> free_block \<Rightarrow> free_block" where
  "blk_set_size sz free pfree b =
     b\<lparr>hdr_size := of_nat sz OR (if free then BLOCK_FLAG_FREE else 0) OR
                    (if pfree then BLOCK_FLAG_PREV_FREE else 0)\<rparr>"

text \<open>
  The two updates of the flag in a successor's header. The complement in the second is meant at
  the width of the size; as compiled it is 32 bits wide, which is the same for headers below
  \<open>2 ^ 32\<close> and cuts larger ones (\<open>compiled_clear\<close> below). The kernel heap grows in regions far
  smaller than that.
\<close>

definition set_prev_free :: "free_block \<Rightarrow> free_block" where
  "set_prev_free b = b\<lparr>hdr_size := hdr_size b OR BLOCK_FLAG_PREV_FREE\<rparr>"

definition clear_prev_free :: "free_block \<Rightarrow> free_block" where
  "clear_prev_free b = b\<lparr>hdr_size := hdr_size b AND NOT BLOCK_FLAG_PREV_FREE\<rparr>"

definition tlsf_ptr_sane :: "nat \<Rightarrow> bool" where
  "tlsf_ptr_sane a \<longleftrightarrow> a = 0 \<or> (a mod 16 = 0 \<and> 0xFFFF000000000000 \<le> a)"

definition tlsf_free_block_ok :: "tlsf_pool \<Rightarrow> nat \<Rightarrow> bool" where
  "tlsf_free_block_ok p a \<longleftrightarrow> a \<noteq> 0 \<and> tlsf_ptr_sane a \<and> blk_is_free (tmem p a) \<and>
     tlsf_ptr_sane (next_free (tmem p a)) \<and> tlsf_ptr_sane (prev_free (tmem p a))"

section \<open>Size classes\<close>

text \<open>\<open>tlsf_fls\<close> is the position of the highest bit set, what \<open>63 - clz\<close> gives for a size that
  is not zero; \<open>tlsf_ffs32\<close> and \<open>tlsf_ffs64\<close> give that of the lowest, -1 for none.\<close>

fun tlsf_fls :: "nat \<Rightarrow> nat" where
  "tlsf_fls x = (if x \<le> 1 then 0 else Suc (tlsf_fls (x div 2)))"

declare tlsf_fls.simps [simp del]

definition tlsf_ffs32 :: "u32 \<Rightarrow> int" where
  "tlsf_ffs32 w = (case first_index (bit w) [0..<32] of None \<Rightarrow> -1 | Some n \<Rightarrow> int n)"

definition tlsf_ffs64 :: "u64 \<Rightarrow> int" where
  "tlsf_ffs64 w = (case first_index (bit w) [0..<64] of None \<Rightarrow> -1 | Some n \<Rightarrow> int n)"

definition tlsf_mapping :: "nat \<Rightarrow> nat \<times> nat" where
  "tlsf_mapping sz =
     (if sz < SL_INDEX_COUNT then (0, sz)
      else let f = tlsf_fls sz
           in (f, drop_bit (f - SL_INDEX_COUNT_LOG2) (sz XOR 2 ^ f)))"

definition tlsf_mapping_search :: "nat \<Rightarrow> nat \<times> nat" where
  "tlsf_mapping_search sz =
     tlsf_mapping (if sz \<ge> SL_INDEX_COUNT
                   then (sz + 2 ^ (tlsf_fls sz - SL_INDEX_COUNT_LOG2) - 1) mod 2 ^ 64
                   else sz)"

section \<open>Free lists\<close>

text \<open>The tail of three routines: a bucket that has become empty loses its bits.\<close>

definition clear_bits :: "nat \<Rightarrow> nat \<Rightarrow> tlsf_pool \<Rightarrow> tlsf_pool" where
  "clear_bits fl sl p =
     (let p = p\<lparr>sl_bitmap := (sl_bitmap p)(fl := sl_bitmap p fl AND NOT (push_bit sl 1))\<rparr>
      in if sl_bitmap p fl = 0 then p\<lparr>fl_bitmap := fl_bitmap p AND NOT (push_bit fl 1)\<rparr> else p)"

definition set_bucket :: "nat \<Rightarrow> nat \<Rightarrow> nat \<Rightarrow> tlsf_pool \<Rightarrow> tlsf_pool" where
  "set_bucket fl sl a p = p\<lparr>buckets := (buckets p)(fl := (buckets p fl)(sl := a))\<rparr>"

definition tlsf_drop_bucket :: "nat \<Rightarrow> nat \<Rightarrow> tlsf_pool \<Rightarrow> tlsf_pool" where
  "tlsf_drop_bucket fl sl p =
     (if fl \<ge> FL_INDEX_COUNT \<or> sl \<ge> SL_INDEX_COUNT then p
      else clear_bits fl sl (set_bucket fl sl 0 p))"

definition tlsf_remove_free_block :: "nat \<Rightarrow> nat \<Rightarrow> nat \<Rightarrow> tlsf_pool \<Rightarrow> tlsf_pool" where
  "tlsf_remove_free_block a fl sl p =
     (if \<not> tlsf_free_block_ok p a then tlsf_drop_bucket fl sl p
      else
        let pr = prev_free (tmem p a);
            nx = next_free (tmem p a);
            pr = (if pr \<noteq> 0 \<and> \<not> tlsf_free_block_ok p pr then 0 else pr);
            nx = (if nx \<noteq> 0 \<and> \<not> tlsf_free_block_ok p nx then 0 else nx);
            p = (if pr \<noteq> 0 then on_blk pr (\<lambda>b. b\<lparr>next_free := nx\<rparr>) p else set_bucket fl sl nx p);
            p = (if nx \<noteq> 0 then on_blk nx (\<lambda>b. b\<lparr>prev_free := pr\<rparr>) p else p)
        in if buckets p fl sl = 0 then clear_bits fl sl p else p)"

definition tlsf_insert_free_block :: "nat \<Rightarrow> nat \<Rightarrow> nat \<Rightarrow> tlsf_pool \<Rightarrow> tlsf_pool" where
  "tlsf_insert_free_block a fl sl p =
     (let h = buckets p fl sl;
          bad = (h \<noteq> 0 \<and> \<not> tlsf_free_block_ok p h);
          p = (if bad then tlsf_drop_bucket fl sl p else p);
          h = (if bad then 0 else h);
          p = on_blk a (\<lambda>b. b\<lparr>next_free := h, prev_free := 0\<rparr>) p;
          p = (if h \<noteq> 0 then on_blk h (\<lambda>b. b\<lparr>prev_free := a\<rparr>) p else p);
          p = set_bucket fl sl a p
      in p\<lparr>sl_bitmap := (sl_bitmap p)(fl := sl_bitmap p fl OR push_bit sl 1),
           fl_bitmap := fl_bitmap p OR push_bit fl 1\<rparr>)"

text \<open>The head of a bucket, or null with the bucket dropped when it does not look like a block.\<close>

definition take_head :: "nat \<Rightarrow> int \<Rightarrow> tlsf_pool \<Rightarrow> (nat \<times> tlsf_pool) option" where
  "take_head fl sl p =
     (if sl < 0 then None
      else let a = buckets p fl (nat sl)
           in Some (if a \<noteq> 0 \<and> \<not> tlsf_free_block_ok p a
                    then (0, tlsf_drop_bucket fl (nat sl) p) else (a, p)))"

definition tlsf_find_free_block :: "nat \<Rightarrow> tlsf_pool \<Rightarrow> (nat \<times> tlsf_pool) option" where
  "tlsf_find_free_block sz p =
     (let (fl, sl) = tlsf_mapping_search sz;
          sl_masked = sl_bitmap p fl AND NOT (push_bit sl 1 - 1)
      in case (if sl_masked \<noteq> 0 then take_head fl (tlsf_ffs32 sl_masked) p else Some (0, p)) of
           None \<Rightarrow> None
         | Some (a, p) \<Rightarrow>
             if a \<noteq> 0 then Some (a, p)
             else
               let fl_masked = (if fl + 1 < FL_INDEX_COUNT
                                then fl_bitmap p AND push_bit (fl + 1) (NOT 0) else 0)
               in if fl_masked \<noteq> 0
                  then let found_fl = nat (tlsf_ffs64 fl_masked)
                       in take_head found_fl (tlsf_ffs32 (sl_bitmap p found_fl)) p
                  else Some (0, p))"


section \<open>The interface\<close>

definition tlsf_create :: "(nat \<Rightarrow> free_block) \<Rightarrow> tlsf_pool" where
  "tlsf_create mem =
     \<lparr>fl_bitmap = 0, sl_bitmap = \<lambda>_. 0, buckets = \<lambda>_ _. 0, pool_size = 0, used_size = 0, tmem = mem\<rparr>"

text \<open>The two places where a free block goes to the list of its own size.\<close>

definition insert_by_size :: "nat \<Rightarrow> nat \<Rightarrow> tlsf_pool \<Rightarrow> tlsf_pool" where
  "insert_by_size a sz p = (case tlsf_mapping sz of (fl, sl) \<Rightarrow> tlsf_insert_free_block a fl sl p)"

definition remove_by_size :: "nat \<Rightarrow> nat \<Rightarrow> tlsf_pool \<Rightarrow> tlsf_pool" where
  "remove_by_size a sz p = (case tlsf_mapping sz of (fl, sl) \<Rightarrow> tlsf_remove_free_block a fl sl p)"

definition tlsf_add_memory :: "nat \<Rightarrow> nat \<Rightarrow> tlsf_pool \<Rightarrow> int \<times> tlsf_pool" where
  "tlsf_add_memory mem sz p =
     (if mem = 0 then (-1, p)
      else
        let addr = TLSF_ALIGN_UP mem mod 2 ^ 64;
            avail = (mem + sz + 2 ^ 64 - addr) mod 2 ^ 64 div 16 * 16
        in if avail < TLSF_SENTINEL_SIZE * 2 + TLSF_MIN_BLOCK_SIZE then (-1, p)
           else
             let free_size = avail - TLSF_SENTINEL_SIZE * 2;
                 blk = addr + TLSF_SENTINEL_SIZE;
                 fin = addr + avail - TLSF_SENTINEL_SIZE;
                 p = on_blk addr (\<lambda>b. (blk_set_size TLSF_SENTINEL_SIZE False False b)\<lparr>prev_size := 0\<rparr>) p;
                 p = on_blk blk (\<lambda>b. (blk_set_size free_size True False b)
                                       \<lparr>prev_size := TLSF_SENTINEL_SIZE\<rparr>) p;
                 p = on_blk fin (\<lambda>b. set_prev_free ((blk_set_size TLSF_SENTINEL_SIZE False False b)
                                       \<lparr>prev_size := free_size\<rparr>)) p;
                 p = insert_by_size blk free_size p
             in (0, p\<lparr>pool_size := pool_size p + avail\<rparr>))"

text \<open>
  The remainder that splitting a block leaves: its header, the flag and the size in its
  successor's header, and its insertion. Three routines do this.
\<close>

definition put_remainder :: "nat \<Rightarrow> nat \<Rightarrow> nat \<Rightarrow> bool \<Rightarrow> tlsf_pool \<Rightarrow> tlsf_pool" where
  "put_remainder a need rest pfree p =
     (let new = a + need;
          p = on_blk new (\<lambda>b. (blk_set_size rest True False b)\<lparr>prev_size := need\<rparr>) p;
          p = on_blk a (blk_set_size need False pfree) p;
          p = on_blk (blk_next p new) (\<lambda>b. set_prev_free (b\<lparr>prev_size := rest\<rparr>)) p
      in insert_by_size new rest p)"

text \<open>A whole block handed out: its header, and the flag in its successor's header.\<close>

definition take_whole :: "nat \<Rightarrow> nat \<Rightarrow> bool \<Rightarrow> tlsf_pool \<Rightarrow> tlsf_pool" where
  "take_whole a sz pfree p =
     (let p = on_blk a (blk_set_size sz False pfree) p
      in on_blk (blk_next p a) (\<lambda>b. clear_prev_free (b\<lparr>prev_size := sz\<rparr>)) p)"

definition request_size :: "nat \<Rightarrow> nat" where
  "request_size n = max TLSF_MIN_BLOCK_SIZE (TLSF_ALIGN_UP (n + TLSF_HEADER_SIZE))"

definition tlsf_malloc :: "nat \<Rightarrow> tlsf_pool \<Rightarrow> (nat \<times> tlsf_pool) option" where
  "tlsf_malloc n p =
     (if n = 0 then Some (0, p)
      else if n > 2 ^ 64 - 1 - TLSF_HEADER_SIZE - 15 then Some (0, p)
      else
        let need = request_size n
        in case tlsf_find_free_block need p of None \<Rightarrow> None
           | Some (a, p) \<Rightarrow>
               if a = 0 \<or> \<not> tlsf_free_block_ok p a then Some (0, p)
               else
                 let block_size = blk_size (tmem p a);
                     p = remove_by_size a block_size p;
                     pfree = blk_prev_free (tmem p a);
                     p = (if block_size \<ge> (need + TLSF_MIN_BLOCK_SIZE) mod 2 ^ 64
                          then put_remainder a need (block_size - need) pfree p
                          else take_whole a block_size pfree p)
                 in Some (a + TLSF_HEADER_SIZE,
                          p\<lparr>used_size := used_size p + blk_size (tmem p a) - TLSF_HEADER_SIZE\<rparr>))"

text \<open>
  \<open>tlsf_free\<close>: mark the block, join it with a free predecessor and a free successor, tell the
  successor, insert the result.
\<close>

definition join_back :: "nat \<Rightarrow> bool \<Rightarrow> nat \<Rightarrow> tlsf_pool \<Rightarrow> nat \<times> tlsf_pool" where
  "join_back a was_prev_free saved p =
     (if was_prev_free \<and> saved > 0
      then
        let pr = a - saved;
            prev_sz = blk_size (tmem p pr);
            ppf = blk_prev_free (tmem p pr);
            cur = blk_size (tmem p a) + prev_sz;
            p = remove_by_size pr prev_sz p
        in (pr, on_blk pr (blk_set_size cur True ppf) p)
      else (a, p))"

definition join_next :: "nat \<Rightarrow> tlsf_pool \<Rightarrow> tlsf_pool" where
  "join_next a p =
     (let nx = blk_next p a
      in if blk_is_free (tmem p nx)
         then
           let next_sz = blk_size (tmem p nx);
               p = remove_by_size nx next_sz p
           in on_blk a (\<lambda>b. blk_set_size (blk_size b + next_sz) True (blk_prev_free b) b) p
         else p)"

definition tlsf_free :: "nat \<Rightarrow> tlsf_pool \<Rightarrow> tlsf_pool" where
  "tlsf_free ptr p =
     (if ptr = 0 then p
      else
        let a = ptr - TLSF_HEADER_SIZE;
            cur = blk_size (tmem p a)
        in if blk_is_free (tmem p a) then p
           else
             let was_prev_free = blk_prev_free (tmem p a);
                 saved = prev_size (tmem p a);
                 p = on_blk a (blk_set_size cur True was_prev_free) p;
                 (a, p) = join_back a was_prev_free saved p;
                 p = join_next a p;
                 p = on_blk (blk_next p a)
                       (\<lambda>b. set_prev_free (b\<lparr>prev_size := blk_size (tmem p a)\<rparr>)) p;
                 p = insert_by_size a (blk_size (tmem p a)) p;
                 payload = cur - TLSF_HEADER_SIZE
             in p\<lparr>used_size := (if used_size p \<ge> payload then used_size p - payload else 0)\<rparr>)"

text \<open>\<open>copy dst src n\<close> is what \<open>memcpy\<close> does to the memory.\<close>

definition tlsf_realloc ::
  "(nat \<Rightarrow> nat \<Rightarrow> nat \<Rightarrow> (nat \<Rightarrow> free_block) \<Rightarrow> nat \<Rightarrow> free_block) \<Rightarrow> nat \<Rightarrow> nat \<Rightarrow> tlsf_pool \<Rightarrow>
     (nat \<times> tlsf_pool) option"
where
  "tlsf_realloc copy ptr n p =
     (if ptr = 0 then tlsf_malloc n p
      else if n = 0 then Some (0, tlsf_free ptr p)
      else if n > 2 ^ 64 - 1 - TLSF_HEADER_SIZE - 15 then Some (0, p)
      else
        let need = request_size n;
            a = ptr - TLSF_HEADER_SIZE;
            old_size = blk_size (tmem p a);
            pf = blk_prev_free (tmem p a)
        in if old_size \<ge> need
           then let remaining = old_size - need
                in Some (ptr, if remaining \<ge> TLSF_MIN_BLOCK_SIZE
                              then (\<lambda>p. p\<lparr>used_size := used_size p - remaining\<rparr>)
                                     (put_remainder a need remaining pf p)
                              else p)
           else
             let nx = blk_next p a;
                 next_sz = blk_size (tmem p nx)
             in if blk_is_free (tmem p nx) \<and> old_size + next_sz \<ge> need
                then
                  let p = remove_by_size nx next_sz p;
                      remaining = old_size + next_sz - need
                  in if remaining \<ge> TLSF_MIN_BLOCK_SIZE
                     then Some (ptr, (\<lambda>p. p\<lparr>used_size := used_size p + (need - old_size)\<rparr>)
                                       (put_remainder a need remaining pf p))
                     else Some (ptr, (\<lambda>p. p\<lparr>used_size := used_size p + (old_size + next_sz - old_size)\<rparr>)
                                       (take_whole a (old_size + next_sz) pf p))
                else
                  case tlsf_malloc n p of None \<Rightarrow> None
                  | Some (q, p) \<Rightarrow>
                      if q = 0 then Some (0, p)
                      else
                        let len = min (old_size - TLSF_HEADER_SIZE) (need - TLSF_HEADER_SIZE);
                            p = (if len > 0 then p\<lparr>tmem := copy q ptr len (tmem p)\<rparr> else p)
                        in Some (q, tlsf_free ptr p))"



section \<open>Header words\<close>

lemma flag_bits:
  "w AND BLOCK_FLAG_FREE \<noteq> 0 \<longleftrightarrow> bit w 0" "w AND BLOCK_FLAG_PREV_FREE \<noteq> 0 \<longleftrightarrow> bit w 1"
  using bit_iff_and_push_bit_not_eq_0 [of w 0] bit_iff_and_push_bit_not_eq_0 [of w 1]
  by (simp_all add: BLOCK_FLAG_FREE_def BLOCK_FLAG_PREV_FREE_def push_bit_eq_mult)

lemma flag_words:
  "bit BLOCK_FLAG_FREE n \<longleftrightarrow> n = 0" "bit BLOCK_FLAG_PREV_FREE n \<longleftrightarrow> n = 1"
proof -
  show "bit BLOCK_FLAG_FREE n \<longleftrightarrow> n = 0"
    by (simp add: BLOCK_FLAG_FREE_def bit_1_iff)
  have "bit (push_bit 1 (1 :: u64)) n \<longleftrightarrow> n = 1"
    by (simp only: bit_push_bit_iff bit_1_iff) auto
  then show "bit BLOCK_FLAG_PREV_FREE n \<longleftrightarrow> n = 1"
    by (simp add: BLOCK_FLAG_PREV_FREE_def push_bit_eq_mult)
qed

lemma mask_bits: "bit BLOCK_SIZE_MASK n \<longleftrightarrow> n < 64 \<and> n \<noteq> 0 \<and> n \<noteq> 1"
  by (auto simp: BLOCK_SIZE_MASK_def bit_simps flag_words)

lemma low_bits:
  assumes "4 dvd sz"
  shows "\<not> bit sz 0" "\<not> bit (sz::nat) 1" 
proof -
  obtain k where "sz = 4 * k" using assms by auto
  then show "\<not> bit sz 0" "\<not> bit sz 1"
    by (simp_all add: bit_0 bit_1_iff bit_iff_odd)
qed

lemma header_eq:
  "blk_is_free b \<longleftrightarrow> bit (hdr_size b) 0" "blk_prev_free b \<longleftrightarrow> bit (hdr_size b) 1"
  by (simp_all add: blk_is_free_def blk_prev_free_def flag_bits)

lemma blk_size_set [simp]:
  assumes "sz < 2 ^ 64" "4 dvd sz"
  shows "blk_size (blk_set_size sz f q b) = sz"
proof -
  have "hdr_size (blk_set_size sz f q b) AND BLOCK_SIZE_MASK = of_nat sz"
    using low_bits [OF assms(2)]
    by (intro bit_eqI) (auto simp: blk_set_size_def bit_simps mask_bits flag_words intro: gr0I)
  then show ?thesis
    using assms(1) by (simp add: blk_size_def unsigned_of_nat take_bit_nat_eq_self)
qed

lemma flags_set [simp]:
  assumes "4 dvd sz"
  shows "blk_is_free (blk_set_size sz f q b) = f" "blk_prev_free (blk_set_size sz f q b) = q"
  using low_bits [OF assms] by (auto simp: header_eq blk_set_size_def bit_simps flag_words)

lemma flag_updates [simp]:
  "blk_size (set_prev_free b) = blk_size b" "blk_size (clear_prev_free b) = blk_size b"
  "blk_is_free (set_prev_free b) = blk_is_free b" "blk_is_free (clear_prev_free b) = blk_is_free b"
  "blk_prev_free (set_prev_free b)" "\<not> blk_prev_free (clear_prev_free b)"
  "next_free (set_prev_free b) = next_free b" "next_free (clear_prev_free b) = next_free b"
  "prev_free (set_prev_free b) = prev_free b" "prev_free (clear_prev_free b) = prev_free b"
  "prev_size (set_prev_free b) = prev_size b" "prev_size (clear_prev_free b) = prev_size b"
  "next_free (blk_set_size sz f q b) = next_free b" "prev_free (blk_set_size sz f q b) = prev_free b"
  "prev_size (blk_set_size sz f q b) = prev_size b"
proof -
  have "hdr_size (set_prev_free b) AND BLOCK_SIZE_MASK = hdr_size b AND BLOCK_SIZE_MASK"
    "hdr_size (clear_prev_free b) AND BLOCK_SIZE_MASK = hdr_size b AND BLOCK_SIZE_MASK"
    by (rule bit_eqI, auto simp: set_prev_free_def clear_prev_free_def bit_simps mask_bits flag_words)+
  then show "blk_size (set_prev_free b) = blk_size b" "blk_size (clear_prev_free b) = blk_size b"
    by (simp_all add: blk_size_def)
qed (auto simp: header_eq set_prev_free_def clear_prev_free_def blk_set_size_def bit_simps flag_words)

text \<open>
  The mask \<open>~0x2U\<close> of the code is a 32-bit word that is extended by zeros: of a header of 4 GiB or
  more only the low half is left.
\<close>

lemma compiled_clear:
  fixes b :: free_block
  defines "w \<equiv> hdr_size b AND 0xFFFFFFFD"
  shows "hdr_size b < 2 ^ 32 \<Longrightarrow> w = hdr_size (clear_prev_free b)"
    and "w = take_bit 32 (hdr_size (clear_prev_free b))"
proof -
  have m: "(0xFFFFFFFD :: u64) = mask 32 AND NOT BLOCK_FLAG_PREV_FREE"
    by (simp add: BLOCK_FLAG_PREV_FREE_def mask_eq_exp_minus_1)
  have "hdr_size (clear_prev_free b) = hdr_size b AND NOT BLOCK_FLAG_PREV_FREE"
    by (simp add: clear_prev_free_def)
  then show w: "w = take_bit 32 (hdr_size (clear_prev_free b))"
    unfolding w_def m take_bit_eq_mask by (simp only: ac_simps)
  assume "hdr_size b < 2 ^ 32"
  then have "unat (take_bit 32 (hdr_size b)) = unat (hdr_size b)"
    by (simp add: unsigned_take_bit_eq take_bit_nat_eq_self word_less_nat_alt)
  then have "take_bit 32 (hdr_size b) = hdr_size b"
    by (simp only: word_unat_eq_iff)
  moreover have "take_bit 32 (h AND n) = take_bit 32 h AND n" for h n :: u64
    by (simp only: take_bit_eq_mask ac_simps)
  ultimately show "w = hdr_size (clear_prev_free b)"
    unfolding w by (simp add: clear_prev_free_def del: take_bit_and)
qed

lemma header_payload [simp]:
  "blk_size (b\<lparr>prev_size := x\<rparr>) = blk_size b" "blk_size (b\<lparr>next_free := x\<rparr>) = blk_size b"
  "blk_size (b\<lparr>prev_free := x\<rparr>) = blk_size b"
  "blk_is_free (b\<lparr>prev_size := x\<rparr>) = blk_is_free b" "blk_is_free (b\<lparr>next_free := x\<rparr>) = blk_is_free b"
  "blk_is_free (b\<lparr>prev_free := x\<rparr>) = blk_is_free b"
  "blk_prev_free (b\<lparr>prev_size := x\<rparr>) = blk_prev_free b"
  "blk_prev_free (b\<lparr>next_free := x\<rparr>) = blk_prev_free b"
  "blk_prev_free (b\<lparr>prev_free := x\<rparr>) = blk_prev_free b"
  by (simp_all add: blk_size_def blk_is_free_def blk_prev_free_def)

section \<open>Size classes\<close>

lemma tlsf_fls_bounds: "0 < x \<Longrightarrow> 2 ^ tlsf_fls x \<le> x \<and> x < 2 ^ Suc (tlsf_fls x)"
proof (induction x rule: tlsf_fls.induct)
  case (1 x)
  show ?case
  proof (cases "x \<le> 1")
    case True
    then show ?thesis using "1.prems" by (simp add: tlsf_fls.simps)
  next
    case False
    then have "2 ^ tlsf_fls (x div 2) \<le> x div 2 \<and> x div 2 < 2 ^ Suc (tlsf_fls (x div 2))"
      using "1.IH" by simp
    then show ?thesis
      using False by (subst (1 2) tlsf_fls.simps) auto
  qed
qed

lemma tlsf_fls_unique:
  assumes "2 ^ f \<le> x" "x < 2 ^ Suc f"
  shows "tlsf_fls x = f"
proof -
  have "0 < x"
    using assms(1) by (metis gr_zeroI le_zero_eq power_eq_0_iff zero_neq_numeral)
  note b = tlsf_fls_bounds [OF this]
  have "(2::nat) ^ f < 2 ^ Suc (tlsf_fls x)" "(2::nat) ^ tlsf_fls x < 2 ^ Suc f"
    using assms b by linarith+
  then have "f < Suc (tlsf_fls x)" "tlsf_fls x < Suc f"
    by (simp_all only: power_strict_increasing_iff [of "2::nat"] one_less_numeral_iff semiring_norm)
  then show ?thesis by simp
qed

lemma xor_high:
  assumes "2 ^ f \<le> x" "x < 2 ^ Suc f"
  shows "x XOR 2 ^ f = (x - 2 ^ f :: nat)"
proof -
  define y where "y = x - 2 ^ f"
  have y: "y < 2 ^ f" "x = y + 2 ^ f"
    using assms by (simp_all add: y_def)
  have "take_bit f y = y"
    using y(1) by (rule take_bit_nat_eq_self)
  then have "\<not> bit y n" if "n \<ge> f" for n
    using that by (metis bit_take_bit_iff not_less)
  then have "y AND 2 ^ f = 0"
    by (intro bit_eqI) (auto simp: bit_simps)
  then have "x = y XOR 2 ^ f"
    using y(2) by (simp add: disjunctive_add_eq_xor)
  then have "x XOR 2 ^ f = y"
    by (simp add: xor.assoc)
  then show ?thesis
    by (simp only: y_def)
qed

text \<open>What the class of a size that is at least 32 says about the size.\<close>

lemma tlsf_mapping_ge:
  assumes "32 \<le> sz"
  defines "f \<equiv> tlsf_fls sz"
  shows "tlsf_mapping sz = (f, (sz - 2 ^ f) div 2 ^ (f - 5))" "5 \<le> f" "2 ^ f \<le> sz" "sz < 2 ^ Suc f"
    "(sz - 2 ^ f) div 2 ^ (f - 5) < 32"
proof -
  have b: "2 ^ f \<le> sz" "sz < 2 ^ Suc f"
    using tlsf_fls_bounds [of sz] assms(1) by (simp_all add: f_def)
  then show "2 ^ f \<le> sz" "sz < 2 ^ Suc f" by simp_all
  show f5: "5 \<le> f"
  proof (rule ccontr)
    assume "\<not> 5 \<le> f"
    then have "(2::nat) ^ Suc f \<le> 2 ^ 5"
      by (intro power_increasing) auto
    then show False using assms(1) b by simp
  qed
  show "tlsf_mapping sz = (f, (sz - 2 ^ f) div 2 ^ (f - 5))"
    using assms(1) xor_high [OF b]
    by (simp add: tlsf_mapping_def f_def [symmetric] tlsf_consts Let_def drop_bit_eq_div)
  have "(2::nat) ^ f = 2 ^ (f - 5) * 2 ^ 5"
    using f5 by (simp only: power_add [symmetric] le_add_diff_inverse2)
  then show "(sz - 2 ^ f) div 2 ^ (f - 5) < 32"
    using b by (intro less_mult_imp_div_less) (simp add: mult.commute)
qed

definition class_le :: "nat \<times> nat \<Rightarrow> nat \<times> nat \<Rightarrow> bool" where
  "class_le c d \<longleftrightarrow> fst c < fst d \<or> fst c = fst d \<and> snd c \<le> snd d"

lemma tlsf_mapping_mono:
  assumes "32 \<le> s" "s \<le> t"
  shows "class_le (tlsf_mapping s) (tlsf_mapping t)"
proof -
  note S = tlsf_mapping_ge [OF assms(1)] and T = tlsf_mapping_ge [OF order_trans [OF assms]]
  have "(2::nat) ^ tlsf_fls s < 2 ^ Suc (tlsf_fls t)"
    using S(3) T(4) assms(2) by linarith
  then have "tlsf_fls s \<le> tlsf_fls t"
    by (simp only: power_strict_increasing_iff [of "2::nat"] one_less_numeral_iff semiring_norm
        less_Suc_eq_le)
  moreover have "(s - 2 ^ tlsf_fls s) div 2 ^ (tlsf_fls s - 5) \<le>
      (t - 2 ^ tlsf_fls t) div 2 ^ (tlsf_fls t - 5)" if "tlsf_fls s = tlsf_fls t"
    using that assms(2) by (simp add: div_le_mono diff_le_mono)
  ultimately show ?thesis
    using S(1) T(1) by (auto simp: class_le_def)
qed

lemma power_fls_le: "f < g \<Longrightarrow> (2::nat) ^ Suc f \<le> 2 ^ g"
  by (rule power_increasing) auto

text \<open>The size from which the search finds every block.\<close>

definition search_size :: "nat \<Rightarrow> nat" where
  "search_size need = need + 2 ^ (tlsf_fls need - 5) - 1"

lemma search_class:
  assumes "32 \<le> need" "search_size need < 2 ^ 64"
  shows "tlsf_mapping_search need = tlsf_mapping (search_size need)" "need \<le> search_size need"
    "search_size need + 1 = need + 2 ^ (tlsf_fls need - 5)"
proof -
  show e: "search_size need + 1 = need + 2 ^ (tlsf_fls need - 5)"
    by (simp add: search_size_def)
  have "0 < (2::nat) ^ (tlsf_fls need - 5)"
    by simp
  then show "need \<le> search_size need"
    using e by linarith
qed (use assms in \<open>simp add: tlsf_mapping_search_def search_size_def tlsf_consts\<close>)

lemma tlsf_mapping_search_sound:
  assumes "32 \<le> need" "search_size need < 2 ^ 64" "32 \<le> s"
    and "class_le (tlsf_mapping_search need) (tlsf_mapping s)"
  shows "need \<le> s"
proof -
  define r where "r = search_size need"
  note sc = search_class [OF assms(1,2), folded r_def]
  then have r: "32 \<le> r" using assms(1) by simp
  note R = tlsf_mapping_ge [OF r] and S = tlsf_mapping_ge [OF assms(3)] and N = tlsf_mapping_ge [OF assms(1)]
  have le: "tlsf_fls r < tlsf_fls s \<or> tlsf_fls r = tlsf_fls s \<and>
      (r - 2 ^ tlsf_fls r) div 2 ^ (tlsf_fls r - 5) \<le> (s - 2 ^ tlsf_fls s) div 2 ^ (tlsf_fls s - 5)"
    using assms(4) unfolding sc(1) R(1) S(1) class_le_def by simp
  consider "tlsf_fls need < tlsf_fls s" | "tlsf_fls r < tlsf_fls s" | "tlsf_fls s \<le> tlsf_fls need" "tlsf_fls r = tlsf_fls s"
    using le by linarith
  then show ?thesis
  proof cases
    case 1
    then show ?thesis
      using power_fls_le [OF 1] N(4) S(3) by linarith
  next
    case 2
    then show ?thesis
      using power_fls_le [OF 2] R(4) S(3) sc(2) by linarith
  next
    case 3
    define f where "f = tlsf_fls s"
    have "(2::nat) ^ tlsf_fls need < 2 ^ Suc f"
      using N(3) R(4) sc(2) 3(2) unfolding f_def by (metis le_less_trans order_trans)
    then have "tlsf_fls need = f"
      using 3(1) unfolding f_def by (simp only: power_strict_increasing_iff [of "2::nat"]
          one_less_numeral_iff semiring_norm less_Suc_eq_le)
    then have g: "r + 1 = need + 2 ^ (f - 5)"
      using sc(3) by simp
    have "(r - 2 ^ f) div 2 ^ (f - 5) \<le> (s - 2 ^ f) div 2 ^ (f - 5)"
      using le 3(2) unfolding f_def by auto
    then have "(r - 2 ^ f) div 2 ^ (f - 5) * 2 ^ (f - 5) \<le> (s - 2 ^ f) div 2 ^ (f - 5) * 2 ^ (f - 5)"
      by simp
    also have "\<dots> \<le> s - 2 ^ f"
      by simp
    finally have "r - 2 ^ f < s - 2 ^ f + 2 ^ (f - 5)"
      using mod_less_divisor [of "2 ^ (f - 5)" "r - 2 ^ f"] div_mult_mod_eq [of "r - 2 ^ f" "2 ^ (f - 5)"]
      by (simp del: mod_less_divisor)
    then have "r < s + 2 ^ (f - 5)"
      using S(3) R(3) 3(2) unfolding f_def by linarith
    then show ?thesis
      using g by linarith
  qed
qed

text \<open>Evaluating the size classes of numerals.\<close>

lemma fls_num:
  "tlsf_fls (numeral k) =
     (if numeral k \<le> (1::nat) then 0 else if numeral k \<le> (3::nat) then 1
      else if numeral k \<le> (7::nat) then 2 else Suc (tlsf_fls (numeral k div 2)))"
proof -
  have u: "tlsf_fls x = (if x \<le> 1 then 0 else Suc (tlsf_fls (x div 2)))" for x
    by (rule tlsf_fls.simps)
  have "tlsf_fls x = (if x \<le> 1 then 0 else if x \<le> 3 then 1 else if x \<le> 7 then 2
      else Suc (tlsf_fls (x div 2)))" for x
    using u [of x] u [of "x div 2"] u [of "x div 2 div 2"] by auto
  then show ?thesis .
qed

lemmas class_eval = tlsf_mapping_def tlsf_mapping_search_def tlsf_consts Let_def fls_num drop_bit_eq_div

end
