(* ===== verification/TlsfLists.thy ===== *)
theory TlsfLists
  imports Tlsf
begin

text \<open>
  The free lists of the heap: what it means that the bucket array, the links in the blocks
  and the two bitmaps represent a family of lists, and that removing, inserting and searching
  respect that representation.
\<close>

section \<open>Bits\<close>

lemma ffs_some:
  fixes w :: "'a::len word"
  assumes "w \<noteq> 0" "LENGTH('a) = n"
  obtains k where "first_index (bit w) [0..<n] = Some k" "k < n" "bit w k" "\<And>j. j < k \<Longrightarrow> \<not> bit w j"
proof -
  obtain m where m: "bit w m"
    using assms(1) by (metis bit_eqI bit_0_eq bot_apply bot_bool_def)
  then have "m < n"
    using assms(2) bit_imp_le_length by auto
  then have "first_index (bit w) [0..<n] \<noteq> None"
    using m by (auto simp: first_index_None)
  then obtain k where k: "first_index (bit w) [0..<n] = Some k" by auto
  then have "k < n \<and> bit w k \<and> (\<forall>j < k. \<not> bit w j)"
    by (auto simp: first_index_Some)
  then show thesis using k that by blast
qed

lemma tlsf_ffs32_some:
  assumes "w \<noteq> 0"
  obtains k where "tlsf_ffs32 w = int k" "k < 32" "bit w k" "\<And>j. j < k \<Longrightarrow> \<not> bit w j"
  by (rule ffs_some [OF assms, of 32]) (simp, simp add: tlsf_ffs32_def that)

lemma tlsf_ffs64_some:
  assumes "w \<noteq> 0"
  obtains k where "tlsf_ffs64 w = int k" "k < 64" "bit w k" "\<And>j. j < k \<Longrightarrow> \<not> bit w j"
  by (rule ffs_some [OF assms, of 64]) (simp, simp add: tlsf_ffs64_def that)

lemma word_zero_iff: "(w :: 'a::len word) = 0 \<longleftrightarrow> (\<forall>n < LENGTH('a). \<not> bit w n)"
  by (metis bit_0_eq bit_eqI bit_imp_le_length bot_apply bot_bool_def)

section \<open>The representation\<close>

definition listed :: "(nat \<times> nat \<Rightarrow> nat list) \<Rightarrow> nat \<Rightarrow> nat \<times> nat \<Rightarrow> bool" where
  "listed F a c \<longleftrightarrow> a \<in> set (F c)"

definition is_class :: "nat \<times> nat \<Rightarrow> bool" where
  "is_class c \<longleftrightarrow> fst c < 64 \<and> snd c < 32"

definition lists_ok :: "tlsf_pool \<Rightarrow> (nat \<times> nat \<Rightarrow> nat list) \<Rightarrow> bool" where
  "lists_ok p F \<longleftrightarrow>
     (\<forall>c. is_class c \<longrightarrow>
        distinct (F c) \<and> dlinks (\<lambda>a. next_free (tmem p a)) (\<lambda>a. prev_free (tmem p a)) 0 (F c) 0 \<and>
        buckets p (fst c) (snd c) = first (F c) 0 \<and>
        (bit (sl_bitmap p (fst c)) (snd c) \<longleftrightarrow> F c \<noteq> [])) \<and>
     (\<forall>fl < 64. bit (fl_bitmap p) fl \<longleftrightarrow> (\<exists>sl < 32. F (fl, sl) \<noteq> [])) \<and>
     (\<forall>c. \<not> is_class c \<longrightarrow> F c = []) \<and>
     (\<forall>c d a. a \<in> set (F c) \<longrightarrow> a \<in> set (F d) \<longrightarrow> c = d) \<and>
     (\<forall>c. \<forall>a \<in> set (F c). a \<noteq> 0 \<and> tlsf_ptr_sane a \<and> blk_is_free (tmem p a))"

lemma lists_okD:
  assumes "lists_ok p F"
  shows "is_class c \<Longrightarrow> distinct (F c)"
    "is_class c \<Longrightarrow> dlinks (\<lambda>a. next_free (tmem p a)) (\<lambda>a. prev_free (tmem p a)) 0 (F c) 0"
    "is_class c \<Longrightarrow> buckets p (fst c) (snd c) = first (F c) 0"
    "is_class c \<Longrightarrow> bit (sl_bitmap p (fst c)) (snd c) \<longleftrightarrow> F c \<noteq> []"
    "fl < 64 \<Longrightarrow> bit (fl_bitmap p) fl \<longleftrightarrow> (\<exists>sl < 32. F (fl, sl) \<noteq> [])"
    "\<not> is_class c \<Longrightarrow> F c = []"
    "a \<in> set (F c) \<Longrightarrow> a \<in> set (F d) \<Longrightarrow> c = d"
    "a \<in> set (F c) \<Longrightarrow> a \<noteq> 0 \<and> tlsf_ptr_sane a \<and> blk_is_free (tmem p a)"
  using assms unfolding lists_ok_def by blast+

lemma lists_okI:
  assumes "\<And>c. is_class c \<Longrightarrow> distinct (F c)"
    "\<And>c. is_class c \<Longrightarrow> dlinks (\<lambda>a. next_free (tmem p a)) (\<lambda>a. prev_free (tmem p a)) 0 (F c) 0"
    "\<And>c. is_class c \<Longrightarrow> buckets p (fst c) (snd c) = first (F c) 0"
    "\<And>c. is_class c \<Longrightarrow> bit (sl_bitmap p (fst c)) (snd c) \<longleftrightarrow> F c \<noteq> []"
    "\<And>fl. fl < 64 \<Longrightarrow> bit (fl_bitmap p) fl \<longleftrightarrow> (\<exists>sl < 32. F (fl, sl) \<noteq> [])"
    "\<And>c. \<not> is_class c \<Longrightarrow> F c = []"
    "\<And>c d a. a \<in> set (F c) \<Longrightarrow> a \<in> set (F d) \<Longrightarrow> c = d"
    "\<And>c a. a \<in> set (F c) \<Longrightarrow> a \<noteq> 0 \<and> tlsf_ptr_sane a \<and> blk_is_free (tmem p a)"
  shows "lists_ok p F"
  unfolding lists_ok_def using assms by (intro conjI allI impI ballI) metis+

lemma listed_class: "lists_ok p F \<Longrightarrow> a \<in> set (F c) \<Longrightarrow> is_class c"
  using lists_okD(6) by fastforce

lemma sane_zero [simp]: "tlsf_ptr_sane 0"
  by (simp add: tlsf_ptr_sane_def)

lemma listed_block_ok:
  assumes ok: "lists_ok p F" and a: "a \<in> set (F c)"
  shows "tlsf_free_block_ok p a"
proof -
  note c = listed_class [OF assms]
  obtain xs ys where F: "F c = xs @ a # ys"
    using a by (meson split_list)
  note m = dlinks_mid [OF lists_okD(2) [OF ok c, unfolded F]]
  have "tlsf_ptr_sane (lastp 0 xs)" "tlsf_ptr_sane (first ys 0)"
    using lists_okD(8) [OF ok, of _ c] F lastp_mem [of xs 0] first_mem [of ys 0]
    by (cases "xs = []"; cases "ys = []"; auto)+
  then show ?thesis
    using m lists_okD(8) [OF ok a] by (simp add: tlsf_free_block_ok_def)
qed

text \<open>Writes to headers, and to blocks that are in no list, do not disturb the lists.\<close>

lemma lists_ok_cong:
  assumes ok: "lists_ok p F"
    and same: "fl_bitmap p' = fl_bitmap p" "sl_bitmap p' = sl_bitmap p" "buckets p' = buckets p"
    and mem: "\<And>a c. a \<in> set (F c) \<Longrightarrow> next_free (tmem p' a) = next_free (tmem p a) \<and>
      prev_free (tmem p' a) = prev_free (tmem p a) \<and> blk_is_free (tmem p' a)"
  shows "lists_ok p' F"
proof (rule lists_okI)
  note D = lists_okD [OF ok]
  show "dlinks (\<lambda>a. next_free (tmem p' a)) (\<lambda>a. prev_free (tmem p' a)) 0 (F c) 0" if "is_class c" for c
    using D(2) [OF that] by (rule dlinks_cong [THEN iffD2, rotated 2]) (simp_all add: mem)
  show "a \<noteq> 0 \<and> tlsf_ptr_sane a \<and> blk_is_free (tmem p' a)" if "a \<in> set (F c)" for c a
    using D(8) [OF that] mem [OF that] by simp
qed (use lists_okD [OF ok] in \<open>simp_all add: same\<close>)


section \<open>What the list operations leave alone\<close>

lemma on_blk_sel [simp]:
  "tmem (on_blk a f p) x = (if x = a then f (tmem p a) else tmem p x)"
  "buckets (on_blk a f p) = buckets p" "sl_bitmap (on_blk a f p) = sl_bitmap p"
  "fl_bitmap (on_blk a f p) = fl_bitmap p" "used_size (on_blk a f p) = used_size p"
  "pool_size (on_blk a f p) = pool_size p"
  by (simp_all add: on_blk_def)

lemma set_bucket_sel [simp]:
  "tmem (set_bucket fl sl a p) = tmem p"
  "buckets (set_bucket fl sl a p) x y = (if x = fl \<and> y = sl then a else buckets p x y)"
  "sl_bitmap (set_bucket fl sl a p) = sl_bitmap p" "fl_bitmap (set_bucket fl sl a p) = fl_bitmap p"
  "used_size (set_bucket fl sl a p) = used_size p" "pool_size (set_bucket fl sl a p) = pool_size p"
  by (simp_all add: set_bucket_def)

lemma clear_bits_sel [simp]:
  "tmem (clear_bits fl sl p) = tmem p" "buckets (clear_bits fl sl p) = buckets p"
  "used_size (clear_bits fl sl p) = used_size p" "pool_size (clear_bits fl sl p) = pool_size p"
  "sl_bitmap (clear_bits fl sl p) x =
     (if x = fl then sl_bitmap p fl AND NOT (push_bit sl 1) else sl_bitmap p x)"
  "fl_bitmap (clear_bits fl sl p) =
     (if sl_bitmap p fl AND NOT (push_bit sl 1) = 0 then fl_bitmap p AND NOT (push_bit fl 1)
      else fl_bitmap p)"
  by (simp_all add: clear_bits_def Let_def)

lemma drop_bucket_sel [simp]:
  "tmem (tlsf_drop_bucket fl sl p) = tmem p" "used_size (tlsf_drop_bucket fl sl p) = used_size p"
  "pool_size (tlsf_drop_bucket fl sl p) = pool_size p"
  by (simp_all add: tlsf_drop_bucket_def)

lemma remove_sel [simp]:
  "hdr_size (tmem (tlsf_remove_free_block a fl sl p) x) = hdr_size (tmem p x)"
  "prev_size (tmem (tlsf_remove_free_block a fl sl p) x) = prev_size (tmem p x)"
  "used_size (tlsf_remove_free_block a fl sl p) = used_size p"
  "pool_size (tlsf_remove_free_block a fl sl p) = pool_size p"
  by (simp_all add: tlsf_remove_free_block_def Let_def)

lemma insert_sel [simp]:
  "hdr_size (tmem (tlsf_insert_free_block a fl sl p) x) = hdr_size (tmem p x)"
  "prev_size (tmem (tlsf_insert_free_block a fl sl p) x) = prev_size (tmem p x)"
  "used_size (tlsf_insert_free_block a fl sl p) = used_size p"
  "pool_size (tlsf_insert_free_block a fl sl p) = pool_size p"
  by (simp_all add: tlsf_insert_free_block_def Let_def)

lemma same_header:
  "hdr_size b = hdr_size b' \<Longrightarrow> blk_size b = blk_size b' \<and> blk_is_free b = blk_is_free b' \<and>
     blk_prev_free b = blk_prev_free b'"
  by (simp add: blk_size_def blk_is_free_def blk_prev_free_def)

lemmas remove_header [simp] = same_header [OF remove_sel(1), THEN conjunct1]
  same_header [OF remove_sel(1), THEN conjunct2, THEN conjunct1]
  same_header [OF remove_sel(1), THEN conjunct2, THEN conjunct2]

lemmas insert_header [simp] = same_header [OF insert_sel(1), THEN conjunct1]
  same_header [OF insert_sel(1), THEN conjunct2, THEN conjunct1]
  same_header [OF insert_sel(1), THEN conjunct2, THEN conjunct2]

section \<open>Removing\<close>

lemma sl_bit_clear:
  fixes w :: u32
  assumes "sl < 32"
  shows "bit (w AND NOT (push_bit sl 1)) k \<longleftrightarrow> bit w k \<and> k \<noteq> sl"
  using assms bit_imp_le_length [of w k] by (auto simp: bit_simps)

lemma fl_bit_clear:
  fixes w :: u64
  assumes "fl < 64"
  shows "bit (w AND NOT (push_bit fl 1)) k \<longleftrightarrow> bit w k \<and> k \<noteq> fl"
  using assms bit_imp_le_length [of w k] by (auto simp: bit_simps)

lemma remove_step:
  assumes ok: "lists_ok p F" and F: "F c = xs @ a # ys" and c: "c = (fl, sl)"
  defines "m \<equiv> tmem (tlsf_remove_free_block a fl sl p)"
  shows "\<And>x. x \<in> set (xs @ ys) \<Longrightarrow>
      next_free (m x) = (if x = lastp 0 xs then first ys 0 else next_free (tmem p x))"
    and "\<And>x. x \<in> set (xs @ ys) \<Longrightarrow>
      prev_free (m x) = (if x = first ys 0 then lastp 0 xs else prev_free (tmem p x))"
    and "\<And>x. x \<notin> set (xs @ ys) \<Longrightarrow> m x = tmem p x"
    and "buckets (tlsf_remove_free_block a fl sl p) =
      (buckets p)(fl := (buckets p fl)(sl := first (xs @ ys) 0))"
    and "xs @ ys \<noteq> [] \<Longrightarrow> fl_bitmap (tlsf_remove_free_block a fl sl p) = fl_bitmap p \<and>
      sl_bitmap (tlsf_remove_free_block a fl sl p) = sl_bitmap p"
    and "xs @ ys = [] \<Longrightarrow> fl_bitmap (tlsf_remove_free_block a fl sl p) = fl_bitmap (clear_bits fl sl p) \<and>
      sl_bitmap (tlsf_remove_free_block a fl sl p) = sl_bitmap (clear_bits fl sl p)"
proof -
  have cls: "is_class c"
    using listed_class [OF ok, of a c] F by simp
  note d = lists_okD(1) [OF ok cls, unfolded F] lists_okD(2) [OF ok cls, unfolded F]
  note mid = dlinks_mid [OF d(2)]
  have out: "0 \<notin> set (xs @ ys)"
    using dlinks_nonzero [OF d(2)] by auto
  have nz: "xs \<noteq> [] \<Longrightarrow> lastp 0 xs \<noteq> 0" "ys \<noteq> [] \<Longrightarrow> first ys 0 \<noteq> 0"
    using lastp_mem [of xs 0] first_mem [of ys 0] out by (metis Un_iff set_append)+
  have blk: "tlsf_free_block_ok p x" if "x \<in> set (xs @ a # ys)" for x
    using listed_block_ok [OF ok, of x c] that F by simp
  have okp: "lastp 0 xs \<noteq> 0 \<Longrightarrow> tlsf_free_block_ok p (lastp 0 xs)"
    using blk lastp_mem [of xs 0] by (cases "xs = []") auto
  have okn: "first ys 0 \<noteq> 0 \<Longrightarrow> tlsf_free_block_ok p (first ys 0)"
    using blk first_mem [of ys 0] by (cases "ys = []") auto
  have head: "buckets p fl sl = first (xs @ [a]) 0"
    using lists_okD(3) [OF ok cls] F c by simp
  define q where "q = (if lastp 0 xs \<noteq> 0 then on_blk (lastp 0 xs) (\<lambda>b. b\<lparr>next_free := first ys 0\<rparr>) p
      else set_bucket fl sl (first ys 0) p)"
  define r where "r = (if first ys 0 \<noteq> 0 then on_blk (first ys 0) (\<lambda>b. b\<lparr>prev_free := lastp 0 xs\<rparr>) q else q)"
  have run: "tlsf_remove_free_block a fl sl p = (if buckets r fl sl = 0 then clear_bits fl sl r else r)"
    using blk [of a] okp okn mid unfolding tlsf_remove_free_block_def r_def q_def
    by (simp add: Let_def)
  have hd: "buckets r = (buckets p)(fl := (buckets p fl)(sl := first (xs @ ys) 0))"
    using head nz(1) by (cases xs) (auto simp: r_def q_def set_bucket_def on_blk_def fun_eq_iff)
  have emp: "buckets r fl sl = 0 \<longleftrightarrow> xs @ ys = []"
    using hd first_mem [of "xs @ ys" 0] out by (cases "xs @ ys = []") (auto simp del: first_append)
  have bits: "fl_bitmap r = fl_bitmap p" "sl_bitmap r = sl_bitmap p"
    by (simp_all add: r_def q_def)
  have mem: "m = tmem r"
    by (simp add: m_def run)
  show "\<And>x. x \<in> set (xs @ ys) \<Longrightarrow>
      next_free (m x) = (if x = lastp 0 xs then first ys 0 else next_free (tmem p x))"
    using out unfolding mem by (auto simp: r_def q_def)
  show "\<And>x. x \<in> set (xs @ ys) \<Longrightarrow>
      prev_free (m x) = (if x = first ys 0 then lastp 0 xs else prev_free (tmem p x))"
    using out unfolding mem by (auto simp: r_def q_def)
  show "m x = tmem p x" if "x \<notin> set (xs @ ys)" for x
    using that lastp_mem [of xs 0] first_mem [of ys 0] unfolding mem
    by (cases "xs = []"; cases "ys = []") (auto simp: r_def q_def)
  show "buckets (tlsf_remove_free_block a fl sl p) =
      (buckets p)(fl := (buckets p fl)(sl := first (xs @ ys) 0))"
    using hd by (simp add: run)
  show "xs @ ys \<noteq> [] \<Longrightarrow> fl_bitmap (tlsf_remove_free_block a fl sl p) = fl_bitmap p \<and>
      sl_bitmap (tlsf_remove_free_block a fl sl p) = sl_bitmap p"
    using emp bits unfolding run by auto
  show "xs @ ys = [] \<Longrightarrow> fl_bitmap (tlsf_remove_free_block a fl sl p) = fl_bitmap (clear_bits fl sl p) \<and>
      sl_bitmap (tlsf_remove_free_block a fl sl p) = sl_bitmap (clear_bits fl sl p)"
    using emp bits by (auto simp: run fun_eq_iff)
qed


lemma split_remove1: "distinct xs \<Longrightarrow> a \<in> set xs \<Longrightarrow> \<exists>ys zs. xs = ys @ a # zs \<and> remove1 a xs = ys @ zs"
  by (metis append_assoc in_set_conv_decomp_first remove1.simps(2) remove1_append)

lemma remove_ok:
  assumes ok: "lists_ok p F" and a: "a \<in> set (F c)" and c: "c = (fl, sl)"
  shows "lists_ok (tlsf_remove_free_block a fl sl p) (F(c := remove1 a (F c)))"
proof -
  have cls: "is_class c"
    using listed_class [OF ok a] .
  then have lt: "fl < 64" "sl < 32"
    using c by (simp_all add: is_class_def)
  note D = lists_okD [OF ok]
  obtain xs ys where F: "F c = xs @ a # ys" and rem: "remove1 a (F c) = xs @ ys"
    using split_remove1 [OF D(1) [OF cls] a] by auto
  define p' where "p' = tlsf_remove_free_block a fl sl p"
  note S = remove_step [OF ok F c, folded p'_def]
  have dist: "distinct (xs @ a # ys)"
    using D(1) [OF cls] F by simp
  have other: "tmem p' x = tmem p x" if "x \<in> set (F d)" "d \<noteq> c" for x d
    using S(3) D(7) [of x d c] that F by auto
  have slb: "bit (sl_bitmap p' fl') sl' \<longleftrightarrow> (F(c := xs @ ys)) (fl', sl') \<noteq> []"
    if "is_class (fl', sl')" for fl' sl'
    using D(4) [OF that] S(5,6) lt F c sl_bit_clear [OF lt(2)]
    by (cases "xs @ ys = []") auto
  have empty: "sl_bitmap p fl AND NOT (push_bit sl 1) = 0 \<longleftrightarrow> (\<forall>k < 32. k \<noteq> sl \<longrightarrow> F (fl, k) = [])"
    using D(4) [of "(fl, _)"] lt sl_bit_clear [OF lt(2)] by (auto simp: word_zero_iff is_class_def)
  have flb: "bit (fl_bitmap p') k \<longleftrightarrow> (\<exists>j < 32. (F(c := xs @ ys)) (k, j) \<noteq> [])" if k: "k < 64" for k
  proof (cases "xs @ ys = []")
    case True
    then have "fl_bitmap p' = fl_bitmap (clear_bits fl sl p)"
      using S(6) by blast
    then show ?thesis
      using True D(5) [OF k] empty fl_bit_clear [OF lt(1), of "fl_bitmap p" k] c lt
      by (cases "k = fl") auto
  next
    case False
    then have "fl_bitmap p' = fl_bitmap p"
      using S(5) by blast
    then show ?thesis
      using False D(5) [OF k] F c lt by (cases "k = fl") auto
  qed
  have "lists_ok p' (F(c := xs @ ys))"
  proof (rule lists_okI)
    fix d assume d: "is_class d"
    show "distinct ((F(c := xs @ ys)) d)"
      using D(1) [OF d] dist by simp
    show "dlinks (\<lambda>a. next_free (tmem p' a)) (\<lambda>a. prev_free (tmem p' a)) 0 ((F(c := xs @ ys)) d) 0"
    proof (cases "d = c")
      case True
      then show ?thesis
        using dlinks_unlink [OF D(2) [OF cls, unfolded F] dist S(1,2)] by simp
    next
      case False
      then have "dlinks (\<lambda>a. next_free (tmem p' a)) (\<lambda>a. prev_free (tmem p' a)) 0 (F d) 0 =
          dlinks (\<lambda>a. next_free (tmem p a)) (\<lambda>a. prev_free (tmem p a)) 0 (F d) 0"
        using other by (intro dlinks_cong) auto
      then show ?thesis
        using False D(2) [OF d] by simp
    qed
    show "buckets p' (fst d) (snd d) = first ((F(c := xs @ ys)) d) 0"
      using D(3) [OF d] S(4) c by (cases "d = c") (auto simp: prod_eq_iff)
    show "bit (sl_bitmap p' (fst d)) (snd d) \<longleftrightarrow> (F(c := xs @ ys)) d \<noteq> []"
      using slb [of "fst d" "snd d"] d by simp
  next
    fix d e x assume "x \<in> set ((F(c := xs @ ys)) d)" "x \<in> set ((F(c := xs @ ys)) e)"
    then have "x \<in> set (F d)" "x \<in> set (F e)"
      using F by (auto split: if_splits)
    then show "d = e" by (rule D(7))
  next
    fix d x assume "x \<in> set ((F(c := xs @ ys)) d)"
    then have "x \<in> set (F d)"
      using F by (auto split: if_splits)
    then show "x \<noteq> 0 \<and> tlsf_ptr_sane x \<and> blk_is_free (tmem p' x)"
      using D(8) by (simp add: p'_def)
  qed (use flb D(6) cls in \<open>auto\<close>)
  then show ?thesis
    by (simp add: p'_def rem)
qed


section \<open>Inserting\<close>

lemma insert_step:
  assumes ok: "lists_ok p F" and c: "c = (fl, sl)" and cls: "is_class c" and a: "a \<notin> set (F c)"
  defines "p' \<equiv> tlsf_insert_free_block a fl sl p"
  shows "next_free (tmem p' a) = first (F c) 0" "prev_free (tmem p' a) = 0"
    and "\<And>x. x \<in> set (F c) \<Longrightarrow> next_free (tmem p' x) = next_free (tmem p x)"
    and "\<And>x. x \<in> set (F c) \<Longrightarrow>
      prev_free (tmem p' x) = (if x = first (F c) 0 then a else prev_free (tmem p x))"
    and "\<And>x. x \<noteq> a \<Longrightarrow> x \<notin> set (F c) \<Longrightarrow> tmem p' x = tmem p x"
    and "buckets p' = (buckets p)(fl := (buckets p fl)(sl := a))"
    and "sl_bitmap p' = (sl_bitmap p)(fl := sl_bitmap p fl OR push_bit sl 1)"
    and "fl_bitmap p' = fl_bitmap p OR push_bit fl 1"
proof -
  define h where "h = first (F c) 0"
  have head: "buckets p fl sl = h"
    using lists_okD(3) [OF ok cls] c by (simp add: h_def)
  have hin: "h \<noteq> 0 \<Longrightarrow> h \<in> set (F c)"
    using first_mem [of "F c" 0] by (cases "F c = []") (auto simp: h_def)
  have good: "\<not> (h \<noteq> 0 \<and> \<not> tlsf_free_block_ok p h)"
    using hin listed_block_ok [OF ok] by blast
  have ha: "h \<noteq> 0 \<Longrightarrow> h \<noteq> a"
    using hin a by auto
  have run: "tmem p' x = (if x = a then (tmem p a)\<lparr>next_free := h, prev_free := 0\<rparr>
      else if h \<noteq> 0 \<and> x = h then (tmem p h)\<lparr>prev_free := a\<rparr> else tmem p x)" for x
    using good head ha by (auto simp: p'_def tlsf_insert_free_block_def Let_def)
  show "next_free (tmem p' a) = first (F c) 0" "prev_free (tmem p' a) = 0"
    using run [of a] by (simp_all add: h_def)
  have zero: "x \<in> set (F c) \<Longrightarrow> x \<noteq> 0" for x
    using lists_okD(8) [OF ok] by blast
  show "next_free (tmem p' x) = next_free (tmem p x)" if "x \<in> set (F c)" for x
    using run [of x] that a by auto
  show "prev_free (tmem p' x) = (if x = first (F c) 0 then a else prev_free (tmem p x))"
    if "x \<in> set (F c)" for x
    using run [of x] that a zero [OF that] by (auto simp: h_def)
  show "tmem p' x = tmem p x" if "x \<noteq> a" "x \<notin> set (F c)" for x
    using run [of x] that hin by auto
  show "buckets p' = (buckets p)(fl := (buckets p fl)(sl := a))"
    "sl_bitmap p' = (sl_bitmap p)(fl := sl_bitmap p fl OR push_bit sl 1)"
    "fl_bitmap p' = fl_bitmap p OR push_bit fl 1"
    using good head
    by (auto simp: p'_def tlsf_insert_free_block_def Let_def fun_eq_iff)
qed

lemma insert_ok:
  assumes ok: "lists_ok p F" and c: "c = (fl, sl)" and cls: "is_class c"
    and a: "\<And>d. a \<notin> set (F d)" "a \<noteq> 0" "tlsf_ptr_sane a" "blk_is_free (tmem p a)"
  shows "lists_ok (tlsf_insert_free_block a fl sl p) (F(c := a # F c))"
proof -
  define p' where "p' = tlsf_insert_free_block a fl sl p"
  note S = insert_step [OF ok c cls a(1), folded p'_def] and D = lists_okD [OF ok]
  have lt: "fl < 64" "sl < 32"
    using cls c by (simp_all add: is_class_def)
  have other: "tmem p' x = tmem p x" if "x \<in> set (F d)" "d \<noteq> c" for x d
    using S(5) [of x] D(7) [of x d c] that a(1) by metis
  have slb: "bit (sl_bitmap p' fl') sl' \<longleftrightarrow> (F(c := a # F c)) (fl', sl') \<noteq> []"
    if "is_class (fl', sl')" for fl' sl'
    using D(4) [OF that] lt c that unfolding S(7) by (auto simp: bit_simps is_class_def)
  have flb: "bit (fl_bitmap p') k \<longleftrightarrow> (\<exists>j < 32. (F(c := a # F c)) (k, j) \<noteq> [])" if "k < 64" for k
    using D(5) [OF that] lt c that unfolding S(8) by (auto simp: bit_simps)
  have "lists_ok p' (F(c := a # F c))"
  proof (rule lists_okI)
    fix d assume d: "is_class d"
    show "distinct ((F(c := a # F c)) d)"
      using D(1) [OF d] a(1) by auto
    show "dlinks (\<lambda>a. next_free (tmem p' a)) (\<lambda>a. prev_free (tmem p' a)) 0 ((F(c := a # F c)) d) 0"
    proof (cases "d = c")
      case True
      have "distinct (a # F c)"
        using D(1) [OF cls] a(1) by simp
      then show ?thesis
        using True dlinks_push [OF D(2) [OF cls] _ a(2) S(1,2) S(3,4)] by simp
    next
      case False
      then have "dlinks (\<lambda>a. next_free (tmem p' a)) (\<lambda>a. prev_free (tmem p' a)) 0 (F d) 0 =
          dlinks (\<lambda>a. next_free (tmem p a)) (\<lambda>a. prev_free (tmem p a)) 0 (F d) 0"
        using other by (intro dlinks_cong) auto
      then show ?thesis
        using False D(2) [OF d] by simp
    qed
    show "buckets p' (fst d) (snd d) = first ((F(c := a # F c)) d) 0"
      using D(3) [OF d] S(6) c by (cases "d = c") (auto simp: prod_eq_iff)
    show "bit (sl_bitmap p' (fst d)) (snd d) \<longleftrightarrow> (F(c := a # F c)) d \<noteq> []"
      using slb [of "fst d" "snd d"] d by simp
  next
    fix d e x assume "x \<in> set ((F(c := a # F c)) d)" "x \<in> set ((F(c := a # F c)) e)"
    then show "d = e"
      using D(7) [of x d e] a(1) by (cases "x = a") (auto split: if_splits)
  next
    fix d x assume "x \<in> set ((F(c := a # F c)) d)"
    then have "x = a \<or> x \<in> set (F d)"
      by (auto split: if_splits)
    then show "x \<noteq> 0 \<and> tlsf_ptr_sane x \<and> blk_is_free (tmem p' x)"
      using D(8) [of x d] a(2-4) by (auto simp: p'_def)
  qed (use flb D(6) cls in \<open>auto\<close>)
  then show ?thesis
    by (simp add: p'_def)
qed

section \<open>Searching\<close>

text \<open>
  On well-formed lists the search returns the head of the first list that is not empty, in
  the order of the classes, at or above the class it starts from; and null when there is none.
\<close>

lemma take_head_ok:
  assumes "lists_ok p F" "is_class (fl, sl)"
  shows "take_head fl (int sl) p = Some (first (F (fl, sl)) 0, p)"
proof -
  have "buckets p fl sl = first (F (fl, sl)) 0"
    using lists_okD(3) [OF assms] by simp
  moreover have "first (F (fl, sl)) 0 \<noteq> 0 \<Longrightarrow> tlsf_free_block_ok p (first (F (fl, sl)) 0)"
    using listed_block_ok [OF assms(1)] first_mem by (metis first_simps(1))
  ultimately show ?thesis
    by (auto simp: take_head_def Let_def)
qed

lemma sl_above:
  fixes w :: u32
  assumes "sl < 32"
  shows "bit (w AND NOT (push_bit sl 1 - 1)) k \<longleftrightarrow> bit w k \<and> sl \<le> k"
proof -
  have "push_bit sl 1 - 1 = (mask sl :: u32)"
    by (simp add: mask_eq_exp_minus_1)
  then show ?thesis
    using bit_imp_le_length [of w k] by (auto simp: bit_simps)
qed

lemma fl_above:
  fixes w :: u64
  shows "bit (w AND push_bit n (NOT 0)) k \<longleftrightarrow> bit w k \<and> n \<le> k"
  using bit_imp_le_length [of w k] by (auto simp: bit_simps)

lemma tlsf_find_free_block_ok:
  assumes ok: "lists_ok p F" and c: "tlsf_mapping_search need = c" "is_class c"
  shows "\<exists>a. tlsf_find_free_block need p = Some (a, p) \<and>
    (if \<exists>d. class_le c d \<and> F d \<noteq> [] then \<exists>d. class_le c d \<and> a \<in> set (F d) else a = 0)"
proof -
  obtain fl sl where cf: "c = (fl, sl)" by fastforce
  have lt: "fl < 64" "sl < 32"
    using c(2) cf by (simp_all add: is_class_def)
  note D = lists_okD [OF ok]
  define m where "m = sl_bitmap p fl AND NOT (push_bit sl 1 - 1)"
  have mbit: "bit m k \<longleftrightarrow> k < 32 \<and> F (fl, k) \<noteq> [] \<and> sl \<le> k" for k
  proof (cases "k < 32")
    case True
    then show ?thesis
      using sl_above [OF lt(2), of "sl_bitmap p fl" k] D(4) [of "(fl, k)"] lt
      by (simp add: m_def is_class_def)
  next
    case False
    then show ?thesis
      using bit_imp_le_length [of m k] by auto
  qed
  show ?thesis
  proof (cases "m = 0")
    case False
    then obtain k where k: "tlsf_ffs32 m = int k" "k < 32" "bit m k"
      using tlsf_ffs32_some by metis
    then have ne: "F (fl, k) \<noteq> []" "class_le c (fl, k)" "is_class (fl, k)"
      using mbit lt cf by (auto simp: class_le_def is_class_def)
    have "first (F (fl, k)) 0 \<noteq> 0"
      using first_mem [OF ne(1), of 0] D(8) by metis
    then have "tlsf_find_free_block need p = Some (first (F (fl, k)) 0, p)"
      using take_head_ok [OF ok ne(3)] False k(1) c(1) cf
      by (simp add: tlsf_find_free_block_def m_def Let_def)
    then show ?thesis
      using ne first_mem [OF ne(1), of 0] by auto
  next
    case True
    then have none: "F (fl, k) = []" if "sl \<le> k" for k
      using mbit [of k] that D(6) [of "(fl, k)"] by (auto simp: is_class_def)
    define n where "n = (if fl + 1 < 64 then fl_bitmap p AND push_bit (fl + 1) (NOT 0) else 0)"
    have nbit: "bit n k \<longleftrightarrow> k < 64 \<and> fl < k \<and> (\<exists>j < 32. F (k, j) \<noteq> [])" for k
    proof (cases "k < 64")
      case True
      then show ?thesis
        using fl_above [of "fl_bitmap p" "fl + 1" k] D(5) [OF True] by (auto simp: n_def)
    next
      case False
      then show ?thesis
        using bit_imp_le_length [of n k] by auto
    qed
    have step: "tlsf_find_free_block need p =
        (if n \<noteq> 0 then take_head (nat (tlsf_ffs64 n)) (tlsf_ffs32 (sl_bitmap p (nat (tlsf_ffs64 n)))) p
         else Some (0, p))"
      using True c(1) cf by (simp add: tlsf_find_free_block_def m_def n_def Let_def tlsf_consts)
    show ?thesis
    proof (cases "n = 0")
      case True
      have "F d = []" if "class_le c d" for d
      proof (rule ccontr)
        assume "F d \<noteq> []"
        then have "is_class d" using D(6) by blast
        then have "fst d < 64" "snd d < 32" by (simp_all add: is_class_def)
        moreover from this \<open>F d \<noteq> []\<close> have "\<not> fl < fst d"
          using nbit [of "fst d"] True by (metis bit_0_eq bot_apply bot_bool_def prod.collapse)
        ultimately show False
          using none [of "snd d"] that cf \<open>F d \<noteq> []\<close> by (cases d) (auto simp: class_le_def)
      qed
      then show ?thesis
        using step True by auto
    next
      case False
      then obtain k where k: "tlsf_ffs64 n = int k" "k < 64" "bit n k"
        using tlsf_ffs64_some by metis
      then obtain j0 where "fl < k" "j0 < 32" "F (k, j0) \<noteq> []"
        using nbit by auto
      then have "bit (sl_bitmap p k) j0"
        using D(4) [of "(k, j0)"] k(2) by (simp add: is_class_def)
      then have "sl_bitmap p k \<noteq> 0" by auto
      then obtain j where j: "tlsf_ffs32 (sl_bitmap p k) = int j" "j < 32" "bit (sl_bitmap p k) j"
        using tlsf_ffs32_some by metis
      then have ne: "F (k, j) \<noteq> []" "class_le c (k, j)" "is_class (k, j)"
        using D(4) [of "(k, j)"] k(2) \<open>fl < k\<close> cf by (auto simp: is_class_def class_le_def)
      then have "tlsf_find_free_block need p = Some (first (F (k, j)) 0, p)"
        using step False k(1) j(1) take_head_ok [OF ok ne(3)] by simp
      then show ?thesis
        using ne first_mem [OF ne(1), of 0] by auto
    qed
  qed
qed

end
