(* ===== verification/TlsfHeap.thy ===== *)
theory TlsfHeap
  imports TlsfLists
begin

text \<open>
  The heap as a whole. The physical blocks are a map from the address of a header to the
  block's size and whether it is free; each block is followed by another or by the sentinel
  that ends its region. The operations are read as steps between states in which one block,
  the one being worked on, is exempt from the invariant.
\<close>

section \<open>Blocks\<close>

type_synonym blockmap = "nat \<Rightarrow> (nat \<times> bool) option"

definition KERNEL_VA :: nat where "KERNEL_VA = 0xFFFF000000000000"

definition tiles :: "blockmap \<Rightarrow> nat set \<Rightarrow> bool" where
  "tiles B E \<longleftrightarrow>
     (\<forall>a sz f. B a = Some (sz, f) \<longrightarrow> 16 dvd a \<and> 16 dvd sz \<and> 32 \<le> sz \<and> KERNEL_VA \<le> a \<and>
        a + sz < 2 ^ 64 \<and> (a + sz \<in> dom B \<or> a + sz \<in> E)) \<and>
     (\<forall>a sz f b tz g. B a = Some (sz, f) \<longrightarrow> B b = Some (tz, g) \<longrightarrow> a < b \<longrightarrow> a + sz \<le> b) \<and>
     (\<forall>a sz f. \<forall>e \<in> E. B a = Some (sz, f) \<longrightarrow> a + sz \<le> e \<or> e + 16 \<le> a)"

lemma tilesD:
  assumes "tiles B E"
  shows "B a = Some (sz, f) \<Longrightarrow> 16 dvd a \<and> 16 dvd sz \<and> 32 \<le> sz \<and> KERNEL_VA \<le> a \<and> a + sz < 2 ^ 64"
    "B a = Some (sz, f) \<Longrightarrow> a + sz \<in> dom B \<or> a + sz \<in> E"
    "B a = Some (sz, f) \<Longrightarrow> B b = Some (tz, g) \<Longrightarrow> a < b \<Longrightarrow> a + sz \<le> b"
    "B a = Some (sz, f) \<Longrightarrow> e \<in> E \<Longrightarrow> a + sz \<le> e \<or> e + 16 \<le> a"
  using assms unfolding tiles_def by blast+

lemma tilesI:
  assumes "\<And>a sz f. B a = Some (sz, f) \<Longrightarrow> 16 dvd a \<and> 16 dvd sz \<and> 32 \<le> sz \<and> KERNEL_VA \<le> a \<and>
        a + sz < 2 ^ 64 \<and> (a + sz \<in> dom B \<or> a + sz \<in> E)"
    and "\<And>a sz f b tz g. B a = Some (sz, f) \<Longrightarrow> B b = Some (tz, g) \<Longrightarrow> a < b \<Longrightarrow> a + sz \<le> b"
    and "\<And>a sz f e. e \<in> E \<Longrightarrow> B a = Some (sz, f) \<Longrightarrow> a + sz \<le> e \<or> e + 16 \<le> a"
  shows "tiles B E"
  unfolding tiles_def using assms by (intro conjI allI impI ballI) metis+

lemma tiles_block:
  assumes "tiles B E" "B a = Some (sz, f)"
  shows "4 dvd sz" "sz < 2 ^ 64" "0 < a" "tlsf_ptr_sane a" "32 \<le> sz"
proof -
  note D = tilesD(1) [OF assms]
  have "(4::nat) dvd 16" by simp
  then show "4 dvd sz"
    using D dvd_trans by blast
  show "tlsf_ptr_sane a"
    using D by (simp add: tlsf_ptr_sane_def KERNEL_VA_def dvd_eq_mod_eq_0)
qed (use tilesD(1) [OF assms] in \<open>simp_all add: KERNEL_VA_def\<close>)

lemma tiles_zero: "tiles B E \<Longrightarrow> B 0 = None"
  using tiles_block(3) by (metis less_irrefl not_None_eq surj_pair)

lemma tiles_ends_not_block:
  assumes "tiles B E" "e \<in> E"
  shows "B e = None"
proof (rule ccontr)
  assume "B e \<noteq> None"
  then obtain sz f where "B e = Some (sz, f)" by auto
  then show False
    using tilesD(1,4) [OF assms(1)] assms(2) by fastforce
qed

text \<open>Two blocks with the same end are one block.\<close>

lemma tiles_same_end:
  assumes "tiles B E" "B a = Some (sz, f)" "B b = Some (tz, g)" "a + sz = b + tz"
  shows "a = b"
proof (rule ccontr)
  assume "a \<noteq> b"
  then consider "a < b" | "b < a" by linarith
  then show False
    using tilesD(3) [OF assms(1), of a sz f b tz g] tilesD(3) [OF assms(1), of b tz g a sz f]
      tilesD(1) [OF assms(1,2)] tilesD(1) [OF assms(1,3)] assms by cases linarith+
qed

lemma tiles_inside:
  assumes t: "tiles B E" and a: "B a = Some (sz, f)" and x: "a < x" "x < a + sz"
  shows "B x = None" "x \<notin> E"
proof -
  show "B x = None"
    using tilesD(3) [OF t a, of x] x by (metis not_None_eq not_less surj_pair)
  show "x \<notin> E"
    using tilesD(4) [OF t a, of x] x by auto
qed

text \<open>Only the sizes matter; and the three ways in which the map changes.\<close>

lemma tiles_retag:
  assumes t: "tiles B E" and a: "B a = Some (sz, f)"
  shows "tiles (B(a \<mapsto> (sz, g))) E"
proof (rule tilesI)
  note D = tilesD [OF t]
  show "16 dvd x \<and> 16 dvd s \<and> 32 \<le> s \<and> KERNEL_VA \<le> x \<and> x + s < 2 ^ 64 \<and>
      (x + s \<in> dom (B(a \<mapsto> (sz, g))) \<or> x + s \<in> E)" if "(B(a \<mapsto> (sz, g))) x = Some (s, h)" for x s h
    using that D(1,2) [OF a] D(1,2) [of x s h] by (cases "x = a") auto
  show "x + s \<le> b" if "(B(a \<mapsto> (sz, g))) x = Some (s, h)" "(B(a \<mapsto> (sz, g))) b = Some (r, k)" "x < b"
    for x s h b r k
    using that D(3) [of x s h b r k] D(3) [OF a, of b r k] D(3) [of x s h a sz f] a
    by (auto split: if_splits)
  show "x + s \<le> e \<or> e + 16 \<le> x" if "e \<in> E" "(B(a \<mapsto> (sz, g))) x = Some (s, h)" for x s h e
    using that D(4) [OF a] D(4) [of x s h] by (auto split: if_splits)
qed

lemma tiles_split:
  assumes t: "tiles B E" and a: "B a = Some (s + r, f)"
    and ok: "16 dvd s" "32 \<le> s" "32 \<le> r"
  shows "tiles (B(a \<mapsto> (s, g), a + s \<mapsto> (r, h))) E"
proof (rule tilesI)
  let ?B = "B(a \<mapsto> (s, g), a + s \<mapsto> (r, h))"
  note D = tilesD [OF t]
  have r: "16 dvd r"
    using D(1) [OF a] ok(1) by (metis dvd_add_right_iff)
  note in_new = tiles_inside [OF t a, of "a + s"]
  have other: "x + y \<le> a \<or> a + (s + r) \<le> x" if "B x = Some (y, k)" "x \<noteq> a" for x y k
    using D(3) [OF a that(1)] D(3) [OF that(1) a] that(2) by linarith
  show "16 dvd x \<and> 16 dvd y \<and> 32 \<le> y \<and> KERNEL_VA \<le> x \<and> x + y < 2 ^ 64 \<and>
      (x + y \<in> dom ?B \<or> x + y \<in> E)" if "?B x = Some (y, k)" for x y k
    using that D(1,2) [OF a] D(1,2) [of x y k] ok r by (auto split: if_splits simp: add.assoc)
  show "x + y \<le> b" if "?B x = Some (y, k)" "?B b = Some (z, l)" "x < b" for x y k b z l
    using that D(3) [of x y k b z l] other [of x y k] other [of b z l] ok
    by (auto split: if_splits)
  show "x + y \<le> e \<or> e + 16 \<le> x" if "e \<in> E" "?B x = Some (y, k)" for x y k e
    using that D(4) [OF a that(1)] D(4) [of x y k e] by (auto split: if_splits)
qed

lemma tiles_merge:
  assumes t: "tiles B E" and a: "B a = Some (s, f)" and n: "B (a + s) = Some (r, g)"
  shows "tiles (B(a + s := None, a \<mapsto> (s + r, h))) E"
proof (rule tilesI)
  let ?B = "B(a + s := None, a \<mapsto> (s + r, h))"
  note D = tilesD [OF t]
  have pos: "0 < s" using D(1) [OF a] by simp
  have fin: "a + (s + r) \<in> dom ?B \<or> a + (s + r) \<in> E"
    using D(2) [OF n] D(1) [OF n] pos by (auto simp: add.assoc)
  show "16 dvd x \<and> 16 dvd y \<and> 32 \<le> y \<and> KERNEL_VA \<le> x \<and> x + y < 2 ^ 64 \<and>
      (x + y \<in> dom ?B \<or> x + y \<in> E)" if b: "?B x = Some (y, k)" for x y k
  proof (cases "x = a")
    case True
    then show ?thesis
      using b D(1) [OF a] D(1) [OF n] fin by (auto simp: add.assoc)
  next
    case False
    then have x: "B x = Some (y, k)" "x \<noteq> a + s"
      using b by (auto split: if_splits)
    have "x + y \<noteq> a + s"
      using tiles_same_end [OF t x(1) a] False by auto
    then show ?thesis
      using D(1,2) [OF x(1)] by auto
  qed
  have other: "x + y \<le> a \<or> a + (s + r) \<le> x" if "B x = Some (y, k)" "x \<noteq> a" "x \<noteq> a + s" for x y k
    using D(3) [OF a that(1)] D(3) [OF that(1) a] D(3) [OF n that(1)] D(3) [OF that(1) n] that(2,3)
    by linarith
  show "x + y \<le> b" if "?B x = Some (y, k)" "?B b = Some (z, l)" "x < b" for x y k b z l
    using that D(3) [of x y k b z l] other [of x y k] other [of b z l] pos
    by (auto split: if_splits)
  show "x + y \<le> e \<or> e + 16 \<le> x" if "e \<in> E" "?B x = Some (y, k)" for x y k e
    using that D(4) [OF a that(1)] D(4) [OF n that(1)] D(4) [of x y k e] D(1) [OF n] by (auto split: if_splits)
qed


text \<open>The bytes of the blocks; splitting, joining and tagging keep them.\<close>

definition span :: "blockmap \<Rightarrow> nat set" where
  "span B = {x. \<exists>a s f. B a = Some (s, f) \<and> a \<le> x \<and> x < a + s}"

lemma span_iff: "x \<in> span B \<longleftrightarrow> (\<exists>a s f. B a = Some (s, f) \<and> a \<le> x \<and> x < a + s)"
  by (simp add: span_def)

lemma span_insert:
  assumes "B a = None"
  shows "span (B(a \<mapsto> (s, f))) = span B \<union> {a..<a + s}"
proof (intro set_eqI iffI)
  fix x assume "x \<in> span (B(a \<mapsto> (s, f)))"
  then obtain b t g where "(B(a \<mapsto> (s, f))) b = Some (t, g)" "b \<le> x" "x < b + t"
    by (auto simp only: span_iff)
  then show "x \<in> span B \<union> {a..<a + s}"
    by (cases "b = a") (auto simp: span_iff)
next
  fix x assume "x \<in> span B \<union> {a..<a + s}"
  then consider "a \<le> x" "x < a + s" | b t g where "B b = Some (t, g)" "b \<le> x" "x < b + t"
    by (auto simp: span_iff)
  then show "x \<in> span (B(a \<mapsto> (s, f)))"
  proof cases
    case 1
    then show ?thesis unfolding span_iff by (intro exI [of _ a] exI [of _ s] exI [of _ f]) simp
  next
    case 2
    then show ?thesis using assms unfolding span_iff by (intro exI [of _ b] exI [of _ t] exI [of _ g]) auto
  qed
qed

lemma span_delete:
  assumes "B a = Some (s, f)"
  shows "span B = span (B(a := None)) \<union> {a..<a + s}"
  using span_insert [of "B(a := None)" a s f] assms by (simp add: fun_upd_idem)

lemma span_retag: "B a = Some (s, f) \<Longrightarrow> span (B(a \<mapsto> (s, g))) = span B"
  using span_delete [of B a s f] span_insert [of "B(a := None)" a s g] by simp

lemma span_split:
  assumes "B a = Some (s + r, f)" "B (a + s) = None" "0 < s"
  shows "span (B(a \<mapsto> (s, g), a + s \<mapsto> (r, h))) = span B"
proof -
  have "span (B(a \<mapsto> (s, g), a + s \<mapsto> (r, h))) = span (B(a \<mapsto> (s, g))) \<union> {a + s..<a + s + r}"
    using assms by (intro span_insert) simp
  also have "\<dots> = span (B(a := None)) \<union> {a..<a + s} \<union> {a + s..<a + s + r}"
    using span_insert [of "B(a := None)" a s g] by simp
  also have "\<dots> = span (B(a := None)) \<union> {a..<a + (s + r)}"
    by auto
  also have "\<dots> = span B"
    by (rule span_delete [of B a "s + r" f, OF assms(1), symmetric])
  finally show ?thesis .
qed

lemma span_merge:
  assumes "B a = Some (s, f)" "B (a + s) = Some (r, g)" "0 < s"
  shows "span (B(a + s := None, a \<mapsto> (s + r, h))) = span B"
proof -
  let ?C = "B(a + s := None, a := None)"
  have "span (B(a + s := None, a \<mapsto> (s + r, h))) = span ?C \<union> {a..<a + (s + r)}"
    using span_insert [of ?C a "s + r" h] by simp
  moreover have "span B = span (B(a + s := None)) \<union> {a + s..<a + s + r}"
    using span_delete [of B "a + s" r g, OF assms(2)] by simp
  moreover have "span (B(a + s := None)) = span ?C \<union> {a..<a + s}"
    using assms by (intro span_delete) simp
  moreover have "{a..<a + (s + r)} = {a..<a + s} \<union> {a + s..<a + s + r}"
    by auto
  ultimately show ?thesis
    by (simp only: Un_assoc)
qed

section \<open>Headers\<close>

text \<open>
  The headers agree with the block map, except that nothing is said about the size and the
  free flag of the block \<open>c\<close> and about what its successor records of it.
\<close>

definition hdrs_but :: "nat \<Rightarrow> (nat \<Rightarrow> free_block) \<Rightarrow> blockmap \<Rightarrow> nat set \<Rightarrow> bool" where
  "hdrs_but c m B E \<longleftrightarrow>
     (\<forall>a sz f. B a = Some (sz, f) \<longrightarrow> a \<noteq> c \<longrightarrow>
        blk_size (m a) = sz \<and> blk_is_free (m a) = f \<and> blk_prev_free (m (a + sz)) = f \<and>
        (f \<longrightarrow> prev_size (m (a + sz)) = sz)) \<and>
     (\<forall>e \<in> E. \<not> blk_is_free (m e)) \<and>
     (\<forall>y \<in> dom B \<union> E. (\<forall>sz f. B c = Some (sz, f) \<longrightarrow> y \<noteq> c + sz) \<longrightarrow> blk_prev_free (m y) \<longrightarrow>
        (\<exists>a sz. B a = Some (sz, True) \<and> a + sz = y))"

text \<open>All headers agree: the exempt block is none.\<close>

definition hdrs_ok :: "(nat \<Rightarrow> free_block) \<Rightarrow> blockmap \<Rightarrow> nat set \<Rightarrow> bool" where
  "hdrs_ok m B E \<longleftrightarrow> B 0 = None \<and> hdrs_but 0 m B E"

lemma hdrs_butD:
  assumes "hdrs_but c m B E"
  shows "B a = Some (sz, f) \<Longrightarrow> a \<noteq> c \<Longrightarrow> blk_size (m a) = sz"
    "B a = Some (sz, f) \<Longrightarrow> a \<noteq> c \<Longrightarrow> blk_is_free (m a) = f"
    "B a = Some (sz, f) \<Longrightarrow> a \<noteq> c \<Longrightarrow> blk_prev_free (m (a + sz)) = f"
    "B a = Some (sz, True) \<Longrightarrow> a \<noteq> c \<Longrightarrow> prev_size (m (a + sz)) = sz"
    "e \<in> E \<Longrightarrow> \<not> blk_is_free (m e)"
    "y \<in> dom B \<union> E \<Longrightarrow> \<forall>sz f. B c = Some (sz, f) \<longrightarrow> y \<noteq> c + sz \<Longrightarrow> blk_prev_free (m y) \<Longrightarrow>
       \<exists>a sz. B a = Some (sz, True) \<and> a + sz = y"
  using assms unfolding hdrs_but_def by blast+

lemma hdrs_butI:
  assumes "\<And>a sz f. B a = Some (sz, f) \<Longrightarrow> a \<noteq> c \<Longrightarrow>
        blk_size (m a) = sz \<and> blk_is_free (m a) = f \<and> blk_prev_free (m (a + sz)) = f \<and>
        (f \<longrightarrow> prev_size (m (a + sz)) = sz)"
    and "\<And>e. e \<in> E \<Longrightarrow> \<not> blk_is_free (m e)"
    and "\<And>y. y \<in> dom B \<union> E \<Longrightarrow> (\<And>sz f. B c = Some (sz, f) \<Longrightarrow> y \<noteq> c + sz) \<Longrightarrow> blk_prev_free (m y) \<Longrightarrow>
        \<exists>a sz. B a = Some (sz, True) \<and> a + sz = y"
  shows "hdrs_but c m B E"
  unfolding hdrs_but_def using assms by (intro conjI allI impI ballI) metis+

lemma hdrs_but_weaken:
  assumes "hdrs_ok m B E"
  shows "hdrs_but c m B E"
proof (rule hdrs_butI)
  have o: "hdrs_but 0 m B E" "B 0 = None"
    using assms by (simp_all add: hdrs_ok_def)
  note D = hdrs_butD [OF o(1)]
  show "blk_size (m a) = sz \<and> blk_is_free (m a) = f \<and> blk_prev_free (m (a + sz)) = f \<and>
      (f \<longrightarrow> prev_size (m (a + sz)) = sz)" if "B a = Some (sz, f)" for a sz f
    using D(1-3) [OF that] D(4) [of a sz] that o(2) by (cases "a = 0") auto
  show "\<not> blk_is_free (m e)" if "e \<in> E" for e
    using D(5) that .
  show "\<exists>a sz. B a = Some (sz, True) \<and> a + sz = y" if "y \<in> dom B \<union> E" "blk_prev_free (m y)" for y
    using D(6) [OF that(1)] that(2) o(2) by simp
qed

lemma hdrs_cong:
  assumes "hdrs_but c m B E"
    and "\<And>a. a \<noteq> c \<Longrightarrow> blk_size (m' a) = blk_size (m a) \<and> blk_is_free (m' a) = blk_is_free (m a)"
    and "\<And>a. blk_prev_free (m' a) = blk_prev_free (m a) \<and> prev_size (m' a) = prev_size (m a)"
    and "c \<notin> E"
  shows "hdrs_but c m' B E"
proof (rule hdrs_butI)
  note D = hdrs_butD [OF assms(1)]
  show "blk_size (m' a) = sz \<and> blk_is_free (m' a) = f \<and> blk_prev_free (m' (a + sz)) = f \<and>
      (f \<longrightarrow> prev_size (m' (a + sz)) = sz)" if "B a = Some (sz, f)" "a \<noteq> c" for a sz f
    using D(1-3) [OF that] D(4) [of a sz] that assms(2,3) by auto
  show "\<not> blk_is_free (m' e)" if "e \<in> E" for e
    using D(5) [OF that] assms(2,4) that by metis
  show "\<exists>a sz. B a = Some (sz, True) \<and> a + sz = y" if "y \<in> dom B \<union> E"
    "\<And>sz f. B c = Some (sz, f) \<Longrightarrow> y \<noteq> c + sz" "blk_prev_free (m' y)" for y
    using D(6) [OF that(1)] that(2,3) assms(3) by blast
qed

lemma hdrs_merge:
  assumes t: "tiles B E" and h: "hdrs_but c m B E" and c: "c = a \<or> c = a + s"
    and a: "B a = Some (s, f)" and n: "B (a + s) = Some (r, g)"
    and d: "B' = B(a + s := None, a \<mapsto> (s + r, k))"
    and ex: "c = a \<Longrightarrow> g" "c = a + s \<Longrightarrow> f"
  shows "hdrs_but a m B' E"
proof (rule hdrs_butI)
  note D = hdrs_butD [OF h]
  have pos: "0 < s" "0 < r"
    using tilesD(1) [OF t a] tilesD(1) [OF t n] by auto
  show "blk_size (m x) = y \<and> blk_is_free (m x) = z \<and> blk_prev_free (m (x + y)) = z \<and>
      (z \<longrightarrow> prev_size (m (x + y)) = y)" if "B' x = Some (y, z)" "x \<noteq> a" for x y z
  proof -
    have x: "B x = Some (y, z)" "x \<noteq> c"
      using that c by (auto simp: d split: if_splits)
    then show ?thesis
      using D(1-3) [OF x] D(4) [of x y] by auto
  qed
  show "\<not> blk_is_free (m e)" if "e \<in> E" for e
    using D(5) that .
  show "\<exists>x sz. B' x = Some (sz, True) \<and> x + sz = y"
    if y: "y \<in> dom B' \<union> E" "\<And>sz f. B' a = Some (sz, f) \<Longrightarrow> y \<noteq> a + sz" "blk_prev_free (m y)" for y
  proof -
    have ne: "y \<noteq> a + s + r" "y \<noteq> a + s"
      using y(1,2) tiles_ends_not_block [OF t, of "a + s"] n pos by (auto simp: d add.assoc split: if_splits)
    have "y \<in> dom B \<union> E"
      using y(1) a by (auto simp: d split: if_splits)
    moreover have "\<forall>sz f. B c = Some (sz, f) \<longrightarrow> y \<noteq> c + sz"
      using c a n ne by auto
    ultimately obtain x sz where x: "B x = Some (sz, True)" "x + sz = y"
      using D(6) y(3) by blast
    then have "x \<noteq> a" "x \<noteq> a + s"
      using a n ne by auto
    then show ?thesis
      using x by (auto simp: d)
  qed
qed

text \<open>The exempt block gets its header and its successor is told.\<close>

lemma hdrs_close:
  assumes t: "tiles B E" and h: "hdrs_but a m B E" and a: "B a = Some (s, f)"
    and m: "blk_size (m' a) = s" "blk_is_free (m' a) = g"
    and n: "blk_prev_free (m' (a + s)) = g" "g \<Longrightarrow> prev_size (m' (a + s)) = s"
    and sz: "\<And>x. x \<noteq> a \<Longrightarrow> blk_size (m' x) = blk_size (m x) \<and> blk_is_free (m' x) = blk_is_free (m x)"
    and pf: "\<And>x. x \<noteq> a + s \<Longrightarrow> blk_prev_free (m' x) = blk_prev_free (m x) \<and> prev_size (m' x) = prev_size (m x)"
  shows "hdrs_ok m' (B(a \<mapsto> (s, g))) E"
proof -
  note D = hdrs_butD [OF h]
  let ?B = "B(a \<mapsto> (s, g))"
  have "B 0 = None" "a \<noteq> 0"
    using tiles_block(3) [OF t] a by (metis less_irrefl not_None_eq surj_pair)+
  moreover have "hdrs_but 0 m' ?B E"
  proof (rule hdrs_butI)
    show "blk_size (m' x) = y \<and> blk_is_free (m' x) = z \<and> blk_prev_free (m' (x + y)) = z \<and>
        (z \<longrightarrow> prev_size (m' (x + y)) = y)" if "?B x = Some (y, z)" for x y z
    proof (cases "x = a")
      case True
      then show ?thesis using that m n by auto
    next
      case False
      then have x: "B x = Some (y, z)" using that by simp
      have "x + y \<noteq> a + s"
        using tiles_same_end [OF t x a] False by auto
      then show ?thesis
        using D(1-3) [OF x False] D(4) [of x y] False x sz pf by auto
    qed
    show "\<not> blk_is_free (m' e)" if "e \<in> E" for e
      using D(5) [OF that] sz [of e] tiles_ends_not_block [OF t that] a by (cases "e = a") auto
    show "\<exists>x sz. ?B x = Some (sz, True) \<and> x + sz = y" if y: "y \<in> dom ?B \<union> E" "blk_prev_free (m' y)" for y
    proof (cases "y = a + s")
      case True
      then show ?thesis
        using y(2) n(1) by auto
    next
      case False
      then have "blk_prev_free (m y)"
        using y(2) pf by simp
      moreover have "y \<in> dom B \<union> E"
        using y(1) a by auto
      ultimately obtain x sz where x: "B x = Some (sz, True)" "x + sz = y"
        using D(6) [of y] False a by auto
      then have "x \<noteq> a" using False a by auto
      then show ?thesis using x by auto
    qed
  qed
  ultimately show ?thesis
    by (simp add: hdrs_ok_def)
qed

text \<open>The same when the block is split in two.\<close>

lemma hdrs_split:
  assumes t: "tiles B E" and h: "hdrs_but a m B E" and a: "B a = Some (s + r, f)"
    and s: "16 dvd s" "32 \<le> s" "32 \<le> r"
    and m: "blk_size (m' a) = s" "\<not> blk_is_free (m' a)" "blk_size (m' (a + s)) = r" "blk_is_free (m' (a + s))"
    and n: "\<not> blk_prev_free (m' (a + s))" "blk_prev_free (m' (a + s + r))" "prev_size (m' (a + s + r)) = r"
    and sz: "\<And>x. x \<noteq> a \<Longrightarrow> x \<noteq> a + s \<Longrightarrow> blk_size (m' x) = blk_size (m x) \<and> blk_is_free (m' x) = blk_is_free (m x)"
    and pf: "\<And>x. x \<noteq> a + s \<Longrightarrow> x \<noteq> a + s + r \<Longrightarrow>
      blk_prev_free (m' x) = blk_prev_free (m x) \<and> prev_size (m' x) = prev_size (m x)"
  shows "hdrs_ok m' (B(a \<mapsto> (s, False), a + s \<mapsto> (r, True))) E"
proof -
  note D = hdrs_butD [OF h]
  let ?B = "B(a \<mapsto> (s, False), a + s \<mapsto> (r, True))"
  have in_new: "B (a + s) = None" "a + s \<notin> E"
    using tiles_inside [OF t a, of "a + s"] s by auto
  have "B 0 = None" "a \<noteq> 0"
    using tiles_block(3) [OF t] a by (metis less_irrefl not_None_eq surj_pair)+
  moreover have "hdrs_but 0 m' ?B E"
  proof (rule hdrs_butI)
    show "blk_size (m' x) = y \<and> blk_is_free (m' x) = z \<and> blk_prev_free (m' (x + y)) = z \<and>
        (z \<longrightarrow> prev_size (m' (x + y)) = y)" if "?B x = Some (y, z)" for x y z
    proof (cases "x = a \<or> x = a + s")
      case True
      then show ?thesis using that m n s by (auto simp: add.assoc split: if_splits)
    next
      case False
      then have x: "B x = Some (y, z)" "x \<noteq> a" using that by auto
      have "x + y \<noteq> a + s + r"
        using tiles_same_end [OF t x(1) a] x(2) by (auto simp: add.assoc)
      moreover have "x + y \<noteq> a + s"
        using tilesD(2) [OF t x(1)] in_new by auto
      ultimately show ?thesis
        using D(1-3) [OF x] D(4) [of x y] False x sz pf by auto
    qed
    show "\<not> blk_is_free (m' e)" if "e \<in> E" for e
      using D(5) [OF that] sz [of e] tiles_ends_not_block [OF t that] a in_new that
      by (cases "e = a \<or> e = a + s") auto
    show "\<exists>x sz. ?B x = Some (sz, True) \<and> x + sz = y" if y: "y \<in> dom ?B \<union> E" "blk_prev_free (m' y)" for y
    proof (cases "y = a + s \<or> y = a + s + r")
      case True
      then have "y = (a + s) + r" "?B (a + s) = Some (r, True)"
        using y(2) n(1) by auto
      then show ?thesis by blast
    next
      case False
      then have "blk_prev_free (m y)"
        using y(2) pf by simp
      moreover have "y \<in> dom B \<union> E"
        using y(1) a False by (auto split: if_splits)
      ultimately obtain x sz where x: "B x = Some (sz, True)" "x + sz = y"
        using D(6) [of y] False a by (auto simp: add.assoc)
      then have "x \<noteq> a" "x \<noteq> a + s" using False a in_new by (auto simp: add.assoc)
      then show ?thesis using x by auto
    qed
  qed
  ultimately show ?thesis
    by (simp add: hdrs_ok_def)
qed


section \<open>The whole invariant\<close>

definition filed_but :: "nat \<Rightarrow> (nat \<times> nat \<Rightarrow> nat list) \<Rightarrow> blockmap \<Rightarrow> bool" where
  "filed_but c F B \<longleftrightarrow>
     (\<forall>x d. x \<in> set (F d) \<longleftrightarrow> x \<noteq> c \<and> (\<exists>sz. B x = Some (sz, True) \<and> tlsf_mapping sz = d))"

definition heap_but :: "nat \<Rightarrow> tlsf_pool \<Rightarrow> blockmap \<Rightarrow> nat set \<Rightarrow> (nat \<times> nat \<Rightarrow> nat list) \<Rightarrow> bool" where
  "heap_but c p B E F \<longleftrightarrow> tiles B E \<and> hdrs_but c (tmem p) B E \<and> lists_ok p F \<and> filed_but c F B \<and>
     finite (dom B)"

definition heap_ok :: "tlsf_pool \<Rightarrow> blockmap \<Rightarrow> nat set \<Rightarrow> (nat \<times> nat \<Rightarrow> nat list) \<Rightarrow> bool" where
  "heap_ok p B E F \<longleftrightarrow> tiles B E \<and> hdrs_ok (tmem p) B E \<and> lists_ok p F \<and> filed_but 0 F B \<and>
     finite (dom B)"

lemma filed_butD: "filed_but c F B \<Longrightarrow>
    x \<in> set (F d) \<longleftrightarrow> x \<noteq> c \<and> (\<exists>sz. B x = Some (sz, True) \<and> tlsf_mapping sz = d)"
  unfolding filed_but_def by blast

lemma size_class:
  assumes "32 \<le> sz" "sz < 2 ^ 64"
  shows "is_class (tlsf_mapping sz)"
proof -
  note M = tlsf_mapping_ge [OF assms(1)]
  have "(2::nat) ^ tlsf_fls sz < 2 ^ 64"
    using M(3) assms(2) by (rule le_less_trans)
  then have "tlsf_fls sz < 64"
    by (simp only: power_strict_increasing_iff [of "2::nat"] one_less_numeral_iff semiring_norm)
  then show ?thesis
    using M(1,5) by (simp add: is_class_def)
qed

lemma take_out:
  assumes ok: "lists_ok p F" and fl: "filed_but c F B" and o: "B o' = Some (s, True)" "o' \<noteq> c"
    and d: "tlsf_mapping s = d"
  shows "lists_ok (remove_by_size o' s p) (F(d := remove1 o' (F d)))"
    and "x \<in> set ((F(d := remove1 o' (F d))) e) \<longleftrightarrow> x \<noteq> o' \<and> x \<in> set (F e)"
proof -
  have mem: "o' \<in> set (F d)"
    using filed_butD [OF fl] o d by blast
  show "lists_ok (remove_by_size o' s p) (F(d := remove1 o' (F d)))"
    using remove_ok [OF ok mem prod.collapse [symmetric]] d
    by (simp add: remove_by_size_def case_prod_beta)
  have "distinct (F d)"
    using lists_okD(1) [OF ok listed_class [OF ok mem]] .
  moreover have "e \<noteq> d \<Longrightarrow> o' \<notin> set (F e)"
    using lists_okD(7) [OF ok mem] by blast
  ultimately show "x \<in> set ((F(d := remove1 o' (F d))) e) \<longleftrightarrow> x \<noteq> o' \<and> x \<in> set (F e)"
    by (cases "e = d") auto
qed

lemma by_size_sel [simp]:
  "hdr_size (tmem (remove_by_size a s p) x) = hdr_size (tmem p x)"
  "prev_size (tmem (remove_by_size a s p) x) = prev_size (tmem p x)"
  "blk_size (tmem (remove_by_size a s p) x) = blk_size (tmem p x)"
  "blk_is_free (tmem (remove_by_size a s p) x) = blk_is_free (tmem p x)"
  "blk_prev_free (tmem (remove_by_size a s p) x) = blk_prev_free (tmem p x)"
  "used_size (remove_by_size a s p) = used_size p" "pool_size (remove_by_size a s p) = pool_size p"
  "hdr_size (tmem (insert_by_size a s p) x) = hdr_size (tmem p x)"
  "prev_size (tmem (insert_by_size a s p) x) = prev_size (tmem p x)"
  "blk_size (tmem (insert_by_size a s p) x) = blk_size (tmem p x)"
  "blk_is_free (tmem (insert_by_size a s p) x) = blk_is_free (tmem p x)"
  "blk_prev_free (tmem (insert_by_size a s p) x) = blk_prev_free (tmem p x)"
  "used_size (insert_by_size a s p) = used_size p" "pool_size (insert_by_size a s p) = pool_size p"
  by (simp_all add: remove_by_size_def insert_by_size_def case_prod_beta)

text \<open>Entering: an allocated block as it stands, a free one once it is out of its list.\<close>

lemma heap_enter_used:
  assumes "heap_ok p B E F" "B a = Some (s, False)"
  shows "heap_but a p B E F"
proof -
  have "B 0 = None"
    using assms(1) by (simp add: heap_ok_def hdrs_ok_def)
  then have nz: "B x = Some y \<Longrightarrow> x \<noteq> 0" for x y
    by (metis option.distinct(1))
  have "filed_but 0 F B"
    using assms(1) by (simp add: heap_ok_def)
  then have "filed_but a F B"
    using assms(2) nz unfolding filed_but_def by fastforce
  then show ?thesis
    using assms(1) hdrs_but_weaken by (simp add: heap_ok_def heap_but_def)
qed

lemma heap_enter_free:
  assumes h: "heap_ok p B E F" and a: "B a = Some (s, True)"
  shows "\<exists>F'. heap_but a (remove_by_size a s p) B E F'"
proof -
  have z: "B 0 = None" "a \<noteq> 0"
    using h a by (auto simp: heap_ok_def hdrs_ok_def intro: gr0I)
  have nz: "B x = Some y \<Longrightarrow> x \<noteq> 0" for x y
    using z(1) by (metis option.distinct(1))
  have parts: "tiles B E" "lists_ok p F" "filed_but 0 F B" "finite (dom B)" "hdrs_but a (tmem p) B E"
    using h hdrs_but_weaken by (simp_all add: heap_ok_def)
  note T = take_out [OF parts(2,3) a z(2) refl]
  have "hdrs_but a (tmem (remove_by_size a s p)) B E"
    using tiles_ends_not_block [OF parts(1)] a by (intro hdrs_cong [OF parts(5)]) auto
  moreover have "filed_but a (F(tlsf_mapping s := remove1 a (F (tlsf_mapping s)))) B"
    using filed_butD [OF parts(3)] nz unfolding filed_but_def T(2) by fastforce
  ultimately show ?thesis
    using T(1) parts by (auto simp: heap_but_def)
qed

text \<open>Joining the block with a free neighbour, which leaves its list.\<close>

lemma heap_merge:
  assumes h: "heap_but c p B E F" and c: "c = a \<and> o' = a + s \<and> so = r \<or> c = a + s \<and> o' = a \<and> so = s"
    and a: "B a = Some (s, f)" and n: "B (a + s) = Some (r, g)" and fr: "B o' = Some (so, True)"
  shows "\<exists>F'. heap_but a (remove_by_size o' so p) (B(a + s := None, a \<mapsto> (s + r, k))) E F'"
proof -
  let ?B = "B(a + s := None, a \<mapsto> (s + r, k))"
  have parts: "tiles B E" "hdrs_but c (tmem p) B E" "lists_ok p F" "filed_but c F B" "finite (dom B)"
    using h by (simp_all add: heap_but_def)
  have pos: "0 < s" using tilesD(1) [OF parts(1) a] by simp
  then have oc: "o' \<noteq> c" using c by auto
  note T = take_out [OF parts(3,4) fr oc refl]
  have "hdrs_but c (tmem (remove_by_size o' so p)) B E"
    using tiles_ends_not_block [OF parts(1)] a n c by (intro hdrs_cong [OF parts(2)]) auto
  then have "hdrs_but a (tmem (remove_by_size o' so p)) ?B E"
    using c a n fr pos by (intro hdrs_merge [OF parts(1) _ _ a n refl]) auto
  moreover have "filed_but a (F(tlsf_mapping so := remove1 o' (F (tlsf_mapping so)))) ?B"
    using filed_butD [OF parts(4)] c pos unfolding filed_but_def T(2) by auto
  moreover have "tiles ?B E"
    by (rule tiles_merge [OF parts(1) a n])
  moreover have "finite (dom ?B)"
    using parts(5) by simp
  ultimately show ?thesis
    using T(1) unfolding heap_but_def by blast
qed

lemma heap_header:
  assumes h: "heap_but a p B E F" and a: "B a = Some (s, f)"
    and g: "blk_prev_free (g (tmem p a)) = blk_prev_free (tmem p a)"
      "prev_size (g (tmem p a)) = prev_size (tmem p a)"
  shows "heap_but a (on_blk a g p) B E F"
proof -
  have parts: "tiles B E" "hdrs_but a (tmem p) B E" "lists_ok p F" "filed_but a F B" "finite (dom B)"
    using h by (simp_all add: heap_but_def)
  have "hdrs_but a (tmem (on_blk a g p)) B E"
    using tiles_ends_not_block [OF parts(1)] a g by (intro hdrs_cong [OF parts(2)]) auto
  moreover have "lists_ok (on_blk a g p) F"
    using lists_okD(8) [OF parts(3)] filed_butD [OF parts(4)]
    by (intro lists_ok_cong [OF parts(3)]) auto
  ultimately show ?thesis
    using parts by (simp add: heap_but_def)
qed


text \<open>Leaving: the block is handed out whole, freed, or split.\<close>

lemma heap_lists_headers:
  assumes h: "heap_but a p B E F"
    and same: "fl_bitmap p' = fl_bitmap p" "sl_bitmap p' = sl_bitmap p" "buckets p' = buckets p"
    and mem: "\<And>x. next_free (tmem p' x) = next_free (tmem p x) \<and> prev_free (tmem p' x) = prev_free (tmem p x)"
    and free: "\<And>x. x \<noteq> a \<Longrightarrow> B x \<noteq> None \<Longrightarrow> blk_is_free (tmem p' x) = blk_is_free (tmem p x)"
  shows "lists_ok p' F"
proof -
  have ok: "lists_ok p F" "filed_but a F B"
    using h by (simp_all add: heap_but_def)
  have "blk_is_free (tmem p' x)" if "x \<in> set (F c)" for x c
    using that filed_butD [OF ok(2), of x c] lists_okD(8) [OF ok(1) that] free [of x] by auto
  then show ?thesis
    using mem by (intro lists_ok_cong [OF ok(1) same]) blast
qed

lemma insert_filed:
  assumes ok: "lists_ok p F" and fl: "filed_but c F B'"
    and t: "tiles B E" and a: "B a = Some (s, True)" and fr: "blk_is_free (tmem p a)"
    and out: "\<And>d. a \<notin> set (F d)"
    and B': "\<And>x d. x \<in> set (F d) \<longleftrightarrow> x \<noteq> a \<and> (\<exists>sz. B x = Some (sz, True) \<and> tlsf_mapping sz = d)"
  shows "\<exists>F'. lists_ok (insert_by_size a s p) F' \<and> filed_but 0 F' B"
proof -
  let ?d = "tlsf_mapping s"
  note blk = tiles_block [OF t a]
  have nz: "B x = Some y \<Longrightarrow> x \<noteq> 0" for x y
    using tiles_block(3) [OF t] by (cases y) auto
  have "lists_ok (insert_by_size a s p) (F(?d := a # F ?d))"
    using insert_ok [OF ok prod.collapse [symmetric] size_class [OF blk(5,2)] out _ blk(4) fr] blk(3)
    by (simp add: insert_by_size_def case_prod_beta)
  moreover have "filed_but 0 (F(?d := a # F ?d)) B"
    using a B' nz unfolding filed_but_def by (auto 0 4)
  ultimately show ?thesis by blast
qed

lemma heap_close_used:
  assumes h: "heap_but a p B E F" and a: "B a = Some (s, f)" and pf: "pf = blk_prev_free (tmem p a)"
  shows "heap_ok (take_whole a s pf p) (B(a \<mapsto> (s, False))) E F"
    "blk_size (tmem (take_whole a s pf p) a) = s" "used_size (take_whole a s pf p) = used_size p"
proof -
  have parts: "tiles B E" "hdrs_but a (tmem p) B E" "lists_ok p F" "filed_but a F B" "finite (dom B)"
    using h by (simp_all add: heap_but_def)
  note blk = tiles_block [OF parts(1) a]
  let ?p = "take_whole a s pf p"
  have mem: "tmem ?p x = (if x = a then blk_set_size s False pf (tmem p a)
      else if x = a + s then clear_prev_free ((tmem p x)\<lparr>prev_size := s\<rparr>) else tmem p x)" for x
    using blk by (simp add: take_whole_def blk_next_def Let_def)
  have "hdrs_ok (tmem ?p) (B(a \<mapsto> (s, False))) E"
    using blk pf [symmetric] by (intro hdrs_close [OF parts(1,2) a]) (simp_all add: mem)
  moreover have "lists_ok ?p F"
    using blk by (intro heap_lists_headers [OF h]) (simp_all add: mem, simp_all add: take_whole_def Let_def)
  moreover have "filed_but 0 F (B(a \<mapsto> (s, False)))"
    using parts(4) tiles_zero [OF parts(1)] unfolding filed_but_def by (auto intro: gr0I)
  ultimately show "heap_ok ?p (B(a \<mapsto> (s, False))) E F"
    using tiles_retag [OF parts(1) a] parts(5) by (simp add: heap_ok_def)
  show "blk_size (tmem ?p a) = s"
    using blk by (simp add: mem)
  show "used_size ?p = used_size p"
    by (simp add: take_whole_def Let_def)
qed

lemma heap_close_free:
  assumes h: "heap_but a p B E F" and a: "B a = Some (s, f)"
    and hd: "blk_size (tmem p a) = s" "blk_is_free (tmem p a)"
  shows "\<exists>F'. heap_ok (insert_by_size a s (on_blk (a + s) (\<lambda>b. set_prev_free (b\<lparr>prev_size := s\<rparr>)) p))
    (B(a \<mapsto> (s, True))) E F'"
proof -
  have parts: "tiles B E" "hdrs_but a (tmem p) B E" "lists_ok p F" "filed_but a F B" "finite (dom B)"
    using h by (simp_all add: heap_but_def)
  note blk = tiles_block [OF parts(1) a]
  let ?p = "on_blk (a + s) (\<lambda>b. set_prev_free (b\<lparr>prev_size := s\<rparr>)) p"
  let ?B = "B(a \<mapsto> (s, True))"
  have hdr: "hdrs_ok (tmem (insert_by_size a s ?p)) ?B E"
    using blk hd by (intro hdrs_close [OF parts(1,2) a]) simp_all
  have ok: "lists_ok ?p F"
    by (intro heap_lists_headers [OF h]) auto
  have t: "tiles ?B E"
    by (rule tiles_retag [OF parts(1) a])
  have "\<exists>F'. lists_ok (insert_by_size a s ?p) F' \<and> filed_but 0 F' ?B"
    using filed_butD [OF parts(4)] hd by (intro insert_filed [OF ok parts(4) t]) auto
  then show ?thesis
    using hdr t parts(5) by (auto simp: heap_ok_def)
qed

lemma heap_close_split:
  assumes h: "heap_but a p B E F" and a: "B a = Some (s + r, f)" and s: "16 dvd s" "32 \<le> s" "32 \<le> r"
    and pf: "pf = blk_prev_free (tmem p a)"
  shows "\<exists>F'. heap_ok (put_remainder a s r pf p) (B(a \<mapsto> (s, False), a + s \<mapsto> (r, True))) E F'"
    "blk_size (tmem (put_remainder a s r pf p) a) = s" "used_size (put_remainder a s r pf p) = used_size p"
proof -
  have parts: "tiles B E" "hdrs_but a (tmem p) B E" "lists_ok p F" "filed_but a F B" "finite (dom B)"
    using h by (simp_all add: heap_but_def)
  let ?B = "B(a \<mapsto> (s, False), a + s \<mapsto> (r, True))"
  have t: "tiles ?B E"
    by (rule tiles_split [OF parts(1) a s])
  have in_new: "B (a + s) = None"
    using tiles_inside [OF parts(1) a, of "a + s"] s by simp
  have new: "?B (a + s) = Some (r, True)" "?B a = Some (s, False)"
    using s by auto
  note blk = tiles_block [OF t new(2)] and rest = tiles_block [OF t new(1)]
  define q where "q = on_blk (a + s + r) (\<lambda>b. set_prev_free (b\<lparr>prev_size := r\<rparr>))
      (on_blk a (blk_set_size s False pf)
        (on_blk (a + s) (\<lambda>b. (blk_set_size r True False b)\<lparr>prev_size := s\<rparr>) p))"
  have run: "put_remainder a s r pf p = insert_by_size (a + s) r q"
    using blk rest s by (simp add: put_remainder_def q_def Let_def blk_next_def)
  have mem: "tmem q x = (if x = a then blk_set_size s False pf (tmem p a)
      else if x = a + s then (blk_set_size r True False (tmem p x))\<lparr>prev_size := s\<rparr>
      else if x = a + s + r then set_prev_free ((tmem p x)\<lparr>prev_size := r\<rparr>) else tmem p x)" for x
    using s by (simp add: q_def)
  have hdr: "hdrs_ok (tmem (insert_by_size (a + s) r q)) ?B E"
    using blk rest s pf [symmetric] by (intro hdrs_split [OF parts(1,2) a s]) (simp_all add: mem)
  have ok: "lists_ok q F"
    using in_new by (intro heap_lists_headers [OF h]) (auto simp: mem, simp_all add: q_def)
  have "\<exists>F'. lists_ok (insert_by_size (a + s) r q) F' \<and> filed_but 0 F' ?B"
    using filed_butD [OF parts(4)] in_new rest s
    by (intro insert_filed [OF ok parts(4) t new(1)]) (auto simp: mem)
  then show "\<exists>F'. heap_ok (put_remainder a s r pf p) ?B E F'"
    using hdr t parts(5) by (auto simp: heap_ok_def run)
  show "blk_size (tmem (put_remainder a s r pf p) a) = s"
    using blk by (simp add: run mem)
  show "used_size (put_remainder a s r pf p) = used_size p"
    by (simp add: run q_def)
qed


section \<open>The operations\<close>

text \<open>What a client sees: the allocated blocks with their sizes, and the bytes in use.\<close>

definition used :: "blockmap \<Rightarrow> nat \<Rightarrow> nat option" where
  "used B a = (case B a of Some (sz, False) \<Rightarrow> Some sz | _ \<Rightarrow> None)"

definition used_bytes :: "(nat \<Rightarrow> nat option) \<Rightarrow> nat" where
  "used_bytes U = (\<Sum>a \<in> dom U. the (U a) - TLSF_HEADER_SIZE)"

lemma used_Some: "used B a = Some s \<longleftrightarrow> B a = Some (s, False)"
  by (auto simp: used_def split: option.splits bool.splits)

lemma used_upd [simp]:
  "used (B(a \<mapsto> (s, False))) = (used B)(a \<mapsto> s)" "used (B(a \<mapsto> (s, True))) = (used B)(a := None)"
  "used (B(a := None)) = (used B)(a := None)"
  by (auto simp: used_def fun_eq_iff)

lemma used_dom: "dom (used B) \<subseteq> dom B"
  by (auto simp: used_def split: option.splits)

lemma used_none: "used B a = None \<Longrightarrow> (used B)(a := None) = used B"
  by auto

lemma used_bytes_add:
  assumes "finite (dom U)" "U a = None"
  shows "used_bytes (U(a \<mapsto> s)) = used_bytes U + (s - TLSF_HEADER_SIZE)"
proof -
  have "(\<Sum>x \<in> dom U. the ((U(a \<mapsto> s)) x) - TLSF_HEADER_SIZE) = used_bytes U"
    unfolding used_bytes_def using assms(2) by (intro sum.cong) auto
  then show ?thesis
    using assms by (simp add: used_bytes_def domIff)
qed

lemma used_bytes_del:
  assumes "finite (dom U)" "U a = Some s"
  shows "used_bytes U = used_bytes (U(a := None)) + (s - TLSF_HEADER_SIZE)"
  using used_bytes_add [of "U(a := None)" a s] assms by (simp add: fun_upd_idem)

text \<open>The invariant of the pool, accounting included.\<close>

definition pool_ok :: "tlsf_pool \<Rightarrow> blockmap \<Rightarrow> nat set \<Rightarrow> bool" where
  "pool_ok p B E \<longleftrightarrow> (\<exists>F. heap_ok p B E F) \<and> used_size p = used_bytes (used B)"

lemma pool_okD:
  assumes "pool_ok p B E"
  obtains F where "heap_ok p B E F" "tiles B E" "hdrs_ok (tmem p) B E" "finite (dom (used B))"
    "used_size p = used_bytes (used B)"
  using assms finite_subset [OF used_dom] by (auto simp: pool_ok_def heap_ok_def)

lemma hdr_of:
  assumes "hdrs_ok m B E" "B a = Some (s, f)"
  shows "blk_size (m a) = s" "blk_is_free (m a) = f" "blk_prev_free (m (a + s)) = f"
    "f \<Longrightarrow> prev_size (m (a + s)) = s"
proof -
  have "hdrs_but 0 m B E" "a \<noteq> 0"
    using assms by (auto simp: hdrs_ok_def intro: gr0I)
  note D = hdrs_butD [OF this(1)]
  show "blk_size (m a) = s" "blk_is_free (m a) = f" "blk_prev_free (m (a + s)) = f"
    using D(1-3) [OF assms(2) \<open>a \<noteq> 0\<close>] by auto
  show "f \<Longrightarrow> prev_size (m (a + s)) = s"
    using D(4) [of a s] assms(2) \<open>a \<noteq> 0\<close> by auto
qed

lemma request_size_props:
  "16 dvd request_size n" "32 \<le> request_size n" "n + 16 \<le> request_size n" "request_size n \<le> n + 47"
proof -
  have "n + 16 \<le> TLSF_ALIGN_UP (n + 16)" "TLSF_ALIGN_UP (n + 16) \<le> n + 31"
    unfolding TLSF_ALIGN_UP_def by presburger+
  then show "32 \<le> request_size n" "n + 16 \<le> request_size n" "request_size n \<le> n + 47"
    by (simp_all add: request_size_def tlsf_consts)
  show "16 dvd request_size n"
    by (simp add: request_size_def tlsf_consts TLSF_ALIGN_UP_def max_def)
qed

lemma search_no_wrap:
  assumes "32 \<le> need" "need \<le> 2 ^ 63 + 47"
  shows "search_size need < 2 ^ 64" "is_class (tlsf_mapping_search need)"
proof -
  have "(2::nat) ^ tlsf_fls need < 2 ^ 64"
    using tlsf_fls_bounds [of need] assms by simp
  then have "tlsf_fls need < 64"
    by (simp only: power_strict_increasing_iff [of "2::nat"] one_less_numeral_iff semiring_norm)
  then have "(2::nat) ^ (tlsf_fls need - 5) \<le> 2 ^ 58"
    by (intro power_increasing) auto
  then show s: "search_size need < 2 ^ 64"
    using assms(2) by (simp add: search_size_def)
  have "32 \<le> search_size need"
    using search_class(2) [OF assms(1) s] assms(1) by simp
  then show "is_class (tlsf_mapping_search need)"
    using search_class(1) [OF assms(1) s] size_class s by simp
qed

definition fits :: "nat \<Rightarrow> nat \<Rightarrow> bool" where
  "fits need sz \<longleftrightarrow> class_le (tlsf_mapping_search need) (tlsf_mapping sz)"

text \<open>Handing out the front of a block that is out of its list, split when it is large enough.\<close>

lemma carve_ok:
  assumes h: "heap_but a p B E F" and a: "B a = Some (bs, f)" and need: "16 dvd need" "32 \<le> need" "need \<le> bs"
    and pf: "pf = blk_prev_free (tmem p a)"
  defines "p' \<equiv> (if bs \<ge> need + 32 then put_remainder a need (bs - need) pf p else take_whole a bs pf p)"
    and "s \<equiv> (if bs \<ge> need + 32 then need else bs)"
  shows "\<exists>B' F'. heap_ok p' B' E F' \<and> used B' = (used B)(a \<mapsto> s) \<and> span B' = span B \<and>
    blk_size (tmem p' a) = s \<and> used_size p' = used_size p"
proof (cases "bs \<ge> need + 32")
  case True
  have a': "B a = Some (need + (bs - need), f)"
    using a True by simp
  have none: "B (a + need) = None"
    using tiles_inside(1) [of B E a bs f "a + need"] h a need True by (simp add: heap_but_def)
  then have "used B (a + need) = None"
    by (simp add: used_def)
  then have "used (B(a \<mapsto> (need, False), a + need \<mapsto> (bs - need, True))) = (used B)(a \<mapsto> need)"
    using need by (auto simp: fun_eq_iff)
  moreover have "32 \<le> bs - need" using True by simp
  moreover have "span (B(a \<mapsto> (need, False), a + need \<mapsto> (bs - need, True))) = span B"
    using need(2) by (intro span_split [OF a' none]) simp
  ultimately show ?thesis
    using heap_close_split [OF h a' need(1,2) _ pf] True need unfolding p'_def s_def by fastforce
next
  case False
  then show ?thesis
    using heap_close_used [OF h a pf] span_retag [of B a bs f False] a need unfolding p'_def s_def by (intro exI) auto
qed

lemma tlsf_malloc_ok:
  assumes ok: "pool_ok p B E" and n: "0 < n" "n \<le> 2 ^ 63"
  shows "(\<exists>p' B' a s. tlsf_malloc n p = Some (a + 16, p') \<and> pool_ok p' B' E \<and> used B a = None \<and>
      used B' = (used B)(a \<mapsto> s) \<and> span B' = span B \<and> request_size n \<le> s \<and> s < request_size n + 32 \<and>
      (\<exists>t. B a = Some (t, True) \<and> fits (request_size n) t)) \<or>
    (tlsf_malloc n p = Some (0, p) \<and> (\<forall>a sz. B a = Some (sz, True) \<longrightarrow> \<not> fits (request_size n) sz))"
proof -
  obtain F where h: "heap_ok p B E F" and t: "tiles B E" and hd: "hdrs_ok (tmem p) B E"
    and fin: "finite (dom (used B))" and acc: "used_size p = used_bytes (used B)"
    using pool_okD [OF ok] .
  define need where "need = request_size n"
  have need: "16 dvd need" "32 \<le> need" "n + 16 \<le> need" "need \<le> 2 ^ 63 + 47"
    using request_size_props [of n] n by (simp_all add: need_def)
  note sw = search_no_wrap [OF need(2,4)]
  have lo: "lists_ok p F" and fl: "filed_but 0 F B"
    using h by (simp_all add: heap_ok_def)
  have free: "x \<in> set (F d) \<longleftrightarrow> (\<exists>sz. B x = Some (sz, True) \<and> tlsf_mapping sz = d)" for x d
    using filed_butD [OF fl, of x d] tiles_zero [OF t] by auto
  obtain a where a: "tlsf_find_free_block need p = Some (a, p)"
    "if \<exists>d. class_le (tlsf_mapping_search need) d \<and> F d \<noteq> []
     then \<exists>d. class_le (tlsf_mapping_search need) d \<and> a \<in> set (F d) else a = 0"
    using tlsf_find_free_block_ok [OF lo refl sw(2)] by blast
  have run: "tlsf_malloc n p = (if a = 0 \<or> \<not> tlsf_free_block_ok p a then Some (0, p)
      else let block_size = blk_size (tmem p a);
               p = remove_by_size a block_size p;
               pfree = blk_prev_free (tmem p a);
               p = (if block_size \<ge> need + 32 then put_remainder a need (block_size - need) pfree p
                    else take_whole a block_size pfree p)
           in Some (a + 16, p\<lparr>used_size := used_size p + blk_size (tmem p a) - 16\<rparr>))"
    using a(1) n need(4) by (simp add: tlsf_malloc_def need_def [symmetric] Let_def tlsf_consts)
  show ?thesis
  proof (cases "\<exists>d. class_le (tlsf_mapping_search need) d \<and> F d \<noteq> []")
    case False
    have "\<not> fits need sz" if "B x = Some (sz, True)" for x sz
    proof -
      have "x \<in> set (F (tlsf_mapping sz))"
        using free that by blast
      then have "F (tlsf_mapping sz) \<noteq> []"
        by auto
      then show ?thesis
        using False unfolding fits_def by blast
    qed
    then show ?thesis
      using run a(2) False by (auto simp: need_def)
  next
    case True
    then obtain d where d: "class_le (tlsf_mapping_search need) d" "a \<in> set (F d)"
      using a(2) by auto
    then obtain bs where bs: "B a = Some (bs, True)" "tlsf_mapping bs = d"
      using free by blast
    have "need \<le> bs"
      using tlsf_mapping_search_sound [OF need(2) sw(1) tiles_block(5) [OF t bs(1)]] d(1) bs(2) by simp
    obtain F1 where h1: "heap_but a (remove_by_size a bs p) B E F1"
      using heap_enter_free [OF h bs(1)] by blast
    define q where "q = (let p1 = remove_by_size a bs p; pf = blk_prev_free (tmem p1 a)
      in if bs \<ge> need + 32 then put_remainder a need (bs - need) pf p1 else take_whole a bs pf p1)"
    define s where "s = (if bs \<ge> need + 32 then need else bs)"
    have s: "need \<le> s" "s < need + 32"
      using \<open>need \<le> bs\<close> by (auto simp: s_def)
    obtain B' F' where q: "heap_ok q B' E F'" "used B' = (used B)(a \<mapsto> s)"
      "blk_size (tmem q a) = s" "used_size q = used_size p" "span B' = span B"
      using carve_ok [OF h1 bs(1) need(1,2) \<open>need \<le> bs\<close> refl] unfolding q_def s_def Let_def by auto
    have "a \<noteq> 0" "tlsf_free_block_ok p a"
      using lists_okD(8) [OF lo d(2)] listed_block_ok [OF lo d(2)] by auto
    then have "tlsf_malloc n p = Some (a + 16, q\<lparr>used_size := used_size p + s - 16\<rparr>)"
      using run hdr_of(1) [OF hd bs(1)] q(3,4) by (simp add: q_def Let_def)
    moreover have "used B a = None"
      using bs(1) by (simp add: used_def)
    moreover have "heap_ok (q\<lparr>used_size := u\<rparr>) B' E F'" for u
      using q(1) by (simp add: heap_ok_def lists_ok_def tlsf_free_block_ok_def)
    moreover have "used_size p + s - 16 = used_bytes (used B')"
      using used_bytes_add [OF fin, of a s] \<open>used B a = None\<close> q(2) s need acc by (simp add: tlsf_consts)
    moreover have "fits need bs"
      using d(1) bs(2) by (simp add: fits_def)
    ultimately show ?thesis
      using q(2,5) s bs(1)
      by (intro disjI1 exI [of _ "q\<lparr>used_size := used_size p + s - 16\<rparr>"] exI [of _ B'] exI [of _ a] exI [of _ s])
        (auto simp: pool_ok_def need_def)
  qed
qed


lemma heap_retag:
  assumes h: "heap_but a p B E F" and a: "B a = Some (s, f)"
  shows "heap_but a p (B(a \<mapsto> (s, g))) E F"
proof -
  have parts: "tiles B E" "hdrs_but a (tmem p) B E" "lists_ok p F" "filed_but a F B" "finite (dom B)"
    using h by (simp_all add: heap_but_def)
  note D = hdrs_butD [OF parts(2)]
  have "hdrs_but a (tmem p) (B(a \<mapsto> (s, g))) E"
  proof (rule hdrs_butI)
    show "blk_size (tmem p x) = y \<and> blk_is_free (tmem p x) = z \<and> blk_prev_free (tmem p (x + y)) = z \<and>
        (z \<longrightarrow> prev_size (tmem p (x + y)) = y)"
      if "(B(a \<mapsto> (s, g))) x = Some (y, z)" "x \<noteq> a" for x y z
      using that D(1-3) [of x y z] D(4) [of x y] by auto
    show "\<not> blk_is_free (tmem p e)" if "e \<in> E" for e
      using D(5) [OF that] .
    show "\<exists>x sz. (B(a \<mapsto> (s, g))) x = Some (sz, True) \<and> x + sz = y"
      if y: "y \<in> dom (B(a \<mapsto> (s, g))) \<union> E" "\<And>sz f. (B(a \<mapsto> (s, g))) a = Some (sz, f) \<Longrightarrow> y \<noteq> a + sz"
        "blk_prev_free (tmem p y)" for y
    proof -
      have "y \<noteq> a + s" "y \<in> dom B \<union> E"
        using y(1,2) a by auto
      then obtain x sz where x: "B x = Some (sz, True)" "x + sz = y"
        using D(6) [of y] y(3) a by auto
      then have "x \<noteq> a" using \<open>y \<noteq> a + s\<close> a by auto
      then show ?thesis using x by auto
    qed
  qed
  then show ?thesis
    using parts tiles_retag [OF parts(1) a] by (auto simp: heap_but_def filed_but_def)
qed

text \<open>A block being freed: exempt, with its header already saying so.\<close>

definition freeing :: "nat \<Rightarrow> nat \<Rightarrow> tlsf_pool \<Rightarrow> blockmap \<Rightarrow> nat set \<Rightarrow> bool" where
  "freeing a s p B E \<longleftrightarrow> (\<exists>F. heap_but a p B E F) \<and> B a = Some (s, True) \<and>
     blk_size (tmem p a) = s \<and> blk_is_free (tmem p a)"

lemma join_back_ok:
  assumes fr: "freeing a s p B E"
  shows "\<exists>a' s' p' B'. join_back a (blk_prev_free (tmem p a)) (prev_size (tmem p a)) p = (a', p') \<and>
    freeing a' s' p' B' E \<and> used B' = used B \<and> span B' = span B \<and> used_size p' = used_size p"
proof -
  obtain F where h: "heap_but a p B E F" and a: "B a = Some (s, True)" "blk_size (tmem p a) = s"
    "blk_is_free (tmem p a)"
    using fr by (auto simp: freeing_def)
  have t: "tiles B E" and hd: "hdrs_but a (tmem p) B E"
    using h by (simp_all add: heap_but_def)
  show ?thesis
  proof (cases "blk_prev_free (tmem p a)")
    case False
    then show ?thesis
      using fr by (auto simp: join_back_def)
  next
    case True
    have "a \<noteq> a + s" using tiles_block(5) [OF t a(1)] by simp
    then obtain b r where b: "B b = Some (r, True)" "b + r = a"
      using hdrs_butD(6) [OF hd, of a] True a(1) by auto
    have blk: "4 dvd r" "32 \<le> r" "b \<noteq> a" and sum: "tiles (B(b + r := None, b \<mapsto> (r + s, True))) E"
      using tiles_block [OF t b(1)] b tiles_merge [OF t b(1), of s True True] a(1) by auto
    have hb: "prev_size (tmem p a) = r" "blk_size (tmem p b) = r"
      using hdrs_butD(1,4) [OF hd b(1) blk(3)] b(2) by simp_all
    let ?B = "B(b + r := None, b \<mapsto> (r + s, True))"
    obtain F' where F': "heap_but b (remove_by_size b r p) ?B E F'"
      using heap_merge [OF h _ b(1), of b r s True True] b a(1) by auto
    define q where "q = on_blk b (blk_set_size (r + s) True (blk_prev_free (tmem p b))) (remove_by_size b r p)"
    note nb = tiles_block [OF sum, of b "r + s" True]
    have "heap_but b q ?B E F'"
      unfolding q_def using nb by (intro heap_header [OF F']) simp_all
    then have "freeing b (r + s) q ?B E"
      using nb by (auto simp: freeing_def q_def)
    moreover have "join_back a (blk_prev_free (tmem p a)) (prev_size (tmem p a)) p = (b, q)"
    proof -
      have "a - r = b" "0 < r"
        using b(2) blk(2) by auto
      then show ?thesis
        using True hb a(2) by (simp add: join_back_def Let_def q_def add.commute)
    qed
    moreover have "used ?B = used B"
      using a(1) b by (auto simp: used_def fun_eq_iff)
    moreover have "span ?B = span B"
      using b blk(2) a(1) by (intro span_merge) auto
    moreover have "used_size q = used_size p"
      by (simp add: q_def)
    ultimately show ?thesis by blast
  qed
qed

lemma join_next_ok:
  assumes fr: "freeing a s p B E"
  shows "\<exists>s' B'. freeing a s' (join_next a p) B' E \<and> used B' = used B \<and> span B' = span B \<and>
    used_size (join_next a p) = used_size p"
proof -
  obtain F where h: "heap_but a p B E F" and a: "B a = Some (s, True)" "blk_size (tmem p a) = s"
    "blk_is_free (tmem p a)"
    using fr by (auto simp: freeing_def)
  have t: "tiles B E" and hd: "hdrs_but a (tmem p) B E"
    using h by (simp_all add: heap_but_def)
  have nx: "blk_next p a = a + s"
    by (simp add: blk_next_def a)
  show ?thesis
  proof (cases "blk_is_free (tmem p (a + s))")
    case False
    then show ?thesis
      using fr by (auto simp: join_next_def nx)
  next
    case True
    then have "a + s \<notin> E"
      using hdrs_butD(5) [OF hd] by blast
    then obtain r g where n0: "B (a + s) = Some (r, g)"
      using tilesD(2) [OF t a(1)] by auto
    have ne: "a + s \<noteq> a" using tiles_block(5) [OF t a(1)] by simp
    then have n: "B (a + s) = Some (r, True)" "blk_size (tmem p (a + s)) = r"
      using hdrs_butD(1,2) [OF hd n0] True n0 by auto
    let ?B = "B(a + s := None, a \<mapsto> (s + r, True))"
    obtain F' where F': "heap_but a (remove_by_size (a + s) r p) ?B E F'"
      using heap_merge [OF h _ a(1) n(1), of "a + s" r True] n by auto
    define q where "q = on_blk a (\<lambda>b. blk_set_size (blk_size b + r) True (blk_prev_free b) b)
        (remove_by_size (a + s) r p)"
    have sum: "tiles ?B E"
      by (rule tiles_merge [OF t a(1) n(1)])
    note nb = tiles_block [OF sum, of a "s + r" True]
    have "heap_but a q ?B E F'"
      unfolding q_def using nb a(2) by (intro heap_header [OF F']) simp_all
    then have "freeing a (s + r) q ?B E"
      using nb a(2) by (auto simp: freeing_def q_def)
    moreover have "join_next a p = q"
      using True n(2) by (simp add: join_next_def nx Let_def q_def)
    moreover have "used ?B = used B"
      using a(1) n by (auto simp: used_def fun_eq_iff)
    moreover have "span ?B = span B"
      using tiles_block(5) [OF t a(1)] by (intro span_merge [OF a(1) n(1)]) simp
    moreover have "used_size q = used_size p"
      by (simp add: q_def)
    ultimately show ?thesis by blast
  qed
qed

lemma tlsf_free_ok:
  assumes ok: "pool_ok p B E" and a: "used B a = Some s"
  shows "\<exists>B'. pool_ok (tlsf_free (a + 16) p) B' E \<and> used B' = (used B)(a := None) \<and>
    span B' = span B"
proof -
  obtain F where h: "heap_ok p B E F" and t: "tiles B E" and hd: "hdrs_ok (tmem p) B E"
    and fin: "finite (dom (used B))" and acc: "used_size p = used_bytes (used B)"
    using pool_okD [OF ok] .
  have b: "B a = Some (s, False)"
    using a by (simp add: used_Some)
  note blk = tiles_block [OF t b] and hs = hdr_of(1,2) [OF hd b]
  define p1 where "p1 = on_blk a (blk_set_size s True (blk_prev_free (tmem p a))) p"
  let ?B1 = "B(a \<mapsto> (s, True))"
  have "heap_but a p1 B E F"
    unfolding p1_def using blk by (intro heap_header [OF heap_enter_used [OF h b] b]) simp_all
  then have "heap_but a p1 ?B1 E F"
    by (rule heap_retag) (rule b)
  then have fr1: "freeing a s p1 ?B1 E"
    using blk by (auto simp: freeing_def p1_def)
  have m1: "blk_prev_free (tmem p1 a) = blk_prev_free (tmem p a)" "prev_size (tmem p1 a) = prev_size (tmem p a)"
    using blk by (simp_all add: p1_def)
  obtain a2 s2 p2 B2 where jb: "join_back a (blk_prev_free (tmem p a)) (prev_size (tmem p a)) p1 = (a2, p2)"
    "freeing a2 s2 p2 B2 E" "used B2 = used ?B1" "used_size p2 = used_size p1" "span B2 = span ?B1"
    using join_back_ok [OF fr1] unfolding m1 by blast
  obtain s3 B3 where jn: "freeing a2 s3 (join_next a2 p2) B3 E" "used B3 = used B2"
    "used_size (join_next a2 p2) = used_size p2" "span B3 = span B2"
    using join_next_ok [OF jb(2)] by blast
  define p3 where "p3 = join_next a2 p2"
  obtain F3 where h3: "heap_but a2 p3 B3 E F3" "B3 a2 = Some (s3, True)" "blk_size (tmem p3 a2) = s3"
    "blk_is_free (tmem p3 a2)"
    using jn(1) by (auto simp: freeing_def p3_def)
  define p4 where "p4 = insert_by_size a2 s3 (on_blk (a2 + s3) (\<lambda>b. set_prev_free (b\<lparr>prev_size := s3\<rparr>)) p3)"
  obtain F4 where h4: "heap_ok p4 (B3(a2 \<mapsto> (s3, True))) E F4"
    using heap_close_free [OF h3] unfolding p4_def by blast
  have same: "B3(a2 \<mapsto> (s3, True)) = B3"
    using h3(2) by auto
  have ne: "a2 + s3 \<noteq> a2"
    using tiles_block(5) [of B3 E a2 s3 True] h3(1,2) by (simp add: heap_but_def)
  have us: "used_size p4 = used_size p"
    using jb(4) jn(3) by (simp add: p4_def p3_def p1_def)
  have run: "tlsf_free (a + 16) p = p4\<lparr>used_size := (if used_size p \<ge> s - 16 then used_size p - (s - 16) else 0)\<rparr>"
    using hs jb(1) h3(3) ne us
    by (simp add: tlsf_free_def Let_def tlsf_consts p1_def p3_def [symmetric] blk_next_def p4_def)
  have "used_size p = used_bytes ((used B)(a := None)) + (s - 16)"
    using used_bytes_del [OF fin a] acc by (simp add: tlsf_consts)
  then have "used_size (tlsf_free (a + 16) p) = used_bytes (used B3)"
    using jb(3) jn(2) by (simp add: run)
  moreover have "heap_ok (tlsf_free (a + 16) p) B3 E F4"
    using h4 unfolding run same by (simp add: heap_ok_def lists_ok_def)
  moreover have "span B3 = span B"
    using jb(5) jn(4) span_retag [of B a s False True, OF b] by simp
  ultimately show ?thesis
    using jb(3) jn(2) by (auto simp: pool_ok_def)
qed


text \<open>
  What the owner of the block \<open>a\<close> may write: its \<open>len\<close> payload bytes, which hold the links
  and any stale header inside the block, but not the header in front of them.
\<close>

definition owner_writes :: "nat \<Rightarrow> nat \<Rightarrow> (nat \<Rightarrow> free_block) \<Rightarrow> (nat \<Rightarrow> free_block) \<Rightarrow> bool" where
  "owner_writes a len m m' \<longleftrightarrow>
     (\<forall>x. x \<noteq> a \<and> \<not> (a < x \<and> x < a + 16 + len) \<longrightarrow> m' x = m x) \<and>
     hdr_size (m' a) = hdr_size (m a) \<and> prev_size (m' a) = prev_size (m a)"

lemma heap_cong:
  assumes h: "heap_ok p B E F"
    and same: "fl_bitmap p' = fl_bitmap p" "sl_bitmap p' = sl_bitmap p" "buckets p' = buckets p"
    and hdr: "\<And>x. x \<in> dom B \<union> E \<Longrightarrow> hdr_size (tmem p' x) = hdr_size (tmem p x) \<and>
      prev_size (tmem p' x) = prev_size (tmem p x)"
    and links: "\<And>x s. B x = Some (s, True) \<Longrightarrow> tmem p' x = tmem p x"
  shows "heap_ok p' B E F"
proof -
  have parts: "tiles B E" "hdrs_ok (tmem p) B E" "lists_ok p F" "filed_but 0 F B" "finite (dom B)"
    using h by (simp_all add: heap_ok_def)
  have o: "hdrs_but 0 (tmem p) B E" "B 0 = None"
    using parts(2) by (simp_all add: hdrs_ok_def)
  note D = hdrs_butD [OF o(1)]
  have eq: "blk_size (tmem p' x) = blk_size (tmem p x)" "blk_is_free (tmem p' x) = blk_is_free (tmem p x)"
    "blk_prev_free (tmem p' x) = blk_prev_free (tmem p x)" "prev_size (tmem p' x) = prev_size (tmem p x)"
    if "x \<in> dom B \<union> E" for x
    using hdr [OF that] same_header [of "tmem p' x" "tmem p x"] by simp_all
  have "hdrs_but 0 (tmem p') B E"
  proof (rule hdrs_butI)
    show "blk_size (tmem p' a) = sz \<and> blk_is_free (tmem p' a) = f \<and> blk_prev_free (tmem p' (a + sz)) = f \<and>
        (f \<longrightarrow> prev_size (tmem p' (a + sz)) = sz)" if a: "B a = Some (sz, f)" "a \<noteq> 0" for a sz f
    proof -
      have "a \<in> dom B \<union> E" "a + sz \<in> dom B \<union> E"
        using a tilesD(2) [OF parts(1) a(1)] by auto
      then show ?thesis
        using D(1-3) [OF a] D(4) [of a sz] a eq by simp
    qed
    show "\<not> blk_is_free (tmem p' e)" if "e \<in> E" for e
      using D(5) [OF that] eq that by simp
    show "\<exists>a sz. B a = Some (sz, True) \<and> a + sz = y" if "y \<in> dom B \<union> E" "blk_prev_free (tmem p' y)" for y
      using D(6) [OF that(1)] that eq o(2) by simp
  qed
  moreover have "lists_ok p' F"
  proof (rule lists_ok_cong [OF parts(3) same])
    show "next_free (tmem p' a) = next_free (tmem p a) \<and> prev_free (tmem p' a) = prev_free (tmem p a) \<and>
        blk_is_free (tmem p' a)" if a: "a \<in> set (F c)" for a c
    proof -
      obtain sz where "B a = Some (sz, True)"
        using a filed_butD [OF parts(4)] by blast
      then show ?thesis
        using links lists_okD(8) [OF parts(3) a] by simp
    qed
  qed
  ultimately show ?thesis
    using parts o(2) by (simp add: heap_ok_def hdrs_ok_def)
qed

lemma owner_write_ok:
  assumes ok: "pool_ok p B E" and a: "used B a = Some s"
    and w: "owner_writes a len (tmem p) m" "len \<le> s - 16"
  shows "pool_ok (p\<lparr>tmem := m\<rparr>) B E"
proof -
  obtain F where h: "heap_ok p B E F" and t: "tiles B E" and acc: "used_size p = used_bytes (used B)"
    using pool_okD [OF ok] by metis
  have b: "B a = Some (s, False)"
    using a by (simp add: used_Some)
  have out: "m x = tmem p x" if x: "x \<in> dom B \<union> E" "x \<noteq> a" for x
  proof -
    have "\<not> (a < x \<and> x < a + s)"
      using tiles_inside [OF t b, of x] x(1) by auto
    then have "\<not> (a < x \<and> x < a + 16 + len)"
      using w(2) tiles_block(5) [OF t b] by auto
    then show ?thesis
      using w(1) x(2) by (simp add: owner_writes_def)
  qed
  have "heap_ok (p\<lparr>tmem := m\<rparr>) B E F"
  proof (rule heap_cong [OF h])
    show "hdr_size (tmem (p\<lparr>tmem := m\<rparr>) x) = hdr_size (tmem p x) \<and>
        prev_size (tmem (p\<lparr>tmem := m\<rparr>) x) = prev_size (tmem p x)" if "x \<in> dom B \<union> E" for x
      using out [OF that] w(1) by (cases "x = a") (simp_all add: owner_writes_def)
    show "tmem (p\<lparr>tmem := m\<rparr>) x = tmem p x" if "B x = Some (r, True)" for x r
      using out [of x] that b by (cases "x = a") auto
  qed simp_all
  then show ?thesis
    using acc by (auto simp: pool_ok_def)
qed

section \<open>Reallocation\<close>

text \<open>\<open>memcpy\<close> writes its destination only.\<close>

definition copies_inside ::
  "(nat \<Rightarrow> nat \<Rightarrow> nat \<Rightarrow> (nat \<Rightarrow> free_block) \<Rightarrow> nat \<Rightarrow> free_block) \<Rightarrow> bool" where
  "copies_inside copy \<longleftrightarrow> (\<forall>a src len m. owner_writes a len m (copy (a + 16) src len m))"

lemma pool_of_heap:
  assumes "heap_ok p B E F" "u = used_bytes (used B)"
  shows "pool_ok (p\<lparr>used_size := u\<rparr>) B E"
  using heap_cong [OF assms(1), of "p\<lparr>used_size := u\<rparr>"] assms(2) by (auto simp: pool_ok_def)

lemma used_bytes_change:
  assumes "finite (dom U)" "U a = Some s"
  shows "used_bytes (U(a \<mapsto> s')) + (s - 16) = used_bytes U + (s' - 16)"
  using used_bytes_del [OF assms] used_bytes_add [of "U(a := None)" a s'] assms(1)
  by (simp add: tlsf_consts)

lemma tlsf_realloc_ok:
  assumes ok: "pool_ok p B E" and a: "used B a = Some s" and n: "0 < n" "n \<le> 2 ^ 63"
    and copy: "copies_inside copy"
  shows "(\<exists>q p' B' s'. tlsf_realloc copy (a + 16) n p = Some (q + 16, p') \<and> pool_ok p' B' E \<and>
      used B' = (used B)(a := None, q \<mapsto> s') \<and> span B' = span B \<and> request_size n \<le> s' \<and>
      (q = a \<or> used B q = None)) \<or>
    tlsf_realloc copy (a + 16) n p = Some (0, p)"
proof -
  obtain F where h: "heap_ok p B E F" and t: "tiles B E" and hd: "hdrs_ok (tmem p) B E"
    and fin: "finite (dom (used B))" and acc: "used_size p = used_bytes (used B)"
    using pool_okD [OF ok] .
  have b: "B a = Some (s, False)"
    using a by (simp add: used_Some)
  note blk = tiles_block [OF t b] and hs = hdr_of(1,2) [OF hd b]
  define need where "need = request_size n"
  have need: "16 dvd need" "32 \<le> need"
    using request_size_props [of n] by (simp_all add: need_def)
  have hb: "heap_but a p B E F"
    by (rule heap_enter_used [OF h b])
  have nx: "blk_next p a = a + s"
    by (simp add: blk_next_def hs)
  have guard: "\<not> n > 2 ^ 64 - 1 - TLSF_HEADER_SIZE - 15"
    using n(2) by (simp add: tlsf_consts)
  note run = tlsf_realloc_def [of copy "a + 16" n p, unfolded tlsf_consts]
  let ?pf = "blk_prev_free (tmem p a)"
  show ?thesis
  proof (cases "need \<le> s")
    case True
    show ?thesis
    proof (cases "need + 32 \<le> s")
      case split: True
      obtain B' F' where q: "heap_ok (put_remainder a need (s - need) ?pf p) B' E F'"
        "used B' = (used B)(a \<mapsto> need)" "used_size (put_remainder a need (s - need) ?pf p) = used_size p"
        "span B' = span B"
        using carve_ok [OF hb b need True refl] split by auto
      have "used_size p - (s - need) = used_bytes (used B')"
        using used_bytes_change [OF fin a, of need] acc q(2) need(2) split by simp
      then have "pool_ok ((put_remainder a need (s - need) ?pf p)\<lparr>used_size := used_size p - (s - need)\<rparr>) B' E"
        by (rule pool_of_heap [OF q(1)])
      moreover have "tlsf_realloc copy (a + 16) n p =
          Some (a + 16, (put_remainder a need (s - need) ?pf p)\<lparr>used_size := used_size p - (s - need)\<rparr>)"
        using n guard True split hs q(3) by (simp add: run need_def [symmetric] Let_def tlsf_consts)
      moreover have "used B' = (used B)(a := None, a \<mapsto> need)"
        using q(2) by simp
      ultimately show ?thesis
        using q(4) unfolding need_def [symmetric] by (metis order_refl)
    next
      case False
      then have "tlsf_realloc copy (a + 16) n p = Some (a + 16, p)"
        using n guard True hs by (simp add: run need_def [symmetric] Let_def tlsf_consts)
      moreover have "used B = (used B)(a := None, a \<mapsto> s)"
        using a by (auto simp: fun_eq_iff)
      ultimately show ?thesis
        using True ok unfolding need_def [symmetric] by metis
    qed
  next
    case small: False
    show ?thesis
    proof (cases "blk_is_free (tmem p (a + s)) \<and> need \<le> s + blk_size (tmem p (a + s))")
      case True
      then have "a + s \<notin> E"
        using hdrs_butD(5) [OF hdrs_but_weaken [OF hd]] by blast
      then obtain r g where n0: "B (a + s) = Some (r, g)"
        using tilesD(2) [OF t b] by auto
      have nb: "B (a + s) = Some (r, True)" "blk_size (tmem p (a + s)) = r"
        using hdr_of(1,2) [OF hd n0] True n0 by auto
      let ?B = "B(a + s := None, a \<mapsto> (s + r, False))"
      let ?p1 = "remove_by_size (a + s) r p"
      obtain F1 where F1: "heap_but a ?p1 ?B E F1"
        using heap_merge [OF hb _ b nb(1), of "a + s" r False] nb by auto
      define s' where "s' = (if s + r \<ge> need + 32 then need else s + r)"
      define q where "q = (if s + r \<ge> need + 32 then put_remainder a need (s + r - need) ?pf ?p1
          else take_whole a (s + r) ?pf ?p1)"
      have le: "need \<le> s + r" using True nb(2) by simp
      obtain B' F' where q: "heap_ok q B' E F'" "used B' = (used ?B)(a \<mapsto> s')" "used_size q = used_size p"
        "span B' = span ?B"
        using carve_ok [OF F1 _ need le, of False ?pf] unfolding q_def s'_def by auto
      have "used ?B = (used B)(a \<mapsto> s + r)"
        using nb(1) by (auto simp: used_def fun_eq_iff)
      then have U: "used B' = (used B)(a \<mapsto> s')"
        using q(2) by simp
      have s': "need \<le> s'" "s < s'"
        using small le tiles_block(5) [OF t nb(1)] by (auto simp: s'_def)
      have "used_size p + (s' - s) = used_bytes (used B')"
        using used_bytes_change [OF fin a, of s'] acc U s' blk(5) by simp
      then have "pool_ok (q\<lparr>used_size := used_size p + (s' - s)\<rparr>) B' E"
        by (rule pool_of_heap [OF q(1)])
      moreover have "tlsf_realloc copy (a + 16) n p = Some (a + 16, q\<lparr>used_size := used_size p + (s' - s)\<rparr>)"
      proof (cases "s + r \<ge> need + 32")
        case True
        then show ?thesis
          using \<open>blk_is_free (tmem p (a + s)) \<and> _\<close> n guard small hs nx nb(2) q(3)
          by (simp add: run need_def [symmetric] Let_def tlsf_consts q_def s'_def)
      next
        case False
        then show ?thesis
          using \<open>blk_is_free (tmem p (a + s)) \<and> _\<close> n guard small hs nx nb(2) q(3)
          by (simp add: run need_def [symmetric] Let_def tlsf_consts q_def s'_def)
      qed
      moreover have "used B' = (used B)(a := None, a \<mapsto> s')"
        using U by simp
      moreover have "span B' = span B"
        using q(4) blk(5) span_merge [of B a s False r True False, OF b nb(1)] by simp
      ultimately show ?thesis
        using s'(1) unfolding need_def [symmetric] by metis
    next
      case no: False
      have step: "tlsf_realloc copy (a + 16) n p =
          (case tlsf_malloc n p of None \<Rightarrow> None
           | Some (q, p) \<Rightarrow>
               if q = 0 then Some (0, p)
               else
                 let len = min (s - 16) (need - 16);
                     p = (if len > 0 then p\<lparr>tmem := copy q (a + 16) len (tmem p)\<rparr> else p)
                 in Some (q, tlsf_free (a + 16) p))"
      proof -
        have "(blk_is_free (tmem p (a + s)) \<and> need \<le> s + blk_size (tmem p (a + s))) = False"
          using no by blast
        then show ?thesis
          using n guard small hs nx
          by (simp only: run need_def [symmetric] Let_def tlsf_consts if_False if_True
              add_eq_0_iff_both_eq_0 add_diff_cancel_right' not_gr_zero) simp
      qed
      from tlsf_malloc_ok [OF ok n] show ?thesis
      proof
        assume "\<exists>p' B' c z. tlsf_malloc n p = Some (c + 16, p') \<and> pool_ok p' B' E \<and> used B c = None \<and>
            used B' = (used B)(c \<mapsto> z) \<and> span B' = span B \<and> request_size n \<le> z \<and>
            z < request_size n + 32 \<and> (\<exists>t. B c = Some (t, True) \<and> fits (request_size n) t)"
        then obtain p1 B1 c z where m: "tlsf_malloc n p = Some (c + 16, p1)" "pool_ok p1 B1 E"
          "used B c = None" "used B1 = (used B)(c \<mapsto> z)" "need \<le> z" "span B1 = span B"
          unfolding need_def by metis
        define len where "len = min (s - 16) (need - 16)"
        define p2 where "p2 = (if len > 0 then p1\<lparr>tmem := copy (c + 16) (a + 16) len (tmem p1)\<rparr> else p1)"
        have "owner_writes c len (tmem p1) (copy (c + 16) (a + 16) len (tmem p1))"
          using copy by (simp add: copies_inside_def)
        then have "pool_ok p2 B1 E"
          using owner_write_ok [OF m(2), of c z len] m(2,4,5) by (auto simp: p2_def len_def)
        moreover have ca: "c \<noteq> a"
          using m(3) a by auto
        then have "used B1 a = Some s"
          using m(4) a by simp
        ultimately obtain B2 where B2: "pool_ok (tlsf_free (a + 16) p2) B2 E" "used B2 = (used B1)(a := None)"
          "span B2 = span B1"
          using tlsf_free_ok by blast
        have "tlsf_realloc copy (a + 16) n p = Some (c + 16, tlsf_free (a + 16) p2)"
          using step m(1) by (simp add: p2_def len_def Let_def)
        moreover have "used B2 = (used B)(a := None, c \<mapsto> z)"
          using B2(2) m(4) ca by (simp add: fun_upd_twist)
        ultimately show ?thesis
          using B2(1,3) m(3,5,6) unfolding need_def by metis
      qed (simp add: step)
    qed
  qed
qed

end
