(* ===== verification/KHeap.thy ===== *)
theory KHeap
  imports TlsfHeap
begin

text \<open>
  The kernel heap as its clients use it: regions added to the pool, any sequence of requests,
  releases, resizings and writes by the owners of blocks, and the functions of
  KernelAA64/Mm/kmalloc.c on top of the pool.
\<close>

section \<open>Adding a region\<close>

definition region_free :: "blockmap \<Rightarrow> nat set \<Rightarrow> nat \<Rightarrow> nat \<Rightarrow> bool" where
  "region_free B E mem sz \<longleftrightarrow>
     (\<forall>a s f. B a = Some (s, f) \<longrightarrow> a + s \<le> mem \<or> mem + sz \<le> a) \<and>
     (\<forall>e \<in> E. e + 16 \<le> mem \<or> mem + sz \<le> e)"

text \<open>The block map once the region is in it.\<close>

definition region_added :: "blockmap \<Rightarrow> nat set \<Rightarrow> nat \<Rightarrow> nat \<Rightarrow> blockmap \<Rightarrow> nat set \<Rightarrow> bool" where
  "region_added B E mem sz B' E' \<longleftrightarrow> used B' = used B \<and> span B' \<subseteq> span B \<union> {mem..<mem + sz} \<and>
     (\<forall>e \<in> E'. e \<in> E \<or> mem \<le> e \<and> e + 16 \<le> mem + sz) \<and>
     (\<exists>b s. B' b = Some (s, True) \<and> sz \<le> s + 62) \<and>
     (\<forall>b s. B' b = Some (s, True) \<longrightarrow> B b = Some (s, True) \<or> s + 32 \<le> sz)"

lemma align_up: "x \<le> TLSF_ALIGN_UP x" "TLSF_ALIGN_UP x \<le> x + 15" "16 dvd TLSF_ALIGN_UP x"
  unfolding TLSF_ALIGN_UP_def by presburger+

lemma tiles_add:
  assumes t: "tiles B E" and d: "\<And>a s f. B a = Some (s, f) \<Longrightarrow> a + s \<le> b - 16 \<or> b + s' + 16 \<le> a"
    "\<And>e. e \<in> E \<Longrightarrow> e + 16 \<le> b - 16 \<or> b + s' + 16 \<le> e"
    and b: "16 dvd b" "16 dvd s'" "32 \<le> s'" "KERNEL_VA + 16 \<le> b" "b + s' < 2 ^ 64"
  shows "tiles (B(b \<mapsto> (s', f'))) (insert (b + s') E)"
proof (rule tilesI)
  note D = tilesD [OF t]
  let ?B = "B(b \<mapsto> (s', f'))"
  have "16 \<le> b" using b(4) by simp
  show "16 dvd x \<and> 16 dvd s \<and> 32 \<le> s \<and> KERNEL_VA \<le> x \<and> x + s < 2 ^ 64 \<and>
      (x + s \<in> dom ?B \<or> x + s \<in> insert (b + s') E)" if "?B x = Some (s, h)" for x s h
    using that b D(1,2) [of x s h] by (auto split: if_splits)
  show "x + s \<le> c" if "?B x = Some (s, h)" "?B c = Some (r, k)" "x < c" for x s h c r k
    using that D(3) [of x s h c r k] d(1) [of x s h] d(1) [of c r k] \<open>16 \<le> b\<close> b(3)
    by (auto split: if_splits)
  show "x + s \<le> e \<or> e + 16 \<le> x" if "e \<in> insert (b + s') E" "?B x = Some (s, h)" for x s h e
    using that D(4) [of x s h e] d(1) [of x s h] d(2) [of e] \<open>16 \<le> b\<close> b(3)
    by (auto split: if_splits)
qed

lemma hdrs_add:
  assumes h: "hdrs_ok m B E" and t: "tiles B E"
    and fresh: "\<And>x. x \<in> dom B \<union> E \<Longrightarrow> m' x = m x \<and> x \<noteq> b \<and> x \<noteq> b + s"
    and new: "blk_size (m' b) = s" "blk_is_free (m' b)" "\<not> blk_prev_free (m' b)"
      "blk_prev_free (m' (b + s))" "prev_size (m' (b + s)) = s" "\<not> blk_is_free (m' (b + s))"
    and b: "0 < b" "32 \<le> s"
  shows "hdrs_ok m' (B(b \<mapsto> (s, True))) (insert (b + s) E)"
proof -
  have o: "hdrs_but 0 m B E" "B 0 = None"
    using h by (simp_all add: hdrs_ok_def)
  note D = hdrs_butD [OF o(1)]
  let ?B = "B(b \<mapsto> (s, True))"
  have "hdrs_but 0 m' ?B (insert (b + s) E)"
  proof (rule hdrs_butI)
    show "blk_size (m' x) = y \<and> blk_is_free (m' x) = z \<and> blk_prev_free (m' (x + y)) = z \<and>
        (z \<longrightarrow> prev_size (m' (x + y)) = y)" if x: "?B x = Some (y, z)" "x \<noteq> 0" for x y z
    proof (cases "x = b")
      case True
      then show ?thesis using x new by simp
    next
      case False
      then have x': "B x = Some (y, z)" using x by simp
      then have "x \<in> dom B \<union> E" "x + y \<in> dom B \<union> E"
        using tilesD(2) [OF t x'] by auto
      then have "m' x = m x" "m' (x + y) = m (x + y)"
        using fresh by blast+
      then show ?thesis
        using D(1-3) [OF x' x(2)] D(4) [of x y] x' x(2) by auto
    qed
    show "\<not> blk_is_free (m' e)" if "e \<in> insert (b + s) E" for e
      using that D(5) fresh new(6) by auto
    show "\<exists>x sz. ?B x = Some (sz, True) \<and> x + sz = y" if y: "y \<in> dom ?B \<union> insert (b + s) E" "blk_prev_free (m' y)" for y
    proof (cases "y = b + s")
      case True
      then show ?thesis by auto
    next
      case False
      then have "y \<in> dom B \<union> E"
        using y new(3) by auto
      then obtain x sz where x: "B x = Some (sz, True)" "x + sz = y"
        using D(6) [of y] y(2) fresh [of y] o(2) by auto
      then have "x \<noteq> b" using fresh [of x] by auto
      then show ?thesis using x by auto
    qed
  qed
  then show ?thesis
    using o(2) b by (simp add: hdrs_ok_def)
qed

lemma hdrs_ok_cong:
  assumes h: "hdrs_ok m B E"
    and eq: "\<And>x. blk_size (m' x) = blk_size (m x)" "\<And>x. blk_is_free (m' x) = blk_is_free (m x)"
      "\<And>x. blk_prev_free (m' x) = blk_prev_free (m x)" "\<And>x. prev_size (m' x) = prev_size (m x)"
  shows "hdrs_ok m' B E"
  using h unfolding hdrs_ok_def hdrs_but_def eq .

lemma tlsf_add_memory_ok:
  assumes ok: "pool_ok p B E" and mem: "KERNEL_VA \<le> mem" "mem + sz < 2 ^ 64" "TLSF_ALIGN_UP mem \<le> mem + sz"
    and free: "region_free B E mem sz" and run: "tlsf_add_memory mem sz p = (r, p')"
  shows "(r = -1 \<and> p' = p \<and> sz < 94) \<or>
    (r = 0 \<and> (\<exists>B' E'. pool_ok p' B' E' \<and> region_added B E mem sz B' E'))"
proof -
  obtain F where h: "heap_ok p B E F" and t: "tiles B E" and hd: "hdrs_ok (tmem p) B E"
    and acc: "used_size p = used_bytes (used B)"
    using pool_okD [OF ok] by metis
  define addr where "addr = TLSF_ALIGN_UP mem"
  define avail where "avail = (mem + sz - addr) div 16 * 16"
  have addr: "mem \<le> addr" "16 dvd addr" "addr + avail \<le> mem + sz" "16 dvd avail"
  proof -
    have "avail \<le> mem + sz - addr"
      by (simp add: avail_def)
    then show "addr + avail \<le> mem + sz"
      using mem(3) unfolding addr_def [symmetric] by linarith
    show "mem \<le> addr" "16 dvd addr"
      unfolding addr_def by (rule align_up)+
    show "16 dvd avail"
      unfolding avail_def by (rule dvd_triv_right)
  qed
  have wrap: "(mem + sz + 2 ^ 64 - addr) mod 2 ^ 64 = mem + sz - addr"
  proof -
    have "addr \<le> mem + sz"
      using mem(3) by (simp only: addr_def)
    then have eq: "mem + sz + 2 ^ 64 - addr = (mem + sz - addr) + 2 ^ 64"
      by linarith
    have "mem + sz - addr < 2 ^ 64"
      using mem(2) by linarith
    then show ?thesis
      unfolding eq by (simp only: mod_add_self2 mod_less)
  qed
  have large: "sz \<le> avail + 30"
  proof -
    have "mem + sz - addr < avail + 16"
      unfolding avail_def by presburger
    then show ?thesis
      using align_up(2) [of mem] unfolding addr_def [symmetric] by linarith
  qed
  have addr_mod: "addr mod 2 ^ 64 = addr"
    using mem(2,3) unfolding addr_def [symmetric] by (intro mod_less) linarith
  note step = tlsf_add_memory_def [of mem sz p, unfolded Let_def tlsf_consts addr_def [symmetric] addr_mod wrap
      avail_def [symmetric], simplified]
  show ?thesis
  proof (cases "avail < 64")
    case True
    then show ?thesis
      using run large unfolding step by (auto split: if_splits)
  next
    case False
    define s where "s = avail - 32"
    define b where "b = addr + 16"
    have s: "32 \<le> s" "16 dvd s" "b + s + 16 = addr + avail"
      using False addr(4) by (auto simp: s_def b_def)
    have b: "16 dvd b" "KERNEL_VA + 16 \<le> b" "b + s < 2 ^ 64" "0 < b" "mem + 16 \<le> b" "b + s + 16 \<le> mem + sz"
      using addr mem s(3) by (auto simp: b_def)
    have sd: "4 dvd s" "s < 2 ^ 64"
      using s(2) b(3) by (auto intro: dvd_trans [of 4 16])
    have dis: "a + q \<le> b - 16 \<or> b + s + 16 \<le> a" if "B a = Some (q, f)" for a q f
      using free that b(5,6) unfolding region_free_def by fastforce
    have disE: "e + 16 \<le> b - 16 \<or> b + s + 16 \<le> e" if "e \<in> E" for e
      using free that b(5,6) unfolding region_free_def by fastforce
    let ?B = "B(b \<mapsto> (s, True))" and ?E = "insert (b + s) E"
    have t': "tiles ?B ?E"
      by (rule tiles_add [OF t dis disE b(1) s(2,1) b(2,3)])
    define q where "q = on_blk (b + s) (\<lambda>b. set_prev_free ((blk_set_size 16 False False b)\<lparr>prev_size := s\<rparr>))
        (on_blk b (\<lambda>b. (blk_set_size s True False b)\<lparr>prev_size := 16\<rparr>)
          (on_blk addr (\<lambda>b. (blk_set_size 16 False False b)\<lparr>prev_size := 0\<rparr>) p))"
    have fin: "addr + avail - 16 = b + s"
      using s(3) by simp
    have p': "r = 0" "p' = (insert_by_size b s q)\<lparr>pool_size := pool_size p + avail\<rparr>"
      using run False mem(1) fin unfolding step
      by (auto simp: KERNEL_VA_def b_def [symmetric] s_def [symmetric] q_def)
    have new: "x \<noteq> addr \<and> x \<noteq> b \<and> x \<noteq> b + s" if "x \<in> dom B \<union> E" for x
    proof -
      have "x < b - 16 \<or> b + s + 16 \<le> x"
        using that dis disE tiles_block(5) [OF t] by fastforce
      then show ?thesis by (auto simp: b_def)
    qed
    have mem_q: "tmem q x = (if x = b + s then set_prev_free ((blk_set_size 16 False False (tmem p x))\<lparr>prev_size := s\<rparr>)
        else if x = b then (blk_set_size s True False (tmem p x))\<lparr>prev_size := 16\<rparr>
        else if x = addr then (blk_set_size 16 False False (tmem p x))\<lparr>prev_size := 0\<rparr> else tmem p x)" for x
      using s(1) by (simp add: q_def b_def)
    have lo: "lists_ok p F" "filed_but 0 F B" "finite (dom B)"
      using h by (simp_all add: heap_ok_def)
    have listed: "x \<in> dom B" if "x \<in> set (F c)" for x c
      using that filed_butD [OF lo(2)] by blast
    have "lists_ok q F"
    proof (rule lists_ok_cong [OF lo(1)])
      show "next_free (tmem q x) = next_free (tmem p x) \<and> prev_free (tmem q x) = prev_free (tmem p x) \<and>
          blk_is_free (tmem q x)" if "x \<in> set (F c)" for x c
        using new [of x] listed [OF that] lists_okD(8) [OF lo(1) that] by (simp add: mem_q)
    qed (simp_all add: q_def)
    moreover have "\<exists>F'. lists_ok (insert_by_size b s q) F' \<and> filed_but 0 F' ?B"
      if "lists_ok q F"
      using filed_butD [OF lo(2)] new [of b] listed tiles_zero [OF t] sd s(1)
      by (intro insert_filed [OF that lo(2) t']) (auto simp: mem_q intro: gr0I)
    ultimately obtain F' where F': "lists_ok (insert_by_size b s q) F'" "filed_but 0 F' ?B"
      by blast
    have hq: "hdrs_ok (tmem q) ?B ?E"
      using new sd s(1) b(4) by (intro hdrs_add [OF hd t]) (simp_all add: mem_q)
    have "hdrs_ok (tmem (insert_by_size b s q)) ?B ?E"
      by (rule hdrs_ok_cong [OF hq]) simp_all
    then have "heap_ok (insert_by_size b s q) ?B ?E F'"
      using F' t' lo(3) by (simp add: heap_ok_def)
    then have "heap_ok p' ?B ?E F'"
      unfolding p'(2) by (rule heap_cong) simp_all
    moreover have "B b = None"
      using new [of b] by auto
    moreover from this have "used ?B = used B"
      by (simp add: used_def fun_eq_iff)
    moreover have "used_size p' = used_size p"
      by (simp add: p'(2) q_def)
    moreover have "span ?B \<subseteq> span B \<union> {mem..<mem + sz}"
      using span_insert [of B b s True, OF \<open>B b = None\<close>] b(5,6) by auto
    moreover have "\<forall>e \<in> ?E. e \<in> E \<or> mem \<le> e \<and> e + 16 \<le> mem + sz"
      using b(5,6) by auto
    moreover have "?B b = Some (s, True) \<and> sz \<le> s + 62"
      using large s by (simp add: b_def)
    moreover have "\<forall>x y. ?B x = Some (y, True) \<longrightarrow> B x = Some (y, True) \<or> y + 32 \<le> sz"
      using b(5,6) by auto
    ultimately have "region_added B E mem sz ?B ?E" "pool_ok p' ?B ?E"
      using acc unfolding region_added_def pool_ok_def by auto
    then show ?thesis
      using p'(1) by blast
  qed
qed


section \<open>What a client holds\<close>

text \<open>
  The client's view: \<open>U\<close> maps each pointer it holds to the number of bytes it may use, and
  \<open>R\<close> lists the regions given to the pool as address and size.
\<close>

definition covered :: "(nat \<times> nat) list \<Rightarrow> nat set" where
  "covered R = (\<Union>(m, s) \<in> set R. {m..<m + s})"

definition held :: "blockmap \<Rightarrow> (nat \<Rightarrow> nat option) \<Rightarrow> bool" where
  "held B U \<longleftrightarrow>
     (\<forall>q n. U q = Some n \<longrightarrow> (\<exists>a s. q = a + 16 \<and> used B a = Some s \<and> n + 16 \<le> s)) \<and>
     (\<forall>a s. used B a = Some s \<longrightarrow> a + 16 \<in> dom U)"

definition heap_inv :: "tlsf_pool \<Rightarrow> (nat \<Rightarrow> nat option) \<Rightarrow> (nat \<times> nat) list \<Rightarrow> bool" where
  "heap_inv p U R \<longleftrightarrow> (\<exists>B E. pool_ok p B E \<and> held B U \<and> span B \<subseteq> covered R \<and>
     (\<forall>e \<in> E. {e..<e + 16} \<subseteq> covered R))"

lemma covered_Cons [simp]: "covered ((m, s) # R) = {m..<m + s} \<union> covered R"
  by (auto simp: covered_def)

lemma heldD:
  assumes "held B U"
  shows "U q = Some n \<Longrightarrow> \<exists>a s. q = a + 16 \<and> used B a = Some s \<and> n + 16 \<le> s"
    "used B a = Some s \<Longrightarrow> a + 16 \<in> dom U"
  using assms by (auto simp: held_def)

lemma held_add:
  assumes "held B U" "used B' = (used B)(a := None, c \<mapsto> s)" "n + 16 \<le> s"
    and "U' = U(a + 16 := None, c + 16 \<mapsto> n)"
  shows "held B' U'"
  unfolding held_def
proof (intro conjI allI impI)
  show "\<exists>b r. q = b + 16 \<and> used B' b = Some r \<and> m + 16 \<le> r" if q: "U' q = Some m" for q m
  proof (cases "q = c + 16")
    case True
    then show ?thesis using q assms(2-4) by auto
  next
    case False
    then have "U q = Some m" "q \<noteq> a + 16"
      using q assms(4) by (auto split: if_splits)
    then obtain b r where "q = b + 16" "used B b = Some r" "m + 16 \<le> r"
      using heldD(1) [OF assms(1)] by blast
    then show ?thesis
      using False \<open>q \<noteq> a + 16\<close> assms(2) by auto
  qed
  show "b + 16 \<in> dom U'" if "used B' b = Some r" for b r
    using that heldD(2) [OF assms(1), of b] assms(2,4) by (auto split: if_splits)
qed

lemma held_del:
  assumes "held B U" "used B' = (used B)(a := None)"
  shows "held B' (U(a + 16 := None))"
  unfolding held_def
proof (intro conjI allI impI)
  show "\<exists>b r. q = b + 16 \<and> used B' b = Some r \<and> m + 16 \<le> r"
    if q: "(U(a + 16 := None)) q = Some m" for q m
  proof -
    have "U q = Some m" "q \<noteq> a + 16"
      using q by (auto split: if_splits)
    then show ?thesis
      using heldD(1) [OF assms(1), of q m] assms(2) by auto
  qed
  show "b + 16 \<in> dom (U(a + 16 := None))" if "used B' b = Some r" for b r
    using that heldD(2) [OF assms(1), of b] assms(2) by (auto split: if_splits)
qed

lemma block_span: "B a = Some (s, f) \<Longrightarrow> {a..<a + s} \<subseteq> span B"
  unfolding span_def by fastforce

lemma heap_inv_create: "heap_inv (tlsf_create m) Map.empty []"
proof -
  have l: "lists_ok (tlsf_create m) (\<lambda>_. [])"
    by (intro lists_okI) (simp_all add: tlsf_create_def)
  have "heap_ok (tlsf_create m) Map.empty {} (\<lambda>_. [])"
    using l by (simp add: heap_ok_def tiles_def hdrs_ok_def hdrs_but_def filed_but_def)
  moreover have "used Map.empty = Map.empty"
    by (simp add: used_def fun_eq_iff)
  ultimately have "pool_ok (tlsf_create m) Map.empty {}"
    by (auto simp: pool_ok_def used_bytes_def tlsf_create_def)
  then show ?thesis
    unfolding heap_inv_def using \<open>used Map.empty = Map.empty\<close>
    by (intro exI [of _ Map.empty] exI [of _ "{}"]) (auto simp: held_def span_def)
qed

lemma fits_larger: "fits need s \<Longrightarrow> 32 \<le> s \<Longrightarrow> s \<le> t \<Longrightarrow> fits need t"
  using tlsf_mapping_mono [of s t] by (auto simp: fits_def class_le_def)

lemma heap_inv_grow:
  assumes inv: "heap_inv p U R" and mem: "KERNEL_VA \<le> mem" "mem + sz < 2 ^ 64" "TLSF_ALIGN_UP mem < mem + sz"
    and new: "{mem..<mem + sz} \<inter> covered R = {}" and run: "tlsf_add_memory mem sz p = (r, p')"
  shows "heap_inv p' U ((mem, sz) # R)"
    "96 \<le> sz \<Longrightarrow> 0 < n \<Longrightarrow> n \<le> 2 ^ 63 \<Longrightarrow> fits (request_size n) (sz - 62) \<Longrightarrow>
       \<exists>q p''. tlsf_malloc n p' = Some (q, p'') \<and> q \<noteq> 0"
    "0 < n \<Longrightarrow> n \<le> 2 ^ 63 \<Longrightarrow> \<not> fits (request_size n) (sz - 32) \<Longrightarrow> tlsf_malloc n p = Some (0, p) \<Longrightarrow>
       tlsf_malloc n p' = Some (0, p')"
proof -
  obtain B E where ok: "pool_ok p B E" and h: "held B U" and cov: "span B \<subseteq> covered R"
    "\<And>e. e \<in> E \<Longrightarrow> {e..<e + 16} \<subseteq> covered R"
    using inv unfolding heap_inv_def by metis
  have t: "tiles B E"
    using pool_okD [OF ok] by metis
  have sz: "0 < sz"
    using mem(3) align_up(1) [of mem] by linarith
  have apart: "x + k \<le> mem \<or> mem + sz \<le> x" if "{x..<x + k} \<subseteq> covered R" "0 < k" for x k
  proof (rule ccontr)
    assume "\<not> ?thesis"
    then have "max x mem \<in> {x..<x + k}" "max x mem \<in> {mem..<mem + sz}"
      using sz that(2) by auto
    then show False using that(1) new by blast
  qed
  have "region_free B E mem sz"
    unfolding region_free_def
  proof (intro conjI allI impI ballI)
    show "a + s \<le> mem \<or> mem + sz \<le> a" if "B a = Some (s, f)" for a s f
    proof (rule apart)
      have "{a..<a + s} \<subseteq> span B"
        by (rule block_span [of B a s f, OF that])
      then show "{a..<a + s} \<subseteq> covered R" using cov(1) by blast
      show "0 < s" using tiles_block(5) [OF t that] by simp
    qed
    show "e + 16 \<le> mem \<or> mem + sz \<le> e" if "e \<in> E" for e
      using apart [OF cov(2) [OF that]] by simp
  qed
  from tlsf_add_memory_ok [OF ok mem(1,2) less_imp_le [OF mem(3)] this run]
  consider "p' = p" "sz < 94" | B' E' b s where "pool_ok p' B' E'" "used B' = used B"
    "span B' \<subseteq> span B \<union> {mem..<mem + sz}" "\<forall>e \<in> E'. e \<in> E \<or> mem \<le> e \<and> e + 16 \<le> mem + sz"
    "B' b = Some (s, True)" "sz \<le> s + 62" "\<forall>b s. B' b = Some (s, True) \<longrightarrow> B b = Some (s, True) \<or> s + 32 \<le> sz"
    unfolding region_added_def by blast
  note cases = this
  from cases show "heap_inv p' U ((mem, sz) # R)"
  proof cases
    case 1
    then show ?thesis
      using ok h cov unfolding heap_inv_def by fastforce
  next
    case 2
    have "held B' U" using h 2(2) by (simp add: held_def)
    moreover have "span B' \<subseteq> covered ((mem, sz) # R)"
      using 2(3) cov(1) by auto
    moreover have "{e..<e + 16} \<subseteq> covered ((mem, sz) # R)" if e: "e \<in> E'" for e
    proof (cases "e \<in> E")
      case True
      then show ?thesis using cov(2) by auto
    next
      case False
      then show ?thesis using 2(4) e by auto
    qed
    ultimately show ?thesis
      using 2(1) unfolding heap_inv_def by metis
  qed
  show "\<exists>q p''. tlsf_malloc n p' = Some (q, p'') \<and> q \<noteq> 0"
    if n: "96 \<le> sz" "0 < n" "n \<le> 2 ^ 63" "fits (request_size n) (sz - 62)"
    using cases
  proof cases
    case 1
    then show ?thesis using n(1) by simp
  next
    case 2
    have "fits (request_size n) s"
      using fits_larger [OF n(4), of s] n(1) 2(6) by simp
    then show ?thesis
      using tlsf_malloc_ok [OF 2(1) n(2,3)] 2(5) by (metis add_eq_0_iff_both_eq_0 numeral_neq_zero)
  qed
  show "tlsf_malloc n p' = Some (0, p')"
    if n: "0 < n" "n \<le> 2 ^ 63" "\<not> fits (request_size n) (sz - 32)" "tlsf_malloc n p = Some (0, p)"
    using cases
  proof cases
    case 1
    then show ?thesis using n(4) by simp
  next
    case 2
    have t': "tiles B' E'"
      using pool_okD [OF 2(1)] by metis
    have old: "\<not> fits (request_size n) y" if "B x = Some (y, True)" for x y
      using tlsf_malloc_ok [OF ok n(1,2)] n(4) that by auto
    have "\<not> fits (request_size n) y" if y: "B' x = Some (y, True)" for x y
    proof (cases "y + 32 \<le> sz")
      case True
      then show ?thesis
        using fits_larger [of "request_size n" y "sz - 32"] n(3) tiles_block(5) [OF t' y] add_le_imp_le_diff [OF True] by blast
    next
      case False
      then show ?thesis
        using old 2(7) y by blast
    qed
    then show ?thesis
      using tlsf_malloc_ok [OF 2(1) n(1,2)] by blast
  qed
qed

lemma heap_inv_malloc:
  assumes inv: "heap_inv p U R" and n: "n \<le> 2 ^ 63"
  shows "\<exists>q p'. tlsf_malloc n p = Some (q, p') \<and>
    (if q = 0 then p' = p else 0 < n \<and> U q = None \<and> heap_inv p' (U(q \<mapsto> n)) R)"
proof (cases "n = 0")
  case True
  then show ?thesis by (simp add: tlsf_malloc_def)
next
  case False
  obtain B E where ok: "pool_ok p B E" and h: "held B U" and cov: "span B \<subseteq> covered R"
    "\<forall>e \<in> E. {e..<e + 16} \<subseteq> covered R"
    using inv unfolding heap_inv_def by metis
  from tlsf_malloc_ok [OF ok _ n] False consider p' B' a s where "tlsf_malloc n p = Some (a + 16, p')"
      "pool_ok p' B' E" "used B a = None" "used B' = (used B)(a \<mapsto> s)" "span B' = span B" "request_size n \<le> s"
    | "tlsf_malloc n p = Some (0, p)"
    by (metis neq0_conv)
  then show ?thesis
  proof cases
    case 1
    have "n + 16 \<le> s"
      using request_size_props [of n] 1(6) by linarith
    moreover have none: "U (a + 16) = None"
    proof (rule ccontr)
      assume "U (a + 16) \<noteq> None"
      then show False using heldD(1) [OF h, of "a + 16"] 1(3) by auto
    qed
    ultimately have "held B' (U(a + 16 \<mapsto> n))"
      using 1(3,4) by (intro held_add [OF h, of B' a a s]) auto
    then have "heap_inv p' (U(a + 16 \<mapsto> n)) R"
      using 1(2,5) cov unfolding heap_inv_def by metis
    then show ?thesis
      using 1(1) none False by simp
  next
    case 2
    then show ?thesis by simp
  qed
qed

lemma heap_inv_free:
  assumes inv: "heap_inv p U R" and q: "U q = Some n"
  shows "heap_inv (tlsf_free q p) (U(q := None)) R"
proof -
  obtain B E where ok: "pool_ok p B E" and h: "held B U" and cov: "span B \<subseteq> covered R"
    "\<forall>e \<in> E. {e..<e + 16} \<subseteq> covered R"
    using inv unfolding heap_inv_def by metis
  obtain a s where a: "q = a + 16" "used B a = Some s"
    using heldD(1) [OF h q] by blast
  obtain B' where "pool_ok (tlsf_free (a + 16) p) B' E" "used B' = (used B)(a := None)" "span B' = span B"
    using tlsf_free_ok [OF ok a(2)] by blast
  then show ?thesis
    using held_del [OF h] cov unfolding a(1) heap_inv_def by metis
qed

lemma heap_inv_realloc:
  assumes inv: "heap_inv p U R" and q: "U q = Some k" and n: "0 < n" "n \<le> 2 ^ 63"
    and copy: "copies_inside copy"
  shows "\<exists>q' p'. tlsf_realloc copy q n p = Some (q', p') \<and>
    (if q' = 0 then p' = p else (q' = q \<or> U q' = None) \<and> heap_inv p' (U(q := None, q' \<mapsto> n)) R)"
proof -
  obtain B E where ok: "pool_ok p B E" and h: "held B U" and cov: "span B \<subseteq> covered R"
    "\<forall>e \<in> E. {e..<e + 16} \<subseteq> covered R"
    using inv unfolding heap_inv_def by metis
  obtain a s where a: "q = a + 16" "used B a = Some s"
    using heldD(1) [OF h q] by blast
  from tlsf_realloc_ok [OF ok a(2) n copy] show ?thesis
  proof
    assume "\<exists>q p' B' s'. tlsf_realloc copy (a + 16) n p = Some (q + 16, p') \<and> pool_ok p' B' E \<and>
      used B' = (used B)(a := None, q \<mapsto> s') \<and> span B' = span B \<and> request_size n \<le> s' \<and>
      (q = a \<or> used B q = None)"
    then obtain c p' B' s' where c: "tlsf_realloc copy (a + 16) n p = Some (c + 16, p')" "pool_ok p' B' E"
      "used B' = (used B)(a := None, c \<mapsto> s')" "span B' = span B" "request_size n \<le> s'" "c = a \<or> used B c = None"
      by metis
    have "n + 16 \<le> s'"
      using request_size_props [of n] c(5) by linarith
    then have "held B' (U(a + 16 := None, c + 16 \<mapsto> n))"
      by (intro held_add [OF h c(3)]) auto
    then have "heap_inv p' (U(a + 16 := None, c + 16 \<mapsto> n)) R"
      using c(2,4) cov unfolding heap_inv_def by metis
    moreover have "c = a \<or> U (c + 16) = None"
      using c(6) heldD(1) [OF h, of "c + 16"] by (metis add_right_cancel not_None_eq)
    ultimately show ?thesis
      using c(1) a(1) by auto
  qed (simp add: a(1))
qed

lemma heap_inv_write:
  assumes inv: "heap_inv p U R" and q: "U q = Some n" and w: "owner_writes (q - 16) n (tmem p) m"
  shows "heap_inv (p\<lparr>tmem := m\<rparr>) U R"
proof -
  obtain B E where ok: "pool_ok p B E" and h: "held B U" and cov: "span B \<subseteq> covered R"
    "\<forall>e \<in> E. {e..<e + 16} \<subseteq> covered R"
    using inv unfolding heap_inv_def by metis
  obtain a s where a: "q = a + 16" "used B a = Some s" "n + 16 \<le> s"
    using heldD(1) [OF h q] by blast
  have "pool_ok (p\<lparr>tmem := m\<rparr>) B E"
    using owner_write_ok [OF ok a(2), of n m] w a(1,3) by simp
  then show ?thesis
    using h cov unfolding heap_inv_def by metis
qed

text \<open>What the invariant gives a client.\<close>

lemma heap_inv_aligned:
  assumes "heap_inv p U R" "U q = Some n"
  shows "16 dvd q" "{q..<q + n} \<subseteq> covered R" "KERNEL_VA \<le> q"
proof -
  obtain B E where ok: "pool_ok p B E" and h: "held B U" and cov: "span B \<subseteq> covered R"
    using assms(1) unfolding heap_inv_def by metis
  obtain a s where a: "q = a + 16" "used B a = Some s" "n + 16 \<le> s"
    using heldD(1) [OF h assms(2)] by blast
  have t: "tiles B E" and b: "B a = Some (s, False)"
    using pool_okD [OF ok] a(2) by (metis, simp add: used_Some)
  show "16 dvd q" "KERNEL_VA \<le> q"
    using tilesD(1) [OF t b] a(1) by auto
  have "{q..<q + n} \<subseteq> span B"
    using block_span [of B a s False, OF b] a by auto
  then show "{q..<q + n} \<subseteq> covered R"
    using cov by blast
qed

lemma heap_inv_apart:
  assumes "heap_inv p U R" "U q = Some n" "U r = Some m" "q < r"
  shows "q + n + 16 \<le> r"
proof -
  obtain B E where ok: "pool_ok p B E" and h: "held B U"
    using assms(1) unfolding heap_inv_def by metis
  obtain a s where a: "q = a + 16" "used B a = Some s" "n + 16 \<le> s"
    using heldD(1) [OF h assms(2)] by blast
  obtain b t where b: "r = b + 16" "used B b = Some t"
    using heldD(1) [OF h assms(3)] by blast
  have "tiles B E"
    using pool_okD [OF ok] by metis
  then have "a + s \<le> b"
    using tilesD(3) [of B E a s False b t False] a b assms(4) by (simp add: used_Some)
  then show ?thesis using a b by simp
qed

lemma heap_inv_accounts:
  assumes "heap_inv p U R"
  shows "finite (dom U)" "(\<Sum>q \<in> dom U. the (U q)) \<le> used_size p" "U = Map.empty \<Longrightarrow> used_size p = 0"
proof -
  obtain B E where ok: "pool_ok p B E" and h: "held B U"
    using assms(1) unfolding heap_inv_def by metis
  have fin: "finite (dom (used B))" and acc: "used_size p = used_bytes (used B)"
    using pool_okD [OF ok] by metis+
  have dom: "dom U = (\<lambda>a. a + 16) ` dom (used B)"
  proof (intro set_eqI iffI)
    fix q assume "q \<in> dom U"
    then show "q \<in> (\<lambda>a. a + 16) ` dom (used B)"
      using heldD(1) [OF h, of q] by (metis domD domI image_eqI)
  qed (use heldD(2) [OF h] in auto)
  then show "finite (dom U)" using fin by simp
  have "(\<Sum>q \<in> dom U. the (U q)) = (\<Sum>a \<in> dom (used B). the (U (a + 16)))"
    unfolding dom by (subst sum.reindex) (auto simp: inj_on_def)
  also have "\<dots> \<le> (\<Sum>a \<in> dom (used B). the (used B a) - 16)"
  proof (rule sum_mono)
    fix a assume "a \<in> dom (used B)"
    then obtain s where s: "used B a = Some s" by auto
    then obtain n where n: "U (a + 16) = Some n"
      using heldD(2) [OF h s] by auto
    then have "n + 16 \<le> s"
      using heldD(1) [OF h n] s by auto
    then show "the (U (a + 16)) \<le> the (used B a) - 16"
      using n s by simp
  qed
  finally show "(\<Sum>q \<in> dom U. the (U q)) \<le> used_size p"
    by (simp add: acc used_bytes_def tlsf_consts)
  show "used_size p = 0" if "U = Map.empty"
    using dom that by (simp add: acc used_bytes_def)
qed

text \<open>
  C39. The search rounds the size up modulo \<open>2 ^ 64\<close>: for \<open>2 ^ 64 - 2 ^ 58\<close> bytes it comes out at 15,
  and any free block is taken for one that is large enough.
\<close>

theorem tlsf_malloc_huge_request:
  assumes inv: "heap_inv p U R" and one: "tlsf_malloc 1 p = Some (r, p1)" "r \<noteq> 0"
  shows "\<exists>q p'. tlsf_malloc (2 ^ 64 - 2 ^ 58) p = Some (q, p') \<and> q \<noteq> 0 \<and> blk_size (tmem p' (q - 16)) < 2 ^ 48"
proof -
  obtain B E where ok: "pool_ok p B E"
    using inv unfolding heap_inv_def by metis
  then obtain F where h: "heap_ok p B E F" and t: "tiles B E" and hd: "hdrs_ok (tmem p) B E"
    using pool_okD by metis
  have lo: "lists_ok p F" and fl: "filed_but 0 F B"
    using h by (simp_all add: heap_ok_def)
  have free: "x \<in> set (F d) \<longleftrightarrow> (\<exists>sz. B x = Some (sz, True) \<and> tlsf_mapping sz = d)" for x d
    using filed_butD [OF fl, of x d] tiles_zero [OF t] by auto
  define n :: nat where "n = 2 ^ 64 - 2 ^ 58"
  define need where "need = request_size n"
  have need: "need = 2 ^ 64 - 2 ^ 58 + 16"
    by (simp add: need_def n_def request_size_def TLSF_ALIGN_UP_def tlsf_consts)
  have "tlsf_fls need = 63"
    by (rule tlsf_fls_unique) (simp_all add: need)
  then have c: "tlsf_mapping_search need = (0, 15)"
    by (simp add: tlsf_mapping_search_def tlsf_mapping_def tlsf_consts need)
  obtain a where a: "tlsf_find_free_block need p = Some (a, p)"
    "if \<exists>d. class_le (0, 15) d \<and> F d \<noteq> [] then \<exists>d. class_le (0, 15) d \<and> a \<in> set (F d) else a = 0"
    using tlsf_find_free_block_ok [OF lo c] by (auto simp: is_class_def)
  obtain x s where x: "B x = Some (s, True)"
    using tlsf_malloc_ok [OF ok, of 1] one by auto
  have "5 \<le> tlsf_fls s"
    using tlsf_mapping_ge(2) tiles_block(5) [OF t x] by blast
  then have "class_le (0, 15) (tlsf_mapping s)"
    using tlsf_mapping_ge(1) [OF tiles_block(5) [OF t x]] by (simp add: class_le_def)
  moreover have "F (tlsf_mapping s) \<noteq> []"
    using free x by (metis empty_iff empty_set)
  ultimately have "\<exists>d. class_le (0, 15) d \<and> F d \<noteq> []"
    by blast
  then obtain d where d: "a \<in> set (F d)"
    using a(2) by meson
  then obtain bs where bs: "B a = Some (bs, True)"
    using free by blast
  have small: "bs < 2 ^ 48" "32 \<le> bs" "4 dvd bs" "bs < 2 ^ 64"
    using tilesD(1) [OF t bs] tiles_block [OF t bs] by (simp_all add: KERNEL_VA_def)
  have "a \<noteq> 0" "tlsf_free_block_ok p a"
    using lists_okD(8) [OF lo d] listed_block_ok [OF lo d] by auto
  moreover define p2 where "p2 = remove_by_size a bs p"
  moreover have "blk_size (tmem p a) = bs"
    by (rule hdr_of(1) [OF hd bs])
  moreover have "request_size n = need" "0 < n" "\<not> n > 2 ^ 64 - 1 - 16 - 15"
    by (simp_all add: need_def n_def)
  moreover have "\<not> bs \<ge> (need + 32) mod 2 ^ 64"
    using small(1) by (simp add: need)
  ultimately have "tlsf_malloc n p = Some (a + 16, (let q = take_whole a bs (blk_prev_free (tmem p2 a)) p2
      in q\<lparr>used_size := used_size q + blk_size (tmem q a) - 16\<rparr>))"
    using a(1) by (simp add: tlsf_malloc_def Let_def tlsf_consts)
  moreover have "blk_size (tmem (take_whole a bs f p2) a) = bs" for f
    using small by (simp add: take_whole_def Let_def blk_next_def)
  ultimately show ?thesis
    using small(1) by (simp add: n_def Let_def)
qed

definition no_mem :: "nat \<Rightarrow> free_block" where
  "no_mem _ = \<lparr>hdr_size = 0, prev_size = 0, next_free = 0, prev_free = 0\<rparr>"

theorem tlsf_malloc_huge_request_witness:
  "\<exists>q p'. tlsf_malloc (2 ^ 64 - 2 ^ 58) (snd (tlsf_add_memory KERNEL_VA 4096 (tlsf_create no_mem))) = Some (q, p') \<and>
     q \<noteq> 0 \<and> blk_size (tmem p' (q - 16)) < 2 ^ 48"
proof -
  obtain r p where p: "tlsf_add_memory KERNEL_VA 4096 (tlsf_create no_mem) = (r, p)"
    by fastforce
  have f: "fits (request_size 1) (4096 - 62)"
    by (simp add: fits_def request_size_def TLSF_ALIGN_UP_def class_eval class_le_def)
  have pre: "KERNEL_VA \<le> KERNEL_VA" "KERNEL_VA + 4096 < 2 ^ 64" "TLSF_ALIGN_UP KERNEL_VA < KERNEL_VA + 4096"
    "{KERNEL_VA..<KERNEL_VA + 4096} \<inter> covered [] = {}"
    by (simp_all add: KERNEL_VA_def TLSF_ALIGN_UP_def covered_def)
  note G = heap_inv_grow [OF heap_inv_create pre p]
  obtain q p1 where "tlsf_malloc 1 p = Some (q, p1)" "q \<noteq> 0"
    using G(2) [of 1] f by auto
  from tlsf_malloc_huge_request [OF G(1) this] show ?thesis
    by (simp add: p)
qed

end
