(* ===== verification/Kmalloc.thy ===== *)
theory Kmalloc
  imports KHeap
begin

text \<open>
  The kernel's allocation functions (KernelAA64/Mm/kmalloc.c) over the pool, and what every
  sequence of calls to an allocator keeps, stated once for any allocator that obeys the
  contract. The heap's lock and the masking of interrupts make each operation on the pool one
  step. Mapping a page has no result that is looked at, so \<open>au_request_page\<close> is what it does
  to the break. A call that would read outside the bucket array is \<open>None\<close>.
\<close>

section \<open>Copying and clearing memory\<close>

text \<open>
  \<open>memcpy\<close> and \<open>memset\<close> to 0 from an address that is a multiple of 16, on records at
  multiples of 16: each takes the fields, of 8 bytes each, that lie in its range.
\<close>

definition memcpy_blocks :: "nat \<Rightarrow> nat \<Rightarrow> nat \<Rightarrow> (nat \<Rightarrow> free_block) \<Rightarrow> nat \<Rightarrow> free_block" where
  "memcpy_blocks dst src len m x =
     (if x mod 16 = 0 \<and> dst \<le> x + 16 \<and> x < dst + len
      then let y = m (x + src - dst);
               h = (if dst \<le> x then y else m x);
               l = (if x + 32 \<le> dst + len then y else m x)
           in h\<lparr>next_free := next_free l, prev_free := prev_free l\<rparr>
      else m x)"

definition zero_bytes :: "nat \<Rightarrow> nat \<Rightarrow> nat" where
  "zero_bytes k v = v div 2 ^ (8 * k) * 2 ^ (8 * k)"

definition memset_blocks :: "nat \<Rightarrow> nat \<Rightarrow> (nat \<Rightarrow> free_block) \<Rightarrow> nat \<Rightarrow> free_block" where
  "memset_blocks dst len m x =
     (if x mod 16 = 0 \<and> dst \<le> x + 16 \<and> x < dst + len
      then let z = (\<lambda>a v. if a < dst then v else zero_bytes (min 8 (dst + len - a)) v);
               b = m x
           in \<lparr>hdr_size = of_nat (z x (unat (hdr_size b))), prev_size = z (x + 8) (prev_size b),
               next_free = z (x + 16) (next_free b), prev_free = z (x + 24) (prev_free b)\<rparr>
      else m x)"

section \<open>The kernel heap\<close>

definition PAGE_SIZE :: nat where "PAGE_SIZE = 4096"
definition KERNEL_BASE_ADDRESS :: nat where "KERNEL_BASE_ADDRESS = 0xFFFFE00000000000"

record kheap =
  g_kheap :: "tlsf_pool option"
  brk_current :: nat

definition request_begin :: "kheap \<Rightarrow> nat" where
  "request_begin h = brk_current h"

definition request_end :: "int \<Rightarrow> kheap \<Rightarrow> kheap" where
  "request_end pages h = h\<lparr>brk_current := (brk_current h + nat pages * PAGE_SIZE) mod 2 ^ 64\<rparr>"

definition au_request_page :: "int \<Rightarrow> kheap \<Rightarrow> nat \<times> kheap" where
  "au_request_page pages h =
     (if pages \<le> 0 then (0, h) else (request_begin h, request_end pages h))"

definition au_free_page :: "nat \<Rightarrow> int \<Rightarrow> int" where
  "au_free_page ptr pages = (if ptr = 0 \<or> pages \<le> 0 then -1 else 0)"

text \<open>
  The two growing functions try, ask for 32 more pages when the pool has nothing, and try
  once more.
\<close>

definition with_growth ::
  "(tlsf_pool \<Rightarrow> (nat \<times> tlsf_pool) option) \<Rightarrow> bool \<Rightarrow> tlsf_pool \<Rightarrow> kheap \<Rightarrow> (nat \<times> kheap) option"
where
  "with_growth try grow p h =
     (case try p of None \<Rightarrow> None
      | Some (q, p) \<Rightarrow>
          let h = h\<lparr>g_kheap := Some p\<rparr>
          in if q \<noteq> 0 \<or> \<not> grow then Some (q, h)
             else
               let more_pages = 32;
                   (more_mem, h) = au_request_page more_pages h
               in if more_mem = 0 then Some (0, h)
                  else
                    let p = snd (tlsf_add_memory more_mem (nat more_pages * PAGE_SIZE) p)
                    in case try p of None \<Rightarrow> None
                       | Some (q, p) \<Rightarrow> Some (q, h\<lparr>g_kheap := Some p\<rparr>))"

definition kmalloc :: "u32 \<Rightarrow> kheap \<Rightarrow> (nat \<times> kheap) option" where
  "kmalloc sz h =
     (case g_kheap h of None \<Rightarrow> Some (0, h)
      | Some p \<Rightarrow>
          if sz = 0 then Some (0, h)
          else with_growth (tlsf_malloc (unat sz)) True p h)"

definition kfree :: "nat \<Rightarrow> kheap \<Rightarrow> kheap" where
  "kfree ptr h =
     (case g_kheap h of None \<Rightarrow> h
      | Some p \<Rightarrow> if ptr = 0 then h else h\<lparr>g_kheap := Some (tlsf_free ptr p)\<rparr>)"

definition krealloc :: "nat \<Rightarrow> u32 \<Rightarrow> kheap \<Rightarrow> (nat \<times> kheap) option" where
  "krealloc ptr new_size h =
     (case g_kheap h of None \<Rightarrow> Some (0, h)
      | Some p \<Rightarrow>
          with_growth (tlsf_realloc memcpy_blocks ptr (unat new_size)) (new_size > 0) p h)"

text \<open>What a client, and \<open>kcalloc\<close> with its \<open>memset\<close>, does to the memory of the heap.\<close>

definition kheap_mem :: "((nat \<Rightarrow> free_block) \<Rightarrow> nat \<Rightarrow> free_block) \<Rightarrow> kheap \<Rightarrow> kheap" where
  "kheap_mem f h = h\<lparr>g_kheap := map_option (\<lambda>p. p\<lparr>tmem := f (tmem p)\<rparr>) (g_kheap h)\<rparr>"

definition kcalloc :: "u64 \<Rightarrow> u64 \<Rightarrow> kheap \<Rightarrow> (nat \<times> kheap) option" where
  "kcalloc n_item sz h =
     (if g_kheap h = None \<or> n_item = 0 \<or> sz = 0 then Some (0, h)
      else
        let total = n_item * sz
        in case kmalloc (ucast total) h of None \<Rightarrow> None
           | Some (ptr, h) \<Rightarrow>
               Some (ptr, if ptr \<noteq> 0 then kheap_mem (memset_blocks ptr (unat total)) h else h))"

definition tlsf_used :: "tlsf_pool \<Rightarrow> nat" where
  "tlsf_used p = used_size p"

definition tlsf_total :: "tlsf_pool \<Rightarrow> nat" where
  "tlsf_total p = pool_size p"

definition heap_used :: "kheap \<Rightarrow> nat" where
  "heap_used h = (case g_kheap h of None \<Rightarrow> 0 | Some p \<Rightarrow> tlsf_used p)"

text \<open>
  \<open>AuHeapInitialize\<close> on the memory \<open>m\<close>; the second component is the verdict that the
  self-test prints, \<open>None\<close> when the start fails before it.
\<close>

definition AuHeapInitialize :: "(nat \<Rightarrow> free_block) \<Rightarrow> kheap \<Rightarrow> (kheap \<times> bool option) option" where
  "AuHeapInitialize m h =
     (let pool = tlsf_create m;
          h = h\<lparr>g_kheap := Some pool\<rparr>;
          initial_pages = 128;
          (heap_mem, h) = au_request_page initial_pages h
      in if heap_mem = 0 then Some (h, None)
         else
           case tlsf_add_memory heap_mem (nat initial_pages * PAGE_SIZE) pool of
             (r, pool) \<Rightarrow>
               let h = h\<lparr>g_kheap := Some pool\<rparr>
               in if r \<noteq> 0 then Some (h, None)
                  else
                    let heap_before = heap_used h
                    in case kmalloc 64 h of None \<Rightarrow> None
                       | Some (heap_probe, h) \<Rightarrow>
                           let heap_during = heap_used h;
                               h = kfree heap_probe h;
                               heap_after = heap_used h
                           in Some (h, Some (heap_probe \<noteq> 0 \<and> heap_during > heap_before \<and>
                                             heap_after = heap_before)))"

section \<open>The contract of an allocator\<close>

text \<open>
  The calls of an allocator with state \<open>'s\<close>: allocate, release, resize, and the memory of
  its blocks, which their owners write. \<open>op_room\<close> says that the state has address space left
  to grow into, and \<open>op_limit\<close> bounds the requests the contract speaks of.
\<close>

record 's heap_ops =
  op_alloc :: "nat \<Rightarrow> 's \<Rightarrow> (nat \<times> 's) option"
  op_release :: "nat \<Rightarrow> 's \<Rightarrow> 's"
  op_resize :: "nat \<Rightarrow> nat \<Rightarrow> 's \<Rightarrow> (nat \<times> 's) option"
  op_mem :: "'s \<Rightarrow> nat \<Rightarrow> free_block"
  op_store :: "(nat \<Rightarrow> free_block) \<Rightarrow> 's \<Rightarrow> 's"
  op_room :: "'s \<Rightarrow> bool"
  op_limit :: nat

text \<open>What the caller notes after a call that gave \<open>q\<close>.\<close>

definition gained :: "nat \<Rightarrow> nat \<Rightarrow> (nat \<Rightarrow> nat option) \<Rightarrow> nat \<Rightarrow> nat option" where
  "gained q n U = (if q = 0 then U else U(q \<mapsto> n))"

definition moved :: "nat \<Rightarrow> nat \<Rightarrow> nat \<Rightarrow> (nat \<Rightarrow> nat option) \<Rightarrow> nat \<Rightarrow> nat option" where
  "moved p q n U = (if q = 0 then U else U(p := None, q \<mapsto> n))"

text \<open>
  One call of a client, run to its end before the next. The code holds the lock for the whole of
  a release, but lets it go while a request or a resize maps new pages (\<open>au_request_page\<close>), so
  the runs below are those in which no other call falls into that gap.
\<close>

inductive client_step ::
  "'s heap_ops \<Rightarrow> 's \<Rightarrow> (nat \<Rightarrow> nat option) \<Rightarrow> 's \<Rightarrow> (nat \<Rightarrow> nat option) \<Rightarrow> bool"
for ops :: "'s heap_ops"
where
  allocate: "op_room ops s \<Longrightarrow> n \<le> op_limit ops \<Longrightarrow> op_alloc ops n s = Some (q, s') \<Longrightarrow>
    client_step ops s U s' (gained q n U)"
| release: "U q = Some n \<Longrightarrow> client_step ops s U (op_release ops q s) (U(q := None))"
| resize: "op_room ops s \<Longrightarrow> U p = Some k \<Longrightarrow> 0 < n \<Longrightarrow> n \<le> op_limit ops \<Longrightarrow>
    op_resize ops p n s = Some (q, s') \<Longrightarrow> client_step ops s U s' (moved p q n U)"
| store: "U q = Some n \<Longrightarrow> owner_writes (q - 16) n (op_mem ops s) m \<Longrightarrow>
    client_step ops s U (op_store ops m s) U"

inductive client_run ::
  "'s heap_ops \<Rightarrow> 's \<Rightarrow> (nat \<Rightarrow> nat option) \<Rightarrow> 's \<Rightarrow> (nat \<Rightarrow> nat option) \<Rightarrow> bool"
for ops :: "'s heap_ops" and s :: 's and U :: "nat \<Rightarrow> nat option"
where
  start: "client_run ops s U s U"
| more: "client_run ops s U t V \<Longrightarrow> client_step ops t V t' V' \<Longrightarrow> client_run ops s U t' V'"

locale allocator =
  fixes ops :: "'s heap_ops" and inv :: "'s \<Rightarrow> (nat \<Rightarrow> nat option) \<Rightarrow> bool"
  assumes alloc_law: "inv s U \<Longrightarrow> op_room ops s \<Longrightarrow> n \<le> op_limit ops \<Longrightarrow>
      \<exists>q s'. op_alloc ops n s = Some (q, s') \<and> inv s' (gained q n U) \<and> (q \<noteq> 0 \<longrightarrow> U q = None)"
    and release_law: "inv s U \<Longrightarrow> U q = Some n \<Longrightarrow> inv (op_release ops q s) (U(q := None))"
    and resize_law: "inv s U \<Longrightarrow> op_room ops s \<Longrightarrow> U p = Some k \<Longrightarrow> 0 < n \<Longrightarrow> n \<le> op_limit ops \<Longrightarrow>
      \<exists>q s'. op_resize ops p n s = Some (q, s') \<and> inv s' (moved p q n U)"
    and store_law: "inv s U \<Longrightarrow> U q = Some n \<Longrightarrow> owner_writes (q - 16) n (op_mem ops s) mem \<Longrightarrow>
      inv (op_store ops mem s) U"
    and apart_law: "inv s U \<Longrightarrow> U q = Some n \<Longrightarrow> U r = Some m \<Longrightarrow> q < r \<Longrightarrow> q + n \<le> r"
begin

lemma step_keeps: "client_step ops s U s' U' \<Longrightarrow> inv s U \<Longrightarrow> inv s' U'"
proof (induction rule: client_step.induct)
  case (allocate s n q s' U)
  then show ?case using alloc_law [of s U n] by auto
next
  case (release U q n s)
  then show ?case using release_law by blast
next
  case (resize s U p k n q s')
  then show ?case using resize_law [of s U p k n] by auto
next
  case (store U q n s m)
  then show ?case using store_law by blast
qed

lemma run_keeps: "client_run ops s U s' U' \<Longrightarrow> inv s U \<Longrightarrow> inv s' U'"
  by (induction rule: client_run.induct) (auto intro: step_keeps)

lemma never_overlaps:
  assumes "client_run ops s U s' U'" "inv s U" "U' q = Some n" "U' r = Some m" "q \<noteq> r"
  shows "{q..<q + n} \<inter> {r..<r + m} = {}"
  using apart_law [OF run_keeps [OF assms(1,2)], of q n r m]
    apart_law [OF run_keeps [OF assms(1,2)], of r m q n] assms(3-5) by (cases "q < r") auto

lemma never_faults:
  assumes "client_run ops s U s' U'" "inv s U" "op_room ops s'" "n \<le> op_limit ops"
  shows "op_alloc ops n s' \<noteq> None" "U' p = Some k \<Longrightarrow> 0 < n \<Longrightarrow> op_resize ops p n s' \<noteq> None"
proof -
  show "op_alloc ops n s' \<noteq> None"
    using alloc_law [OF run_keeps [OF assms(1,2)] assms(3,4)] by auto
  show "op_resize ops p n s' \<noteq> None" if "U' p = Some k" "0 < n"
    using resize_law [OF run_keeps [OF assms(1,2)] assms(3) that assms(4)] by blast
qed

end

text \<open>The pool itself: every request up to \<open>2 ^ 63\<close> bytes.\<close>

definition pool_ops :: "tlsf_pool heap_ops" where
  "pool_ops = \<lparr>op_alloc = tlsf_malloc, op_release = tlsf_free, op_resize = tlsf_realloc memcpy_blocks,
     op_mem = tmem, op_store = (\<lambda>m p. p\<lparr>tmem := m\<rparr>), op_room = (\<lambda>_. True), op_limit = 2 ^ 63\<rparr>"

lemma memcpy_inside: "copies_inside memcpy_blocks"
  unfolding copies_inside_def owner_writes_def by (auto simp: memcpy_blocks_def Let_def)

interpretation pool: allocator pool_ops "\<lambda>p U. \<exists>R. heap_inv p U R"
proof (unfold_locales, unfold pool_ops_def heap_ops.simps)
  show "\<exists>q s'. tlsf_malloc n s = Some (q, s') \<and> (\<exists>R. heap_inv s' (gained q n U) R) \<and> (q \<noteq> 0 \<longrightarrow> U q = None)"
    if ex: "\<exists>R. heap_inv s U R" and n: "n \<le> 2 ^ 63" for s U n
  proof -
    obtain R where R: "heap_inv s U R" using ex by blast
    from heap_inv_malloc [OF this n] obtain q s' where
      "tlsf_malloc n s = Some (q, s')" "if q = 0 then s' = s else 0 < n \<and> U q = None \<and> heap_inv s' (U(q \<mapsto> n)) R"
      by blast
    then show ?thesis
      using R by (cases "q = 0") (auto simp: gained_def)
  qed
  show "\<exists>R. heap_inv (tlsf_free q s) (U(q := None)) R" if "\<exists>R. heap_inv s U R" "U q = Some n" for s U q n
    using that heap_inv_free by blast
  show "\<exists>q s'. tlsf_realloc memcpy_blocks p n s = Some (q, s') \<and> (\<exists>R. heap_inv s' (moved p q n U) R)"
    if ex: "\<exists>R. heap_inv s U R" and n: "U p = Some k" "0 < n" "n \<le> 2 ^ 63" for s U p k n
  proof -
    obtain R where R: "heap_inv s U R" using ex by blast
    from heap_inv_realloc [OF R n memcpy_inside] obtain q s' where
      "tlsf_realloc memcpy_blocks p n s = Some (q, s')"
      "if q = 0 then s' = s else (q = p \<or> U q = None) \<and> heap_inv s' (U(p := None, q \<mapsto> n)) R"
      by blast
    then show ?thesis
      using R by (cases "q = 0") (auto simp: moved_def)
  qed
  show "\<exists>R. heap_inv (s\<lparr>tmem := m\<rparr>) U R"
    if "\<exists>R. heap_inv s U R" "U q = Some n" "owner_writes (q - 16) n (tmem s) m" for s U q n m
    using that heap_inv_write by blast
  show "q + n \<le> r" if "\<exists>R. heap_inv s U R" "U q = Some n" "U r = Some m" "q < r" for s U q n r m
    using that heap_inv_apart by fastforce
qed

section \<open>The kernel's functions obey it\<close>

definition kheap_inv :: "kheap \<Rightarrow> (nat \<Rightarrow> nat option) \<Rightarrow> bool" where
  "kheap_inv h U \<longleftrightarrow> (\<exists>p R. g_kheap h = Some p \<and> heap_inv p U R \<and>
     covered R \<subseteq> {KERNEL_BASE_ADDRESS..<brk_current h} \<and> KERNEL_BASE_ADDRESS \<le> brk_current h \<and>
     brk_current h < 2 ^ 64 \<and> 4096 dvd brk_current h)"

definition kheap_room :: "kheap \<Rightarrow> bool" where
  "kheap_room h \<longleftrightarrow> brk_current h + 131072 < 2 ^ 64"

lemma request_props:
  assumes "0 < pages" "brk_current h + nat pages * 4096 < 2 ^ 64"
  shows "au_request_page pages h =
    (brk_current h, h\<lparr>brk_current := brk_current h + nat pages * 4096\<rparr>)"
  using assms by (simp add: au_request_page_def request_begin_def request_end_def PAGE_SIZE_def)

lemma align_up_id: "16 dvd x \<Longrightarrow> TLSF_ALIGN_UP x = x"
  unfolding TLSF_ALIGN_UP_def by presburger

text \<open>A region taken from the break.\<close>

lemma grow_at_break:
  assumes inv: "heap_inv p U R" and brk: "covered R \<subseteq> {KERNEL_BASE_ADDRESS..<b}"
    "KERNEL_BASE_ADDRESS \<le> b" "4096 dvd b" "b + k * 4096 < 2 ^ 64" "0 < k"
    and run: "tlsf_add_memory b (k * 4096) p = (r, p')"
  shows "heap_inv p' U ((b, k * 4096) # R)"
    "covered ((b, k * 4096) # R) \<subseteq> {KERNEL_BASE_ADDRESS..<b + k * 4096}"
    "r = 0"
    "0 < n \<Longrightarrow> n \<le> 2 ^ 63 \<Longrightarrow> fits (request_size n) (k * 4096 - 62) \<Longrightarrow>
      \<exists>q p''. tlsf_malloc n p' = Some (q, p'') \<and> q \<noteq> 0"
    "0 < n \<Longrightarrow> n \<le> 2 ^ 63 \<Longrightarrow> \<not> fits (request_size n) (k * 4096 - 32) \<Longrightarrow> tlsf_malloc n p = Some (0, p) \<Longrightarrow>
      tlsf_malloc n p' = Some (0, p')"
proof -
  have al: "TLSF_ALIGN_UP b = b"
    using brk(3) by (intro align_up_id) (auto elim: dvd_trans [rotated])
  have va: "KERNEL_VA \<le> b" "TLSF_ALIGN_UP b < b + k * 4096" "b \<noteq> 0"
    using brk(2,5) by (simp_all add: al KERNEL_VA_def KERNEL_BASE_ADDRESS_def)
  have new: "{b..<b + k * 4096} \<inter> covered R = {}"
    using brk(1) by auto
  note G = heap_inv_grow [OF inv va(1) brk(4) va(2) new run]
  show "heap_inv p' U ((b, k * 4096) # R)"
    by (rule G(1))
  show "covered ((b, k * 4096) # R) \<subseteq> {KERNEL_BASE_ADDRESS..<b + k * 4096}"
    using brk(1,2) by auto
  show "\<exists>q p''. tlsf_malloc n p' = Some (q, p'') \<and> q \<noteq> 0"
    if "0 < n" "n \<le> 2 ^ 63" "fits (request_size n) (k * 4096 - 62)"
    using G(2) [OF _ that] brk(5) by simp
  show "tlsf_malloc n p' = Some (0, p')"
    if "0 < n" "n \<le> 2 ^ 63" "\<not> fits (request_size n) (k * 4096 - 32)" "tlsf_malloc n p = Some (0, p)"
    using G(3) [OF that] .
  have b64: "b < 2 ^ 64"
    using brk(4) by linarith
  have eq: "b + k * 4096 + 2 ^ 64 - b = k * 4096 + 2 ^ 64" "k * 4096 < 2 ^ 64"
    using brk(4) by simp_all
  have "(b + k * 4096 + 2 ^ 64 - b) mod 2 ^ 64 div 16 * 16 = k * 4096"
    unfolding eq(1) mod_add_self2 mod_less [OF eq(2)] by presburger
  moreover have "64 \<le> k * 4096" using brk(5) by simp
  ultimately show "r = 0"
    using run va(3) unfolding tlsf_add_memory_def Let_def al mod_less [OF b64] tlsf_consts
    by (auto simp del: mod_add_self2 split: if_splits)
qed

text \<open>One call that may grow the heap, given what the attempt it makes does to any pool.\<close>

lemma with_growth_ok:
  assumes inv: "kheap_inv h U" "g_kheap h = Some p" and room: "kheap_room h"
    and attempt: "\<And>p R. heap_inv p U R \<Longrightarrow> \<exists>q p'. try p = Some (q, p') \<and>
        (if q = 0 then p' = p else Q q \<and> heap_inv p' (V q) R)"
  shows "\<exists>q h'. with_growth try grow p h = Some (q, h') \<and>
    (if q = 0 then kheap_inv h' U else Q q \<and> kheap_inv h' (V q))"
proof -
  obtain R where R: "heap_inv p U R" "covered R \<subseteq> {KERNEL_BASE_ADDRESS..<brk_current h}"
    "KERNEL_BASE_ADDRESS \<le> brk_current h" "brk_current h < 2 ^ 64" "4096 dvd brk_current h"
    using inv unfolding kheap_inv_def by auto
  obtain q p1 where q: "try p = Some (q, p1)" "if q = 0 then p1 = p else Q q \<and> heap_inv p1 (V q) R"
    using attempt [OF R(1)] by blast
  show ?thesis
  proof (cases "q \<noteq> 0 \<or> \<not> grow")
    case True
    then have "with_growth try grow p h = Some (q, h\<lparr>g_kheap := Some p1\<rparr>)"
      using q(1) by (simp add: with_growth_def)
    moreover have "if q = 0 then kheap_inv (h\<lparr>g_kheap := Some p1\<rparr>) U else Q q \<and> kheap_inv (h\<lparr>g_kheap := Some p1\<rparr>) (V q)"
      using q(2) R unfolding kheap_inv_def by auto
    ultimately show ?thesis by blast
  next
    case False
    let ?b = "brk_current h"
    obtain r p2 where add: "tlsf_add_memory ?b (32 * 4096) p = (r, p2)"
      by fastforce
    have b: "?b + 32 * 4096 < 2 ^ 64" "?b \<noteq> 0"
      using room R(3) by (simp_all add: kheap_room_def KERNEL_BASE_ADDRESS_def)
    note G = grow_at_break [OF R(1,2,3,5) b(1) _ add]
    obtain q' p3 where q': "try p2 = Some (q', p3)"
      "if q' = 0 then p3 = p2 else Q q' \<and> heap_inv p3 (V q') ((?b, 32 * 4096) # R)"
      using attempt [OF G(1)] by auto
    let ?h = "h\<lparr>brk_current := ?b + 131072, g_kheap := Some p3\<rparr>"
    have pages: "au_request_page 32 (h\<lparr>g_kheap := Some p\<rparr>) =
        (?b, h\<lparr>g_kheap := Some p, brk_current := ?b + 131072\<rparr>)"
      using request_props [of 32 "h\<lparr>g_kheap := Some p\<rparr>"] b(1) by simp
    have "with_growth try grow p h = Some (q', ?h)"
      using q(1,2) False pages add q'(1) b(2) by (simp add: with_growth_def PAGE_SIZE_def)
    moreover have "kheap_inv ?h W" if "heap_inv p3 W ((?b, 32 * 4096) # R)" for W
      unfolding kheap_inv_def using that G(2) R(3,5) b(1)
      by (intro exI [of _ p3] exI [of _ "(?b, 32 * 4096) # R"]) auto
    then have "if q' = 0 then kheap_inv ?h U else Q q' \<and> kheap_inv ?h (V q')"
      using q'(2) G(1) by (auto split: if_splits)
    ultimately show ?thesis by blast
  qed
qed

definition kernel_ops :: "kheap heap_ops" where
  "kernel_ops = \<lparr>op_alloc = (\<lambda>n. kmalloc (of_nat n)), op_release = kfree,
     op_resize = (\<lambda>p n. krealloc p (of_nat n)), op_mem = (\<lambda>h. tmem (the (g_kheap h))),
     op_store = (\<lambda>m. kheap_mem (\<lambda>_. m)), op_room = kheap_room, op_limit = 2 ^ 32 - 1\<rparr>"

lemma u32_bound: "unat (x :: u32) < 2 ^ 32"
  using unsigned_less [where 'a = nat, of x] by simp

lemma kheap_inv_pool: "kheap_inv h U \<Longrightarrow> \<exists>p. g_kheap h = Some p"
  by (auto simp: kheap_inv_def)

lemma kmalloc_ok:
  assumes inv: "kheap_inv h U" and room: "kheap_room h"
  shows "\<exists>q h'. kmalloc sz h = Some (q, h') \<and>
    (if q = 0 then kheap_inv h' U else U q = None \<and> kheap_inv h' (U(q \<mapsto> unat sz)))"
proof -
  obtain p where p: "g_kheap h = Some p"
    using kheap_inv_pool [OF inv] by blast
  show ?thesis
  proof (cases "sz = 0")
    case True
    then show ?thesis using inv p by (simp add: kmalloc_def)
  next
    case False
    have "unat sz \<le> 2 ^ 63"
      using u32_bound [of sz] by simp
    then have "\<exists>q p'. tlsf_malloc (unat sz) p = Some (q, p') \<and>
        (if q = 0 then p' = p else U q = None \<and> heap_inv p' (U(q \<mapsto> unat sz)) R)"
      if "heap_inv p U R" for p R
      using heap_inv_malloc [OF that, of "unat sz"] by (metis (no_types, lifting))
    from with_growth_ok [OF inv p room this] show ?thesis
      using False p by (simp add: kmalloc_def)
  qed
qed

lemma krealloc_ok:
  assumes inv: "kheap_inv h U" and room: "kheap_room h" and q: "U ptr = Some k" and sz: "sz \<noteq> 0"
  shows "\<exists>q h'. krealloc ptr sz h = Some (q, h') \<and>
    (if q = 0 then kheap_inv h' U
     else (q = ptr \<or> U q = None) \<and> kheap_inv h' (U(ptr := None, q \<mapsto> unat sz)))"
proof -
  obtain p where p: "g_kheap h = Some p"
    using kheap_inv_pool [OF inv] by blast
  have n: "0 < unat sz" "unat sz \<le> 2 ^ 63"
    using sz u32_bound [of sz] by (simp_all add: unat_gt_0)
  have "\<exists>q p'. tlsf_realloc memcpy_blocks ptr (unat sz) p = Some (q, p') \<and>
      (if q = 0 then p' = p else (q = ptr \<or> U q = None) \<and> heap_inv p' (U(ptr := None, q \<mapsto> unat sz)) R)"
    if "heap_inv p U R" for p R
    by (rule heap_inv_realloc [OF that q n memcpy_inside])
  from with_growth_ok [OF inv p room this] show ?thesis
    using p by (simp add: krealloc_def)
qed

lemma kfree_ok: "kheap_inv h U \<Longrightarrow> U q = Some n \<Longrightarrow> kheap_inv (kfree q h) (U(q := None))"
  using heap_inv_free heap_inv_aligned(3) [of _ U _ q n]
  unfolding kheap_inv_def kfree_def by (fastforce simp: KERNEL_VA_def)

lemma kheap_write_ok:
  assumes inv: "kheap_inv h U" and q: "U q = Some n"
    and w: "owner_writes (q - 16) n (tmem (the (g_kheap h))) (f (tmem (the (g_kheap h))))"
  shows "kheap_inv (kheap_mem f h) U"
proof -
  obtain p R where p: "g_kheap h = Some p" "heap_inv p U R"
    and rest: "covered R \<subseteq> {KERNEL_BASE_ADDRESS..<brk_current h}" "KERNEL_BASE_ADDRESS \<le> brk_current h"
     "brk_current h < 2 ^ 64" "4096 dvd brk_current h"
    using inv unfolding kheap_inv_def by auto
  have "heap_inv (p\<lparr>tmem := f (tmem p)\<rparr>) U R"
    using heap_inv_write [OF p(2) q, of "f (tmem p)"] w p(1) by simp
  then show ?thesis
    using p(1) rest unfolding kheap_inv_def kheap_mem_def by auto
qed

lemma of_nat_u32: "n \<le> 2 ^ 32 - 1 \<Longrightarrow> unat (of_nat n :: u32) = n"
  by (simp add: unsigned_of_nat take_bit_nat_eq_self)

interpretation kernel: allocator kernel_ops kheap_inv
proof (unfold_locales, unfold kernel_ops_def heap_ops.simps)
  show "\<exists>q s'. kmalloc (of_nat n) s = Some (q, s') \<and> kheap_inv s' (gained q n U) \<and> (q \<noteq> 0 \<longrightarrow> U q = None)"
    if "kheap_inv s U" "kheap_room s" "n \<le> 2 ^ 32 - 1" for s U n
    using kmalloc_ok [OF that(1,2), of "of_nat n"] unfolding of_nat_u32 [OF that(3)] gained_def
    by (auto split: if_splits)
  show "kheap_inv (kfree q s) (U(q := None))" if "kheap_inv s U" "U q = Some n" for s U q n
    by (rule kfree_ok [OF that])
  show "\<exists>q s'. krealloc p (of_nat n) s = Some (q, s') \<and> kheap_inv s' (moved p q n U)"
    if pre: "kheap_inv s U" "kheap_room s" "U p = Some k" "0 < n" "n \<le> 2 ^ 32 - 1" for s U p k n
  proof -
    have "(of_nat n :: u32) \<noteq> 0"
      using of_nat_u32 [OF pre(5)] pre(4) by (metis unat_0 less_irrefl)
    from krealloc_ok [OF pre(1-3) this] obtain q s' where
      "krealloc p (of_nat n) s = Some (q, s')"
      "if q = 0 then kheap_inv s' U else (q = p \<or> U q = None) \<and> kheap_inv s' (U(p := None, q \<mapsto> n))"
      unfolding of_nat_u32 [OF pre(5)] by blast
    then show ?thesis
      by (cases "q = 0") (auto simp: moved_def)
  qed
  show "kheap_inv (kheap_mem (\<lambda>_. m) s) U"
    if "kheap_inv s U" "U q = Some n" "owner_writes (q - 16) n (tmem (the (g_kheap s))) m" for s U q n m
    using kheap_write_ok [OF that(1,2), of "\<lambda>_. m"] that(3) by simp
  show "q + n \<le> r" if "kheap_inv s U" "U q = Some n" "U r = Some m" "q < r" for s U q n r m
    using heap_inv_apart [OF _ that(2-4)] that(1) unfolding kheap_inv_def by fastforce
qed

section \<open>What a request needs\<close>

lemma class_le_trans: "class_le a b \<Longrightarrow> class_le b c \<Longrightarrow> class_le a c"
  by (auto simp: class_le_def)

text \<open>Up to 129008 bytes, a region of 32 pages always holds a block that the search finds.\<close>

lemma fits_grown:
  assumes "n \<le> 129008"
  shows "fits (request_size n) 131010"
proof -
  have r: "32 \<le> request_size n" "request_size n \<le> 129024"
    using request_size_props [of n] assms
    by (auto simp: request_size_def TLSF_ALIGN_UP_def tlsf_consts)
  have "(2::nat) ^ tlsf_fls (request_size n) < 2 ^ 17"
    using tlsf_fls_bounds [of "request_size n"] r by simp
  then have "tlsf_fls (request_size n) < 17"
    by (simp only: power_strict_increasing_iff [of "2::nat"] one_less_numeral_iff semiring_norm)
  then have "(2::nat) ^ (tlsf_fls (request_size n) - 5) \<le> 2 ^ 11"
    by (intro power_increasing) auto
  then have s: "search_size (request_size n) \<le> 131071"
    using r(2) by (simp add: search_size_def)
  then have c: "tlsf_mapping_search (request_size n) = tlsf_mapping (search_size (request_size n))"
    "32 \<le> search_size (request_size n)"
    using search_class [OF r(1)] r(1) by auto
  have "class_le (tlsf_mapping (search_size (request_size n))) (tlsf_mapping 131071)"
    by (rule tlsf_mapping_mono [OF c(2) s])
  moreover have "tlsf_mapping 131071 = tlsf_mapping 131010"
    by (simp add: class_eval)
  ultimately show ?thesis
    by (simp add: fits_def c(1))
qed

text \<open>And beyond that it never does.\<close>

lemma fits_not_grown:
  assumes "129008 < n" "n < 2 ^ 32" "s \<le> 131071"
  shows "\<not> fits (request_size n) s"
proof
  assume f: "fits (request_size n) s"
  have r: "32 \<le> request_size n" "129040 \<le> request_size n" "request_size n \<le> 2 ^ 63 + 47"
    using request_size_props [of n] assms(1,2)
    by (auto simp: request_size_def TLSF_ALIGN_UP_def tlsf_consts)
  note sw = search_no_wrap(1) [OF r(1,3)]
  have "(2::nat) ^ 16 < 2 ^ Suc (tlsf_fls (request_size n))"
    using tlsf_fls_bounds [of "request_size n"] r(2) by simp
  then have "16 \<le> tlsf_fls (request_size n)"
    by (simp only: power_strict_increasing_iff [of "2::nat"] one_less_numeral_iff semiring_norm
        less_Suc_eq_le)
  then have "(2::nat) ^ 11 \<le> 2 ^ (tlsf_fls (request_size n) - 5)"
    by (intro power_increasing) auto
  then have s: "131072 \<le> search_size (request_size n)"
    using r(2) by (simp add: search_size_def)
  have "class_le (tlsf_mapping 131072) (tlsf_mapping (search_size (request_size n)))"
    using s by (intro tlsf_mapping_mono) auto
  moreover have "class_le (tlsf_mapping (search_size (request_size n))) (tlsf_mapping s)"
    using f search_class(1) [OF r(1) sw] by (simp add: fits_def)
  ultimately have c: "class_le (tlsf_mapping 131072) (tlsf_mapping s)"
    by (rule class_le_trans)
  have "class_le (tlsf_mapping s) (16, 31)"
  proof (cases "32 \<le> s")
    case True
    have "class_le (tlsf_mapping s) (tlsf_mapping 131071)"
      by (rule tlsf_mapping_mono [OF True assms(3)])
    then show ?thesis by (simp add: class_eval)
  next
    case False
    then show ?thesis by (simp add: tlsf_mapping_def tlsf_consts class_le_def)
  qed
  with c have "class_le (tlsf_mapping 131072) (16, 31)"
    by (rule class_le_trans)
  then show False
    by (simp add: class_eval class_le_def)
qed

section \<open>The start of the heap\<close>

definition boot_heap :: kheap where
  "boot_heap = \<lparr>g_kheap = None, brk_current = KERNEL_BASE_ADDRESS\<rparr>"

lemma heap_used_inv:
  assumes "kheap_inv h U"
  shows "(\<Sum>q \<in> dom U. the (U q)) \<le> heap_used h" "U = Map.empty \<Longrightarrow> heap_used h = 0"
  using assms heap_inv_accounts(2,3) unfolding kheap_inv_def heap_used_def tlsf_used_def by fastforce+

lemma AuHeapInitialize_ok:
  "\<exists>h. AuHeapInitialize m boot_heap = Some (h, Some True) \<and> kheap_inv h Map.empty \<and>
     brk_current h = KERNEL_BASE_ADDRESS + 524288"
proof -
  let ?b = "KERNEL_BASE_ADDRESS"
  obtain r p where add: "tlsf_add_memory ?b (128 * 4096) (tlsf_create m) = (r, p)"
    by fastforce
  have cov: "covered [] \<subseteq> {?b..<?b}" by (simp add: covered_def)
  have b: "4096 dvd ?b" "?b + 128 * 4096 < 2 ^ 64" "?b \<noteq> 0"
    by (simp_all add: KERNEL_BASE_ADDRESS_def)
  note G = grow_at_break [OF heap_inv_create cov order_refl b(1,2) _ add]
  define h1 where "h1 = \<lparr>g_kheap = Some p, brk_current = ?b + 524288\<rparr>"
  have inv: "kheap_inv h1 Map.empty"
    using G(1,2) b unfolding kheap_inv_def h1_def
    by (intro exI [of _ p] exI [of _ "[(?b, 128 * 4096)]"]) auto
  have "fits (request_size 64) (128 * 4096 - 62)"
    by (simp add: fits_def request_size_def TLSF_ALIGN_UP_def class_eval class_le_def)
  then obtain q p' where q: "tlsf_malloc 64 p = Some (q, p')" "q \<noteq> 0"
    using G(4) [of 64] by auto
  then have km: "kmalloc 64 h1 = Some (q, h1\<lparr>g_kheap := Some p'\<rparr>)"
    by (simp add: kmalloc_def h1_def with_growth_def)
  define h2 where "h2 = h1\<lparr>g_kheap := Some p'\<rparr>"
  have "kheap_room h1"
    by (simp add: kheap_room_def h1_def KERNEL_BASE_ADDRESS_def)
  from kmalloc_ok [OF inv this, of 64] have inv2: "kheap_inv h2 [q \<mapsto> 64]"
    using km q(2) by (simp add: h2_def)
  have inv3: "kheap_inv (kfree q h2) Map.empty"
    using kfree_ok [OF inv2, of q 64] by simp
  have used: "heap_used h1 = 0" "heap_used (kfree q h2) = 0" "64 \<le> heap_used h2"
    using heap_used_inv(2) [OF inv] heap_used_inv(2) [OF inv3] heap_used_inv(1) [OF inv2] by simp_all
  have "au_request_page 128 (boot_heap\<lparr>g_kheap := Some (tlsf_create m)\<rparr>) =
      (?b, \<lparr>g_kheap = Some (tlsf_create m), brk_current = ?b + 524288\<rparr>)"
    using request_props [of 128 "boot_heap\<lparr>g_kheap := Some (tlsf_create m)\<rparr>"] b(2)
    by (simp add: boot_heap_def)
  then have "AuHeapInitialize m boot_heap = Some (kfree q h2, Some True)"
    using add G(3) b(3) km used q(2)
    by (simp add: AuHeapInitialize_def PAGE_SIZE_def h1_def h2_def)
  moreover have "brk_current (kfree q h2) = ?b + 524288"
    by (simp add: kfree_def h2_def h1_def)
  ultimately show ?thesis
    using inv3 by blast
qed

section \<open>The properties of the kernel heap\<close>

lemma booted:
  assumes "AuHeapInitialize m boot_heap = Some (h, v)"
  shows "kheap_inv h Map.empty" "v = Some True" "brk_current h = KERNEL_BASE_ADDRESS + 524288"
  using AuHeapInitialize_ok [of m] assms by auto

lemma kmalloc_gives:
  assumes inv: "kheap_inv h U" and room: "kheap_room h" and sz: "sz \<noteq> 0" "unat sz \<le> 129008"
  shows "\<exists>q h'. kmalloc sz h = Some (q, h') \<and> q \<noteq> 0 \<and> U q = None \<and> kheap_inv h' (U(q \<mapsto> unat sz))"
proof -
  obtain p R where p: "g_kheap h = Some p" and R: "heap_inv p U R" "covered R \<subseteq> {KERNEL_BASE_ADDRESS..<brk_current h}"
    "KERNEL_BASE_ADDRESS \<le> brk_current h" "4096 dvd brk_current h"
    using inv unfolding kheap_inv_def by auto
  obtain q h' where q: "kmalloc sz h = Some (q, h')"
    "if q = 0 then kheap_inv h' U else U q = None \<and> kheap_inv h' (U(q \<mapsto> unat sz))"
    using kmalloc_ok [OF inv room] by blast
  have "q \<noteq> 0"
  proof
    assume "q = 0"
    let ?b = "brk_current h"
    have n: "0 < unat sz" "unat sz \<le> 2 ^ 63"
      using sz by (simp_all add: unat_gt_0)
    obtain p1 where p1: "tlsf_malloc (unat sz) p = Some (0, p1)"
    proof -
      obtain a p1 where a: "tlsf_malloc (unat sz) p = Some (a, p1)"
        using heap_inv_malloc [OF R(1) n(2)] by blast
      moreover have "a = 0"
        using q(1) \<open>q = 0\<close> sz(1) p a by (cases "a = 0") (simp_all add: kmalloc_def with_growth_def Let_def)
      ultimately show ?thesis using that by blast
    qed
    then have "p1 = p"
      using heap_inv_malloc [OF R(1) n(2)] by auto
    have b: "?b + 32 * 4096 < 2 ^ 64" "?b \<noteq> 0"
      using room R(3) by (simp_all add: kheap_room_def KERNEL_BASE_ADDRESS_def)
    obtain r p2 where add: "tlsf_add_memory ?b (32 * 4096) p = (r, p2)"
      by fastforce
    have "fits (request_size (unat sz)) (32 * 4096 - 62)"
      using fits_grown [OF sz(2)] by simp
    then obtain q' p3 where "tlsf_malloc (unat sz) p2 = Some (q', p3)" "q' \<noteq> 0"
      using grow_at_break(4) [OF R(1,2,3,4) b(1) _ add n] by auto
    moreover have "au_request_page 32 (h\<lparr>g_kheap := Some p\<rparr>) =
        (?b, h\<lparr>g_kheap := Some p, brk_current := ?b + 131072\<rparr>)"
      using request_props [of 32 "h\<lparr>g_kheap := Some p\<rparr>"] b(1) by simp
    ultimately show False
      using q(1) \<open>q = 0\<close> sz(1) p p1 \<open>p1 = p\<close> add b(2) by (simp add: kmalloc_def with_growth_def PAGE_SIZE_def)
  qed
  then show ?thesis
    using q by auto
qed

lemma kmalloc_brk: "kmalloc sz h = Some (q, h') \<Longrightarrow> brk_current h' \<le> brk_current h + 131072"
  by (auto simp: kmalloc_def with_growth_def au_request_page_def request_begin_def request_end_def PAGE_SIZE_def
      Let_def split: option.splits if_splits intro: order_trans [OF mod_less_eq_dividend])

lemma heap_inv_block:
  assumes "heap_inv p U R" "U q = Some n"
  shows "\<exists>z. blk_size (tmem p (q - 16)) = z \<and> 16 dvd z \<and> 32 \<le> z \<and> {q - 16..<q - 16 + z} \<subseteq> covered R \<and>
    16 dvd q \<and> 16 \<le> q"
proof -
  obtain B E where ok: "pool_ok p B E" and h: "held B U" and cov: "span B \<subseteq> covered R"
    using assms(1) unfolding heap_inv_def by metis
  obtain a s where a: "q = a + 16" "used B a = Some s"
    using heldD(1) [OF h assms(2)] by blast
  have t: "tiles B E" and hd: "hdrs_ok (tmem p) B E"
    using pool_okD [OF ok] by metis+
  have b: "B a = Some (s, False)"
    using a(2) by (simp add: used_Some)
  show ?thesis
    using tilesD(1) [OF t b] hdr_of(1) [OF hd b] block_span [of B a s False, OF b] cov a(1) by auto
qed

text \<open>C8. From the start of the heap on, whatever its clients allocate, release, resize and
  write inside their blocks, a block a client holds is aligned to 16 bytes, lies in the address
  space the heap has taken from the break, and shares no byte with another.\<close>

theorem kernel_heap_separation:
  assumes "AuHeapInitialize m boot_heap = Some (h0, v)" "client_run kernel_ops h0 Map.empty h U"
    and "U q = Some n"
  shows "16 dvd q \<and> {q..<q + n} \<subseteq> {KERNEL_BASE_ADDRESS..<brk_current h} \<and>
    (\<forall>r k. U r = Some k \<longrightarrow> q \<noteq> r \<longrightarrow> {q..<q + n} \<inter> {r..<r + k} = {})"
proof (intro conjI allI impI)
  have inv: "kheap_inv h U"
    by (rule kernel.run_keeps [OF assms(2) booted(1) [OF assms(1)]])
  then obtain p R where R: "heap_inv p U R" "covered R \<subseteq> {KERNEL_BASE_ADDRESS..<brk_current h}"
    unfolding kheap_inv_def by blast
  show "16 dvd q"
    by (rule heap_inv_aligned(1) [OF R(1) assms(3)])
  show "{q..<q + n} \<subseteq> {KERNEL_BASE_ADDRESS..<brk_current h}"
    using heap_inv_aligned(2) [OF R(1) assms(3)] R(2) by (rule order_trans)
  show "{q..<q + n} \<inter> {r..<r + k} = {}" if "U r = Some k" "q \<noteq> r" for r k
    using kernel.never_overlaps [OF assms(2) booted(1) [OF assms(1)] assms(3) that] .
qed


text \<open>C38. Beyond that a request the pool cannot serve fails, although it takes another 32 pages
  from the break, and the grown pool still cannot serve it: repeating it only uses up memory.\<close>

theorem kmalloc_large_fails:
  assumes "AuHeapInitialize m boot_heap = Some (h0, v)" "client_run kernel_ops h0 Map.empty h U"
    and "brk_current h + 131072 < 2 ^ 64" "129008 < unat sz"
    and "g_kheap h = Some p" "tlsf_malloc (unat sz) p = Some (0, p)"
  shows "\<exists>p'. kmalloc sz h = Some (0, \<lparr>g_kheap = Some p', brk_current = brk_current h + 131072\<rparr>) \<and>
    tlsf_malloc (unat sz) p' = Some (0, p')"
proof -
  have "kheap_inv h U"
    by (rule kernel.run_keeps [OF assms(2) booted(1) [OF assms(1)]])
  then obtain R where R: "heap_inv p U R" "covered R \<subseteq> {KERNEL_BASE_ADDRESS..<brk_current h}"
    "KERNEL_BASE_ADDRESS \<le> brk_current h" "4096 dvd brk_current h"
    using assms(5) unfolding kheap_inv_def by auto
  let ?b = "brk_current h"
  have n: "0 < unat sz" "unat sz \<le> 2 ^ 63" "sz \<noteq> 0"
    using assms(4) u32_bound [of sz] by auto
  obtain r p2 where add: "tlsf_add_memory ?b (32 * 4096) p = (r, p2)"
    by fastforce
  have b: "?b + 32 * 4096 < 2 ^ 64" "?b \<noteq> 0"
    using assms(3) R(3) by (simp_all add: KERNEL_BASE_ADDRESS_def)
  have "\<not> fits (request_size (unat sz)) (32 * 4096 - 32)"
    using fits_not_grown [OF assms(4) u32_bound] by simp
  then have fail: "tlsf_malloc (unat sz) p2 = Some (0, p2)"
    using grow_at_break(5) [OF R(1,2,3,4) b(1) _ add n(1,2)] assms(6) by simp
  have "au_request_page 32 (h\<lparr>g_kheap := Some p\<rparr>) =
      (?b, h\<lparr>g_kheap := Some p, brk_current := ?b + 131072\<rparr>)"
    using request_props [of 32 "h\<lparr>g_kheap := Some p\<rparr>"] b(1) by simp
  then have "kmalloc sz h = Some (0, h\<lparr>brk_current := ?b + 131072, g_kheap := Some p2\<rparr>)"
    using n(3) assms(5,6) add fail b(2) by (simp add: kmalloc_def with_growth_def PAGE_SIZE_def)
  then show ?thesis
    using fail by (cases h) auto
qed

text \<open>C10. The byte counter that the kernel reports is never less than what its clients hold,
  and is back at zero when they have released everything; the self-test of the start, which
  looks for just that on one block, passes on any memory.\<close>

theorem kernel_heap_accounting:
  assumes "AuHeapInitialize m boot_heap = Some (h0, v)" "client_run kernel_ops h0 Map.empty h U"
  shows "v = Some True \<and> (\<Sum>q \<in> dom U. the (U q)) \<le> heap_used h \<and> (U = Map.empty \<longrightarrow> heap_used h = 0)"
  using booted(2) [OF assms(1)] heap_used_inv [OF kernel.run_keeps [OF assms(2) booted(1) [OF assms(1)]]]
  by simp

lemma memset_outside: "16 \<le> q \<Longrightarrow> owner_writes (q - 16) n m (memset_blocks q n m)"
  by (auto simp: owner_writes_def memset_blocks_def Let_def)

lemma zero_bytes_all: "v < 2 ^ 64 \<Longrightarrow> zero_bytes 8 v = 0"
  by (simp add: zero_bytes_def)

lemma memset_header:
  assumes "16 dvd x" "q \<le> x" "x + 8 \<le> q + len"
  shows "hdr_size (memset_blocks q len m x) = 0"
proof -
  have "unat (hdr_size (m x)) < 2 ^ 64"
    using unsigned_less [where 'a = nat, of "hdr_size (m x)"] by simp
  then show ?thesis
    using assms by (auto simp: memset_blocks_def Let_def min_def zero_bytes_all dvd_eq_mod_eq_0)
qed

lemma kcalloc_step:
  assumes "kheap_inv h U" "n \<noteq> 0" "s \<noteq> 0"
  shows "kcalloc n s h = map_option (\<lambda>(q, h).
    (q, if q \<noteq> 0 then kheap_mem (memset_blocks q (unat (n * s))) h else h)) (kmalloc (ucast (n * s)) h)"
  using kheap_inv_pool [OF assms(1)] assms(2,3)
  by (auto simp: kcalloc_def Let_def split: option.splits)

lemma unat_ucast_small: "unat (x :: u64) < 2 ^ 32 \<Longrightarrow> unat (ucast x :: u32) = unat x"
  by (simp add: unsigned_ucast_eq take_bit_nat_eq_self)

text \<open>When the product of its arguments is below \<open>2 ^ 32\<close>, \<open>kcalloc\<close> gets what \<open>kmalloc\<close>
  gets for that many bytes, clears them, and disturbs no other block.\<close>

lemma kcalloc_clears:
  assumes "AuHeapInitialize m boot_heap = Some (h0, v)" "client_run kernel_ops h0 Map.empty h U"
    and "brk_current h + 131072 < 2 ^ 64" "n \<noteq> 0" "s \<noteq> 0" "unat (n * s) < 2 ^ 32"
    and "kcalloc n s h = Some (q, h')" "q \<noteq> 0"
  shows "U q = None \<and> client_run kernel_ops h0 Map.empty h' (U(q \<mapsto> unat (n * s))) \<and>
    (\<forall>x. 16 dvd x \<longrightarrow> q \<le> x \<longrightarrow> x + 8 \<le> q + unat (n * s) \<longrightarrow> hdr_size (tmem (the (g_kheap h')) x) = 0)"
proof -
  have inv: "kheap_inv h U"
    by (rule kernel.run_keeps [OF assms(2) booted(1) [OF assms(1)]])
  have room: "kheap_room h"
    using assms(3) by (simp add: kheap_room_def)
  let ?t = "unat (n * s)" and ?sz = "ucast (n * s) :: u32"
  have sz: "unat ?sz = ?t"
    using unat_ucast_small assms(6) .
  obtain q1 h1 where k: "kmalloc ?sz h = Some (q1, h1)"
    "if q1 = 0 then kheap_inv h1 U else U q1 = None \<and> kheap_inv h1 (U(q1 \<mapsto> ?t))"
    using kmalloc_ok [OF inv room, of ?sz] unfolding sz by blast
  have q: "q1 = q" "h' = kheap_mem (memset_blocks q ?t) h1"
    using assms(7,8) k(1) kcalloc_step [OF inv assms(4,5)] by (auto split: if_splits)
  have inv1: "kheap_inv h1 (U(q \<mapsto> ?t))" and none: "U q = None"
    using k(2) q(1) assms(8) by auto
  obtain p R where p: "g_kheap h1 = Some p" "heap_inv p (U(q \<mapsto> ?t)) R"
    using inv1 unfolding kheap_inv_def by blast
  have "16 \<le> q"
    using heap_inv_aligned(3) [OF p(2), of q ?t] by (simp add: KERNEL_VA_def)
  have "client_step kernel_ops h U h1 (gained q ?t U)"
  proof (rule client_step.allocate)
    have "(of_nat ?t :: u32) = ?sz"
      by (simp flip: sz)
    then show "op_alloc kernel_ops ?t h = Some (q, h1)"
      using k(1) q(1) by (simp add: kernel_ops_def)
  qed (use room assms(6) in \<open>simp_all add: kernel_ops_def\<close>)
  then have "client_run kernel_ops h0 Map.empty h1 (U(q \<mapsto> ?t))"
    using client_run.more [OF assms(2)] assms(8) by (simp add: gained_def)
  moreover have "client_step kernel_ops h1 (U(q \<mapsto> ?t))
      (op_store kernel_ops (memset_blocks q ?t (tmem p)) h1) (U(q \<mapsto> ?t))"
    using memset_outside [OF \<open>16 \<le> q\<close>] p(1) by (intro client_step.store [of _ q]) (simp_all add: kernel_ops_def)
  moreover have "op_store kernel_ops (memset_blocks q ?t (tmem p)) h1 = h'"
    using p(1) q(2) by (simp add: kernel_ops_def kheap_mem_def)
  ultimately have "client_run kernel_ops h0 Map.empty h' (U(q \<mapsto> ?t))"
    using client_run.more by metis
  moreover have "hdr_size (tmem (the (g_kheap h')) x) = 0"
    if "16 dvd x" "q \<le> x" "x + 8 \<le> q + ?t" for x
    using memset_header [OF that] p(1) q(2) by (simp add: kheap_mem_def)
  ultimately show ?thesis
    using none by blast
qed

text \<open>C37. When the product is \<open>2 ^ 32\<close> bytes or more, \<open>kmalloc\<close> is asked for the product modulo
  \<open>2 ^ 32\<close>, but all of it is cleared: the header behind the block, its own intact, is wiped.\<close>

theorem kcalloc_overflows:
  assumes "AuHeapInitialize m boot_heap = Some (h0, v)" "client_run kernel_ops h0 Map.empty h U"
    and "brk_current h + 131072 \<le> KERNEL_BASE_ADDRESS + 2 ^ 32"
    and "2 ^ 32 \<le> unat (n * s)" "kcalloc n s h = Some (q, h')" "q \<noteq> 0"
  shows "\<exists>p z. g_kheap h' = Some p \<and> blk_size (tmem p (q - 16)) = z \<and> 32 \<le> z \<and>
    blk_size (tmem p (q - 16 + z)) = 0"
proof -
  have inv: "kheap_inv h U"
    by (rule kernel.run_keeps [OF assms(2) booted(1) [OF assms(1)]])
  have room: "kheap_room h"
    using assms(3) by (simp add: kheap_room_def KERNEL_BASE_ADDRESS_def)
  let ?t = "unat (n * s)" and ?sz = "ucast (n * s) :: u32"
  have nz: "n \<noteq> 0" "s \<noteq> 0"
    using assms(4) by auto
  obtain q1 h1 where k: "kmalloc ?sz h = Some (q1, h1)"
    "if q1 = 0 then kheap_inv h1 U else U q1 = None \<and> kheap_inv h1 (U(q1 \<mapsto> unat ?sz))"
    using kmalloc_ok [OF inv room, of ?sz] by auto
  have q: "q1 = q" "h' = kheap_mem (memset_blocks q ?t) h1"
    using assms(5,6) k(1) kcalloc_step [OF inv nz] by (auto split: if_splits)
  then have inv1: "kheap_inv h1 (U(q \<mapsto> unat ?sz))"
    using k(2) assms(6) by auto
  obtain p R where p: "g_kheap h1 = Some p" "heap_inv p (U(q \<mapsto> unat ?sz)) R"
    "covered R \<subseteq> {KERNEL_BASE_ADDRESS..<brk_current h1}"
    using inv1 unfolding kheap_inv_def by blast
  have "brk_current h1 \<le> KERNEL_BASE_ADDRESS + 2 ^ 32"
    using kmalloc_brk [OF k(1)] assms(3) by linarith
  obtain z where z: "blk_size (tmem p (q - 16)) = z" "16 dvd z" "32 \<le> z" "{q - 16..<q - 16 + z} \<subseteq> covered R"
    "16 dvd q" "16 \<le> q"
    using heap_inv_block [OF p(2), of q "unat ?sz"] by auto
  have "{q - 16..<q - 16 + z} \<subseteq> {KERNEL_BASE_ADDRESS..<brk_current h1}"
    using z(4) p(3) by (rule order_trans)
  then have "q - 16 + z \<le> brk_current h1" "KERNEL_BASE_ADDRESS \<le> q - 16"
    using z(3) unfolding atLeastLessThan_subset_iff by auto
  then have "z \<le> 2 ^ 32"
    using \<open>brk_current h1 \<le> _\<close> by linarith
  then have "hdr_size (memset_blocks q ?t (tmem p) (q - 16 + z)) = 0"
    using z(2,3,5,6) assms(4) by (intro memset_header) auto
  moreover have "hdr_size (memset_blocks q ?t (tmem p) (q - 16)) = hdr_size (tmem p (q - 16))"
    using memset_outside [OF z(6)] by (simp add: owner_writes_def)
  ultimately show ?thesis
    using z(1,3) p(1) q(2) by (simp add: kheap_mem_def blk_size_def)
qed

section \<open>The theorems on the heap as it starts\<close>

lemma one_block:
  assumes "sz \<noteq> 0" "unat sz \<le> 129008"
  shows "\<exists>h0 h q. AuHeapInitialize no_mem boot_heap = Some (h0, Some True) \<and> kmalloc sz h0 = Some (q, h) \<and> q \<noteq> 0 \<and>
    client_run kernel_ops h0 Map.empty h [q \<mapsto> unat sz] \<and> brk_current h \<le> KERNEL_BASE_ADDRESS + 655360"
proof -
  obtain h0 where h0: "AuHeapInitialize no_mem boot_heap = Some (h0, Some True)" "kheap_inv h0 Map.empty"
    "brk_current h0 = KERNEL_BASE_ADDRESS + 524288"
    using AuHeapInitialize_ok by blast
  have "kheap_room h0"
    by (simp add: kheap_room_def h0(3) KERNEL_BASE_ADDRESS_def)
  then obtain q h where q: "kmalloc sz h0 = Some (q, h)" "q \<noteq> 0"
    using kmalloc_gives [OF h0(2) _ assms] by blast
  have "client_step kernel_ops h0 Map.empty h (gained q (unat sz) Map.empty)"
    using \<open>kheap_room h0\<close> q(1) assms by (intro client_step.allocate) (simp_all add: kernel_ops_def)
  then have "client_run kernel_ops h0 Map.empty h [q \<mapsto> unat sz]"
    using client_run.more [OF client_run.start] q(2) by (simp add: gained_def)
  moreover have "brk_current h \<le> KERNEL_BASE_ADDRESS + 655360"
    using kmalloc_brk [OF q(1)] h0(3) by simp
  ultimately show ?thesis
    using h0(1) q by blast
qed

theorem kernel_heap_separation_witness:
  "\<exists>h0 h q r. AuHeapInitialize no_mem boot_heap = Some (h0, Some True) \<and>
     client_run kernel_ops h0 Map.empty h [q \<mapsto> 64, r \<mapsto> 100] \<and> q \<noteq> r \<and>
     16 dvd q \<and> {q..<q + 64} \<inter> {r..<r + 100} = {}"
proof -
  obtain h0 h q where h: "AuHeapInitialize no_mem boot_heap = Some (h0, Some True)"
    "client_run kernel_ops h0 Map.empty h [q \<mapsto> 64]" "brk_current h \<le> KERNEL_BASE_ADDRESS + 655360"
    using one_block [of 64] by auto
  have room: "kheap_room h"
    using h(3) by (simp add: kheap_room_def KERNEL_BASE_ADDRESS_def)
  obtain r h' where r: "kmalloc 100 h = Some (r, h')" "r \<noteq> 0" "r \<noteq> q"
    using kmalloc_gives [OF kernel.run_keeps [OF h(2) booted(1) [OF h(1)]] room, of 100]
    by (auto split: if_splits)
  have "client_step kernel_ops h [q \<mapsto> 64] h' (gained r 100 [q \<mapsto> 64])"
    using room r(1) by (intro client_step.allocate) (simp_all add: kernel_ops_def)
  then have run: "client_run kernel_ops h0 Map.empty h' [q \<mapsto> 64, r \<mapsto> 100]"
    using client_run.more [OF h(2)] r(2) by (simp add: gained_def)
  then show ?thesis
    using kernel_heap_separation [OF h(1) run, of q 64] h(1) r(3) by (metis fun_upd_apply)
qed


lemma too_large:
  assumes inv: "heap_inv p U R" and R: "covered R \<subseteq> {l..<l + k}" and n: "k < n" "n \<le> 2 ^ 63"
  shows "tlsf_malloc n p = Some (0, p)"
proof -
  obtain q p' where q: "tlsf_malloc n p = Some (q, p')"
    "if q = 0 then p' = p else heap_inv p' (U(q \<mapsto> n)) R"
    using heap_inv_malloc [OF inv n(2)] by (metis (no_types, lifting))
  have "q = 0"
  proof (rule ccontr)
    assume "q \<noteq> 0"
    then have "{q..<q + n} \<subseteq> covered R"
      using heap_inv_aligned(2) [of p' "U(q \<mapsto> n)" R q n] q(2) by simp
    then have "{q..<q + n} \<subseteq> {l..<l + k}"
      using R by blast
    then show False
      using n(1) by (simp add: atLeastLessThan_subset_iff)
  qed
  then show ?thesis using q by simp
qed

theorem kmalloc_large_fails_witness:
  "\<exists>h0 p'. AuHeapInitialize no_mem boot_heap = Some (h0, Some True) \<and>
     kmalloc 0x100000 h0 = Some (0, \<lparr>g_kheap = Some p', brk_current = brk_current h0 + 131072\<rparr>) \<and>
     tlsf_malloc 0x100000 p' = Some (0, p')"
proof -
  obtain h0 where h0: "AuHeapInitialize no_mem boot_heap = Some (h0, Some True)" "kheap_inv h0 Map.empty"
    "brk_current h0 = KERNEL_BASE_ADDRESS + 524288"
    using AuHeapInitialize_ok by blast
  obtain p R where p: "g_kheap h0 = Some p" "heap_inv p Map.empty R"
    "covered R \<subseteq> {KERNEL_BASE_ADDRESS..<KERNEL_BASE_ADDRESS + 524288}"
    using h0(2,3) unfolding kheap_inv_def by auto
  have "tlsf_malloc (unat (0x100000 :: u32)) p = Some (0, p)"
    by (rule too_large [OF p(2,3)]) simp_all
  moreover have "brk_current h0 + 131072 < 2 ^ 64"
    by (simp add: h0(3) KERNEL_BASE_ADDRESS_def)
  ultimately show ?thesis
    using kmalloc_large_fails [OF h0(1) client_run.start _ _ p(1), of "0x100000"] h0(1) by auto
qed

theorem kernel_heap_accounting_witness:
  "\<exists>h0 h q. AuHeapInitialize no_mem boot_heap = Some (h0, Some True) \<and> kmalloc 64 h0 = Some (q, h) \<and>
     64 \<le> heap_used h"
proof -
  obtain h0 h q where h: "AuHeapInitialize no_mem boot_heap = Some (h0, Some True)"
    "kmalloc 64 h0 = Some (q, h)" "client_run kernel_ops h0 Map.empty h [q \<mapsto> 64]"
    using one_block [of 64] by auto
  then show ?thesis
    using kernel_heap_accounting [OF h(1,3)] by auto
qed

theorem kcalloc_overflows_witness:
  "\<exists>h0 q h p z. AuHeapInitialize no_mem boot_heap = Some (h0, Some True) \<and>
     kcalloc 0x100000040 1 h0 = Some (q, h) \<and> g_kheap h = Some p \<and>
     blk_size (tmem p (q - 16)) = z \<and> 32 \<le> z \<and> blk_size (tmem p (q - 16 + z)) = 0"
proof -
  obtain h0 h q where h: "AuHeapInitialize no_mem boot_heap = Some (h0, Some True)"
    "kmalloc 64 h0 = Some (q, h)" "q \<noteq> 0"
    using one_block [of 64] by auto
  have "unat (0x100000040 :: u32) = unat (64 :: u32)"
    by simp
  then have w: "(0x100000040 :: u32) = 64"
    by (simp only: word_unat_eq_iff)
  have c: "kcalloc 0x100000040 1 h0 = Some (q, kheap_mem (memset_blocks q (unat (0x100000040 :: u64))) h)"
    using kcalloc_step [OF booted(1) [OF h(1)], of "0x100000040" 1] h(2,3) w by simp
  have "brk_current h0 + 131072 \<le> KERNEL_BASE_ADDRESS + 2 ^ 32"
    using booted(3) [OF h(1)] by simp
  then show ?thesis
    using kcalloc_overflows [OF h(1) client_run.start _ _ c h(3)] h(1) c by auto
qed

end
