(* ===== verification/Pmm.thy ===== *)
theory Pmm
  imports Links "HOL-Library.Monad_Syntax"
begin

text \<open>
  The physical memory manager (KernelAA64/Mm/pmmngr.c): a buddy allocator over one descriptor
  per page, with reference counts on single pages, an account of pages per owner, and the set-up
  from the memory map of the boot loader. Pages are named by number; \<open>None\<close> stands for
  \<open>fatal\<close>, after which the code stops for good, and for an access outside its arrays. Each
  operation holds the manager's lock, so each is one step.
\<close>

section \<open>Data\<close>

definition PMM_MAX_ORDER :: nat where "PMM_MAX_ORDER = 32"
definition PMM_MAX_REGIONS :: nat where "PMM_MAX_REGIONS = 128"
definition PMM_MAX_RESERVATIONS :: nat where "PMM_MAX_RESERVATIONS = 1024"
definition PMM_NO_PAGE :: nat where "PMM_NO_PAGE = 2 ^ 64 - 1"
definition PMM_INVALID_PHYS :: nat where "PMM_INVALID_PHYS = 2 ^ 64 - 1"
definition PMM_OWNER_SLOTS :: nat where "PMM_OWNER_SLOTS = 256"
definition PMM_NO_OWNER_SLOT :: nat where "PMM_NO_OWNER_SLOT = 65535"
definition PMM_OWNER_KERNEL :: int where "PMM_OWNER_KERNEL = 0"
definition AURORA_PAGE_NORMAL :: nat where "AURORA_PAGE_NORMAL = 8"
definition PMM_PAGE_SIZE :: nat where "PMM_PAGE_SIZE = 4096"

datatype PmmPageState = PMM_PAGE_UNMANAGED | PMM_PAGE_RESERVED | PMM_PAGE_FREE_HEAD
  | PMM_PAGE_FREE_TAIL | PMM_PAGE_ALLOC_HEAD | PMM_PAGE_ALLOC_TAIL

record PmmPageDesc =
  pg_next :: nat
  pg_prev :: nat
  pg_owner :: nat
  backing_block :: int
  requested_pages :: nat
  pg_epoch :: u32
  refcount :: nat
  pg_order :: nat
  pg_state :: PmmPageState
  page_type :: nat
  owner_slot :: nat

record AuPmmStats =
  managed_pages :: nat
  free_pages :: nat
  allocated_pages :: nat
  reserved_pages :: nat
  unmanaged_pages :: nat

record PmmOwnerEntry =
  oid :: int
  opages :: nat
  in_use :: bool

record pmm =
  page_desc :: "nat \<Rightarrow> PmmPageDesc"
  total_pages :: nat
  free_head :: "nat \<Rightarrow> nat"
  pmm_stats :: AuPmmStats
  owner_table :: "PmmOwnerEntry list"
  validation_epoch :: u32
  direct_map_base :: u64
  higher_half :: bool

definition on_page :: "nat \<Rightarrow> (PmmPageDesc \<Rightarrow> PmmPageDesc) \<Rightarrow> pmm \<Rightarrow> pmm" where
  "on_page p f s = s\<lparr>page_desc := (page_desc s)(p := f (page_desc s p))\<rparr>"

text \<open>A loop that writes the \<open>n\<close> descriptors from \<open>h\<close> on; \<open>f\<close> is told the index.\<close>

definition on_pages :: "nat \<Rightarrow> nat \<Rightarrow> (nat \<Rightarrow> PmmPageDesc \<Rightarrow> PmmPageDesc) \<Rightarrow> pmm \<Rightarrow> pmm" where
  "on_pages h n f s =
     s\<lparr>page_desc := (\<lambda>p. if h \<le> p \<and> p < h + n then f (p - h) (page_desc s p) else page_desc s p)\<rparr>"

definition valid_page :: "pmm \<Rightarrow> nat \<Rightarrow> bool" where
  "valid_page s p \<longleftrightarrow> p < total_pages s"

definition power_of_two :: "nat \<Rightarrow> bool" where
  "power_of_two v \<longleftrightarrow> v \<noteq> 0 \<and> v AND (v - 1) = 0"

text \<open>The sum is 64 bits wide, and \<open>a\<close> a power of two.\<close>

definition align_up :: "nat \<Rightarrow> nat \<Rightarrow> nat" where
  "align_up v a = (v + a - 1) mod 2 ^ 64 div a * a"

section \<open>Accounts of owners\<close>

definition pmm_owner_slot_locked :: "int \<Rightarrow> pmm \<Rightarrow> nat \<times> pmm" where
  "pmm_owner_slot_locked i s =
     (case first_index (\<lambda>e. in_use e \<and> oid e = i) (owner_table s) of
        Some k \<Rightarrow> (k, s)
      | None \<Rightarrow>
          case first_index (\<lambda>e. \<not> in_use e) (owner_table s) of
            Some k \<Rightarrow> (k, s\<lparr>owner_table := (owner_table s)
              [k := (owner_table s ! k)\<lparr>in_use := True, oid := i, opages := 0\<rparr>]\<rparr>)
          | None \<Rightarrow>
              (case first_index (\<lambda>e. oid e = PMM_OWNER_KERNEL) (owner_table s) of
                 Some k \<Rightarrow> k | None \<Rightarrow> 0, s))"

definition pmm_owner_add_locked :: "nat \<Rightarrow> nat \<Rightarrow> pmm \<Rightarrow> pmm" where
  "pmm_owner_add_locked slot count s =
     (if slot < PMM_OWNER_SLOTS \<and> in_use (owner_table s ! slot)
      then s\<lparr>owner_table := (owner_table s)
             [slot := (owner_table s ! slot)\<lparr>opages := opages (owner_table s ! slot) + count\<rparr>]\<rparr>
      else s)"

definition pmm_owner_del_locked :: "nat \<Rightarrow> nat \<Rightarrow> pmm \<Rightarrow> pmm" where
  "pmm_owner_del_locked slot count s =
     (if slot < PMM_OWNER_SLOTS \<and> in_use (owner_table s ! slot)
      then let e = owner_table s ! slot
           in s\<lparr>owner_table := (owner_table s)
                [slot := e\<lparr>opages := (if opages e \<ge> count then opages e - count else 0)\<rparr>]\<rparr>
      else s)"

definition AuPmmOwnerPages :: "int \<Rightarrow> pmm \<Rightarrow> nat" where
  "AuPmmOwnerPages i s =
     (case first_index (\<lambda>e. in_use e \<and> oid e = i) (owner_table s) of
        None \<Rightarrow> 0 | Some k \<Rightarrow> opages (owner_table s ! k))"

section \<open>Free blocks\<close>

fun floor_order :: "nat \<Rightarrow> nat" where
  "floor_order pages = (if pages \<le> 1 then 0 else Suc (floor_order (pages div 2)))"

declare floor_order.simps [simp del]

function order_from :: "nat \<Rightarrow> nat \<Rightarrow> nat \<Rightarrow> nat" where
  "order_from pages sz order =
     (if sz < pages \<and> order < PMM_MAX_ORDER then order_from pages (2 * sz) (Suc order) else order)"
  by auto
termination by (relation "measure (\<lambda>(_, _, order). PMM_MAX_ORDER - order)") auto

declare order_from.simps [simp del]

definition order_for_pages :: "nat \<Rightarrow> nat" where
  "order_for_pages pages = order_from pages 1 0"

definition mark_free_block :: "nat \<Rightarrow> nat \<Rightarrow> pmm \<Rightarrow> pmm option" where
  "mark_free_block head order s =
     (let count = 2 ^ order
      in if \<not> valid_page s head \<or> count > total_pages s - head then None
         else Some (on_pages head count (\<lambda>i d.
           d\<lparr>pg_next := PMM_NO_PAGE, pg_prev := PMM_NO_PAGE, pg_owner := head,
             requested_pages := 0, refcount := 0, pg_order := order,
             owner_slot := PMM_NO_OWNER_SLOT,
             pg_state := (if i \<noteq> 0 then PMM_PAGE_FREE_TAIL else PMM_PAGE_FREE_HEAD),
             page_type := 0\<rparr>) s))"

text \<open>The test that both list operations make; the heads are an array of \<open>PMM_MAX_ORDER + 1\<close>.\<close>

definition is_free_head :: "nat \<Rightarrow> nat \<Rightarrow> pmm \<Rightarrow> bool" where
  "is_free_head head order s \<longleftrightarrow> pg_state (page_desc s head) = PMM_PAGE_FREE_HEAD \<and>
     pg_owner (page_desc s head) = head \<and> pg_order (page_desc s head) = order"

definition set_head :: "nat \<Rightarrow> nat \<Rightarrow> pmm \<Rightarrow> pmm" where
  "set_head order p s = s\<lparr>free_head := (free_head s)(order := p)\<rparr>"

definition list_insert :: "nat \<Rightarrow> nat \<Rightarrow> pmm \<Rightarrow> pmm option" where
  "list_insert head order s =
     (if \<not> is_free_head head order s \<or> order > PMM_MAX_ORDER then None
      else
        let nx = free_head s order;
            s = on_page head (\<lambda>d. d\<lparr>pg_prev := PMM_NO_PAGE, pg_next := nx\<rparr>) s
        in if nx \<noteq> PMM_NO_PAGE
           then if \<not> valid_page s nx then None
                else Some (set_head order head (on_page nx (\<lambda>d. d\<lparr>pg_prev := head\<rparr>) s))
           else Some (set_head order head s))"

definition list_remove :: "nat \<Rightarrow> nat \<Rightarrow> pmm \<Rightarrow> pmm option" where
  "list_remove head order s =
     (if \<not> is_free_head head order s \<or> order > PMM_MAX_ORDER then None
      else
        let pv = pg_prev (page_desc s head); nx = pg_next (page_desc s head)
        in do {
          s \<leftarrow> (if pv = PMM_NO_PAGE
               then if free_head s order \<noteq> head then None else Some (set_head order nx s)
               else if \<not> valid_page s pv \<or> pg_next (page_desc s pv) \<noteq> head then None
               else Some (on_page pv (\<lambda>d. d\<lparr>pg_next := nx\<rparr>) s));
          s \<leftarrow> (if nx \<noteq> PMM_NO_PAGE
               then if \<not> valid_page s nx \<or> pg_prev (page_desc s nx) \<noteq> head then None
                    else Some (on_page nx (\<lambda>d. d\<lparr>pg_prev := pv\<rparr>) s)
               else Some s);
          Some (on_page head (\<lambda>d. d\<lparr>pg_next := PMM_NO_PAGE, pg_prev := PMM_NO_PAGE\<rparr>) s)
        })"

fun align_order :: "nat \<Rightarrow> nat \<Rightarrow> nat" where
  "align_order lo 0 = 0"
| "align_order lo (Suc order) =
     (if lo AND (2 ^ Suc order - 1) \<noteq> 0 then align_order lo order else Suc order)"

function add_free_range :: "nat \<Rightarrow> nat \<Rightarrow> pmm \<Rightarrow> pmm option" where
  "add_free_range lo hi s =
     (if lo < hi
      then let order = align_order lo (floor_order (hi - lo))
           in do {
             s \<leftarrow> mark_free_block lo order s;
             s \<leftarrow> list_insert lo order s;
             add_free_range (lo + 2 ^ order) hi s
           }
      else Some s)"
  by auto
termination
  by (relation "measure (\<lambda>(lo, hi, _). hi - lo)") (auto intro!: diff_less_mono2)

declare add_free_range.simps [simp del]

definition mark_allocated :: "nat \<Rightarrow> nat \<Rightarrow> nat \<Rightarrow> nat \<Rightarrow> nat \<Rightarrow> pmm \<Rightarrow> pmm" where
  "mark_allocated head order requested type slot s =
     (let count = 2 ^ order;
          s = on_pages head count (\<lambda>i d.
            d\<lparr>pg_next := PMM_NO_PAGE, pg_prev := PMM_NO_PAGE, pg_owner := head,
              backing_block := -1, requested_pages := 0, refcount := 1, pg_order := order,
              pg_state := (if i \<noteq> 0 then PMM_PAGE_ALLOC_TAIL else PMM_PAGE_ALLOC_HEAD),
              page_type := type\<rparr>) s
      in on_page head (\<lambda>d. d\<lparr>requested_pages := requested, owner_slot := slot\<rparr>) s)"

text \<open>\<open>take_block\<close>: the walk along one list, the halving of the block found, and the orders.\<close>

partial_function (option) scan_free :: "pmm \<Rightarrow> nat \<Rightarrow> nat \<Rightarrow> nat \<Rightarrow> nat option" where
  "scan_free s wanted ceiling head =
     (if head = PMM_NO_PAGE then Some PMM_NO_PAGE
      else if \<not> valid_page s head then None
      else
        let end_phys = (head + 2 ^ wanted) * PMM_PAGE_SIZE - 1
        in if ceiling \<noteq> 0 \<and> end_phys > ceiling
           then scan_free s wanted ceiling (pg_next (page_desc s head))
           else Some head)"

fun split_block :: "nat \<Rightarrow> nat \<Rightarrow> nat \<Rightarrow> pmm \<Rightarrow> pmm option" where
  "split_block head 0 wanted s = Some s"
| "split_block head (Suc order) wanted s =
     (if Suc order > wanted
      then let right = head + 2 ^ order
           in do {
             s \<leftarrow> mark_free_block right order s;
             s \<leftarrow> list_insert right order s;
             s \<leftarrow> mark_free_block head order s;
             split_block head order wanted s
           }
      else Some s)"

function take_from :: "nat \<Rightarrow> nat \<Rightarrow> nat \<Rightarrow> pmm \<Rightarrow> (nat \<times> pmm) option" where
  "take_from wanted ceiling order s =
     (if order \<le> PMM_MAX_ORDER
      then do {
        head \<leftarrow> scan_free s wanted ceiling (free_head s order);
        if head \<noteq> PMM_NO_PAGE
        then do {
          s \<leftarrow> list_remove head order s;
          s \<leftarrow> split_block head order wanted s;
          Some (head, s)
        }
        else take_from wanted ceiling (Suc order) s
      }
      else Some (PMM_NO_PAGE, s))"
  by auto
termination by (relation "measure (\<lambda>(_, _, order, _). Suc PMM_MAX_ORDER - order)") auto

declare take_from.simps [simp del]

definition take_block :: "nat \<Rightarrow> nat \<Rightarrow> nat \<Rightarrow> pmm \<Rightarrow> (nat \<times> pmm) option" where
  "take_block wanted alignment ceiling s =
     (let aorder = order_for_pages alignment
      in take_from wanted ceiling (if wanted > aorder then wanted else aorder) s)"

function merge_up :: "nat \<Rightarrow> nat \<Rightarrow> pmm \<Rightarrow> (nat \<times> nat \<times> pmm) option" where
  "merge_up head order s =
     (if order < PMM_MAX_ORDER
      then let buddy = head XOR 2 ^ order
           in if \<not> valid_page s buddy then Some (head, order, s)
              else if \<not> is_free_head buddy order s then Some (head, order, s)
              else do {
                s \<leftarrow> list_remove buddy order s;
                let head = (if buddy < head then buddy else head);
                let order = Suc order;
                s \<leftarrow> mark_free_block head order s;
                merge_up head order s
              }
      else Some (head, order, s))"
  by auto
termination by (relation "measure (\<lambda>(_, order, _). PMM_MAX_ORDER - order)") auto

declare merge_up.simps [simp del]

definition release_block :: "nat \<Rightarrow> nat \<Rightarrow> pmm \<Rightarrow> pmm option" where
  "release_block head order s = do {
     s \<leftarrow> mark_free_block head order s;
     (head, order, s) \<leftarrow> merge_up head order s;
     list_insert head order s
   }"

section \<open>Allocation, release and reference counts\<close>

definition AuPmmngrAllocPagesForOwner ::
  "nat \<Rightarrow> nat \<Rightarrow> nat \<Rightarrow> nat \<Rightarrow> int \<Rightarrow> pmm \<Rightarrow> (nat \<times> pmm) option"
where
  "AuPmmngrAllocPagesForOwner pages alignment ceiling type owner s =
     (if pages = 0 then Some (PMM_INVALID_PHYS, s)
      else
        let alignment = (if alignment = 0 then 1 else alignment)
        in if \<not> power_of_two alignment then Some (PMM_INVALID_PHYS, s)
           else
             let order = order_for_pages pages
             in if order > PMM_MAX_ORDER then Some (PMM_INVALID_PHYS, s)
                else do {
                  (head, s) \<leftarrow> take_block order alignment ceiling s;
                  if head \<noteq> PMM_NO_PAGE
                  then
                    let count = 2 ^ order;
                        (slot, s) = pmm_owner_slot_locked owner s;
                        s = mark_allocated head order pages
                              (if type \<noteq> 0 then type else AURORA_PAGE_NORMAL) slot s;
                        s = pmm_owner_add_locked slot count s;
                        st = pmm_stats s
                    in Some (head * PMM_PAGE_SIZE,
                         s\<lparr>pmm_stats := st\<lparr>free_pages := free_pages st - count,
                                          allocated_pages := allocated_pages st + count\<rparr>\<rparr>)
                  else Some (PMM_INVALID_PHYS, s)
                })"

definition AuPmmngrAllocPages :: "nat \<Rightarrow> nat \<Rightarrow> nat \<Rightarrow> nat \<Rightarrow> pmm \<Rightarrow> (nat \<times> pmm) option" where
  "AuPmmngrAllocPages pages alignment ceiling type s =
     AuPmmngrAllocPagesForOwner pages alignment ceiling type PMM_OWNER_KERNEL s"

definition AuPmmngrAllocPageForOwner :: "nat \<Rightarrow> int \<Rightarrow> pmm \<Rightarrow> (nat \<times> pmm) option" where
  "AuPmmngrAllocPageForOwner type owner s = AuPmmngrAllocPagesForOwner 1 1 0 type owner s"

definition AuPmmngrAllocPage :: "nat \<Rightarrow> pmm \<Rightarrow> (nat \<times> pmm) option" where
  "AuPmmngrAllocPage type s = AuPmmngrAllocPagesForOwner 1 1 0 type PMM_OWNER_KERNEL s"

text \<open>The test at the head of the operations on an address.\<close>

definition bad_phys :: "nat \<Rightarrow> pmm \<Rightarrow> bool" where
  "bad_phys phys s \<longleftrightarrow> phys mod PMM_PAGE_SIZE \<noteq> 0 \<or> \<not> valid_page s (phys div PMM_PAGE_SIZE)"

definition give_back :: "nat \<Rightarrow> pmm \<Rightarrow> pmm" where
  "give_back count s =
     (let st = pmm_stats s
      in s\<lparr>pmm_stats := st\<lparr>free_pages := free_pages st + count,
                          allocated_pages := allocated_pages st - count\<rparr>\<rparr>)"

definition AuPmmngrReleasePage :: "nat \<Rightarrow> pmm \<Rightarrow> (bool \<times> pmm) option" where
  "AuPmmngrReleasePage phys s =
     (if bad_phys phys s then Some (False, s)
      else
        let page = phys div PMM_PAGE_SIZE; d = page_desc s page
        in if pg_state d = PMM_PAGE_ALLOC_HEAD \<and> pg_owner d = page \<and> pg_order d = 0 \<and>
              requested_pages d = 1 \<and> refcount d \<noteq> 0
           then
             let s = on_page page (\<lambda>d. d\<lparr>refcount := refcount d - 1\<rparr>) s
             in if refcount (page_desc s page) = 0
                then do {
                  let slot = owner_slot (page_desc s page);
                  s \<leftarrow> release_block page 0 s;
                  Some (True, give_back 1 (pmm_owner_del_locked slot 1 s))
                }
                else Some (True, s)
           else Some (False, s))"

definition AuPmmngrReleasePages :: "nat \<Rightarrow> pmm \<Rightarrow> (bool \<times> pmm) option" where
  "AuPmmngrReleasePages phys s =
     (if bad_phys phys s then Some (False, s)
      else
        let head = phys div PMM_PAGE_SIZE; d = page_desc s head
        in if pg_state d = PMM_PAGE_ALLOC_HEAD \<and> pg_owner d = head \<and> requested_pages d \<noteq> 0
           then
             let count = 2 ^ pg_order d
             in if \<forall>i \<in> {..<count}. refcount (page_desc s (head + i)) = 1
                then do {
                  let slot = owner_slot d;
                  s \<leftarrow> release_block head (pg_order d) s;
                  Some (True, give_back count (pmm_owner_del_locked slot count s))
                }
                else Some (False, s)
           else Some (False, s))"

definition AuPmmngrRetainPage :: "nat \<Rightarrow> pmm \<Rightarrow> bool \<times> pmm" where
  "AuPmmngrRetainPage phys s =
     (if bad_phys phys s then (False, s)
      else
        let page = phys div PMM_PAGE_SIZE; d = page_desc s page
        in if pg_state d = PMM_PAGE_ALLOC_HEAD \<and> pg_owner d = page \<and> pg_order d = 0 \<and>
              refcount d \<noteq> 65535
           then (True, on_page page (\<lambda>d. d\<lparr>refcount := refcount d + 1\<rparr>) s)
           else (False, s))"

definition AuPmmngrPageRefcount :: "nat \<Rightarrow> pmm \<Rightarrow> nat" where
  "AuPmmngrPageRefcount phys s =
     (if bad_phys phys s then 0
      else let d = page_desc s (phys div PMM_PAGE_SIZE)
           in if pg_state d = PMM_PAGE_ALLOC_HEAD \<and> pg_order d = 0 then refcount d else 0)"

definition AuPmmngrSetBackingBlock :: "nat \<Rightarrow> int \<Rightarrow> pmm \<Rightarrow> bool \<times> pmm" where
  "AuPmmngrSetBackingBlock phys block s =
     (if bad_phys phys s then (False, s)
      else
        let page = phys div PMM_PAGE_SIZE; d = page_desc s page
        in if pg_state d = PMM_PAGE_ALLOC_HEAD \<and> pg_order d = 0
           then (True, on_page page (\<lambda>d. d\<lparr>backing_block := block\<rparr>) s)
           else (False, s))"

definition AuPmmngrGetBackingBlock :: "nat \<Rightarrow> pmm \<Rightarrow> int" where
  "AuPmmngrGetBackingBlock phys s =
     (if bad_phys phys s then -1
      else let d = page_desc s (phys div PMM_PAGE_SIZE)
           in if pg_state d = PMM_PAGE_ALLOC_HEAD \<and> pg_order d = 0 then backing_block d else -1)"

definition AuPmmngrGetStats :: "pmm \<Rightarrow> AuPmmStats" where
  "AuPmmngrGetStats s = pmm_stats s"

definition AuPmmngrAllocCheck :: "nat \<Rightarrow> pmm \<Rightarrow> bool" where
  "AuPmmngrAllocCheck address s =
     (let page = address div PMM_PAGE_SIZE
      in valid_page s page \<and>
         (pg_state (page_desc s page) = PMM_PAGE_ALLOC_HEAD \<or>
          pg_state (page_desc s page) = PMM_PAGE_ALLOC_TAIL))"

definition P2V :: "u64 \<Rightarrow> pmm \<Rightarrow> u64" where
  "P2V addr s = (if higher_half s then direct_map_base s + addr else addr)"

definition V2P :: "u64 \<Rightarrow> pmm \<Rightarrow> u64" where
  "V2P addr s = (if higher_half s then addr - direct_map_base s else addr)"

definition PHYSICAL_MEM_BASE :: u64 where "PHYSICAL_MEM_BASE = 0xFFFF800000000000"

text \<open>The pointers that move with it, to the descriptors and to the boot information, are left out.\<close>

definition AuPmmngrMoveHigher :: "pmm \<Rightarrow> pmm" where
  "AuPmmngrMoveHigher s =
     (if higher_half s then s
      else s\<lparr>direct_map_base := PHYSICAL_MEM_BASE, higher_half := True\<rparr>)"

section \<open>The consistency check\<close>

definition tally :: "PmmPageState \<Rightarrow> AuPmmStats \<Rightarrow> AuPmmStats" where
  "tally st c =
     (case st of
        PMM_PAGE_UNMANAGED \<Rightarrow> c\<lparr>unmanaged_pages := Suc (unmanaged_pages c)\<rparr>
      | PMM_PAGE_RESERVED \<Rightarrow> c\<lparr>reserved_pages := Suc (reserved_pages c), managed_pages := Suc (managed_pages c)\<rparr>
      | PMM_PAGE_FREE_HEAD \<Rightarrow> c\<lparr>free_pages := Suc (free_pages c), managed_pages := Suc (managed_pages c)\<rparr>
      | PMM_PAGE_FREE_TAIL \<Rightarrow> c\<lparr>free_pages := Suc (free_pages c), managed_pages := Suc (managed_pages c)\<rparr>
      | PMM_PAGE_ALLOC_HEAD \<Rightarrow> c\<lparr>allocated_pages := Suc (allocated_pages c), managed_pages := Suc (managed_pages c)\<rparr>
      | PMM_PAGE_ALLOC_TAIL \<Rightarrow> c\<lparr>allocated_pages := Suc (allocated_pages c), managed_pages := Suc (managed_pages c)\<rparr>)"

definition no_pages :: AuPmmStats where
  "no_pages = \<lparr>managed_pages = 0, free_pages = 0, allocated_pages = 0, reserved_pages = 0,
     unmanaged_pages = 0\<rparr>"

definition recount :: "pmm \<Rightarrow> pmm" where
  "recount s = s\<lparr>pmm_stats := fold (\<lambda>p. tally (pg_state (page_desc s p))) [0..<total_pages s] no_pages\<rparr>"

partial_function (option) validate_list ::
  "nat \<Rightarrow> nat \<Rightarrow> nat \<Rightarrow> nat \<Rightarrow> pmm \<Rightarrow> (bool \<times> nat \<times> pmm) option"
where
  "validate_list order previous head listed s =
     (if head = PMM_NO_PAGE then Some (True, listed, s)
      else if \<not> valid_page s head then Some (False, listed, s)
      else
        let d = page_desc s head
        in if pg_epoch d = validation_epoch s \<or> pg_state d \<noteq> PMM_PAGE_FREE_HEAD \<or>
              pg_owner d \<noteq> head \<or> pg_order d \<noteq> order \<or> pg_prev d \<noteq> previous \<or>
              head AND (2 ^ order - 1) \<noteq> 0
           then Some (False, listed, s)
           else validate_list order head (pg_next d) (listed + 2 ^ order)
                  (on_page head (\<lambda>d. d\<lparr>pg_epoch := validation_epoch s\<rparr>) s))"

fun validate_lists :: "nat list \<Rightarrow> nat \<Rightarrow> pmm \<Rightarrow> (bool \<times> nat \<times> pmm) option" where
  "validate_lists [] listed s = Some (True, listed, s)"
| "validate_lists (order # orders) listed s = do {
     (ok, listed, s) \<leftarrow> validate_list order PMM_NO_PAGE (free_head s order) listed s;
     if ok then validate_lists orders listed s else Some (False, listed, s)
   }"

definition validate_page :: "pmm \<Rightarrow> nat \<Rightarrow> bool" where
  "validate_page s p =
     (let d = page_desc s p; ow = page_desc s (pg_owner d)
      in case pg_state d of
           PMM_PAGE_UNMANAGED \<Rightarrow> True
         | PMM_PAGE_RESERVED \<Rightarrow> True
         | PMM_PAGE_FREE_HEAD \<Rightarrow> pg_owner d = p \<and> pg_epoch d = validation_epoch s
         | PMM_PAGE_FREE_TAIL \<Rightarrow> valid_page s (pg_owner d) \<and> pg_state ow = PMM_PAGE_FREE_HEAD \<and>
             pg_order ow = pg_order d
         | PMM_PAGE_ALLOC_HEAD \<Rightarrow> pg_owner d = p \<and> requested_pages d \<noteq> 0 \<and> refcount d \<noteq> 0
         | PMM_PAGE_ALLOC_TAIL \<Rightarrow> valid_page s (pg_owner d) \<and> pg_state ow = PMM_PAGE_ALLOC_HEAD \<and>
             pg_order ow = pg_order d)"

fun validate_pages :: "pmm \<Rightarrow> nat list \<Rightarrow> AuPmmStats \<Rightarrow> bool \<times> AuPmmStats" where
  "validate_pages s [] c = (True, c)"
| "validate_pages s (p # ps) c =
     (let c = tally (pg_state (page_desc s p)) c
      in if validate_page s p then validate_pages s ps c else (False, c))"

definition AuPmmngrValidate :: "pmm \<Rightarrow> (bool \<times> pmm) option" where
  "AuPmmngrValidate s =
     (let epoch = validation_epoch s + 1;
          s = (if epoch = 0
               then on_pages 0 (total_pages s) (\<lambda>_ d. d\<lparr>pg_epoch := 0\<rparr>) s\<lparr>validation_epoch := 1\<rparr>
               else s\<lparr>validation_epoch := epoch\<rparr>)
      in do {
        (ok, listed, s) \<leftarrow> validate_lists [0..<Suc PMM_MAX_ORDER] 0 s;
        let (ok, c) = (if ok then validate_pages s [0..<total_pages s] no_pages else (False, no_pages));
        let st = pmm_stats s;
        Some (ok \<and> listed = free_pages c \<and> managed_pages c = managed_pages st \<and>
              free_pages c = free_pages st \<and> allocated_pages c = allocated_pages st \<and>
              reserved_pages c = reserved_pages st \<and> unmanaged_pages c = unmanaged_pages st \<and>
              free_pages c + allocated_pages c + reserved_pages c = managed_pages c, s)
      })"

section \<open>Set-up from the memory map\<close>

type_synonym PmmRange = "nat \<times> nat"

record EFI_MEMORY_DESCRIPTOR =
  efi_type :: nat
  phys_start :: nat
  num_pages :: nat

record AuLittleBootProtocol =
  initrd_start :: nat
  initrd_end :: nat
  device_tree_base :: nat
  device_tree_end :: nat
  littleBootStart :: nat
  littleBootEnd :: nat
  usable_regions :: "(nat \<times> nat) list"

text \<open>
  The boot information: the descriptors of the memory map, or the protocol structure of
  LittleBoot; the addresses that the loop over the allocation stack reads, none for a null
  stack; and the direct map. A region is its base and its number of pages.
\<close>

record boot_info =
  is_littleboot :: bool
  littleboot :: "AuLittleBootProtocol option"
  efi_map :: "EFI_MEMORY_DESCRIPTOR list"
  stack_entries :: "nat list"
  physical_direct_map_base :: u64
  physical_direct_map_size :: nat

definition add_reservation :: "nat \<Rightarrow> nat \<Rightarrow> PmmRange list \<Rightarrow> PmmRange list option" where
  "add_reservation lo hi res =
     (if lo \<ge> hi then Some res
      else if length res = PMM_MAX_RESERVATIONS then None
      else Some (res @ [(lo, hi)]))"

text \<open>\<open>normalize\<close>: insertion sort by the first page, then joining of what overlaps or touches.\<close>

definition insert_range :: "PmmRange list \<Rightarrow> PmmRange \<Rightarrow> PmmRange list" where
  "insert_range rs key =
     (let larger = (\<lambda>r. fst r > fst key)
      in rev (dropWhile larger (rev rs)) @ key # rev (takeWhile larger (rev rs)))"

definition join_range :: "PmmRange list \<Rightarrow> PmmRange \<Rightarrow> PmmRange list" where
  "join_range out r =
     (if out \<noteq> [] \<and> fst r \<le> snd (last out)
      then if snd r > snd (last out) then butlast out @ [(fst (last out), snd r)] else out
      else out @ [r])"

definition normalize :: "PmmRange list \<Rightarrow> PmmRange list" where
  "normalize rs = foldl join_range [] (foldl insert_range [] rs)"

fun collect_uefi :: "EFI_MEMORY_DESCRIPTOR list \<Rightarrow> PmmRange list \<Rightarrow> nat \<Rightarrow> (PmmRange list \<times> nat) option" where
  "collect_uefi [] usable highest = Some (usable, highest)"
| "collect_uefi (m # ms) usable highest =
     (let fin = (phys_start m + num_pages m * PMM_PAGE_SIZE) mod 2 ^ 64;
          highest = (if efi_type m \<le> 7 \<and> fin > highest then fin else highest)
      in if efi_type m = 7 \<and> num_pages m \<noteq> 0
         then if length usable = PMM_MAX_REGIONS then None
              else collect_uefi ms
                     (usable @ [(phys_start m div PMM_PAGE_SIZE, fin div PMM_PAGE_SIZE)]) highest
         else collect_uefi ms usable highest)"

fun collect_regions :: "(nat \<times> nat) list \<Rightarrow> PmmRange list \<Rightarrow> nat \<Rightarrow> (PmmRange list \<times> nat) option" where
  "collect_regions [] usable highest = Some (usable, highest)"
| "collect_regions ((base, pages) # rs) usable highest =
     (if length usable = PMM_MAX_REGIONS then None
      else
        let lo = base div PMM_PAGE_SIZE; hi = (lo + pages) mod 2 ^ 64;
            end_phys = hi * PMM_PAGE_SIZE mod 2 ^ 64
        in collect_regions rs (usable @ [(lo, hi)])
             (if end_phys > highest then end_phys else highest))"

definition collect_littleboot ::
  "boot_info \<Rightarrow> PmmRange list \<Rightarrow> nat \<Rightarrow> PmmRange list \<Rightarrow> (PmmRange list \<times> nat \<times> PmmRange list) option"
where
  "collect_littleboot info usable highest res =
     (case littleboot info of None \<Rightarrow> None
      | Some lb \<Rightarrow> do {
          (usable, highest) \<leftarrow> collect_regions (usable_regions lb) usable highest;
          res \<leftarrow> add_reservation 0 (0x100000 div PMM_PAGE_SIZE) res;
          res \<leftarrow> add_reservation (device_tree_base lb div PMM_PAGE_SIZE)
                   (align_up (device_tree_end lb) PMM_PAGE_SIZE div PMM_PAGE_SIZE) res;
          res \<leftarrow> add_reservation (initrd_start lb div PMM_PAGE_SIZE)
                   (align_up (initrd_end lb) PMM_PAGE_SIZE div PMM_PAGE_SIZE) res;
          res \<leftarrow> add_reservation (littleBootStart lb div PMM_PAGE_SIZE)
                   (align_up (littleBootEnd lb) PMM_PAGE_SIZE div PMM_PAGE_SIZE) res;
          Some (usable, highest, res)
        })"

fun reserve_stack :: "nat list \<Rightarrow> PmmRange list \<Rightarrow> PmmRange list option" where
  "reserve_stack [] res = Some res"
| "reserve_stack (a # as) res =
     Option.bind (add_reservation (a div PMM_PAGE_SIZE) (a div PMM_PAGE_SIZE + 1) res) (reserve_stack as)"

text \<open>The gaps that the reservations leave in one usable range, from \<open>current\<close> on.\<close>

fun gap_in :: "PmmRange list \<Rightarrow> nat \<Rightarrow> nat \<Rightarrow> nat \<Rightarrow> nat option" where
  "gap_in [] current hi pages =
     (if hi > current \<and> hi - current \<ge> pages then Some current else None)"
| "gap_in (r # rs) current hi pages =
     (if \<not> current < hi then None
      else if snd r \<le> current then gap_in rs current hi pages
      else if fst r \<ge> hi
      then if hi > current \<and> hi - current \<ge> pages then Some current else None
      else if fst r > current \<and> fst r - current \<ge> pages then Some current
      else gap_in rs (if snd r > current then snd r else current) hi pages)"

fun find_metadata :: "nat \<Rightarrow> PmmRange list \<Rightarrow> PmmRange list \<Rightarrow> nat option" where
  "find_metadata pages [] res = None"
| "find_metadata pages (u # us) res =
     (case gap_in res (fst u) (snd u) pages of
        Some p \<Rightarrow> Some p | None \<Rightarrow> find_metadata pages us res)"

fun usable_gaps :: "PmmRange list \<Rightarrow> nat \<Rightarrow> nat \<Rightarrow> pmm \<Rightarrow> pmm option" where
  "usable_gaps [] current hi s = (if current < hi then add_free_range current hi s else Some s)"
| "usable_gaps (r # rs) current hi s =
     (if \<not> current < hi then Some s
      else if snd r \<le> current then usable_gaps rs current hi s
      else if fst r \<ge> hi then add_free_range current hi s
      else do {
        s \<leftarrow> (if fst r > current
             then add_free_range current (if fst r < hi then fst r else hi) s else Some s);
        usable_gaps rs (if snd r > current then snd r else current) hi s
      })"

definition add_usable_minus_reservations :: "PmmRange list \<Rightarrow> PmmRange \<Rightarrow> pmm \<Rightarrow> pmm option" where
  "add_usable_minus_reservations res u s = usable_gaps res (fst u) (snd u) s"

fun add_all_usable :: "PmmRange list \<Rightarrow> PmmRange list \<Rightarrow> pmm \<Rightarrow> pmm option" where
  "add_all_usable res [] s = Some s"
| "add_all_usable res (u # us) s =
     Option.bind (add_usable_minus_reservations res u s) (add_all_usable res us)"

text \<open>A descriptor after the loop that follows the clearing of the table.\<close>

definition fresh_desc :: PmmPageDesc where
  "fresh_desc = \<lparr>pg_next = PMM_NO_PAGE, pg_prev = PMM_NO_PAGE, pg_owner = PMM_NO_PAGE,
     backing_block = -1, requested_pages = 0, pg_epoch = 0, refcount = 0, pg_order = 0,
     pg_state = PMM_PAGE_UNMANAGED, page_type = 0, owner_slot = 0\<rparr>"

definition reserve_usable :: "PmmRange \<Rightarrow> pmm \<Rightarrow> pmm" where
  "reserve_usable u s =
     on_pages (fst u) (snd u - fst u) (\<lambda>_ d. d\<lparr>pg_state := PMM_PAGE_RESERVED\<rparr>) s"

definition PMM_DESC_SIZE :: nat where "PMM_DESC_SIZE = 48"

text \<open>
  The set-up up to the descriptors: the usable and the reserved ranges, the number of pages, and
  the first page of the descriptors.
\<close>

definition boot_ranges :: "boot_info \<Rightarrow> (PmmRange list \<times> nat \<times> PmmRange list) option" where
  "boot_ranges info = do {
     (usable, highest, res) \<leftarrow>
       (if is_littleboot info then collect_littleboot info [] 0 []
        else Option.bind (collect_uefi (efi_map info) [] 0) (\<lambda>(usable, highest). Some (usable, highest, [])));
     let usable = normalize usable;
     if usable = [] \<or> highest = 0 then None
     else do {
       res \<leftarrow> add_reservation 0 (0x100000 div PMM_PAGE_SIZE) res;
       res \<leftarrow> reserve_stack (stack_entries info) res;
       Some (usable, align_up highest PMM_PAGE_SIZE div PMM_PAGE_SIZE, normalize res)
     }
   }"

definition metadata_size :: "nat \<Rightarrow> nat" where
  "metadata_size npages = align_up (npages * PMM_DESC_SIZE) PMM_PAGE_SIZE div PMM_PAGE_SIZE"

definition boot_layout :: "boot_info \<Rightarrow> (PmmRange list \<times> nat \<times> PmmRange list \<times> nat) option" where
  "boot_layout info = do {
     (usable, npages, res) \<leftarrow> boot_ranges info;
     let metadata_pages = metadata_size npages;
     metadata_start \<leftarrow> find_metadata metadata_pages usable res;
     res \<leftarrow> add_reservation metadata_start (metadata_start + metadata_pages) res;
     let dms = physical_direct_map_size info;
     if dms \<noteq> 0 \<and> (metadata_start + metadata_pages) * PMM_PAGE_SIZE > dms then None
     else Some (usable, npages, normalize res, metadata_start)
   }"

text \<open>
  The boot self-tests are left out. They are sequences of the calls below that release all they
  obtain; what they leave behind, the owner slots of 0 and -9871 in use and a larger epoch, is
  among the states that any sequence of calls may leave.
\<close>

definition AuPmmngrInitialize :: "boot_info \<Rightarrow> pmm \<Rightarrow> pmm option" where
  "AuPmmngrInitialize info s = do {
     (usable, npages, res, metadata_start) \<leftarrow> boot_layout info;
     let s = s\<lparr>page_desc := (\<lambda>_. fresh_desc), total_pages := npages,
                free_head := (\<lambda>_. PMM_NO_PAGE), validation_epoch := 0,
                direct_map_base := physical_direct_map_base info,
                higher_half := physical_direct_map_size info \<noteq> 0\<rparr>;
     let s = fold reserve_usable usable s;
     s \<leftarrow> add_all_usable res usable s;
     (ok, s) \<leftarrow> AuPmmngrValidate (recount s);
     if ok then Some s else None
   }"

end
