(* ===== verification/PmmBlocks.thy ===== *)
theory PmmBlocks
  imports Pmm
begin

text \<open>
  The blocks that the page descriptors describe: an aligned power of two of pages, free or
  allocated, whose pages all name its head and its order. Every managed page is in one block,
  and an operation replaces the blocks of one region by others.
\<close>

section \<open>Buddies\<close>

lemma buddy_of:
  assumes "2 ^ o' dvd h"
  shows "h XOR 2 ^ o' = (if 2 ^ Suc o' dvd h then h + 2 ^ o' else h - 2 ^ o' :: nat)"
proof -
  obtain m where m: "h = 2 ^ o' * m" using assms by auto
  have "h XOR 2 ^ o' = push_bit o' m XOR push_bit o' 1"
    by (simp add: m push_bit_eq_mult mult.commute)
  also have "\<dots> = push_bit o' (m XOR 1)"
    by (simp only: push_bit_xor)
  also have "m XOR 1 = (if even m then m + 1 else m - 1)"
    by (simp add: xor_Suc_0_eq)
  finally have "h XOR 2 ^ o' = 2 ^ o' * (if even m then m + 1 else m - 1)"
    by (simp add: push_bit_eq_mult mult.commute)
  moreover have "2 ^ Suc o' dvd h \<longleftrightarrow> even m"
    by (simp add: m)
  ultimately show ?thesis
    by (auto simp: m algebra_simps)
qed

lemma buddy_props:
  assumes "2 ^ o' dvd (h::nat)"
  shows "2 ^ o' dvd h XOR 2 ^ o'" "h XOR 2 ^ o' \<noteq> h" "(h XOR 2 ^ o') XOR 2 ^ o' = h"
    "2 ^ Suc o' dvd min h (h XOR 2 ^ o')" "max h (h XOR 2 ^ o') = min h (h XOR 2 ^ o') + 2 ^ o'"
proof -
  have le: "2 ^ o' \<le> h" if "\<not> 2 ^ Suc o' dvd h"
    using that assms by (metis dvd_0_right dvd_imp_le neq0_conv)
  show "2 ^ o' dvd h XOR 2 ^ o'"
    using assms by (simp add: buddy_of dvd_diff_nat)
  show "h XOR 2 ^ o' \<noteq> h"
  proof -
    have "0 < (2::nat) ^ o'" by simp
    then have "h - 2 ^ o' \<noteq> h" "h + 2 ^ o' \<noteq> h" if "2 ^ o' \<le> h"
      using that by linarith+
    then show ?thesis
      using le by (simp add: buddy_of [OF assms])
  qed
  show "(h XOR 2 ^ o') XOR 2 ^ o' = h"
    by (simp add: xor.assoc)
  obtain m where m: "h = 2 ^ o' * m" using assms by auto
  show "2 ^ Suc o' dvd min h (h XOR 2 ^ o')"
  proof (cases "2 ^ Suc o' dvd h")
    case True
    then show ?thesis by (simp add: buddy_of [OF assms] min_def)
  next
    case False
    then obtain k where "m = 2 * k + 1"
      by (auto simp: m elim: oddE)
    then have "h - 2 ^ o' = 2 ^ Suc o' * k"
      by (simp add: m)
    moreover have "h - 2 ^ o' \<le> h"
      by simp
    ultimately show ?thesis
      using False by (simp add: buddy_of [OF assms] min_absorb2 del: power_Suc)
  qed
  show "max h (h XOR 2 ^ o') = min h (h XOR 2 ^ o') + 2 ^ o'"
    using le by (auto simp: buddy_of [OF assms] min_def max_def)
qed

text \<open>Aligned powers of two are nested or disjoint.\<close>

lemma aligned_nested:
  assumes "2 ^ a dvd (p::nat)" "2 ^ b dvd q" "a \<le> b" "p < q + 2 ^ b" "q < p + 2 ^ a"
  shows "q \<le> p \<and> p + 2 ^ a \<le> q + 2 ^ b"
proof -
  obtain i where i: "p = 2 ^ a * i"
    using assms(1) by (rule dvdE)
  obtain j where j: "q = 2 ^ b * j"
    using assms(2) by (rule dvdE)
  note ij = i j
  have b: "(2::nat) ^ b = 2 ^ a * 2 ^ (b - a)"
    using assms(3) by (simp flip: power_add)
  let ?m = "2 ^ (b - a) :: nat"
  have q: "q = 2 ^ a * (?m * j)" "q + 2 ^ b = 2 ^ a * (?m * j + ?m)"
    by (simp_all add: ij b algebra_simps)
  have "2 ^ a * i < 2 ^ a * (?m * j + ?m)"
    using assms(4) by (simp only: ij(1) q(2))
  then have "i < ?m * j + ?m" by simp
  moreover have "2 ^ a * (?m * j) < 2 ^ a * (i + 1)"
    using assms(5) by (simp add: ij(1) q(1) algebra_simps)
  then have "?m * j < i + 1" by (simp only: mult_less_cancel1)
  ultimately have "2 ^ a * (?m * j) \<le> 2 ^ a * i" "2 ^ a * (i + 1) \<le> 2 ^ a * (?m * j + ?m)"
    by (intro mult_le_mono2; simp)+
  moreover have "p + 2 ^ a = 2 ^ a * (i + 1)"
    by (simp add: ij(1))
  ultimately show ?thesis
    unfolding q(2) by (simp only: ij(1) q(1))
qed

section \<open>Blocks\<close>

type_synonym descs = "nat \<Rightarrow> PmmPageDesc"

definition block_state :: "bool \<Rightarrow> bool \<Rightarrow> PmmPageState" where
  "block_state f t = (if f then if t then PMM_PAGE_FREE_HEAD else PMM_PAGE_FREE_TAIL
                       else if t then PMM_PAGE_ALLOC_HEAD else PMM_PAGE_ALLOC_TAIL)"

definition blk :: "descs \<Rightarrow> nat \<Rightarrow> nat \<Rightarrow> nat \<Rightarrow> bool \<Rightarrow> bool" where
  "blk d N h k f \<longleftrightarrow> 2 ^ k dvd h \<and> k \<le> 32 \<and> h + 2 ^ k \<le> N \<and>
     (\<forall>q. h \<le> q \<and> q < h + 2 ^ k \<longrightarrow>
        pg_owner (d q) = h \<and> pg_order (d q) = k \<and> pg_state (d q) = block_state f (q = h))"

definition unblocked :: "PmmPageState \<Rightarrow> bool" where
  "unblocked st \<longleftrightarrow> st = PMM_PAGE_UNMANAGED \<or> st = PMM_PAGE_RESERVED"

definition pages_ok :: "descs \<Rightarrow> nat \<Rightarrow> bool" where
  "pages_ok d N \<longleftrightarrow>
     (\<forall>p < N. unblocked (pg_state (d p)) \<or> (\<exists>h k f. blk d N h k f \<and> h \<le> p \<and> p < h + 2 ^ k))"

lemma blkD:
  assumes "blk d N h k f"
  shows "2 ^ k dvd h" "k \<le> 32" "h + 2 ^ k \<le> N" "h < N"
    "h \<le> q \<Longrightarrow> q < h + 2 ^ k \<Longrightarrow> pg_owner (d q) = h"
    "h \<le> q \<Longrightarrow> q < h + 2 ^ k \<Longrightarrow> pg_order (d q) = k"
    "h \<le> q \<Longrightarrow> q < h + 2 ^ k \<Longrightarrow> pg_state (d q) = block_state f (q = h)"
proof -
  have "0 < (2::nat) ^ k" by simp
  then show "h < N" using assms unfolding blk_def by linarith
qed (use assms in \<open>auto simp: blk_def\<close>)

lemma block_state_inj: "block_state f a = block_state g b \<longleftrightarrow> f = g \<and> a = b"
  by (auto simp: block_state_def)

lemma block_state_unblocked [simp]: "\<not> unblocked (block_state f a)"
  by (simp add: unblocked_def block_state_def)

lemma blk_head:
  assumes "blk d N h k f"
  shows "pg_owner (d h) = h" "pg_order (d h) = k" "pg_state (d h) = block_state f True"
  using blkD(5-7) [OF assms, of h] by simp_all

text \<open>A page is in one block only.\<close>

lemma blk_unique:
  assumes "blk d N h k f" "blk d N h' k' f'" "h \<le> p" "p < h + 2 ^ k" "h' \<le> p" "p < h' + 2 ^ k'"
  shows "h' = h \<and> k' = k \<and> f' = f"
proof -
  have "h' = h"
    using blkD(5) [OF assms(1,3,4)] blkD(5) [OF assms(2,5,6)] by simp
  moreover have "k' = k"
    using blkD(6) [OF assms(1,3,4)] blkD(6) [OF assms(2,5,6)] by simp
  moreover have "f' = f"
    using blkD(7) [OF assms(1,3,4)] blkD(7) [OF assms(2,5,6)] by (simp add: block_state_inj)
  ultimately show ?thesis by simp
qed

lemma blk_disjoint:
  assumes "blk d N h k f" "blk d N h' k' f'" "h \<noteq> h'"
  shows "h + 2 ^ k \<le> h' \<or> h' + 2 ^ k' \<le> h"
proof (rule ccontr)
  assume "\<not> ?thesis"
  then have "h \<le> max h h'" "max h h' < h + 2 ^ k" "h' \<le> max h h'" "max h h' < h' + 2 ^ k'"
    by auto
  then show False
    using blk_unique [OF assms(1,2)] assms(3) by blast
qed

lemma pages_okD:
  assumes "pages_ok d N" "p < N" "\<not> unblocked (pg_state (d p))"
  obtains h k f where "blk d N h k f" "h \<le> p" "p < h + 2 ^ k"
  using assms unfolding pages_ok_def by blast

text \<open>A page marked as a head is one.\<close>

lemma head_blk:
  assumes ok: "pages_ok d N" and p: "p < N" and st: "pg_state (d p) = block_state f True"
  shows "blk d N p (pg_order (d p)) f"
proof -
  have "\<not> unblocked (pg_state (d p))"
    by (simp add: st)
  then obtain h k g where b: "blk d N h k g" "h \<le> p" "p < h + 2 ^ k"
    using pages_okD [OF ok p] by metis
  then have "p = h" "g = f"
    using blkD(7) [OF b] st by (simp_all add: block_state_inj)
  then show ?thesis
    using b blk_head(2) [OF b(1)] by simp
qed

section \<open>Replacing the blocks of a region\<close>

text \<open>
  The region \<open>[l, l + n)\<close> is made of whole blocks and of pages in no block; \<open>new\<close> are the
  blocks after the change, which cover it.
\<close>

definition whole :: "descs \<Rightarrow> nat \<Rightarrow> nat \<Rightarrow> nat \<Rightarrow> bool" where
  "whole d N l n \<longleftrightarrow> (\<forall>h k f. blk d N h k f \<longrightarrow>
     l \<le> h \<and> h + 2 ^ k \<le> l + n \<or> h + 2 ^ k \<le> l \<or> l + n \<le> h)"

definition same_outside :: "descs \<Rightarrow> descs \<Rightarrow> nat \<Rightarrow> nat \<Rightarrow> bool" where
  "same_outside d d' l n \<longleftrightarrow> (\<forall>q. \<not> (l \<le> q \<and> q < l + n) \<longrightarrow> pg_owner (d' q) = pg_owner (d q) \<and>
     pg_order (d' q) = pg_order (d q) \<and> pg_state (d' q) = pg_state (d q))"

lemma blk_cong:
  assumes "blk d N h k f"
    and "\<And>q. h \<le> q \<Longrightarrow> q < h + 2 ^ k \<Longrightarrow> pg_owner (d' q) = pg_owner (d q) \<and>
      pg_order (d' q) = pg_order (d q) \<and> pg_state (d' q) = pg_state (d q)"
  shows "blk d' N h k f"
  using assms unfolding blk_def by auto

lemma refill:
  assumes ok: "pages_ok d N" and w: "whole d N l n" and same: "same_outside d d' l n"
    and new: "\<And>p. l \<le> p \<Longrightarrow> p < l + n \<Longrightarrow> \<exists>h k f. new h k f \<and> h \<le> p \<and> p < h + 2 ^ k"
      "\<And>h k f. new h k f \<Longrightarrow> blk d' N h k f \<and> l \<le> h \<and> h + 2 ^ k \<le> l + n"
  shows "pages_ok d' N"
    "blk d' N h k f \<longleftrightarrow> new h k f \<or> (blk d N h k f \<and> \<not> (l \<le> h \<and> h < l + n))"
proof -
  have keep: "blk d' N h k f" if b: "blk d N h k f" "\<not> (l \<le> h \<and> h < l + n)" for h k f
  proof (rule blk_cong [OF b(1)])
    fix q assume q: "h \<le> q" "q < h + 2 ^ k"
    have "h + 2 ^ k \<le> l \<or> l + n \<le> h"
    proof -
      have "0 < (2::nat) ^ k" by simp
      then show ?thesis
        using w b unfolding whole_def by (metis add_leD1 add_less_cancel_left add_lessD1 le_add_diff_inverse
            less_le_trans nat_add_left_cancel_less not_le)
    qed
    then have "\<not> (l \<le> q \<and> q < l + n)" using q by auto
    then show "pg_owner (d' q) = pg_owner (d q) \<and> pg_order (d' q) = pg_order (d q) \<and> pg_state (d' q) = pg_state (d q)"
      using same unfolding same_outside_def by blast
  qed
  show pages: "pages_ok d' N"
    unfolding pages_ok_def
  proof (intro allI impI)
    fix p assume p: "p < N"
    show "unblocked (pg_state (d' p)) \<or> (\<exists>h k f. blk d' N h k f \<and> h \<le> p \<and> p < h + 2 ^ k)"
    proof (cases "l \<le> p \<and> p < l + n")
      case True
      then show ?thesis using new by metis
    next
      case False
      then have st: "pg_state (d' p) = pg_state (d p)"
        using same unfolding same_outside_def by blast
      show ?thesis
      proof (cases "unblocked (pg_state (d p))")
        case True
        then show ?thesis by (simp add: st)
      next
        case blocked: False
        obtain h k f where b: "blk d N h k f" "h \<le> p" "p < h + 2 ^ k"
          using pages_okD [OF ok p blocked] .
        have "\<not> (l \<le> h \<and> h < l + n)"
        proof
          assume h: "l \<le> h \<and> h < l + n"
          have "0 < (2::nat) ^ k" by simp
          then have "h + 2 ^ k \<le> l + n"
            using w b(1) h unfolding whole_def by fastforce
          then show False using False b(2,3) h by linarith
        qed
        then show ?thesis using keep [OF b(1)] b(2,3) by blast
      qed
    qed
  qed
  show "blk d' N h k f \<longleftrightarrow> new h k f \<or> (blk d N h k f \<and> \<not> (l \<le> h \<and> h < l + n))"
  proof
    assume b': "blk d' N h k f"
    show "new h k f \<or> (blk d N h k f \<and> \<not> (l \<le> h \<and> h < l + n))"
    proof (cases "l \<le> h \<and> h < l + n")
      case True
      then obtain h0 k0 f0 where n0: "new h0 k0 f0" "h0 \<le> h" "h < h0 + 2 ^ k0"
        using new(1) by blast
      then have "h0 = h \<and> k0 = k \<and> f0 = f"
        using blk_unique [OF b' _ order_refl, of h0 k0 f0] new(2) by simp
      then show ?thesis using n0(1) by blast
    next
      case False
      have "pg_state (d h) = block_state f True"
        using blk_head(3) [OF b'] same False unfolding same_outside_def by metis
      then have b: "blk d N h (pg_order (d h)) f"
        using head_blk [OF ok] blkD(4) [OF b'] by blast
      have "pg_order (d h) = k"
        using blk_head(2) [OF keep [OF b False]] blk_head(2) [OF b'] by simp
      then show ?thesis using b False by blast
    qed
  next
    assume "new h k f \<or> (blk d N h k f \<and> \<not> (l \<le> h \<and> h < l + n))"
    then show "blk d' N h k f" using new(2) keep by blast
  qed
qed

section \<open>The four changes\<close>

text \<open>\<open>d'\<close> is \<open>d\<close> with one block written over.\<close>

definition marked :: "nat \<Rightarrow> nat \<Rightarrow> bool \<Rightarrow> descs \<Rightarrow> descs \<Rightarrow> bool" where
  "marked h k f d d' \<longleftrightarrow> same_outside d d' h (2 ^ k) \<and>
     (\<forall>q. h \<le> q \<and> q < h + 2 ^ k \<longrightarrow>
        pg_owner (d' q) = h \<and> pg_order (d' q) = k \<and> pg_state (d' q) = block_state f (q = h))"

lemma marked_blk: "marked h k f d d' \<Longrightarrow> 2 ^ k dvd h \<Longrightarrow> k \<le> 32 \<Longrightarrow> h + 2 ^ k \<le> N \<Longrightarrow> blk d' N h k f"
  by (simp add: marked_def blk_def)

lemma marked_outside: "marked h k f d d' \<Longrightarrow> same_outside d d' h (2 ^ k)"
  by (simp add: marked_def)

lemma pos_power [simp]: "(0::nat) < 2 ^ k" "h < h + (2::nat) ^ k"
  by simp_all

lemma blk_whole:
  assumes "blk d N h k f"
  shows "whole d N h (2 ^ k)"
  unfolding whole_def using blk_disjoint [OF assms] blk_unique [OF assms]
  by (metis le_refl pos_power(2))

lemma blk_inside:
  assumes "blk d N h k f" "blk d N x j e"
  shows "h \<le> x \<and> x < h + 2 ^ k \<longleftrightarrow> x = h"
  using blk_disjoint [OF assms] pos_power(2) [of h k] pos_power(2) [of x j] by (cases "x = h") linarith+

lemma retag_blocks:
  assumes ok: "pages_ok d N" and b: "blk d N h k f" and m: "marked h k g d d'"
  shows "pages_ok d' N" "blk d' N x j e \<longleftrightarrow> (x = h \<and> j = k \<and> e = g) \<or> (blk d N x j e \<and> x \<noteq> h)"
proof -
  have b': "blk d' N h k g"
    using marked_blk [OF m] blkD(1-3) [OF b] by simp
  note R = refill [OF ok blk_whole [OF b] marked_outside [OF m], of "\<lambda>x j e. x = h \<and> j = k \<and> e = g"]
  show "pages_ok d' N"
    by (rule R(1)) (use b' in auto)
  have "blk d' N x j e \<longleftrightarrow> (x = h \<and> j = k \<and> e = g) \<or> (blk d N x j e \<and> \<not> (h \<le> x \<and> x < h + 2 ^ k))"
    by (rule R(2)) (use b' in auto)
  then show "blk d' N x j e \<longleftrightarrow> (x = h \<and> j = k \<and> e = g) \<or> (blk d N x j e \<and> x \<noteq> h)"
    using blk_inside [OF b] by blast
qed

lemma fresh_blocks:
  assumes ok: "pages_ok d N" and h: "2 ^ k dvd h" "k \<le> 32" "h + 2 ^ k \<le> N"
    and un: "\<And>q. h \<le> q \<Longrightarrow> q < h + 2 ^ k \<Longrightarrow> unblocked (pg_state (d q))" and m: "marked h k g d d'"
  shows "pages_ok d' N" "blk d' N x j e \<longleftrightarrow> (x = h \<and> j = k \<and> e = g) \<or> blk d N x j e"
proof -
  have b': "blk d' N h k g"
    using marked_blk [OF m h] .
  have out: "x + 2 ^ j \<le> h \<or> h + 2 ^ k \<le> x" if "blk d N x j e" for x j e
  proof (rule ccontr)
    assume "\<not> ?thesis"
    then have "h \<le> max h x" "max h x < h + 2 ^ k" "x \<le> max h x" "max h x < x + 2 ^ j"
      by auto
    then show False
      using un blkD(7) [OF that] by (metis block_state_unblocked)
  qed
  then have w: "whole d N h (2 ^ k)"
    unfolding whole_def by blast
  note R = refill [OF ok w marked_outside [OF m], of "\<lambda>x j e. x = h \<and> j = k \<and> e = g"]
  show "pages_ok d' N"
    by (rule R(1)) (use b' in auto)
  have "blk d' N x j e \<longleftrightarrow> (x = h \<and> j = k \<and> e = g) \<or> (blk d N x j e \<and> \<not> (h \<le> x \<and> x < h + 2 ^ k))"
    by (rule R(2)) (use b' in auto)
  moreover have "\<not> (h \<le> x \<and> x < h + 2 ^ k)" if "blk d N x j e"
    using out [OF that] pos_power(2) [of x j] by linarith
  ultimately show "blk d' N x j e \<longleftrightarrow> (x = h \<and> j = k \<and> e = g) \<or> blk d N x j e"
    by blast
qed

lemma split_blocks:
  assumes ok: "pages_ok d N" and b: "blk d N h (Suc k) f"
    and m: "marked (h + 2 ^ k) k True d d1" "marked h k True d1 d2"
  shows "pages_ok d2 N"
    "blk d2 N x j e \<longleftrightarrow> ((x = h \<or> x = h + 2 ^ k) \<and> j = k \<and> e) \<or> (blk d N x j e \<and> x \<noteq> h)"
proof -
  have k: "2 ^ k dvd h" "2 ^ k dvd h + 2 ^ k" "k \<le> 32" "h + 2 ^ k + 2 ^ k \<le> N" "h + 2 ^ k \<le> N"
    using blkD(1-3) [OF b] by (auto elim: dvd_trans [rotated])
  have b2: "blk d2 N h k True"
    using marked_blk [OF m(2)] k by simp
  have "blk d1 N (h + 2 ^ k) k True"
    using marked_blk [OF m(1)] k by simp
  then have b1: "blk d2 N (h + 2 ^ k) k True"
    by (rule blk_cong) (use m(2) in \<open>auto simp: marked_def same_outside_def\<close>)
  have out: "same_outside d d2 h (2 ^ Suc k)"
    using m by (auto simp: marked_def same_outside_def)
  let ?new = "\<lambda>x j e. (x = h \<or> x = h + 2 ^ k) \<and> j = k \<and> e"
  note R = refill [OF ok blk_whole [OF b] out, of ?new]
  have cover: "\<exists>x j e. ?new x j e \<and> x \<le> p \<and> p < x + 2 ^ j" if "h \<le> p" "p < h + 2 ^ Suc k" for p
  proof (cases "p < h + 2 ^ k")
    case True
    then show ?thesis using that(1) by blast
  next
    case False
    then show ?thesis using that(2) by (intro exI [of _ "h + 2 ^ k"] exI [of _ k] exI [of _ True]) simp
  qed
  have fill: "blk d2 N x j e \<and> h \<le> x \<and> x + 2 ^ j \<le> h + 2 ^ Suc k" if "?new x j e" for x j e
    using that b1 b2 by auto
  show "pages_ok d2 N"
    using R(1) cover fill by blast
  have "blk d2 N x j e \<longleftrightarrow> ?new x j e \<or> (blk d N x j e \<and> \<not> (h \<le> x \<and> x < h + 2 ^ Suc k))"
    using R(2) cover fill by blast
  then show "blk d2 N x j e \<longleftrightarrow> ?new x j e \<or> (blk d N x j e \<and> x \<noteq> h)"
    using blk_inside [OF b] by blast
qed

lemma join_blocks:
  assumes ok: "pages_ok d N" and b: "blk d N h k f" "blk d N (h XOR 2 ^ k) k g" and k: "k < 32"
    and m: "marked (min h (h XOR 2 ^ k)) (Suc k) True d d'"
  shows "pages_ok d' N"
    "blk d' N x j e \<longleftrightarrow> (x = min h (h XOR 2 ^ k) \<and> j = Suc k \<and> e) \<or>
       (blk d N x j e \<and> x \<noteq> h \<and> x \<noteq> h XOR 2 ^ k)"
proof -
  let ?b = "h XOR 2 ^ k" and ?l = "min h (h XOR 2 ^ k)"
  note B = buddy_props [OF blkD(1) [OF b(1)]]
  have end_max: "max h ?b + 2 ^ k \<le> N"
    using blkD(3) [OF b(1)] blkD(3) [OF b(2)] by (simp add: max_def)
  have b': "blk d' N ?l (Suc k) True"
    using end_max k B(4) unfolding B(5) by (intro marked_blk [OF m]) auto
  have halves: "(h = ?l \<and> ?b = ?l + 2 ^ k) \<or> (?b = ?l \<and> h = ?l + 2 ^ k)"
    using B(5) by (cases "h \<le> ?b") (simp_all add: min_def max_def)
  have iff: "?l \<le> x \<and> x < ?l + 2 ^ Suc k \<longleftrightarrow> x = h \<or> x = ?b" if "blk d N x j e" for x j e
    using blk_inside [OF b(1) that] blk_inside [OF b(2) that] halves
    by (smt (verit) add.assoc le_add1 le_trans less_le_trans mult_2 nat_add_left_cancel_less not_le
        pos_power(2) power_Suc)
  have "whole d N ?l (2 ^ Suc k)"
    unfolding whole_def
  proof (intro allI impI)
    fix x j e assume x: "blk d N x j e"
    consider "x = h" | "x = ?b" | "x \<noteq> h" "x \<noteq> ?b" by blast
    then show "?l \<le> x \<and> x + 2 ^ j \<le> ?l + 2 ^ Suc k \<or> x + 2 ^ j \<le> ?l \<or> ?l + 2 ^ Suc k \<le> x"
    proof cases
      case 1
      then have "j = k" using blk_unique [OF b(1) x, of h] by simp
      then show ?thesis using 1 halves by auto
    next
      case 2
      then have "j = k" using blk_unique [OF b(2) x, of ?b] by simp
      then show ?thesis using 2 halves by auto
    next
      case 3
      then have "h + 2 ^ k \<le> x \<or> x + 2 ^ j \<le> h" "?b + 2 ^ k \<le> x \<or> x + 2 ^ j \<le> ?b"
        using blk_disjoint [OF b(1) x] blk_disjoint [OF b(2) x] by auto
      then show ?thesis
        using halves pos_power(2) [of x j] by auto
    qed
  qed
  note R = refill [OF ok this marked_outside [OF m], of "\<lambda>x j e. x = ?l \<and> j = Suc k \<and> e"]
  show "pages_ok d' N"
    by (rule R(1)) (use b' in auto)
  have "blk d' N x j e \<longleftrightarrow> (x = ?l \<and> j = Suc k \<and> e) \<or> (blk d N x j e \<and> \<not> (?l \<le> x \<and> x < ?l + 2 ^ Suc k))"
    by (rule R(2)) (use b' in auto)
  then show "blk d' N x j e \<longleftrightarrow> (x = ?l \<and> j = Suc k \<and> e) \<or> (blk d N x j e \<and> x \<noteq> h \<and> x \<noteq> ?b)"
    using iff by blast
qed

section \<open>Free memory is coalesced\<close>

definition coal :: "descs \<Rightarrow> nat \<Rightarrow> nat \<Rightarrow> bool" where
  "coal d N c \<longleftrightarrow> (\<forall>h k. blk d N h k True \<longrightarrow> h \<noteq> c \<longrightarrow> k < 32 \<longrightarrow> h XOR 2 ^ k \<noteq> c \<longrightarrow>
     \<not> blk d N (h XOR 2 ^ k) k True)"

definition free_page :: "PmmPageState \<Rightarrow> bool" where
  "free_page st \<longleftrightarrow> st = PMM_PAGE_FREE_HEAD \<or> st = PMM_PAGE_FREE_TAIL"

lemma free_page_block [simp]: "free_page (block_state f t) = f"
  by (simp add: free_page_def block_state_def)

lemma free_page_blocked: "free_page st \<Longrightarrow> \<not> unblocked st"
  by (auto simp: free_page_def unblocked_def)

text \<open>An aligned run of free pages whose length is a power of two lies in one block.\<close>

lemma free_run_in_block:
  assumes ok: "pages_ok d N" and co: "coal d N N"
    and r: "2 ^ k dvd r" "k \<le> 32" "r + 2 ^ k \<le> N" "\<And>p. r \<le> p \<Longrightarrow> p < r + 2 ^ k \<Longrightarrow> free_page (pg_state (d p))"
  shows "\<exists>h j. blk d N h j True \<and> k \<le> j \<and> h \<le> r \<and> r + 2 ^ k \<le> h + 2 ^ j"
  using r
proof (induction k arbitrary: r)
  case 0
  then have f: "r < N" "free_page (pg_state (d r))" by auto
  then obtain h j f where b: "blk d N h j f" "h \<le> r" "r < h + 2 ^ j"
    using pages_okD [OF ok] free_page_blocked by metis
  moreover have "f"
    using blkD(7) [OF b] f(2) by simp
  ultimately show ?case by (intro exI [of _ h] exI [of _ j]) simp
next
  case (Suc k)
  let ?m = "r + 2 ^ k"
  have al: "2 ^ k dvd r" "2 ^ k dvd ?m"
    using Suc.prems(1) by (auto elim: dvd_trans [rotated])
  have lo: "\<exists>h j. blk d N h j True \<and> k \<le> j \<and> h \<le> r \<and> r + 2 ^ k \<le> h + 2 ^ j"
    using Suc.prems by (intro Suc.IH al) auto
  have hi: "\<exists>h j. blk d N h j True \<and> k \<le> j \<and> h \<le> ?m \<and> ?m + 2 ^ k \<le> h + 2 ^ j"
    using Suc.prems by (intro Suc.IH al) auto
  obtain h j where b: "blk d N h j True" "k \<le> j" "h \<le> r" "r + 2 ^ k \<le> h + 2 ^ j"
    using lo by blast
  show ?case
  proof (cases "j = k")
    case False
    have "r < h + 2 ^ j" "h < r + 2 ^ Suc k"
      using b(3,4) pos_power(2) [of r k] pos_power(2) [of r "Suc k"] by linarith+
    then have "h \<le> r \<and> r + 2 ^ Suc k \<le> h + 2 ^ j"
      using False b(2) by (intro aligned_nested [OF Suc.prems(1) blkD(1) [OF b(1)]]) auto
    then show ?thesis using b(1,2) False by (intro exI [of _ h] exI [of _ j]) simp
  next
    case True
    then have bl: "blk d N r k True"
      using b by simp
    obtain h' j' where b': "blk d N h' j' True" "k \<le> j'" "h' \<le> ?m" "?m + 2 ^ k \<le> h' + 2 ^ j'"
      using hi by blast
    have "j' = k \<and> h' = ?m"
    proof (cases "h' \<le> r")
      case True
      then have "h' = r \<and> j' = k"
        using blk_unique [OF bl b'(1), of r] b'(4) pos_power(2) [of r k] by simp
      then show ?thesis using b'(4) by simp
    next
      case False
      then have "r + 2 ^ k \<le> h'"
        using blk_disjoint [OF bl b'(1)] pos_power(2) [of h' j'] by linarith
      then have h': "h' = ?m" using b'(3) by simp
      have "j' = k"
      proof (rule ccontr)
        assume "j' \<noteq> k"
        then have "(2::nat) ^ Suc k dvd h'"
          using blkD(1) [OF b'(1)] b'(2) by (intro dvd_trans [OF le_imp_power_dvd [of "Suc k" j']]) auto
        then have "(2::nat) ^ Suc k dvd 2 ^ k"
          using Suc.prems(1) h' by (simp add: dvd_add_right_iff)
        then show False
          by (simp add: power_dvd_imp_le nat_dvd_not_less)
      qed
      then show ?thesis using h' by simp
    qed
    then have br: "blk d N ?m k True" using b'(1) by simp
    have "r XOR 2 ^ k = ?m"
      using buddy_of [OF al(1)] Suc.prems(1) by simp
    moreover have "k < 32" using Suc.prems(2) by simp
    moreover have "r \<noteq> N" "?m \<noteq> N"
      using blkD(4) [OF bl] blkD(4) [OF br] by simp_all
    ultimately show ?thesis
      using co bl br unfolding coal_def by metis
  qed
qed

text \<open>So the free pages determine the free blocks.\<close>

lemma free_blocks_determined:
  assumes "pages_ok d N" "coal d N N" "pages_ok d' N" "coal d' N N"
    and "\<And>p. p < N \<Longrightarrow> free_page (pg_state (d p)) = free_page (pg_state (d' p))"
    and b: "blk d N h k True"
  shows "blk d' N h k True"
proof -
  have run: "free_page (pg_state (e p))" if "blk e N x j True" "x \<le> p" "p < x + 2 ^ j" for e x j p
    using blkD(7) [OF that] by simp
  have "free_page (pg_state (d' p))" if "h \<le> p" "p < h + 2 ^ k" for p
    using run [OF b that] assms(5) [of p] blkD(3) [OF b] that by simp
  then obtain h' j where b': "blk d' N h' j True" "k \<le> j" "h' \<le> h" "h + 2 ^ k \<le> h' + 2 ^ j"
    using free_run_in_block [OF assms(3,4) blkD(1-3) [OF b]] by blast
  have "free_page (pg_state (d p))" if "h' \<le> p" "p < h' + 2 ^ j" for p
    using run [OF b'(1) that] assms(5) [of p] blkD(3) [OF b'(1)] that by simp
  then obtain x i where x: "blk d N x i True" "j \<le> i" "x \<le> h'" "h' + 2 ^ j \<le> x + 2 ^ i"
    using free_run_in_block [OF assms(1,2) blkD(1-3) [OF b'(1)]] by blast
  have "h < x + 2 ^ i"
    using b'(4) x(4) pos_power(2) [of h k] by linarith
  then have "x = h \<and> i = k"
    using blk_unique [OF b x(1), of h] b'(3) x(3) by simp
  then have "j = k" "h' = h"
    using b'(2,3) x(2,3) by auto
  then show ?thesis using b'(1) by simp
qed

end
