(* ===== verification/PmmOps.thy ===== *)
theory PmmOps
  imports PmmBlocks
begin

text \<open>
  The free lists, and the operations on blocks as steps between states in which at most one
  block, the one in hand, is on no list.
\<close>

section \<open>Effects on the state\<close>

lemma on_page_sel [simp]:
  "page_desc (on_page p f s) q = (if q = p then f (page_desc s p) else page_desc s q)"
  "total_pages (on_page p f s) = total_pages s" "free_head (on_page p f s) = free_head s"
  "pmm_stats (on_page p f s) = pmm_stats s" "owner_table (on_page p f s) = owner_table s"
  "validation_epoch (on_page p f s) = validation_epoch s"
  by (simp_all add: on_page_def)

lemma on_pages_sel [simp]:
  "page_desc (on_pages h n f s) q = (if h \<le> q \<and> q < h + n then f (q - h) (page_desc s q) else page_desc s q)"
  "total_pages (on_pages h n f s) = total_pages s" "free_head (on_pages h n f s) = free_head s"
  "pmm_stats (on_pages h n f s) = pmm_stats s" "owner_table (on_pages h n f s) = owner_table s"
  "validation_epoch (on_pages h n f s) = validation_epoch s"
  by (simp_all add: on_pages_def)

lemma set_head_sel [simp]:
  "page_desc (set_head k p s) = page_desc s" "total_pages (set_head k p s) = total_pages s"
  "free_head (set_head k p s) j = (if j = k then p else free_head s j)"
  "pmm_stats (set_head k p s) = pmm_stats s" "owner_table (set_head k p s) = owner_table s"
  "validation_epoch (set_head k p s) = validation_epoch s"
  by (simp_all add: set_head_def)

text \<open>Only links change; and everything but the descriptors and the lists is as before.\<close>

definition rest_same :: "pmm \<Rightarrow> pmm \<Rightarrow> bool" where
  "rest_same s s' \<longleftrightarrow> total_pages s' = total_pages s \<and> pmm_stats s' = pmm_stats s \<and>
     owner_table s' = owner_table s \<and> validation_epoch s' = validation_epoch s"

definition unlinked :: "PmmPageDesc \<Rightarrow> PmmPageDesc" where
  "unlinked d = d\<lparr>pg_next := 0, pg_prev := 0\<rparr>"

definition links_only :: "pmm \<Rightarrow> pmm \<Rightarrow> bool" where
  "links_only s s' \<longleftrightarrow> rest_same s s' \<and> (\<forall>p. unlinked (page_desc s' p) = unlinked (page_desc s p))"

lemma unlinked_fields:
  assumes "unlinked d' = unlinked d"
  shows "pg_owner d' = pg_owner d" "pg_order d' = pg_order d" "pg_state d' = pg_state d"
    "requested_pages d' = requested_pages d" "refcount d' = refcount d" "pg_epoch d' = pg_epoch d"
    "owner_slot d' = owner_slot d" "page_type d' = page_type d" "backing_block d' = backing_block d"
  using assms by (cases d; cases d'; simp add: unlinked_def)+

lemma unlinked_upd [simp]:
  "unlinked (d\<lparr>pg_next := x\<rparr>) = unlinked d" "unlinked (d\<lparr>pg_prev := x\<rparr>) = unlinked d"
  "unlinked (d\<lparr>pg_next := x, pg_prev := y\<rparr>) = unlinked d"
  "unlinked (d\<lparr>pg_prev := y, pg_next := x\<rparr>) = unlinked d"
  by (simp_all add: unlinked_def)

lemma rest_same_trans: "rest_same s t \<Longrightarrow> rest_same t u \<Longrightarrow> rest_same s u"
  by (simp add: rest_same_def)

lemma links_onlyD:
  assumes "links_only s s'"
  shows "rest_same s s'" "total_pages s' = total_pages s"
    "pg_owner (page_desc s' p) = pg_owner (page_desc s p)" "pg_order (page_desc s' p) = pg_order (page_desc s p)"
    "pg_state (page_desc s' p) = pg_state (page_desc s p)"
    "requested_pages (page_desc s' p) = requested_pages (page_desc s p)"
    "refcount (page_desc s' p) = refcount (page_desc s p)" "pg_epoch (page_desc s' p) = pg_epoch (page_desc s p)"
    "owner_slot (page_desc s' p) = owner_slot (page_desc s p)"
  using assms unlinked_fields [of "page_desc s' p" "page_desc s p"]
  by (simp_all add: links_only_def rest_same_def)

lemma links_only_refl [simp]: "links_only s s"
  by (simp add: links_only_def rest_same_def)

section \<open>Free lists\<close>

definition links_ok :: "pmm \<Rightarrow> (nat \<Rightarrow> nat list) \<Rightarrow> bool" where
  "links_ok s F \<longleftrightarrow> total_pages s < PMM_NO_PAGE \<and>
     (\<forall>k. distinct (F k) \<and> (\<forall>x \<in> set (F k). x < total_pages s) \<and>
        glinks PMM_NO_PAGE (\<lambda>p. pg_next (page_desc s p)) (\<lambda>p. pg_prev (page_desc s p)) PMM_NO_PAGE (F k) PMM_NO_PAGE \<and>
        (k \<le> 32 \<longrightarrow> free_head s k = first (F k) PMM_NO_PAGE)) \<and>
     (\<forall>k j x. x \<in> set (F k) \<longrightarrow> x \<in> set (F j) \<longrightarrow> k = j)"

lemma links_okD:
  assumes "links_ok s F"
  shows "total_pages s < PMM_NO_PAGE" "distinct (F k)" "x \<in> set (F k) \<Longrightarrow> x < total_pages s"
    "glinks PMM_NO_PAGE (\<lambda>p. pg_next (page_desc s p)) (\<lambda>p. pg_prev (page_desc s p)) PMM_NO_PAGE (F k) PMM_NO_PAGE"
    "k \<le> 32 \<Longrightarrow> free_head s k = first (F k) PMM_NO_PAGE"
    "x \<in> set (F k) \<Longrightarrow> x \<in> set (F j) \<Longrightarrow> k = j"
  using assms unfolding links_ok_def by blast+

lemma links_okI:
  assumes "total_pages s < PMM_NO_PAGE" "\<And>k. distinct (F k)" "\<And>k x. x \<in> set (F k) \<Longrightarrow> x < total_pages s"
    "\<And>k. glinks PMM_NO_PAGE (\<lambda>p. pg_next (page_desc s p)) (\<lambda>p. pg_prev (page_desc s p)) PMM_NO_PAGE (F k) PMM_NO_PAGE"
    "\<And>k. k \<le> 32 \<Longrightarrow> free_head s k = first (F k) PMM_NO_PAGE"
    "\<And>k j x. x \<in> set (F k) \<Longrightarrow> x \<in> set (F j) \<Longrightarrow> k = j"
  shows "links_ok s F"
  unfolding links_ok_def using assms by blast

lemma links_ok_cong:
  assumes ok: "links_ok s F" and "total_pages s' = total_pages s" "free_head s' = free_head s"
    and same: "\<And>x k. x \<in> set (F k) \<Longrightarrow> pg_next (page_desc s' x) = pg_next (page_desc s x) \<and>
      pg_prev (page_desc s' x) = pg_prev (page_desc s x)"
  shows "links_ok s' F"
proof (rule links_okI)
  note D = links_okD [OF ok]
  show "glinks PMM_NO_PAGE (\<lambda>p. pg_next (page_desc s' p)) (\<lambda>p. pg_prev (page_desc s' p)) PMM_NO_PAGE (F k) PMM_NO_PAGE" for k
    using D(4) [of k] same by (subst dlinks_cong) auto
qed (use assms links_okD [OF ok] in auto)

lemma free_list_insert_ok:
  assumes ok: "links_ok s F" and h: "h < total_pages s" "\<And>j. h \<notin> set (F j)" "is_free_head h k s" "k \<le> 32"
  shows "\<exists>s'. list_insert h k s = Some s' \<and> links_ok s' (F(k := h # F k)) \<and> links_only s s'"
proof -
  note D = links_okD [OF ok]
  let ?nx = "free_head s k"
  define s1 where "s1 = on_page h (\<lambda>d. d\<lparr>pg_prev := PMM_NO_PAGE, pg_next := ?nx\<rparr>) s"
  define s2 where "s2 = set_head k h (if ?nx \<noteq> PMM_NO_PAGE then on_page ?nx (\<lambda>d. d\<lparr>pg_prev := h\<rparr>) s1 else s1)"
  have nx: "?nx = first (F k) PMM_NO_PAGE"
    using D(5) h(4) by simp
  have zero: "?nx = PMM_NO_PAGE \<longleftrightarrow> F k = []"
    unfolding nx by (rule dlinks_first_zero [OF D(4)])
  have mem: "?nx \<in> set (F k)" if "?nx \<noteq> PMM_NO_PAGE"
    using first_mem [of "F k"] zero that unfolding nx by blast
  have "list_insert h k s = Some s2"
    using h(3,4) mem D(3) [of ?nx k] by (auto simp: list_insert_def s2_def s1_def Let_def valid_page_def PMM_MAX_ORDER_def)
  moreover have "links_only s s2"
    by (auto simp: links_only_def rest_same_def s2_def s1_def)
  moreover have "links_ok s2 (F(k := h # F k))"
  proof (rule links_okI)
    show "total_pages s2 < PMM_NO_PAGE" using D(1) by (simp add: s2_def s1_def)
    show "distinct ((F(k := h # F k)) j)" for j using D(2) h(2) by simp
    show "x < total_pages s2" if "x \<in> set ((F(k := h # F k)) j)" for x j
      using that D(3) [of x j] D(3) [of x k] h(1) by (auto simp: s2_def s1_def split: if_splits)
    show "free_head s2 j = first ((F(k := h # F k)) j) PMM_NO_PAGE" if "j \<le> 32" for j
      using D(5) that by (simp add: s2_def s1_def)
    show "i = j" if "x \<in> set ((F(k := h # F k)) i)" "x \<in> set ((F(k := h # F k)) j)" for i j x
      using that D(6) [of x i j] D(6) [of x k j] D(6) [of x i k] h(2) by (auto split: if_splits)
    fix j
    show "glinks PMM_NO_PAGE (\<lambda>p. pg_next (page_desc s2 p)) (\<lambda>p. pg_prev (page_desc s2 p)) PMM_NO_PAGE
        ((F(k := h # F k)) j) PMM_NO_PAGE"
    proof (cases "j = k")
      case True
      have "glinks PMM_NO_PAGE (\<lambda>p. pg_next (page_desc s2 p)) (\<lambda>p. pg_prev (page_desc s2 p)) PMM_NO_PAGE (h # F k) PMM_NO_PAGE"
      proof (rule dlinks_push [OF D(4) [of k]])
        have ne: "h \<noteq> ?nx" if "?nx \<noteq> PMM_NO_PAGE"
          using mem [OF that] h(2) by auto
        show "distinct (h # F k)" using D(2) h(2) by simp
        show "h \<noteq> PMM_NO_PAGE" using D(1) h(1) by simp
        show "pg_next (page_desc s2 h) = first (F k) PMM_NO_PAGE" "pg_prev (page_desc s2 h) = PMM_NO_PAGE"
          using ne nx by (auto simp: s2_def s1_def)
        show "pg_next (page_desc s2 x) = pg_next (page_desc s x)" if "x \<in> set (F k)" for x
          using that h(2) by (auto simp: s2_def s1_def)
        show "pg_prev (page_desc s2 x) = (if x = first (F k) PMM_NO_PAGE then h else pg_prev (page_desc s x))"
          if "x \<in> set (F k)" for x
          using that h(2) D(3) [OF that] D(1) nx by (auto simp: s2_def s1_def)
      qed
      then show ?thesis by (simp add: True)
    next
      case False
      have "x \<noteq> h \<and> (?nx \<noteq> PMM_NO_PAGE \<longrightarrow> x \<noteq> ?nx)" if "x \<in> set (F j)" for x
        using that h(2) mem D(6) [of x j k] False by blast
      then show ?thesis
        using D(4) [of j] False by (subst dlinks_cong) (auto simp: s2_def s1_def)
    qed
  qed
  ultimately show ?thesis by blast
qed

lemma free_list_remove_ok:
  assumes ok: "links_ok s F" and h: "h \<in> set (F k)" "is_free_head h k s" "k \<le> 32"
  shows "\<exists>s'. list_remove h k s = Some s' \<and> links_ok s' (F(k := remove1 h (F k))) \<and> links_only s s'"
proof -
  note D = links_okD [OF ok]
  obtain xs ys where F: "F k = xs @ h # ys"
    using split_list [OF h(1)] by blast
  have dist: "distinct (xs @ h # ys)" using D(2) [of k] F by simp
  have rm: "remove1 h (F k) = xs @ ys"
    using dist F by (simp add: remove1_append)
  let ?z = PMM_NO_PAGE
  let ?pv = "lastp ?z xs" and ?nx = "first ys ?z"
  have G: "glinks ?z (\<lambda>p. pg_next (page_desc s p)) (\<lambda>p. pg_prev (page_desc s p)) ?z (xs @ h # ys) ?z"
    using D(4) [of k] F by simp
  have mid: "pg_prev (page_desc s h) = ?pv" "pg_next (page_desc s h) = ?nx" "h \<noteq> ?z"
    using dlinks_mid [OF G] .
  have lt: "x < total_pages s" "x \<noteq> ?z" if "x \<in> set (F j)" for x j
    using D(1) D(3) [OF that] by auto
  have pv: "?pv = ?z \<longleftrightarrow> xs = []" "?pv \<noteq> ?z \<Longrightarrow> ?pv \<in> set xs"
    using lastp_mem [of xs ?z] lt(2) [of _ k] F by (cases "xs = []"; auto)+
  have nx: "?nx = ?z \<longleftrightarrow> ys = []" "?nx \<noteq> ?z \<Longrightarrow> ?nx \<in> set ys"
    using first_mem [of ys ?z] lt(2) [of _ k] F by (cases "ys = []"; auto)+
  have pvn: "pg_next (page_desc s ?pv) = h" if "?pv \<noteq> ?z"
  proof (cases xs rule: rev_cases)
    case (snoc zs p)
    then show ?thesis using G by simp
  qed (use that in simp)
  have nxp: "pg_prev (page_desc s ?nx) = h" if "?nx \<noteq> ?z"
  proof (cases ys)
    case (Cons p zs)
    then show ?thesis using G by simp
  qed (use that in simp)
  define s1 where "s1 = (if ?pv = ?z then set_head k ?nx s else on_page ?pv (\<lambda>d. d\<lparr>pg_next := ?nx\<rparr>) s)"
  define s2 where "s2 = (if ?nx \<noteq> ?z then on_page ?nx (\<lambda>d. d\<lparr>pg_prev := ?pv\<rparr>) s1 else s1)"
  define s3 where "s3 = on_page h (\<lambda>d. d\<lparr>pg_next := ?z, pg_prev := ?z\<rparr>) s2"
  have fh: "free_head s k = first (xs @ h # ys) ?z"
    using D(5) [OF h(3)] F by simp
  have ne: "?pv \<noteq> ?nx" if "?nx \<noteq> ?z"
    using nx(2) that pv dist by (cases "?pv = ?z") auto
  have "(if ?pv = ?z then if free_head s k \<noteq> h then None else Some (set_head k ?nx s)
      else if \<not> valid_page s ?pv \<or> pg_next (page_desc s ?pv) \<noteq> h then None
      else Some (on_page ?pv (\<lambda>d. d\<lparr>pg_next := ?nx\<rparr>) s)) = Some s1"
  proof (cases "?pv = ?z")
    case True
    then show ?thesis using fh pv(1) by (simp add: s1_def)
  next
    case False
    then show ?thesis using pvn pv(2) lt(1) [of ?pv k] F by (simp add: s1_def valid_page_def)
  qed
  moreover have "(if ?nx \<noteq> ?z
      then if \<not> valid_page s1 ?nx \<or> pg_prev (page_desc s1 ?nx) \<noteq> h then None
        else Some (on_page ?nx (\<lambda>d. d\<lparr>pg_prev := ?pv\<rparr>) s1)
      else Some s1) = Some s2"
  proof (cases "?nx = ?z")
    case True
    then show ?thesis by (simp add: s2_def)
  next
    case False
    then have "pg_prev (page_desc s1 ?nx) = h" "total_pages s1 = total_pages s"
      using nxp ne by (auto simp: s1_def)
    then show ?thesis using False nx(2) lt(1) [of ?nx k] F by (simp add: s2_def valid_page_def)
  qed
  ultimately have "list_remove h k s = Some s3"
    using h(2,3) unfolding list_remove_def mid(1,2) Let_def
    by (simp add: PMM_MAX_ORDER_def s3_def)
  moreover have "links_only s s3"
    by (auto simp: links_only_def rest_same_def s3_def s2_def s1_def)
  moreover have sub: "set ((F(k := xs @ ys)) j) \<subseteq> set (F j)" for j
    using F by auto
  have "links_ok s3 (F(k := xs @ ys))"
  proof (rule links_okI)
    show "total_pages s3 < PMM_NO_PAGE" using D(1) by (simp add: s3_def s2_def s1_def)
    show "distinct ((F(k := xs @ ys)) j)" for j using D(2) dist by simp
    show "x < total_pages s3" if "x \<in> set ((F(k := xs @ ys)) j)" for x j
      using that lt(1) [of x j] lt(1) [of x k] F by (auto simp: s3_def s2_def s1_def split: if_splits)
    show "free_head s3 j = first ((F(k := xs @ ys)) j) ?z" if "j \<le> 32" for j
      using D(5) [OF that] fh pv(1) by (cases xs) (auto simp: s3_def s2_def s1_def F)
    show "i = j" if "x \<in> set ((F(k := xs @ ys)) i)" "x \<in> set ((F(k := xs @ ys)) j)" for i j x
      using that sub D(6) by blast
    fix j
    show "glinks ?z (\<lambda>p. pg_next (page_desc s3 p)) (\<lambda>p. pg_prev (page_desc s3 p)) ?z ((F(k := xs @ ys)) j) ?z"
    proof (cases "j = k")
      case True
      have "glinks ?z (\<lambda>p. pg_next (page_desc s3 p)) (\<lambda>p. pg_prev (page_desc s3 p)) ?z (xs @ ys) ?z"
      proof (rule dlinks_unlink [OF G dist])
        fix x assume x: "x \<in> set (xs @ ys)"
        then have "x \<noteq> h" "x \<noteq> ?z" using dist lt(2) [of x k] F by auto
        then show "pg_next (page_desc s3 x) = (if x = ?pv then ?nx else pg_next (page_desc s x))"
          "pg_prev (page_desc s3 x) = (if x = ?nx then ?pv else pg_prev (page_desc s x))"
          by (auto simp: s3_def s2_def s1_def)
      qed
      then show ?thesis by (simp add: True)
    next
      case False
      have "x \<noteq> h \<and> (?nx \<noteq> ?z \<longrightarrow> x \<noteq> ?nx) \<and> (?pv \<noteq> ?z \<longrightarrow> x \<noteq> ?pv)" if "x \<in> set (F j)" for x
        using that pv(2) nx(2) D(6) [of x j k] False F by auto
      then show ?thesis
        using D(4) [of j] False by (subst dlinks_cong) (auto simp: s3_def s2_def s1_def)
    qed
  qed
  ultimately show ?thesis by (auto simp: rm)
qed

section \<open>The invariant\<close>

definition alloc_ok :: "descs \<Rightarrow> nat \<Rightarrow> bool" where
  "alloc_ok d N \<longleftrightarrow> (\<forall>h k. blk d N h k False \<longrightarrow>
     0 < requested_pages (d h) \<and> requested_pages (d h) \<le> 2 ^ k \<and> 0 < refcount (d h) \<and> refcount (d h) \<le> 65535 \<and>
     (\<forall>q. h < q \<longrightarrow> q < h + 2 ^ k \<longrightarrow> refcount (d q) = 1) \<and> (0 < k \<longrightarrow> refcount (d h) = 1))"

text \<open>\<open>c\<close> is the block in hand; a number that is no page stands for none.\<close>

definition pmm_inv :: "nat \<Rightarrow> pmm \<Rightarrow> (nat \<Rightarrow> nat list) \<Rightarrow> bool" where
  "pmm_inv c s F \<longleftrightarrow> pages_ok (page_desc s) (total_pages s) \<and> links_ok s F \<and>
     (\<forall>k x. x \<in> set (F k) \<longleftrightarrow> blk (page_desc s) (total_pages s) x k True \<and> x \<noteq> c) \<and>
     coal (page_desc s) (total_pages s) c \<and> alloc_ok (page_desc s) (total_pages s)"

lemma pmm_invD:
  assumes "pmm_inv c s F"
  shows "pages_ok (page_desc s) (total_pages s)" "links_ok s F"
    "x \<in> set (F k) \<longleftrightarrow> blk (page_desc s) (total_pages s) x k True \<and> x \<noteq> c"
    "coal (page_desc s) (total_pages s) c" "alloc_ok (page_desc s) (total_pages s)"
  using assms by (auto simp: pmm_inv_def)

text \<open>A step that only rearranges free memory.\<close>

definition evolves :: "pmm \<Rightarrow> pmm \<Rightarrow> bool" where
  "evolves s s' \<longleftrightarrow> rest_same s s' \<and>
     (\<forall>q. free_page (pg_state (page_desc s' q)) = free_page (pg_state (page_desc s q))) \<and>
     (\<forall>q. pg_epoch (page_desc s' q) = pg_epoch (page_desc s q)) \<and>
     (\<forall>q. \<not> free_page (pg_state (page_desc s q)) \<longrightarrow> unlinked (page_desc s' q) = unlinked (page_desc s q))"

lemma evolves_refl [simp]: "evolves s s"
  by (simp add: evolves_def rest_same_def)

lemma evolves_trans: "evolves s t \<Longrightarrow> evolves t u \<Longrightarrow> evolves s u"
  by (auto simp: evolves_def intro: rest_same_trans)

lemma links_only_evolves: "links_only s s' \<Longrightarrow> evolves s s'"
  using links_onlyD(5,8) [of s s'] by (auto simp: evolves_def links_only_def)

lemma evolves_blk:
  assumes e: "evolves s s'"
  shows "blk (page_desc s') N h k False \<longleftrightarrow> blk (page_desc s) N h k False"
proof -
  have st: "pg_state (page_desc t q) = block_state False (q = h) \<Longrightarrow> \<not> free_page (pg_state (page_desc t q))" for t q
    by simp
  have same: "unlinked (page_desc s' q) = unlinked (page_desc s q)" if "\<not> free_page (pg_state (page_desc s q))" for q
    using e that by (simp add: evolves_def)
  have fp: "free_page (pg_state (page_desc s' q)) = free_page (pg_state (page_desc s q))" for q
    using e by (simp add: evolves_def)
  show ?thesis
  proof
    assume b: "blk (page_desc s') N h k False"
    show "blk (page_desc s) N h k False"
    proof (rule blk_cong [OF b])
      fix q assume q: "h \<le> q" "q < h + 2 ^ k"
      then have "\<not> free_page (pg_state (page_desc s q))"
        using blkD(7) [OF b q] fp [of q] by simp
      then show "pg_owner (page_desc s q) = pg_owner (page_desc s' q) \<and>
          pg_order (page_desc s q) = pg_order (page_desc s' q) \<and> pg_state (page_desc s q) = pg_state (page_desc s' q)"
        using unlinked_fields [OF same] by simp
    qed
  next
    assume b: "blk (page_desc s) N h k False"
    show "blk (page_desc s') N h k False"
    proof (rule blk_cong [OF b])
      fix q assume q: "h \<le> q" "q < h + 2 ^ k"
      then have "\<not> free_page (pg_state (page_desc s q))"
        using blkD(7) [OF b q] by simp
      then show "pg_owner (page_desc s' q) = pg_owner (page_desc s q) \<and>
          pg_order (page_desc s' q) = pg_order (page_desc s q) \<and> pg_state (page_desc s' q) = pg_state (page_desc s q)"
        using unlinked_fields [OF same] by simp
    qed
  qed
qed

lemma evolves_alloc:
  assumes e: "evolves s s'" and a: "alloc_ok (page_desc s) N"
  shows "alloc_ok (page_desc s') N"
  unfolding alloc_ok_def
proof (intro allI impI)
  fix h k assume "blk (page_desc s') N h k False"
  then have b: "blk (page_desc s) N h k False"
    using evolves_blk [OF e] by blast
  have same: "requested_pages (page_desc s' q) = requested_pages (page_desc s q)"
    "refcount (page_desc s' q) = refcount (page_desc s q)" if "h \<le> q" "q < h + 2 ^ k" for q
  proof -
    have "unlinked (page_desc s' q) = unlinked (page_desc s q)"
      using e blkD(7) [OF b that] by (simp add: evolves_def)
    then show "requested_pages (page_desc s' q) = requested_pages (page_desc s q)"
      "refcount (page_desc s' q) = refcount (page_desc s q)"
      using unlinked_fields by blast+
  qed
  then show "0 < requested_pages (page_desc s' h) \<and> requested_pages (page_desc s' h) \<le> 2 ^ k \<and> 0 < refcount (page_desc s' h) \<and>
      refcount (page_desc s' h) \<le> 65535 \<and>
      (\<forall>q. h < q \<longrightarrow> q < h + 2 ^ k \<longrightarrow> refcount (page_desc s' q) = 1) \<and>
      (0 < k \<longrightarrow> refcount (page_desc s' h) = 1)"
    using a b unfolding alloc_ok_def by auto
qed

section \<open>Writing a free block\<close>

lemma mark_free_ok:
  assumes "h + 2 ^ k \<le> total_pages s"
  shows "\<exists>s'. mark_free_block h k s = Some s' \<and> marked h k True (page_desc s) (page_desc s') \<and>
    rest_same s s' \<and> free_head s' = free_head s \<and>
    (\<forall>q. \<not> (h \<le> q \<and> q < h + 2 ^ k) \<longrightarrow> page_desc s' q = page_desc s q) \<and>
    (\<forall>q. pg_epoch (page_desc s' q) = pg_epoch (page_desc s q)) \<and>
    (\<forall>q. h \<le> q \<longrightarrow> q < h + 2 ^ k \<longrightarrow> free_page (pg_state (page_desc s' q)))"
proof -
  let ?s = "on_pages h (2 ^ k) (\<lambda>i d.
           d\<lparr>pg_next := PMM_NO_PAGE, pg_prev := PMM_NO_PAGE, pg_owner := h,
             requested_pages := 0, refcount := 0, pg_order := k,
             owner_slot := PMM_NO_OWNER_SLOT,
             pg_state := (if i \<noteq> 0 then PMM_PAGE_FREE_TAIL else PMM_PAGE_FREE_HEAD),
             page_type := 0\<rparr>) s"
  have "h < total_pages s"
    using assms pos_power(2) [of h k] by linarith
  then have "mark_free_block h k s = Some ?s"
    using assms by (simp add: mark_free_block_def valid_page_def Let_def)
  moreover have "marked h k True (page_desc s) (page_desc ?s)"
    by (auto simp: marked_def same_outside_def block_state_def)
  ultimately show ?thesis
    by (intro exI [of _ ?s]) (auto simp: rest_same_def free_page_def)
qed

lemma is_free_head_blk: "blk (page_desc s) N h k True \<Longrightarrow> is_free_head h k s"
  using blk_head [of "page_desc s" N h k True] by (simp add: is_free_head_def block_state_def)

lemma blk_is_free_head:
  assumes "pages_ok (page_desc s) N" "h < N" "is_free_head h k s"
  shows "blk (page_desc s) N h k True"
  using head_blk [OF assms(1,2), of True] assms(3) by (simp add: is_free_head_def block_state_def)

lemma marked_links:
  assumes m: "marked h k f d d'" and same: "\<And>q. pg_owner (e q) = pg_owner (d q) \<and> pg_order (e q) = pg_order (d q) \<and>
      pg_state (e q) = pg_state (d q)"
  shows "marked h k f e d'"
  using m same by (simp add: marked_def same_outside_def)

lemma marked_links':
  assumes m: "marked h k f d d'" and same: "\<And>q. pg_owner (e q) = pg_owner (d' q) \<and> pg_order (e q) = pg_order (d' q) \<and>
      pg_state (e q) = pg_state (d' q)"
  shows "marked h k f d e"
  using m same by (simp add: marked_def same_outside_def)

section \<open>Splitting\<close>

lemma split_step:
  assumes inv: "pmm_inv h s F" and b: "blk (page_desc s) (total_pages s) h (Suc k) True"
  shows "\<exists>s1 s2 s3. mark_free_block (h + 2 ^ k) k s = Some s1 \<and> list_insert (h + 2 ^ k) k s1 = Some s2 \<and>
    mark_free_block h k s2 = Some s3 \<and> pmm_inv h s3 (F(k := (h + 2 ^ k) # F k)) \<and>
    blk (page_desc s3) (total_pages s3) h k True \<and> evolves s s3"
proof -
  note I = pmm_invD [OF inv]
  let ?N = "total_pages s" and ?r = "h + 2 ^ k"
  have k: "k \<le> 32" "h + 2 ^ Suc k \<le> ?N" "2 ^ k dvd h"
    using blkD(1-3) [OF b] by (auto elim: dvd_trans [rotated])
  have listed: "\<not> (h \<le> x \<and> x < h + 2 ^ Suc k)" if "x \<in> set (F j)" for x j
    using blk_inside [OF b, of x j True] that I(3) by blast
  obtain s1 where s1: "mark_free_block ?r k s = Some s1" "marked ?r k True (page_desc s) (page_desc s1)"
    "rest_same s s1" "free_head s1 = free_head s"
    "\<And>q. \<not> (?r \<le> q \<and> q < ?r + 2 ^ k) \<Longrightarrow> page_desc s1 q = page_desc s q"
    "\<And>q. pg_epoch (page_desc s1 q) = pg_epoch (page_desc s q)"
    "\<And>q. ?r \<le> q \<Longrightarrow> q < ?r + 2 ^ k \<Longrightarrow> free_page (pg_state (page_desc s1 q))"
    using mark_free_ok [of ?r k s] k(2) by auto
  have N1: "total_pages s1 = ?N" using s1(3) by (simp add: rest_same_def)
  have "page_desc s1 x = page_desc s x" if "x \<in> set (F j)" for x j
    using s1(5) [of x] listed [OF that] by auto
  then have l1: "links_ok s1 F"
    using s1(4) N1 by (intro links_ok_cong [OF I(2)]) simp_all
  have b1: "blk (page_desc s1) ?N ?r k True"
    using k by (intro marked_blk [OF s1(2)]) auto
  have "?r \<notin> set (F j)" for j
    using listed [of ?r j] by auto
  then obtain s2 where s2: "list_insert ?r k s1 = Some s2" "links_ok s2 (F(k := ?r # F k))" "links_only s1 s2"
    using free_list_insert_ok [OF l1, of ?r k] is_free_head_blk [OF b1] k N1 blkD(4) [OF b1] by auto
  note L = links_onlyD [OF s2(3)]
  obtain s3 where s3: "mark_free_block h k s2 = Some s3" "marked h k True (page_desc s2) (page_desc s3)"
    "rest_same s2 s3" "free_head s3 = free_head s2"
    "\<And>q. \<not> (h \<le> q \<and> q < h + 2 ^ k) \<Longrightarrow> page_desc s3 q = page_desc s2 q"
    "\<And>q. pg_epoch (page_desc s3 q) = pg_epoch (page_desc s2 q)"
    "\<And>q. h \<le> q \<Longrightarrow> q < h + 2 ^ k \<Longrightarrow> free_page (pg_state (page_desc s3 q))"
    using mark_free_ok [of h k s2] k(2) L(2) N1 by auto
  have N3: "total_pages s3 = ?N" using s3(3) L(2) N1 by (simp add: rest_same_def)
  have m1: "marked ?r k True (page_desc s) (page_desc s2)"
    using L(3-5) by (intro marked_links' [OF s1(2)]) simp
  note S = split_blocks [OF I(1) b m1 s3(2)]
  have ev: "evolves s s3"
  proof -
    have in_h: "free_page (pg_state (page_desc s q))" if "h \<le> q" "q < h + 2 ^ Suc k" for q
      using blkD(7) [OF b that] by simp
    have out: "unlinked (page_desc s3 q) = unlinked (page_desc s q)" if "\<not> (h \<le> q \<and> q < h + 2 ^ Suc k)" for q
    proof -
      have "unlinked (page_desc s2 q) = unlinked (page_desc s1 q)"
        using s2(3) by (simp add: links_only_def)
      moreover have "page_desc s1 q = page_desc s q" "page_desc s3 q = page_desc s2 q"
        using that s1(5) [of q] s3(5) [of q] by auto
      ultimately show ?thesis by simp
    qed
    have new: "free_page (pg_state (page_desc s3 q))" if "h \<le> q" "q < h + 2 ^ Suc k" for q
    proof (cases "q < ?r")
      case True
      then show ?thesis using s3(7) that by simp
    next
      case False
      then have "page_desc s3 q = page_desc s2 q" using s3(5) by simp
      then show ?thesis using s1(7) [of q] L(5) [of q] that False by simp
    qed
    have st: "free_page (pg_state (page_desc s3 q)) = free_page (pg_state (page_desc s q))" for q
      using in_h new unlinked_fields(3) [OF out] by (cases "h \<le> q \<and> q < h + 2 ^ Suc k") auto
    show ?thesis
      unfolding evolves_def
      using st in_h out rest_same_trans [OF s1(3) rest_same_trans [OF L(1) s3(3)]] s1(6) L(8) s3(6) by simp metis
  qed
  have "pmm_inv h s3 (F(k := ?r # F k))"
    unfolding pmm_inv_def N3
  proof (intro conjI allI)
    show "pages_ok (page_desc s3) ?N" by (rule S(1))
    show "links_ok s3 (F(k := ?r # F k))"
    proof (rule links_ok_cong [OF s2(2)])
      show "pg_next (page_desc s3 x) = pg_next (page_desc s2 x) \<and> pg_prev (page_desc s3 x) = pg_prev (page_desc s2 x)"
        if x: "x \<in> set ((F(k := ?r # F k)) j)" for x j
      proof -
        have "\<not> (h \<le> x \<and> x < h + 2 ^ k)"
        proof (cases "x = ?r")
          case False
          then have "x \<in> set (F j)" using x by (auto split: if_splits)
          then have "\<not> (h \<le> x \<and> x < h + 2 ^ Suc k)" by (rule listed)
          then show ?thesis by auto
        qed simp
        then show ?thesis using s3(5) by simp
      qed
    qed (use s3(3,4) in \<open>simp_all add: rest_same_def\<close>)
    show "x \<in> set ((F(k := ?r # F k)) j) \<longleftrightarrow> blk (page_desc s3) ?N x j True \<and> x \<noteq> h" for x j
    proof -
      have "\<not> blk (page_desc s) ?N ?r j True"
        using blk_inside [OF b, of ?r j True] by auto
      then show ?thesis
        unfolding S(2) using I(3) by auto
    qed
    show "coal (page_desc s3) ?N h"
      unfolding coal_def
    proof (intro allI impI)
      fix x j assume x: "blk (page_desc s3) ?N x j True" "x \<noteq> h" "j < 32" "x XOR 2 ^ j \<noteq> h"
      have hr: "h XOR 2 ^ k = ?r"
        using buddy_of [OF k(3)] blkD(1) [OF b] by simp
      have rh: "?r XOR 2 ^ k = h"
        using buddy_props(3) [OF k(3)] hr by simp
      have old: "blk (page_desc s) ?N x j True"
        using x(1,2,4) rh unfolding S(2) by auto
      show "\<not> blk (page_desc s3) ?N (x XOR 2 ^ j) j True"
      proof
        assume y: "blk (page_desc s3) ?N (x XOR 2 ^ j) j True"
        have "\<not> (x XOR 2 ^ j = ?r \<and> j = k)"
        proof
          assume a: "x XOR 2 ^ j = ?r \<and> j = k"
          then have "x = ?r XOR 2 ^ k"
            using buddy_props(3) [OF blkD(1) [OF old]] by metis
          then show False using rh x(2) by simp
        qed
        then have "blk (page_desc s) ?N (x XOR 2 ^ j) j True"
          using y x(4) unfolding S(2) by blast
        then show False
          using I(4) old x(2-4) unfolding coal_def by blast
      qed
    qed
    show "alloc_ok (page_desc s3) ?N"
      by (rule evolves_alloc [OF ev I(5)])
  qed
  moreover have "blk (page_desc s3) (total_pages s3) h k True"
    unfolding N3 S(2) by simp
  ultimately show ?thesis
    using s1(1) s2(1) s3(1) ev by blast
qed

lemma split_block_ok:
  assumes "pmm_inv h s F" "blk (page_desc s) (total_pages s) h k True" "w \<le> k"
  shows "\<exists>s' F'. split_block h k w s = Some s' \<and> pmm_inv h s' F' \<and>
    blk (page_desc s') (total_pages s') h w True \<and> evolves s s'"
  using assms
proof (induction k arbitrary: s F)
  case 0
  then show ?case by auto
next
  case (Suc k)
  show ?case
  proof (cases "w \<le> k")
    case True
    obtain s1 s2 s3 where st: "mark_free_block (h + 2 ^ k) k s = Some s1" "list_insert (h + 2 ^ k) k s1 = Some s2"
      "mark_free_block h k s2 = Some s3" "pmm_inv h s3 (F(k := (h + 2 ^ k) # F k))"
      "blk (page_desc s3) (total_pages s3) h k True" "evolves s s3"
      using split_step [OF Suc.prems(1,2)] by blast
    from Suc.IH [OF st(4,5) True] obtain s' F' where s': "split_block h k w s3 = Some s'" "pmm_inv h s' F'"
      "blk (page_desc s') (total_pages s') h w True" "evolves s3 s'"
      by blast
    have "split_block h (Suc k) w s = Some s'"
      using st(1-3) s'(1) True by (simp add: Let_def)
    then show ?thesis
      using s'(2,3) evolves_trans [OF st(6) s'(4)] by blast
  next
    case False
    then have "w = Suc k" using Suc.prems(3) by simp
    then show ?thesis using Suc.prems by auto
  qed
qed

section \<open>Joining\<close>

lemma merge_step:
  assumes inv: "pmm_inv h s F" and b: "blk (page_desc s) (total_pages s) h k True" and k: "k < 32"
    and bud: "h XOR 2 ^ k < total_pages s" "is_free_head (h XOR 2 ^ k) k s"
  shows "\<exists>s1 s2. list_remove (h XOR 2 ^ k) k s = Some s1 \<and>
    mark_free_block (min h (h XOR 2 ^ k)) (Suc k) s1 = Some s2 \<and>
    pmm_inv (min h (h XOR 2 ^ k)) s2 (F(k := remove1 (h XOR 2 ^ k) (F k))) \<and>
    blk (page_desc s2) (total_pages s2) (min h (h XOR 2 ^ k)) (Suc k) True \<and> evolves s s2"
proof -
  note I = pmm_invD [OF inv]
  let ?N = "total_pages s" and ?b = "h XOR 2 ^ k" and ?l = "min h (h XOR 2 ^ k)"
  let ?F = "F(k := remove1 ?b (F k))"
  note B = buddy_props [OF blkD(1) [OF b]]
  have bb: "blk (page_desc s) ?N ?b k True"
    by (rule blk_is_free_head [OF I(1) bud])
  have mem: "?b \<in> set (F k)"
    using I(3) bb B(2) by simp
  obtain s1 where s1: "list_remove ?b k s = Some s1" "links_ok s1 ?F" "links_only s s1"
    using free_list_remove_ok [OF I(2) mem bud(2)] k by auto
  note L = links_onlyD [OF s1(3)]
  have fin: "?l + 2 ^ Suc k \<le> ?N"
    using B(5) blkD(3) [OF b] blkD(3) [OF bb] by (simp add: max_def split: if_splits)
  obtain s2 where s2: "mark_free_block ?l (Suc k) s1 = Some s2" "marked ?l (Suc k) True (page_desc s1) (page_desc s2)"
    "rest_same s1 s2" "free_head s2 = free_head s1"
    "\<And>q. \<not> (?l \<le> q \<and> q < ?l + 2 ^ Suc k) \<Longrightarrow> page_desc s2 q = page_desc s1 q"
    "\<And>q. pg_epoch (page_desc s2 q) = pg_epoch (page_desc s1 q)"
    "\<And>q. ?l \<le> q \<Longrightarrow> q < ?l + 2 ^ Suc k \<Longrightarrow> free_page (pg_state (page_desc s2 q))"
    using mark_free_ok [of ?l "Suc k" s1] fin L(2) by auto
  have N2: "total_pages s2 = ?N" using s2(3) L(2) by (simp add: rest_same_def)
  have m: "marked ?l (Suc k) True (page_desc s) (page_desc s2)"
    using L(3-5) by (intro marked_links [OF s2(2)]) simp
  note J = join_blocks [OF I(1) b bb k m]
  have bl: "blk (page_desc s2) ?N ?l (Suc k) True"
    unfolding J(2) by simp
  have old: "\<not> (?l \<le> x \<and> x < ?l + 2 ^ Suc k)" if "blk (page_desc s) ?N x j e" "x \<noteq> h" "x \<noteq> ?b" for x j e
  proof -
    have "blk (page_desc s2) ?N x j e"
      unfolding J(2) using that by blast
    moreover have "x \<noteq> ?l" using that(2,3) by (simp add: min_def)
    ultimately show ?thesis using blk_inside [OF bl] by blast
  qed
  have inF: "x \<in> set (?F j) \<longleftrightarrow> blk (page_desc s) ?N x j True \<and> x \<noteq> h \<and> x \<noteq> ?b" for x j
  proof (cases "j = k")
    case True
    then show ?thesis using I(3) [of x k] links_okD(2) [OF I(2), of k] by auto
  next
    case False
    then have "\<not> blk (page_desc s) ?N ?b j True"
      using blk_head(2) [OF bb] blk_head(2) [of "page_desc s" ?N ?b j True] by auto
    then show ?thesis using False I(3) [of x j] by auto
  qed
  have ev: "evolves s s2"
  proof -
    have in_l: "free_page (pg_state (page_desc s q))" if "?l \<le> q" "q < ?l + 2 ^ Suc k" for q
    proof -
      have "(h \<le> q \<and> q < h + 2 ^ k) \<or> (?b \<le> q \<and> q < ?b + 2 ^ k)"
        using that B(5) by (auto simp: min_def max_def split: if_splits)
      then show ?thesis
        using blkD(7) [OF b, of q] blkD(7) [OF bb, of q] by auto
    qed
    have out: "unlinked (page_desc s2 q) = unlinked (page_desc s q)" if "\<not> (?l \<le> q \<and> q < ?l + 2 ^ Suc k)" for q
      using s2(5) [OF that] s1(3) by (simp add: links_only_def)
    have st: "free_page (pg_state (page_desc s2 q)) = free_page (pg_state (page_desc s q))" for q
      using in_l s2(7) unlinked_fields(3) [OF out] by (cases "?l \<le> q \<and> q < ?l + 2 ^ Suc k") auto
    show ?thesis
      unfolding evolves_def
      using st in_l out rest_same_trans [OF L(1) s2(3)] L(8) s2(6) by simp metis
  qed
  have "pmm_inv ?l s2 ?F"
    unfolding pmm_inv_def N2
  proof (intro conjI allI)
    show "pages_ok (page_desc s2) ?N" by (rule J(1))
    show "links_ok s2 ?F"
    proof (rule links_ok_cong [OF s1(2)])
      show "pg_next (page_desc s2 x) = pg_next (page_desc s1 x) \<and> pg_prev (page_desc s2 x) = pg_prev (page_desc s1 x)"
        if "x \<in> set (?F j)" for x j
        using that s2(5) [of x] old [of x j True] unfolding inF by simp
    qed (use s2(3,4) in \<open>simp_all add: rest_same_def\<close>)
    show "x \<in> set (?F j) \<longleftrightarrow> blk (page_desc s2) ?N x j True \<and> x \<noteq> ?l" for x j
      unfolding inF J(2) by (auto simp: min_def)
    show "coal (page_desc s2) ?N ?l"
      unfolding coal_def
    proof (intro allI impI notI)
      fix x j assume x: "blk (page_desc s2) ?N x j True" "x \<noteq> ?l" "j < 32" "x XOR 2 ^ j \<noteq> ?l"
        and y: "blk (page_desc s2) ?N (x XOR 2 ^ j) j True"
      have "blk (page_desc s) ?N x j True" "x \<noteq> h" "blk (page_desc s) ?N (x XOR 2 ^ j) j True" "x XOR 2 ^ j \<noteq> h"
        using x(1,2,4) y unfolding J(2) by auto
      then show False
        using I(4) x(3) unfolding coal_def by blast
    qed
    show "alloc_ok (page_desc s2) ?N"
      by (rule evolves_alloc [OF ev I(5)])
  qed
  then show ?thesis
    using s1(1) s2(1) bl ev N2 by auto
qed

lemma merge_up_ok:
  assumes "pmm_inv h s F" "blk (page_desc s) (total_pages s) h k True"
  shows "\<exists>h' k' s' F'. merge_up h k s = Some (h', k', s') \<and> pmm_inv h' s' F' \<and>
    blk (page_desc s') (total_pages s') h' k' True \<and> evolves s s' \<and>
    (k' < 32 \<longrightarrow> \<not> blk (page_desc s') (total_pages s') (h' XOR 2 ^ k') k' True)"
  using assms
proof (induction h k s arbitrary: F rule: merge_up.induct)
  case (1 h k s)
  let ?b = "h XOR 2 ^ k"
  show ?case
  proof (cases "k < PMM_MAX_ORDER \<and> valid_page s ?b \<and> is_free_head ?b k s")
    case True
    then have k: "k < 32" "?b < total_pages s" "is_free_head ?b k s"
      by (simp_all add: PMM_MAX_ORDER_def valid_page_def)
    obtain s1 s2 where st: "list_remove ?b k s = Some s1" "mark_free_block (min h ?b) (Suc k) s1 = Some s2"
      "pmm_inv (min h ?b) s2 (F(k := remove1 ?b (F k)))"
      "blk (page_desc s2) (total_pages s2) (min h ?b) (Suc k) True" "evolves s s2"
      using merge_step [OF "1.prems" k] by blast
    have l: "(if ?b < h then ?b else h) = min h ?b"
      by (simp add: min_def)
    have c: "k < PMM_MAX_ORDER" "\<not> \<not> valid_page s ?b" "\<not> \<not> is_free_head ?b k s"
      using True by simp_all
    note ih = "1.IH" [OF c(1) refl c(2,3) st(1) refl refl, unfolded l, OF st(2-4)]
    have run: "merge_up h k s = merge_up (min h ?b) (Suc k) s2"
      using True st(1,2) l by (subst merge_up.simps) (simp add: Let_def)
    show ?thesis
      using ih evolves_trans [OF st(5)] unfolding run by blast
  next
    case False
    then have run: "merge_up h k s = Some (h, k, s)"
      by (subst merge_up.simps) (auto simp: Let_def)
    have "\<not> blk (page_desc s) (total_pages s) ?b k True" if "k < 32"
      using False that blkD(4) is_free_head_blk by (auto simp: PMM_MAX_ORDER_def valid_page_def)
    then show ?thesis
      using run "1.prems" by (intro exI [of _ h] exI [of _ k] exI [of _ s] exI [of _ F]) simp
  qed
qed

text \<open>Putting the block in hand on its list.\<close>

lemma insert_in_hand:
  assumes inv: "pmm_inv h s F" and b: "blk (page_desc s) (total_pages s) h k True"
    and alone: "k < 32 \<longrightarrow> \<not> blk (page_desc s) (total_pages s) (h XOR 2 ^ k) k True"
  shows "\<exists>s'. list_insert h k s = Some s' \<and> pmm_inv (total_pages s') s' (F(k := h # F k)) \<and> links_only s s'"
proof -
  note I = pmm_invD [OF inv]
  have "h \<notin> set (F j)" for j
    using I(3) by simp
  then obtain s' where s': "list_insert h k s = Some s'" "links_ok s' (F(k := h # F k))" "links_only s s'"
    using free_list_insert_ok [OF I(2) blkD(4) [OF b] _ is_free_head_blk [OF b] blkD(2) [OF b]] by blast
  note L = links_onlyD [OF s'(3)]
  have eq: "blk (page_desc s') N x j e = blk (page_desc s) N x j e" for N x j e
    unfolding blk_def L(3-5) ..
  have coal: "coal (page_desc s') (total_pages s') (total_pages s')"
    unfolding coal_def
  proof (intro allI impI notI)
    fix x j assume x: "blk (page_desc s') (total_pages s') x j True" "j < 32"
      and y: "blk (page_desc s') (total_pages s') (x XOR 2 ^ j) j True"
    show False
    proof (cases "x = h \<or> x XOR 2 ^ j = h")
      case True
      then have "j = k"
        using x(1) y blk_head(2) [OF b] blk_head(2) unfolding eq by metis
      moreover have "x = h XOR 2 ^ j" if "x XOR 2 ^ j = h"
        using buddy_props(3) [OF blkD(1) [OF x(1)]] that by simp
      ultimately show False
        using True alone x y unfolding eq L(2) by auto
    next
      case False
      then show False
        using I(4) x y unfolding coal_def eq L(2) by blast
    qed
  qed
  have "pmm_inv (total_pages s') s' (F(k := h # F k))"
    unfolding pmm_inv_def
  proof (intro conjI allI)
    show "pages_ok (page_desc s') (total_pages s')"
      using I(1) unfolding pages_ok_def eq L(2,5) .
    show "x \<in> set ((F(k := h # F k)) j) \<longleftrightarrow> blk (page_desc s') (total_pages s') x j True \<and> x \<noteq> total_pages s'" for x j
    proof -
      have "blk (page_desc s) (total_pages s) h j True \<longleftrightarrow> j = k"
        using b blk_head(2) [OF b] blk_head(2) by metis
      moreover have "blk (page_desc s) (total_pages s) x j True \<Longrightarrow> x \<noteq> total_pages s"
        using blkD(4) by blast
      ultimately show ?thesis
        unfolding eq L(2) using I(3) [of x j] by (cases "x = h") auto
    qed
    show "alloc_ok (page_desc s') (total_pages s')"
      using I(5) unfolding alloc_ok_def eq L(2,6,7) .
  qed (use s'(2) coal in simp_all)
  then show ?thesis using s' by blast
qed

section \<open>Release\<close>

text \<open>The pages of a block join the free ones; what else is not free keeps its descriptor.\<close>

definition freed :: "nat \<Rightarrow> nat \<Rightarrow> pmm \<Rightarrow> pmm \<Rightarrow> bool" where
  "freed h n s s' \<longleftrightarrow> rest_same s s' \<and>
     (\<forall>q. free_page (pg_state (page_desc s' q)) \<longleftrightarrow> free_page (pg_state (page_desc s q)) \<or> h \<le> q \<and> q < h + n) \<and>
     (\<forall>q. pg_epoch (page_desc s' q) = pg_epoch (page_desc s q)) \<and>
     (\<forall>q. \<not> free_page (pg_state (page_desc s' q)) \<longrightarrow> unlinked (page_desc s' q) = unlinked (page_desc s q))"

lemma freed_evolves: "freed h n s t \<Longrightarrow> evolves t u \<Longrightarrow> freed h n s u"
  by (auto simp: freed_def evolves_def intro: rest_same_trans)

lemma coal_any: "coal d N N \<Longrightarrow> coal d N c"
  unfolding coal_def by (metis blkD(4) less_irrefl)

lemma mark_release:
  assumes inv: "pmm_inv (total_pages s) s F" and b: "blk (page_desc s) (total_pages s) h k False"
  shows "\<exists>s'. mark_free_block h k s = Some s' \<and> pmm_inv h s' F \<and>
    blk (page_desc s') (total_pages s') h k True \<and> freed h (2 ^ k) s s'"
proof -
  note I = pmm_invD [OF inv]
  let ?N = "total_pages s"
  obtain s' where s': "mark_free_block h k s = Some s'" "marked h k True (page_desc s) (page_desc s')"
    "rest_same s s'" "free_head s' = free_head s"
    "\<And>q. \<not> (h \<le> q \<and> q < h + 2 ^ k) \<Longrightarrow> page_desc s' q = page_desc s q"
    "\<And>q. pg_epoch (page_desc s' q) = pg_epoch (page_desc s q)"
    "\<And>q. h \<le> q \<Longrightarrow> q < h + 2 ^ k \<Longrightarrow> free_page (pg_state (page_desc s' q))"
    using mark_free_ok [of h k s] blkD(3) [OF b] by auto
  have N': "total_pages s' = ?N" using s'(3) by (simp add: rest_same_def)
  note R = retag_blocks [OF I(1) b s'(2)]
  have not_free: "\<not> blk (page_desc s) ?N h j True" for j
    using b blk_unique [OF b, of h j True h] by auto
  have "pmm_inv h s' F"
    unfolding pmm_inv_def N'
  proof (intro conjI allI)
    show "pages_ok (page_desc s') ?N" by (rule R(1))
    show "links_ok s' F"
    proof (rule links_ok_cong [OF I(2) N' s'(4)])
      show "pg_next (page_desc s' x) = pg_next (page_desc s x) \<and> pg_prev (page_desc s' x) = pg_prev (page_desc s x)"
        if "x \<in> set (F j)" for x j
        using that blk_inside [OF b, of x j True] s'(5) [of x] not_free I(3) by metis
    qed
    show "x \<in> set (F j) \<longleftrightarrow> blk (page_desc s') ?N x j True \<and> x \<noteq> h" for x j
      unfolding R(2) I(3) using not_free blkD(4) [of "page_desc s" ?N x j True] by auto
    show "coal (page_desc s') ?N h"
      using coal_any [OF I(4), of h] unfolding coal_def R(2) by blast
    show "alloc_ok (page_desc s') ?N"
      unfolding alloc_ok_def R(2)
    proof (intro allI impI)
      fix x j assume "x = h \<and> j = k \<and> False = True \<or> blk (page_desc s) ?N x j False \<and> x \<noteq> h"
      then have x: "blk (page_desc s) ?N x j False" "x \<noteq> h" by auto
      have "page_desc s' q = page_desc s q" if "x \<le> q" "q < x + 2 ^ j" for q
        using blk_disjoint [OF b x(1)] x(2) that s'(5) [of q] by auto
      then show "0 < requested_pages (page_desc s' x) \<and> requested_pages (page_desc s' x) \<le> 2 ^ j \<and> 0 < refcount (page_desc s' x) \<and>
          refcount (page_desc s' x) \<le> 65535 \<and>
          (\<forall>q. x < q \<longrightarrow> q < x + 2 ^ j \<longrightarrow> refcount (page_desc s' q) = 1) \<and>
          (0 < j \<longrightarrow> refcount (page_desc s' x) = 1)"
        using I(5) x(1) unfolding alloc_ok_def by simp
    qed
  qed
  moreover have "freed h (2 ^ k) s s'"
    unfolding freed_def
  proof (intro conjI allI impI)
    fix q
    show "free_page (pg_state (page_desc s' q)) \<longleftrightarrow> free_page (pg_state (page_desc s q)) \<or> h \<le> q \<and> q < h + 2 ^ k"
      using s'(5,7) [of q] by (cases "h \<le> q \<and> q < h + 2 ^ k") auto
    show "unlinked (page_desc s' q) = unlinked (page_desc s q)" if "\<not> free_page (pg_state (page_desc s' q))"
      using that s'(5,7) [of q] by (cases "h \<le> q \<and> q < h + 2 ^ k") auto
  qed (use s'(3,6) in auto)
  ultimately show ?thesis
    using s'(1) N' R(2) by auto
qed

lemma release_block_ok:
  assumes inv: "pmm_inv (total_pages s) s F" and b: "blk (page_desc s) (total_pages s) h k False"
  shows "\<exists>s' F'. release_block h k s = Some s' \<and> pmm_inv (total_pages s') s' F' \<and> freed h (2 ^ k) s s'"
proof -
  obtain s1 where s1: "mark_free_block h k s = Some s1" "pmm_inv h s1 F"
    "blk (page_desc s1) (total_pages s1) h k True" "freed h (2 ^ k) s s1"
    using mark_release [OF assms] by blast
  obtain h' k' s2 F' where s2: "merge_up h k s1 = Some (h', k', s2)" "pmm_inv h' s2 F'"
    "blk (page_desc s2) (total_pages s2) h' k' True" "evolves s1 s2"
    "k' < 32 \<longrightarrow> \<not> blk (page_desc s2) (total_pages s2) (h' XOR 2 ^ k') k' True"
    using merge_up_ok [OF s1(2,3)] by blast
  obtain s3 where s3: "list_insert h' k' s2 = Some s3" "pmm_inv (total_pages s3) s3 (F'(k' := h' # F' k'))"
    "links_only s2 s3"
    using insert_in_hand [OF s2(2,3,5)] by blast
  have "release_block h k s = Some s3"
    by (simp add: release_block_def s1(1) s2(1) s3(1))
  moreover have "freed h (2 ^ k) s s3"
    using freed_evolves [OF freed_evolves [OF s1(4) s2(4)] links_only_evolves [OF s3(3)]] .
  ultimately show ?thesis using s3(2) by blast
qed

section \<open>Search\<close>

definition fits :: "nat \<Rightarrow> nat \<Rightarrow> nat \<Rightarrow> bool" where
  "fits w ceiling h \<longleftrightarrow> ceiling = 0 \<or> (h + 2 ^ w) * PMM_PAGE_SIZE - 1 \<le> ceiling"

lemma scan_free_list:
  assumes "glinks PMM_NO_PAGE (\<lambda>p. pg_next (page_desc s p)) pv p xs PMM_NO_PAGE"
    "\<And>x. x \<in> set xs \<Longrightarrow> x < total_pages s" "total_pages s < PMM_NO_PAGE"
  shows "scan_free s w c (first xs PMM_NO_PAGE) =
    Some (case find (fits w c) xs of None \<Rightarrow> PMM_NO_PAGE | Some h \<Rightarrow> h)"
  using assms
proof (induction xs arbitrary: p)
  case Nil
  then show ?case by (subst scan_free.simps) simp
next
  case (Cons x xs)
  have "x \<noteq> PMM_NO_PAGE" "valid_page s x"
    using Cons.prems(2) [of x] Cons.prems(3) by (auto simp: valid_page_def)
  moreover have "pg_next (page_desc s x) = first xs PMM_NO_PAGE"
    "glinks PMM_NO_PAGE (\<lambda>p. pg_next (page_desc s p)) pv x xs PMM_NO_PAGE"
    using Cons.prems(1) by simp_all
  moreover from this(2) have "scan_free s w c (first xs PMM_NO_PAGE) =
      Some (case find (fits w c) xs of None \<Rightarrow> PMM_NO_PAGE | Some h \<Rightarrow> h)"
    using Cons.prems(2,3) by (intro Cons.IH) auto
  moreover have "c \<noteq> 0 \<and> (x + 2 ^ w) * PMM_PAGE_SIZE - 1 > c \<longleftrightarrow> \<not> fits w c x"
    by (auto simp: fits_def)
  ultimately show ?case
    by (subst scan_free.simps) (simp add: Let_def)
qed

lemma take_found:
  assumes inv: "pmm_inv (total_pages s) s F" and h: "h \<in> set (F k)" and w: "w \<le> k"
  shows "\<exists>s1 s' F'. list_remove h k s = Some s1 \<and> split_block h k w s1 = Some s' \<and>
    pmm_inv h s' F' \<and> blk (page_desc s') (total_pages s') h w True \<and> evolves s s'"
proof -
  note I = pmm_invD [OF inv]
  have b: "blk (page_desc s) (total_pages s) h k True"
    using I(3) h by blast
  obtain s1 where s1: "list_remove h k s = Some s1" "links_ok s1 (F(k := remove1 h (F k)))" "links_only s s1"
    using free_list_remove_ok [OF I(2) h is_free_head_blk [OF b] blkD(2) [OF b]] by blast
  note L = links_onlyD [OF s1(3)]
  have eq: "blk (page_desc s1) N x j e = blk (page_desc s) N x j e" for N x j e
    unfolding blk_def L(3-5) ..
  have "pmm_inv h s1 (F(k := remove1 h (F k)))"
    unfolding pmm_inv_def
  proof (intro conjI allI)
    show "pages_ok (page_desc s1) (total_pages s1)"
      using I(1) unfolding pages_ok_def eq L(2,5) .
    show "x \<in> set ((F(k := remove1 h (F k))) j) \<longleftrightarrow> blk (page_desc s1) (total_pages s1) x j True \<and> x \<noteq> h" for x j
    proof -
      have "blk (page_desc s) (total_pages s) h j True \<longleftrightarrow> j = k"
        using b blk_head(2) [OF b] blk_head(2) by metis
      moreover have "x \<noteq> total_pages s" if "blk (page_desc s) (total_pages s) x j True"
        using blkD(4) [OF that] by simp
      ultimately show ?thesis
        unfolding eq L(2) using I(3) [of x j] links_okD(2) [OF I(2), of k] by (cases "j = k") auto
    qed
    show "coal (page_desc s1) (total_pages s1) h"
      using coal_any [OF I(4), of h] unfolding coal_def eq L(2) .
    show "alloc_ok (page_desc s1) (total_pages s1)"
      using I(5) unfolding alloc_ok_def eq L(2,6,7) .
  qed (use s1(2) in simp)
  moreover have "blk (page_desc s1) (total_pages s1) h k True"
    using b unfolding eq L(2) .
  ultimately obtain s' F' where "split_block h k w s1 = Some s'" "pmm_inv h s' F'"
    "blk (page_desc s') (total_pages s') h w True" "evolves s1 s'"
    using split_block_ok w by blast
  then show ?thesis
    using s1(1) evolves_trans [OF links_only_evolves [OF s1(3)]] by blast
qed

lemma take_from_ok:
  assumes inv: "pmm_inv (total_pages s) s F" and "w \<le> k"
  shows "(take_from w c k s = Some (PMM_NO_PAGE, s) \<and> (\<forall>j h. k \<le> j \<longrightarrow> h \<in> set (F j) \<longrightarrow> \<not> fits w c h)) \<or>
    (\<exists>h s' F' j. take_from w c k s = Some (h, s') \<and> pmm_inv h s' F' \<and> k \<le> j \<and> h \<in> set (F j) \<and> fits w c h \<and>
      blk (page_desc s') (total_pages s') h w True \<and> evolves s s')"
  using assms(2)
proof (induction "33 - k" arbitrary: k)
  case 0
  have "h \<notin> set (F j)" if "k \<le> j" for j h
    using pmm_invD(3) [OF inv, of h j] blkD(2) [of "page_desc s" "total_pages s" h j True] 0 that by auto
  then show ?case
    using 0 by (subst (1) take_from.simps) (auto simp: PMM_MAX_ORDER_def)
next
  case (Suc m)
  note I = pmm_invD [OF inv]
  note L = links_okD [OF I(2)]
  have k: "k \<le> PMM_MAX_ORDER" using Suc.hyps(2) by (simp add: PMM_MAX_ORDER_def)
  then have head: "free_head s k = first (F k) PMM_NO_PAGE"
    using L(5) by (simp add: PMM_MAX_ORDER_def)
  have scan: "scan_free s w c (free_head s k) = Some (case find (fits w c) (F k) of None \<Rightarrow> PMM_NO_PAGE | Some h \<Rightarrow> h)"
    unfolding head by (rule scan_free_list [OF L(4) L(3) L(1)])
  show ?case
  proof (cases "find (fits w c) (F k)")
    case None
    have run: "take_from w c k s = take_from w c (Suc k) s"
      using k scan None by (subst take_from.simps) simp
    have none: "\<not> fits w c h" if "h \<in> set (F k)" for h
      using None that by (auto simp: find_None_iff)
    have "m = 33 - Suc k" "w \<le> Suc k" using Suc.hyps(2) Suc.prems by simp_all
    note ih = Suc.hyps(1) [OF this]
    from ih consider "take_from w c (Suc k) s = Some (PMM_NO_PAGE, s)"
        "\<And>j h. Suc k \<le> j \<Longrightarrow> h \<in> set (F j) \<Longrightarrow> \<not> fits w c h"
      | h s' F' j where "take_from w c (Suc k) s = Some (h, s')" "pmm_inv h s' F'" "Suc k \<le> j" "h \<in> set (F j)"
        "fits w c h" "blk (page_desc s') (total_pages s') h w True" "evolves s s'"
      by blast
    then show ?thesis
    proof cases
      case 1
      then have "\<not> fits w c h" if "k \<le> j" "h \<in> set (F j)" for j h
        using 1(2) [of j h] none that by (cases "j = k") auto
      then show ?thesis using 1(1) unfolding run by blast
    next
      case 2
      then show ?thesis unfolding run by (metis Suc_leD)
    qed
  next
    case (Some h)
    then have h: "h \<in> set (F k)" "fits w c h"
      by (auto simp: find_Some_iff)
    obtain s1 s' F' where st: "list_remove h k s = Some s1" "split_block h k w s1 = Some s'"
      "pmm_inv h s' F'" "blk (page_desc s') (total_pages s') h w True" "evolves s s'"
      using take_found [OF inv h(1) Suc.prems] by blast
    have "h \<noteq> PMM_NO_PAGE"
      using L(1,3) h(1) by fastforce
    then have "take_from w c k s = Some (h, s')"
      using k scan Some st(1,2) by (subst take_from.simps) simp
    then show ?thesis using st(3-5) h by blast
  qed
qed

section \<open>Orders\<close>

lemma order_from_least:
  assumes "k \<le> 32"
  shows "k \<le> order_from n (2 ^ k) k" "order_from n (2 ^ k) k \<le> 32"
    "n \<le> 2 ^ 32 \<Longrightarrow> n \<le> 2 ^ order_from n (2 ^ k) k"
    "k \<le> j \<Longrightarrow> j < order_from n (2 ^ k) k \<Longrightarrow> 2 ^ j < n"
proof -
  have "k \<le> order_from n (2 ^ k) k \<and> order_from n (2 ^ k) k \<le> 32 \<and>
      (n \<le> 2 ^ 32 \<longrightarrow> n \<le> 2 ^ order_from n (2 ^ k) k) \<and>
      (\<forall>j. k \<le> j \<longrightarrow> j < order_from n (2 ^ k) k \<longrightarrow> 2 ^ j < n)"
    using assms
  proof (induction "32 - k" arbitrary: k)
    case 0
    then have "k = 32" by simp
    then have "order_from n (2 ^ k) k = k"
      by (subst order_from.simps) (simp add: PMM_MAX_ORDER_def)
    then show ?case using \<open>k = 32\<close> by simp
  next
    case (Suc m)
    show ?case
    proof (cases "2 ^ k < n")
      case True
      then have run: "order_from n (2 ^ k) k = order_from n (2 ^ Suc k) (Suc k)"
        using Suc.hyps(2) by (subst order_from.simps) (auto simp: PMM_MAX_ORDER_def)
      have "m = 32 - Suc k" "Suc k \<le> 32" using Suc.hyps(2) by simp_all
      from Suc.hyps(1) [OF this] show ?thesis
        unfolding run using True by (metis Suc_leD Suc_leI le_neq_implies_less)
    next
      case False
      then have "order_from n (2 ^ k) k = k"
        by (subst order_from.simps) simp
      then show ?thesis using False Suc.prems by simp
    qed
  qed
  then show "k \<le> order_from n (2 ^ k) k" "order_from n (2 ^ k) k \<le> 32"
    "n \<le> 2 ^ 32 \<Longrightarrow> n \<le> 2 ^ order_from n (2 ^ k) k"
    "k \<le> j \<Longrightarrow> j < order_from n (2 ^ k) k \<Longrightarrow> 2 ^ j < n"
    by blast+
qed

lemma order_for_pages_least:
  "order_for_pages n \<le> 32" "n \<le> 2 ^ 32 \<Longrightarrow> n \<le> 2 ^ order_for_pages n"
  "j < order_for_pages n \<Longrightarrow> 2 ^ j < n"
  using order_from_least [of 0 n] order_from_least(4) [of 0 j n] by (simp_all add: order_for_pages_def)

lemma power_of_two_iff: "power_of_two v \<longleftrightarrow> (\<exists>k. v = 2 ^ k)"
proof
  assume a: "power_of_two v"
  then show "\<exists>k. v = 2 ^ k"
  proof (induction v rule: less_induct)
    case (less v)
    show ?case
    proof (cases "even v")
      case True
      then obtain m where m: "v = 2 * m" by auto
      have m0: "m \<noteq> 0" using less.prems m by (simp add: power_of_two_def)
      have "2 * m - 1 = Suc (2 * (m - 1))"
        using m0 by simp
      then have "v AND (v - 1) = 2 * (m AND (m - 1))"
        by (simp add: m and_nat_rec [of "2 * m"])
      then have "power_of_two m"
        using less.prems m0 by (simp add: power_of_two_def)
      then obtain k where "m = 2 ^ k" using less.IH [of m] m m0 by auto
      then show ?thesis using m by (intro exI [of _ "Suc k"]) simp
    next
      case False
      then obtain m where m: "v = Suc (2 * m)" by (auto elim: oddE)
      have "v AND (v - 1) = 2 * (m AND m)"
        by (simp add: m and_nat_rec [of "Suc (2 * m)"])
      then have "m = 0" using less.prems by (simp add: power_of_two_def)
      then show ?thesis using m by (intro exI [of _ 0]) simp
    qed
  qed
next
  assume "\<exists>k. v = 2 ^ k"
  then obtain k where k: "v = 2 ^ k" ..
  have "(2 ^ k :: nat) AND (2 ^ k - 1) = take_bit k (2 ^ k)"
    by (simp only: take_bit_eq_mask mask_eq_exp_minus_1)
  then have "(2 ^ k :: nat) AND (2 ^ k - 1) = 0"
    by (simp add: take_bit_eq_mod)
  then show "power_of_two v" by (simp add: k power_of_two_def)
qed

end
