(* ===== verification/PmmView.thy ===== *)
theory PmmView
  imports PmmOps
begin

text \<open>
  What a caller sees of the manager: which pages are free, and for each block handed out its
  order, its reference count and the slot of its owner. The statistics and the owners' accounts
  are sums over this view.
\<close>

section \<open>The view\<close>

definition free_set :: "pmm \<Rightarrow> nat set" where
  "free_set s = {p. p < total_pages s \<and> free_page (pg_state (page_desc s p))}"

definition live :: "pmm \<Rightarrow> nat \<Rightarrow> (nat \<times> nat \<times> nat) option" where
  "live s h = (let d = page_desc s h in
     if h < total_pages s \<and> pg_state d = PMM_PAGE_ALLOC_HEAD
     then Some (pg_order d, refcount d, owner_slot d) else None)"

lemma live_blk:
  assumes "pages_ok (page_desc s) (total_pages s)"
  shows "live s h = Some (k, r, i) \<longleftrightarrow> blk (page_desc s) (total_pages s) h k False \<and>
    r = refcount (page_desc s h) \<and> i = owner_slot (page_desc s h)"
proof
  assume l: "live s h = Some (k, r, i)"
  then have h: "h < total_pages s" "pg_state (page_desc s h) = block_state False True"
    by (simp_all add: live_def Let_def block_state_def split: if_splits)
  show "blk (page_desc s) (total_pages s) h k False \<and> r = refcount (page_desc s h) \<and> i = owner_slot (page_desc s h)"
    using head_blk [OF assms h] l by (simp add: live_def Let_def split: if_splits)
next
  assume "blk (page_desc s) (total_pages s) h k False \<and> r = refcount (page_desc s h) \<and> i = owner_slot (page_desc s h)"
  then show "live s h = Some (k, r, i)"
    using blk_head [of "page_desc s" "total_pages s" h k False] blkD(4) [of "page_desc s" "total_pages s" h k False]
    by (simp add: live_def Let_def block_state_def)
qed

lemma live_cong:
  assumes "page_desc s' h = page_desc s h \<or> unlinked (page_desc s' h) = unlinked (page_desc s h)"
    and "total_pages s' = total_pages s"
  shows "live s' h = live s h"
  using assms unlinked_fields [of "page_desc s' h" "page_desc s h"] by (auto simp: live_def Let_def)

lemma live_not_free: "live s h \<noteq> None \<Longrightarrow> \<not> free_page (pg_state (page_desc s h))"
  by (auto simp: live_def Let_def free_page_def split: if_splits)

lemma live_free: "free_page (pg_state (page_desc s h)) \<Longrightarrow> live s h = None"
  by (auto simp: live_def Let_def free_page_def)

text \<open>The ways the view changes.\<close>

lemma evolves_view:
  assumes e: "evolves s s'"
  shows "free_set s' = free_set s" "live s' = live s"
proof -
  have N: "total_pages s' = total_pages s"
    using e by (simp add: evolves_def rest_same_def)
  show "free_set s' = free_set s"
    using e N by (auto simp: free_set_def evolves_def)
  show "live s' = live s"
  proof
    fix h
    show "live s' h = live s h"
    proof (cases "free_page (pg_state (page_desc s h))")
      case True
      then show ?thesis
        using e by (simp add: live_free evolves_def)
    next
      case False
      then show ?thesis
        using e N by (intro live_cong) (auto simp: evolves_def)
    qed
  qed
qed

lemma freed_view:
  assumes f: "freed h (2 ^ k) s s'" and b: "blk (page_desc s) (total_pages s) h k False"
  shows "free_set s' = free_set s \<union> {h ..< h + 2 ^ k}" "live s' = (live s)(h := None)"
proof -
  have N: "total_pages s' = total_pages s"
    using f by (simp add: freed_def rest_same_def)
  show "free_set s' = free_set s \<union> {h ..< h + 2 ^ k}"
    using f N blkD(3) [OF b] by (auto simp: free_set_def freed_def)
  show "live s' = (live s)(h := None)"
  proof
    fix q
    show "live s' q = ((live s)(h := None)) q"
    proof (cases "free_page (pg_state (page_desc s' q))")
      case True
      then have "free_page (pg_state (page_desc s q)) \<or> h \<le> q \<and> q < h + 2 ^ k"
        using f by (simp add: freed_def)
      then have "q = h \<or> live s q = None"
        using live_free [of s q] blkD(7) [OF b, of q]
        by (auto simp: live_def Let_def block_state_def split: if_splits)
      then show ?thesis using live_free [OF True] by auto
    next
      case False
      moreover from this have "q \<noteq> h"
        using f by (auto simp: freed_def)
      ultimately show ?thesis
        using f N live_cong [of s' q s] by (auto simp: freed_def)
    qed
  qed
qed

section \<open>Statistics\<close>

text \<open>The pages whose state passes a test.\<close>

definition pages_in :: "(PmmPageState \<Rightarrow> bool) \<Rightarrow> pmm \<Rightarrow> nat" where
  "pages_in P s = card {p. p < total_pages s \<and> P (pg_state (page_desc s p))}"

definition alloc_page :: "PmmPageState \<Rightarrow> bool" where
  "alloc_page st \<longleftrightarrow> st = PMM_PAGE_ALLOC_HEAD \<or> st = PMM_PAGE_ALLOC_TAIL"

lemma alloc_page_block [simp]: "alloc_page (block_state f t) = (\<not> f)"
  by (simp add: alloc_page_def block_state_def)

lemma tally_fold:
  "free_pages (fold (\<lambda>p. tally (f p)) ps c) = free_pages c + length (filter (\<lambda>p. free_page (f p)) ps)"
  "allocated_pages (fold (\<lambda>p. tally (f p)) ps c) = allocated_pages c + length (filter (\<lambda>p. alloc_page (f p)) ps)"
  "reserved_pages (fold (\<lambda>p. tally (f p)) ps c) = reserved_pages c + length (filter (\<lambda>p. f p = PMM_PAGE_RESERVED) ps)"
  "unmanaged_pages (fold (\<lambda>p. tally (f p)) ps c) = unmanaged_pages c + length (filter (\<lambda>p. f p = PMM_PAGE_UNMANAGED) ps)"
  "managed_pages (fold (\<lambda>p. tally (f p)) ps c) = managed_pages c + length (filter (\<lambda>p. f p \<noteq> PMM_PAGE_UNMANAGED) ps)"
  by (induction ps arbitrary: c)
     (auto simp: tally_def free_page_def alloc_page_def split: PmmPageState.splits)

lemma length_filter_upt: "length (filter P [0..<n]) = card {p. p < n \<and> P p}"
  by (simp add: length_filter_conv_card cong: conj_cong)

lemma recount_stats:
  "pmm_stats (recount s) = \<lparr>managed_pages = pages_in (\<lambda>st. st \<noteq> PMM_PAGE_UNMANAGED) s,
     free_pages = pages_in free_page s, allocated_pages = pages_in alloc_page s,
     reserved_pages = pages_in (\<lambda>st. st = PMM_PAGE_RESERVED) s,
     unmanaged_pages = pages_in (\<lambda>st. st = PMM_PAGE_UNMANAGED) s\<rparr>"
  by (rule AuPmmStats.equality)
     (simp_all add: recount_def tally_fold no_pages_def pages_in_def length_filter_upt)

text \<open>A page keeps its class, or moves between free and allocated.\<close>

definition stay_put :: "nat set \<Rightarrow> pmm \<Rightarrow> pmm \<Rightarrow> bool" where
  "stay_put R s s' \<longleftrightarrow> total_pages s' = total_pages s \<and>
     (\<forall>q. q \<notin> R \<longrightarrow> free_page (pg_state (page_desc s' q)) = free_page (pg_state (page_desc s q)) \<and>
       (\<not> free_page (pg_state (page_desc s q)) \<longrightarrow> pg_state (page_desc s' q) = pg_state (page_desc s q)))"

lemma pages_in_cong:
  assumes "total_pages s' = total_pages s"
    "\<And>p. p < total_pages s \<Longrightarrow> P (pg_state (page_desc s' p)) = P (pg_state (page_desc s p))"
  shows "pages_in P s' = pages_in P s"
  unfolding pages_in_def assms(1) by (intro arg_cong [of _ _ card] Collect_cong conj_cong refl assms(2))

lemma pages_in_Un:
  assumes "total_pages s' = total_pages s" "R \<subseteq> {..<total_pages s}"
    "\<And>p. p \<notin> R \<Longrightarrow> P (pg_state (page_desc s' p)) = P (pg_state (page_desc s p))"
    "\<And>p. p \<in> R \<Longrightarrow> P (pg_state (page_desc s' p)) \<and> \<not> P (pg_state (page_desc s p))"
  shows "pages_in P s' = pages_in P s + card R"
proof -
  have "{p. p < total_pages s' \<and> P (pg_state (page_desc s' p))} =
      {p. p < total_pages s \<and> P (pg_state (page_desc s p))} \<union> R"
  proof (rule set_eqI)
    show "p \<in> {p. p < total_pages s' \<and> P (pg_state (page_desc s' p))} \<longleftrightarrow>
        p \<in> {p. p < total_pages s \<and> P (pg_state (page_desc s p))} \<union> R" for p
      using assms(1,2) assms(3,4) [of p] by (cases "p \<in> R") auto
  qed
  moreover have "finite R" using assms(2) finite_subset by blast
  ultimately show ?thesis
    unfolding pages_in_def using assms(4) by (subst card_Un_disjoint [symmetric]) auto
qed

definition stats_ok :: "pmm \<Rightarrow> bool" where
  "stats_ok s \<longleftrightarrow> pmm_stats s = pmm_stats (recount s)"

definition stats_move :: "nat \<Rightarrow> AuPmmStats \<Rightarrow> AuPmmStats" where
  "stats_move n st = st\<lparr>free_pages := free_pages st - n, allocated_pages := allocated_pages st + n\<rparr>"

definition stats_back :: "nat \<Rightarrow> AuPmmStats \<Rightarrow> AuPmmStats" where
  "stats_back n st = st\<lparr>free_pages := free_pages st + n, allocated_pages := allocated_pages st - n\<rparr>"

lemma stay_put_class:
  assumes s: "stay_put R s s'" and q: "q \<notin> R" and P: "\<not> P PMM_PAGE_FREE_HEAD" "\<not> P PMM_PAGE_FREE_TAIL"
  shows "P (pg_state (page_desc s' q)) = P (pg_state (page_desc s q))"
proof (cases "free_page (pg_state (page_desc s q))")
  case True
  then have "free_page (pg_state (page_desc s' q))"
    using s q by (simp add: stay_put_def)
  then show ?thesis using True P by (auto simp: free_page_def)
next
  case False
  then show ?thesis using s q by (simp add: stay_put_def)
qed

lemma class_counts:
  assumes st: "stay_put R s s'" and R: "R \<subseteq> {..<total_pages s}"
    and in_R: "\<And>q. q \<in> R \<Longrightarrow> free_page (pg_state (page_desc s q)) \<and> alloc_page (pg_state (page_desc s' q))"
  shows "pages_in free_page s = pages_in free_page s' + card R"
    "pages_in alloc_page s' = pages_in alloc_page s + card R"
    "unblocked u \<Longrightarrow> pages_in (\<lambda>x. x = u) s' = pages_in (\<lambda>x. x = u) s"
    "pages_in (\<lambda>x. x \<noteq> PMM_PAGE_UNMANAGED) s' = pages_in (\<lambda>x. x \<noteq> PMM_PAGE_UNMANAGED) s"
proof -
  have N: "total_pages s' = total_pages s" using st by (simp add: stay_put_def)
  note cl = stay_put_class [OF st]
  show "pages_in free_page s = pages_in free_page s' + card R"
  proof (rule pages_in_Un)
    show "free_page (pg_state (page_desc s q)) = free_page (pg_state (page_desc s' q))" if "q \<notin> R" for q
      using st that by (simp add: stay_put_def)
    show "free_page (pg_state (page_desc s q)) \<and> \<not> free_page (pg_state (page_desc s' q))" if "q \<in> R" for q
      using in_R [OF that] by (auto simp: free_page_def alloc_page_def)
  qed (use N R in auto)
  show "pages_in alloc_page s' = pages_in alloc_page s + card R"
  proof (rule pages_in_Un [OF N R])
    show "alloc_page (pg_state (page_desc s' q)) = alloc_page (pg_state (page_desc s q))" if "q \<notin> R" for q
      using cl [OF that, of alloc_page] by (simp add: alloc_page_def)
    show "alloc_page (pg_state (page_desc s' q)) \<and> \<not> alloc_page (pg_state (page_desc s q))" if "q \<in> R" for q
      using in_R [OF that] by (auto simp: free_page_def alloc_page_def)
  qed
  show "pages_in (\<lambda>x. x = u) s' = pages_in (\<lambda>x. x = u) s" if "unblocked u" for u
  proof (rule pages_in_cong [OF N])
    show "(pg_state (page_desc s' q) = u) = (pg_state (page_desc s q) = u)" for q
      using cl [of q "\<lambda>x. x = u"] in_R [of q] that
      by (cases "q \<in> R") (auto simp: unblocked_def free_page_def alloc_page_def)
  qed
  show "pages_in (\<lambda>x. x \<noteq> PMM_PAGE_UNMANAGED) s' = pages_in (\<lambda>x. x \<noteq> PMM_PAGE_UNMANAGED) s"
  proof (rule pages_in_cong [OF N])
    show "(pg_state (page_desc s' q) \<noteq> PMM_PAGE_UNMANAGED) = (pg_state (page_desc s q) \<noteq> PMM_PAGE_UNMANAGED)" for q
      using cl [of q "\<lambda>x. x = PMM_PAGE_UNMANAGED"] in_R [of q]
      by (cases "q \<in> R") (auto simp: free_page_def alloc_page_def)
  qed
qed

lemma stats_taken:
  assumes ok: "stats_ok s" and st: "stay_put R s s'" and R: "R \<subseteq> {..<total_pages s}"
    and in_R: "\<And>q. q \<in> R \<Longrightarrow> free_page (pg_state (page_desc s q)) \<and> alloc_page (pg_state (page_desc s' q))"
    and p: "pmm_stats s' = stats_move (card R) (pmm_stats s)"
  shows "stats_ok s'"
  using ok p class_counts [OF st R in_R] unfolding stats_ok_def recount_stats stats_move_def
  by (simp add: unblocked_def)

lemma stay_put_sym: "stay_put R s s' \<Longrightarrow> stay_put R s' s"
  unfolding stay_put_def by (auto simp: free_page_def)

lemma stats_freed:
  assumes ok: "stats_ok s" and st: "stay_put R s s'" and R: "R \<subseteq> {..<total_pages s}"
    and in_R: "\<And>q. q \<in> R \<Longrightarrow> alloc_page (pg_state (page_desc s q)) \<and> free_page (pg_state (page_desc s' q))"
    and p: "pmm_stats s' = stats_back (card R) (pmm_stats s)"
  shows "stats_ok s'"
proof -
  have "total_pages s' = total_pages s" using st by (simp add: stay_put_def)
  then have "R \<subseteq> {..<total_pages s'}" using R by simp
  note C = class_counts [OF stay_put_sym [OF st] this]
  show ?thesis
    using ok p C in_R unfolding stats_ok_def recount_stats stats_back_def by (simp add: unblocked_def)
qed

section \<open>Accounts\<close>

text \<open>The pages charged to a slot: the sizes of the blocks handed out under it.\<close>

definition share :: "nat \<Rightarrow> (nat \<times> nat \<times> nat) option \<Rightarrow> nat" where
  "share i b = (case b of None \<Rightarrow> 0 | Some (k, r, j) \<Rightarrow> if j = i then 2 ^ k else 0)"

definition slot_pages :: "pmm \<Rightarrow> nat \<Rightarrow> nat" where
  "slot_pages s i = (\<Sum>h<total_pages s. share i (live s h))"

lemma share_simps [simp]:
  "share i None = 0" "share i (Some (k, r, j)) = (if j = i then 2 ^ k else 0)"
  by (simp_all add: share_def)

lemma slot_pages_upd:
  assumes "total_pages s' = total_pages s" "live s' = (live s)(h := b)" "h < total_pages s"
  shows "slot_pages s' i + share i (live s h) = slot_pages s i + share i b"
proof -
  have "slot_pages t i = share i (live t h) + (\<Sum>q\<in>{..<total_pages s} - {h}. share i (live t q))"
    if "total_pages t = total_pages s" for t
    unfolding slot_pages_def that using assms(3) by (intro sum.remove) auto
  note this [of s'] this [of s]
  moreover have "(\<Sum>q\<in>{..<total_pages s} - {h}. share i (live s' q)) = (\<Sum>q\<in>{..<total_pages s} - {h}. share i (live s q))"
    using assms(2) by (intro sum.cong) auto
  moreover have "live s' h = b"
    using assms(2) by simp
  ultimately show ?thesis
    using assms(1) by simp
qed

definition owners_ok :: "pmm \<Rightarrow> bool" where
  "owners_ok s \<longleftrightarrow> length (owner_table s) = PMM_OWNER_SLOTS \<and>
     (\<forall>h k r i. live s h = Some (k, r, i) \<longrightarrow> i < PMM_OWNER_SLOTS \<and> in_use (owner_table s ! i)) \<and>
     (\<forall>i < PMM_OWNER_SLOTS. in_use (owner_table s ! i) \<longrightarrow> opages (owner_table s ! i) = slot_pages s i) \<and>
     (\<forall>i < PMM_OWNER_SLOTS. \<forall>j < PMM_OWNER_SLOTS. in_use (owner_table s ! i) \<longrightarrow> in_use (owner_table s ! j) \<longrightarrow>
        oid (owner_table s ! i) = oid (owner_table s ! j) \<longrightarrow> i = j)"

lemma owners_okD:
  assumes "owners_ok s"
  shows "length (owner_table s) = PMM_OWNER_SLOTS"
    "live s h = Some (k, r, i) \<Longrightarrow> i < PMM_OWNER_SLOTS \<and> in_use (owner_table s ! i)"
    "i < PMM_OWNER_SLOTS \<Longrightarrow> in_use (owner_table s ! i) \<Longrightarrow> opages (owner_table s ! i) = slot_pages s i"
    "i < PMM_OWNER_SLOTS \<Longrightarrow> j < PMM_OWNER_SLOTS \<Longrightarrow> in_use (owner_table s ! i) \<Longrightarrow> in_use (owner_table s ! j) \<Longrightarrow>
      oid (owner_table s ! i) = oid (owner_table s ! j) \<Longrightarrow> i = j"
  using assms unfolding owners_ok_def by blast+

lemma owners_cong:
  assumes "owner_table s' = owner_table s" "live s' = live s" "total_pages s' = total_pages s"
  shows "owners_ok s' = owners_ok s"
  by (simp add: owners_ok_def slot_pages_def assms)

lemma unused_slot_empty:
  assumes ok: "owners_ok s" and i: "i < PMM_OWNER_SLOTS" "\<not> in_use (owner_table s ! i)"
  shows "slot_pages s i = 0"
  unfolding slot_pages_def
proof (rule sum.neutral, rule ballI)
  show "share i (live s h) = 0" for h
    using owners_okD(2) [OF ok, of h] i(2) by (cases "live s h") (auto simp: share_def)
qed

text \<open>The owner's slot is found, or a free one taken, or that of the kernel lent.\<close>

lemma owner_slot_ok:
  assumes ok: "owners_ok s"
  shows "\<exists>i t. pmm_owner_slot_locked ow s = (i, s\<lparr>owner_table := t\<rparr>) \<and> owners_ok (s\<lparr>owner_table := t\<rparr>) \<and>
    i < PMM_OWNER_SLOTS \<and> in_use (t ! i)"
proof -
  note D = owners_okD [OF ok]
  consider (found) k where "first_index (\<lambda>e. in_use e \<and> oid e = ow) (owner_table s) = Some k"
    | (new) k where "first_index (\<lambda>e. in_use e \<and> oid e = ow) (owner_table s) = None"
        "first_index (\<lambda>e. \<not> in_use e) (owner_table s) = Some k"
    | (full) "first_index (\<lambda>e. in_use e \<and> oid e = ow) (owner_table s) = None"
        "first_index (\<lambda>e. \<not> in_use e) (owner_table s) = None"
    by fastforce
  then show ?thesis
  proof cases
    case found
    then have "k < PMM_OWNER_SLOTS" "in_use (owner_table s ! k)"
      using D(1) by (auto simp: first_index_Some)
    then show ?thesis
      using found ok by (intro exI [of _ k] exI [of _ "owner_table s"]) (simp add: pmm_owner_slot_locked_def)
  next
    case new
    let ?t = "(owner_table s)[k := (owner_table s ! k)\<lparr>in_use := True, oid := ow, opages := 0\<rparr>]"
    let ?s = "s\<lparr>owner_table := ?t\<rparr>"
    have k: "k < length (owner_table s)" "k < PMM_OWNER_SLOTS" "\<not> in_use (owner_table s ! k)"
      using new(2) D(1) by (auto simp: first_index_Some)
    have fresh: "oid (owner_table s ! j) \<noteq> ow" if "j < PMM_OWNER_SLOTS" "in_use (owner_table s ! j)" for j
      using new(1) that D(1) by (auto simp: first_index_None)
    have view: "live ?s = live s" "slot_pages ?s = slot_pages s"
      by (rule ext, simp add: live_def slot_pages_def)+
    have "owners_ok ?s"
      unfolding owners_ok_def view
    proof (intro conjI allI impI)
      show "length (owner_table ?s) = PMM_OWNER_SLOTS" using D(1) by simp
      show "i < PMM_OWNER_SLOTS" "in_use (owner_table ?s ! i)" if "live s h = Some (k', r, i)" for h k' r i
        using D(2) [OF that] k by (auto simp: nth_list_update)
      show "opages (owner_table ?s ! i) = slot_pages s i" if "i < PMM_OWNER_SLOTS" "in_use (owner_table ?s ! i)" for i
        using that D(3) [of i] unused_slot_empty [OF ok k(2,3)] k(1) by (auto simp: nth_list_update)
      show "i = j" if "i < PMM_OWNER_SLOTS" "j < PMM_OWNER_SLOTS" "in_use (owner_table ?s ! i)"
        "in_use (owner_table ?s ! j)" "oid (owner_table ?s ! i) = oid (owner_table ?s ! j)" for i j
        using that D(4) [of i j] fresh [of i] fresh [of j] k(1)
        by (cases "i = k"; cases "j = k") auto
    qed
    then show ?thesis
      using new k by (intro exI [of _ k] exI [of _ ?t]) (simp add: pmm_owner_slot_locked_def)
  next
    case full
    let ?i = "case first_index (\<lambda>e. oid e = PMM_OWNER_KERNEL) (owner_table s) of Some k \<Rightarrow> k | None \<Rightarrow> 0"
    have "?i < PMM_OWNER_SLOTS"
      using D(1) first_index_lt [of "\<lambda>e. oid e = PMM_OWNER_KERNEL" "owner_table s"]
      by (auto simp: PMM_OWNER_SLOTS_def split: option.split)
    moreover from this have "in_use (owner_table s ! ?i)"
      using full(2) D(1) by (simp add: first_index_None)
    ultimately show ?thesis
      using full ok by (intro exI [of _ ?i] exI [of _ "owner_table s"]) (simp add: pmm_owner_slot_locked_def)
  qed
qed

end
