(* ===== verification/PmmMgr.thy ===== *)
theory PmmMgr
  imports PmmView
begin

text \<open>
  The operations of the manager on a consistent state: what each returns on every branch, how it
  changes the view, and that the state stays consistent.
\<close>

section \<open>Consistent states\<close>

definition epochs_ok :: "pmm \<Rightarrow> bool" where
  "epochs_ok s \<longleftrightarrow> (\<forall>p < total_pages s. pg_epoch (page_desc s p) \<le> validation_epoch s)"

definition pmm_ok :: "pmm \<Rightarrow> bool" where
  "pmm_ok s \<longleftrightarrow> (\<exists>F. pmm_inv (total_pages s) s F) \<and> stats_ok s \<and> owners_ok s \<and> epochs_ok s"

lemma pmm_inv_cong:
  assumes "page_desc s' = page_desc s" "total_pages s' = total_pages s" "free_head s' = free_head s"
  shows "pmm_inv c s' F = pmm_inv c s F"
  by (simp add: pmm_inv_def links_ok_def assms)

lemma view_cong:
  assumes "page_desc s' = page_desc s" "total_pages s' = total_pages s"
  shows "live s' = live s" "free_set s' = free_set s"
  by (auto simp: live_def free_set_def assms)

lemma pmm_ok_pages: "pmm_ok s \<Longrightarrow> pages_ok (page_desc s) (total_pages s)"
  by (auto simp: pmm_ok_def pmm_inv_def)

section \<open>Marking a block as handed out\<close>

definition taken :: "nat \<Rightarrow> nat \<Rightarrow> pmm \<Rightarrow> pmm \<Rightarrow> bool" where
  "taken h n s s' \<longleftrightarrow> total_pages s' = total_pages s \<and>
     (\<forall>q. h \<le> q \<longrightarrow> q < h + n \<longrightarrow> free_page (pg_state (page_desc s q)) \<and> alloc_page (pg_state (page_desc s' q))) \<and>
     (\<forall>q. \<not> (h \<le> q \<and> q < h + n) \<longrightarrow> free_page (pg_state (page_desc s' q)) = free_page (pg_state (page_desc s q))) \<and>
     (\<forall>q. pg_epoch (page_desc s' q) = pg_epoch (page_desc s q)) \<and>
     (\<forall>q. \<not> free_page (pg_state (page_desc s q)) \<longrightarrow> unlinked (page_desc s' q) = unlinked (page_desc s q))"

lemma evolves_taken: "evolves s t \<Longrightarrow> taken h n t u \<Longrightarrow> taken h n s u"
  by (auto simp: taken_def evolves_def rest_same_def)

lemma taken_cong:
  assumes "taken h n s t" "page_desc t' = page_desc t" "total_pages t' = total_pages t"
  shows "taken h n s t'"
  using assms by (simp add: taken_def)

lemma mark_allocated_ok:
  fixes ty i :: nat
  assumes inv: "pmm_inv h s F" and b: "blk (page_desc s) (total_pages s) h w True" and req: "0 < req" "req \<le> 2 ^ w"
  defines "s' \<equiv> mark_allocated h w req ty i s"
  shows "pmm_inv (total_pages s') s' F" "taken h (2 ^ w) s s'" "rest_same s s'"
    "live s' = (live s)(h := Some (w, 1, i))"
proof -
  note I = pmm_invD [OF inv]
  let ?N = "total_pages s"
  have d: "page_desc s' q = (if q = h then (page_desc s h)\<lparr>pg_next := PMM_NO_PAGE, pg_prev := PMM_NO_PAGE, pg_owner := h,
        backing_block := -1, requested_pages := req, refcount := 1, pg_order := w, pg_state := PMM_PAGE_ALLOC_HEAD,
        page_type := ty, owner_slot := i\<rparr>
      else if h \<le> q \<and> q < h + 2 ^ w then (page_desc s q)\<lparr>pg_next := PMM_NO_PAGE, pg_prev := PMM_NO_PAGE, pg_owner := h,
        backing_block := -1, requested_pages := 0, refcount := 1, pg_order := w, pg_state := PMM_PAGE_ALLOC_TAIL,
        page_type := ty\<rparr> else page_desc s q)" for q
    by (simp add: s'_def mark_allocated_def Let_def)
  have sel: "total_pages s' = ?N" "free_head s' = free_head s" "pmm_stats s' = pmm_stats s"
    "owner_table s' = owner_table s" "validation_epoch s' = validation_epoch s"
    by (simp_all add: s'_def mark_allocated_def Let_def)
  have m: "marked h w False (page_desc s) (page_desc s')"
    by (auto simp: marked_def same_outside_def d block_state_def)
  note R = retag_blocks [OF I(1) b m]
  have not_alloc: "\<not> blk (page_desc s) ?N h j False" for j
    using b blk_unique [OF b, of h j False h] by auto
  show "rest_same s s'"
    by (simp add: rest_same_def sel)
  show "pmm_inv (total_pages s') s' F"
    unfolding pmm_inv_def sel
  proof (intro conjI allI)
    show "pages_ok (page_desc s') ?N" by (rule R(1))
    show "links_ok s' F"
    proof (rule links_ok_cong [OF I(2) sel(1,2)])
      show "pg_next (page_desc s' x) = pg_next (page_desc s x) \<and> pg_prev (page_desc s' x) = pg_prev (page_desc s x)"
        if "x \<in> set (F j)" for x j
        using that blk_inside [OF b, of x j True] I(3) unfolding d by auto
    qed
    show "x \<in> set (F j) \<longleftrightarrow> blk (page_desc s') ?N x j True \<and> x \<noteq> ?N" for x j
      unfolding R(2) I(3) using blkD(4) [of "page_desc s" ?N x j True] by auto
    show "coal (page_desc s') ?N ?N"
      using I(4) unfolding coal_def R(2) by blast
    show "alloc_ok (page_desc s') ?N"
      unfolding alloc_ok_def R(2)
    proof (intro allI impI)
      fix x j assume x: "x = h \<and> j = w \<and> False = False \<or> blk (page_desc s) ?N x j False \<and> x \<noteq> h"
      show "0 < requested_pages (page_desc s' x) \<and> requested_pages (page_desc s' x) \<le> 2 ^ j \<and> 0 < refcount (page_desc s' x) \<and>
          refcount (page_desc s' x) \<le> 65535 \<and>
          (\<forall>q. x < q \<longrightarrow> q < x + 2 ^ j \<longrightarrow> refcount (page_desc s' q) = 1) \<and>
          (0 < j \<longrightarrow> refcount (page_desc s' x) = 1)"
      proof (cases "x = h")
        case True
        then have "j = w" using x not_alloc by blast
        then show ?thesis using True req by (auto simp: d)
      next
        case False
        then have x: "blk (page_desc s) ?N x j False" using x by blast
        have "page_desc s' q = page_desc s q" if "x \<le> q" "q < x + 2 ^ j" for q
          using blk_disjoint [OF b x] False that pos_power(2) [of h w] by (auto simp: d)
        then show ?thesis
          using I(5) x unfolding alloc_ok_def by simp
      qed
    qed
  qed
  show "taken h (2 ^ w) s s'"
    unfolding taken_def
  proof (intro conjI allI impI)
    show "free_page (pg_state (page_desc s q))" "alloc_page (pg_state (page_desc s' q))"
      if "h \<le> q" "q < h + 2 ^ w" for q
      using blkD(7) [OF b that] that by (auto simp: d alloc_page_def)
    show "unlinked (page_desc s' q) = unlinked (page_desc s q)" if "\<not> free_page (pg_state (page_desc s q))" for q
      using blkD(7) [OF b, of q] blk_head(3) [OF b] that by (auto simp: d)
    show "free_page (pg_state (page_desc s' q)) = free_page (pg_state (page_desc s q))" if "\<not> (h \<le> q \<and> q < h + 2 ^ w)" for q
      using that pos_power(2) [of h w] by (auto simp: d)
  qed (simp_all add: sel d)
  show "live s' = (live s)(h := Some (w, 1, i))"
  proof
    fix q
    have "live s q = None" if "h \<le> q" "q < h + 2 ^ w"
      using blkD(7) [OF b that] by (intro live_free) simp
    then show "live s' q = ((live s)(h := Some (w, 1, i))) q"
      using blkD(4) [OF b] unfolding live_def sel d by (auto simp: Let_def)
  qed
qed

lemma taken_free_set:
  assumes "taken h n s s'"
  shows "free_set s' = free_set s - {h ..< h + n}"
proof (rule set_eqI)
  fix q
  have "\<not> free_page (pg_state (page_desc s' q))" if "alloc_page (pg_state (page_desc s' q))"
    using that by (auto simp: free_page_def alloc_page_def)
  then show "q \<in> free_set s' \<longleftrightarrow> q \<in> free_set s - {h ..< h + n}"
    using assms unfolding taken_def free_set_def by (cases "h \<le> q \<and> q < h + n") auto
qed

lemma taken_stay_put:
  assumes "taken h n s s'"
  shows "stay_put {h ..< h + n} s s'"
proof -
  have "pg_state (page_desc s' q) = pg_state (page_desc s q)" if "\<not> free_page (pg_state (page_desc s q))" for q
    using assms that unlinked_fields(3) [of "page_desc s' q" "page_desc s q"] by (simp add: taken_def)
  then show ?thesis
    using assms unfolding taken_def stay_put_def by simp
qed

section \<open>Allocation\<close>

text \<open>A free block that serves a request: of order at least \<open>m\<close>, with its first pages below the ceiling.\<close>

definition serves :: "pmm \<Rightarrow> nat \<Rightarrow> nat \<Rightarrow> nat \<Rightarrow> nat \<Rightarrow> bool" where
  "serves s m w ceiling h \<longleftrightarrow> (\<exists>j \<ge> m. blk (page_desc s) (total_pages s) h j True) \<and> fits w ceiling h"

definition request_order :: "nat \<Rightarrow> nat \<Rightarrow> nat" where
  "request_order pages alignment = max (order_for_pages pages) (order_for_pages (if alignment = 0 then 1 else alignment))"

lemma take_block_ok:
  assumes inv: "pmm_inv (total_pages s) s F"
  shows "(take_block w al c s = Some (PMM_NO_PAGE, s) \<and> (\<forall>h. \<not> serves s (max w (order_for_pages al)) w c h)) \<or>
    (\<exists>h s' F'. take_block w al c s = Some (h, s') \<and> pmm_inv h s' F' \<and> h < total_pages s \<and> h \<noteq> PMM_NO_PAGE \<and>
      serves s (max w (order_for_pages al)) w c h \<and>
      blk (page_desc s') (total_pages s') h w True \<and> evolves s s')"
proof -
  let ?m = "max w (order_for_pages al)"
  note I = pmm_invD [OF inv]
  have run: "take_block w al c s = take_from w c ?m s"
    by (simp add: take_block_def Let_def max_def)
  have mem: "h \<in> set (F j) \<longleftrightarrow> blk (page_desc s) (total_pages s) h j True" for h j
    using I(3) blkD(4) [of "page_desc s" "total_pages s" h j True] by auto
  from take_from_ok [OF inv, of w ?m c]
  consider "take_from w c ?m s = Some (PMM_NO_PAGE, s)" "\<forall>j h. ?m \<le> j \<longrightarrow> h \<in> set (F j) \<longrightarrow> \<not> fits w c h"
    | h s' F' j where "take_from w c ?m s = Some (h, s')" "pmm_inv h s' F'" "?m \<le> j" "h \<in> set (F j)" "fits w c h"
      "blk (page_desc s') (total_pages s') h w True" "evolves s s'"
    by auto
  then show ?thesis
  proof cases
    case 1
    then show ?thesis unfolding run serves_def by (auto simp: mem)
  next
    case 2
    then have "h < total_pages s" "h \<noteq> PMM_NO_PAGE"
      using links_okD(1,3) [OF I(2)] by fastforce+
    then show ?thesis
      using 2 unfolding run serves_def mem by blast
  qed
qed

lemma owner_add_sel [simp]:
  "page_desc (pmm_owner_add_locked i n s) = page_desc s" "total_pages (pmm_owner_add_locked i n s) = total_pages s"
  "free_head (pmm_owner_add_locked i n s) = free_head s" "pmm_stats (pmm_owner_add_locked i n s) = pmm_stats s"
  "validation_epoch (pmm_owner_add_locked i n s) = validation_epoch s"
  by (simp_all add: pmm_owner_add_locked_def)

lemma owner_del_sel [simp]:
  "page_desc (pmm_owner_del_locked i n s) = page_desc s" "total_pages (pmm_owner_del_locked i n s) = total_pages s"
  "free_head (pmm_owner_del_locked i n s) = free_head s" "pmm_stats (pmm_owner_del_locked i n s) = pmm_stats s"
  "validation_epoch (pmm_owner_del_locked i n s) = validation_epoch s"
  by (simp_all add: pmm_owner_del_locked_def Let_def)

lemma in_use_upd [simp]: "in_use (xs[i := (xs ! i)\<lparr>opages := n\<rparr>] ! a) = in_use (xs ! a)"
  by (cases "i < length xs") (simp_all add: nth_list_update list_update_beyond)

lemma oid_upd [simp]: "oid (xs[i := (xs ! i)\<lparr>opages := n\<rparr>] ! a) = oid (xs ! a)"
  by (cases "i < length xs") (simp_all add: nth_list_update list_update_beyond)

text \<open>Charging a block to a slot, and the reverse, keep the accounts.\<close>

lemma owners_charge:
  assumes ok: "owners_ok s" and i: "i < PMM_OWNER_SLOTS" "in_use (owner_table s ! i)"
    and s': "total_pages s' = total_pages s" "live s' = (live s)(h := Some (w, r, i))" "h < total_pages s" "live s h = None"
      "owner_table s' = owner_table (pmm_owner_add_locked i (2 ^ w) s)"
  shows "owners_ok s'"
proof -
  note D = owners_okD [OF ok]
  have t: "owner_table s' = (owner_table s)[i := (owner_table s ! i)\<lparr>opages := opages (owner_table s ! i) + 2 ^ w\<rparr>]"
    using i s'(5) by (simp add: pmm_owner_add_locked_def)
  have pages: "slot_pages s' j = slot_pages s j + (if j = i then 2 ^ w else 0)" for j
    using slot_pages_upd [OF s'(1-3), of j] s'(4) by auto
  show ?thesis
    unfolding owners_ok_def
  proof (intro conjI allI impI)
    show "length (owner_table s') = PMM_OWNER_SLOTS" using D(1) t by simp
    show "j < PMM_OWNER_SLOTS" "in_use (owner_table s' ! j)" if "live s' q = Some (k, r', j)" for q k r' j
      using that D(2) [of q] i D(1) unfolding s'(2) t by (auto simp: nth_list_update split: if_splits)
    show "opages (owner_table s' ! j) = slot_pages s' j" if "j < PMM_OWNER_SLOTS" "in_use (owner_table s' ! j)" for j
      using that D(1,3) unfolding pages t by (auto simp: nth_list_update split: if_splits)
    show "a = b" if "a < PMM_OWNER_SLOTS" "b < PMM_OWNER_SLOTS" "in_use (owner_table s' ! a)"
      "in_use (owner_table s' ! b)" "oid (owner_table s' ! a) = oid (owner_table s' ! b)" for a b
      using that D(4) [of a b] unfolding t in_use_upd oid_upd by blast
  qed
qed

lemma owners_refund:
  assumes ok: "owners_ok s" and l: "live s h = Some (k, r, i)"
    and s': "total_pages s' = total_pages s" "live s' = (live s)(h := None)"
      "owner_table s' = owner_table (pmm_owner_del_locked i (2 ^ k) s)"
  shows "owners_ok s'"
proof -
  note D = owners_okD [OF ok]
  have i: "i < PMM_OWNER_SLOTS" "in_use (owner_table s ! i)"
    using D(2) [OF l] by auto
  have h: "h < total_pages s"
    using l by (auto simp: live_def Let_def split: if_splits)
  have pages: "slot_pages s' j + (if j = i then 2 ^ k else 0) = slot_pages s j" for j
    using slot_pages_upd [OF s'(1,2) h, of j] l by auto
  have "2 ^ k \<le> opages (owner_table s ! i)"
    using pages [of i] D(3) [OF i] by simp
  then have t: "owner_table s' = (owner_table s)[i := (owner_table s ! i)\<lparr>opages := opages (owner_table s ! i) - 2 ^ k\<rparr>]"
    using i s'(3) by (simp add: pmm_owner_del_locked_def Let_def)
  show ?thesis
    unfolding owners_ok_def
  proof (intro conjI allI impI)
    show "length (owner_table s') = PMM_OWNER_SLOTS" using D(1) t by simp
    show "j < PMM_OWNER_SLOTS" "in_use (owner_table s' ! j)" if "live s' q = Some (k', r', j)" for q k' r' j
      using that D(2) [of q] i D(1) unfolding s'(2) t by (auto simp: nth_list_update split: if_splits)
    show "opages (owner_table s' ! j) = slot_pages s' j" if "j < PMM_OWNER_SLOTS" "in_use (owner_table s' ! j)" for j
      using that D(1) D(3) [of j] pages [of j] i unfolding t by (cases "j = i") auto
    show "a = b" if "a < PMM_OWNER_SLOTS" "b < PMM_OWNER_SLOTS" "in_use (owner_table s' ! a)"
      "in_use (owner_table s' ! b)" "oid (owner_table s' ! a) = oid (owner_table s' ! b)" for a b
      using that D(4) [of a b] unfolding t in_use_upd oid_upd by blast
  qed
qed

lemma alloc_pages_ok:
  assumes ok: "pmm_ok s" and pages: "0 < pages" "pages \<le> 2 ^ 32" and al: "al = 0 \<or> power_of_two al"
  defines "w \<equiv> order_for_pages pages"
  shows "(AuPmmngrAllocPagesForOwner pages al c ty ow s = Some (PMM_INVALID_PHYS, s) \<and>
      (\<forall>h. \<not> serves s (request_order pages al) w c h)) \<or>
    (\<exists>h s' i. AuPmmngrAllocPagesForOwner pages al c ty ow s = Some (h * PMM_PAGE_SIZE, s') \<and> pmm_ok s' \<and>
      serves s (request_order pages al) w c h \<and> {h ..< h + 2 ^ w} \<subseteq> free_set s \<and>
      free_set s' = free_set s - {h ..< h + 2 ^ w} \<and> live s' = (live s)(h := Some (w, 1, i)) \<and>
      h < total_pages s \<and> total_pages s' = total_pages s \<and> taken h (2 ^ w) s s')"
proof -
  obtain F where inv: "pmm_inv (total_pages s) s F" and st: "stats_ok s" and ow: "owners_ok s" and ep: "epochs_ok s"
    using ok by (auto simp: pmm_ok_def)
  let ?al = "if al = 0 then 1 else al"
  have pow: "power_of_two ?al"
    using al by (auto simp: power_of_two_def)
  have w: "w \<le> PMM_MAX_ORDER"
    using order_for_pages_least(1) by (simp add: w_def PMM_MAX_ORDER_def)
  have m: "max w (order_for_pages ?al) = request_order pages al"
    by (simp add: request_order_def w_def)
  from take_block_ok [OF inv, of w ?al c] show ?thesis unfolding m
  proof (elim disjE exE conjE)
    assume "take_block w ?al c s = Some (PMM_NO_PAGE, s)" "\<forall>h. \<not> serves s (request_order pages al) w c h"
    then show ?thesis
      using pages pow w by (simp add: AuPmmngrAllocPagesForOwner_def Let_def flip: w_def)
  next
    fix h s1 F1 assume a: "take_block w ?al c s = Some (h, s1)" "pmm_inv h s1 F1" "h < total_pages s" "h \<noteq> PMM_NO_PAGE"
      "serves s (request_order pages al) w c h" "blk (page_desc s1) (total_pages s1) h w True" "evolves s s1"
    have N1: "total_pages s1 = total_pages s" "pmm_stats s1 = pmm_stats s" "owner_table s1 = owner_table s"
      "validation_epoch s1 = validation_epoch s"
      using a(7) by (simp_all add: evolves_def rest_same_def)
    note v1 = evolves_view [OF a(7)]
    have ow1: "owners_ok s1"
      using ow owners_cong [OF N1(3) v1(2) N1(1)] by simp
    obtain i t where slot: "pmm_owner_slot_locked ow s1 = (i, s1\<lparr>owner_table := t\<rparr>)"
      "owners_ok (s1\<lparr>owner_table := t\<rparr>)" "i < PMM_OWNER_SLOTS" "in_use (t ! i)"
      using owner_slot_ok [OF ow1] by metis
    let ?s2 = "s1\<lparr>owner_table := t\<rparr>"
    define s3 where "s3 = mark_allocated h w pages (if ty \<noteq> 0 then ty else AURORA_PAGE_NORMAL) i ?s2"
    define s4 where "s4 = pmm_owner_add_locked i (2 ^ w) s3"
    define s5 where "s5 = s4\<lparr>pmm_stats := stats_move (2 ^ w) (pmm_stats s4)\<rparr>"
    have run: "AuPmmngrAllocPagesForOwner pages al c ty ow s = Some (h * PMM_PAGE_SIZE, s5)"
      using pages pow w a(1,4) slot(1)
      by (simp add: AuPmmngrAllocPagesForOwner_def Let_def s3_def s4_def s5_def stats_move_def flip: w_def)
    have req: "pages \<le> 2 ^ w"
      using order_for_pages_least(2) [OF pages(2)] by (simp add: w_def)
    have inv2: "pmm_inv h ?s2 F1" and b2: "blk (page_desc ?s2) (total_pages ?s2) h w True"
      using a(2,6) pmm_inv_cong [of ?s2 s1] by simp_all
    note M = mark_allocated_ok [OF inv2 b2 pages(1) req, of "if ty \<noteq> 0 then ty else AURORA_PAGE_NORMAL" i, folded s3_def]
    have N5: "page_desc s5 = page_desc s3" "total_pages s5 = total_pages s3" "free_head s5 = free_head s3"
      "validation_epoch s5 = validation_epoch s3" "pmm_stats s5 = stats_move (2 ^ w) (pmm_stats s3)"
      "owner_table s5 = owner_table (pmm_owner_add_locked i (2 ^ w) s3)"
      by (simp_all add: s5_def s4_def)
    have N3: "total_pages s3 = total_pages s" "pmm_stats s3 = pmm_stats s" "owner_table s3 = t"
      "validation_epoch s3 = validation_epoch s"
      using M(3) N1 by (simp_all add: rest_same_def)
    have tk: "taken h (2 ^ w) s s5"
    proof -
      have "taken h (2 ^ w) s1 s3"
        using M(2) by (simp add: taken_def)
      then show ?thesis
        using evolves_taken [OF a(7)] taken_cong N5(1,2) by blast
    qed
    have live5: "live s5 = (live s)(h := Some (w, 1, i))"
    proof -
      have "live s5 = live s3" "live ?s2 = live s1"
        using N5 by (intro view_cong; simp)+
      then show ?thesis using M(4) v1(2) by simp
    qed
    have "pmm_ok s5"
      unfolding pmm_ok_def
    proof (intro conjI)
      show "\<exists>F. pmm_inv (total_pages s5) s5 F"
        using M(1) pmm_inv_cong [OF N5(1-3)] N5(2) by metis
      have R: "{h ..< h + 2 ^ w} \<subseteq> {..<total_pages s}"
        using blkD(3) [OF a(6)] N1(1) by auto
      show "stats_ok s5"
        using N5 N3 tk by (intro stats_taken [OF st taken_stay_put [OF tk] R]) (auto simp: taken_def)
      have none: "live s h = None"
        using blk_head(3) [OF a(6)] v1(2) live_free [of s1 h] by simp
      show "owners_ok s5"
      proof (rule owners_charge [OF slot(2,3)])
        show "live s5 = (live ?s2)(h := Some (w, 1, i))"
          using live5 v1(2) view_cong(1) [of ?s2 s1] by simp
        show "live ?s2 h = None"
          using none v1(2) view_cong(1) [of ?s2 s1] by simp
        show "owner_table s5 = owner_table (pmm_owner_add_locked i (2 ^ w) ?s2)"
          using N5(6) N3(3) by (simp add: pmm_owner_add_locked_def)
      qed (use N5(2) N3(1) N1(1) a(3) slot(4) in simp_all)
      show "epochs_ok s5"
        using ep tk N5 N3 by (simp add: epochs_ok_def taken_def)
    qed
    moreover have "{h ..< h + 2 ^ w} \<subseteq> free_set s"
      using tk blkD(3) [OF a(6)] N1(1) by (auto simp: taken_def free_set_def)
    moreover have "total_pages s5 = total_pages s"
      using N5(2) N3(1) by simp
    ultimately show ?thesis
      using run a(3,5) taken_free_set [OF tk] live5 tk by blast
  qed
qed

section \<open>Release\<close>

lemma mark_free_forgets:
  assumes "h \<le> p" "p < h + 2 ^ k"
  shows "mark_free_block h k (on_page p (\<lambda>d. d\<lparr>refcount := r\<rparr>) s) = mark_free_block h k s"
  using assms by (auto simp: mark_free_block_def Let_def on_pages_def on_page_def valid_page_def fun_eq_iff)

lemma live_pages:
  assumes ok: "pmm_ok s" and l: "live s h = Some (k, r, i)"
  shows "blk (page_desc s) (total_pages s) h k False" "refcount (page_desc s h) = r" "owner_slot (page_desc s h) = i"
    "pg_order (page_desc s h) = k" "pg_owner (page_desc s h) = h" "pg_state (page_desc s h) = PMM_PAGE_ALLOC_HEAD"
    "h < total_pages s" "0 < requested_pages (page_desc s h)" "requested_pages (page_desc s h) \<le> 2 ^ k"
    "0 < r" "r \<le> 65535" "0 < k \<Longrightarrow> r = 1"
    "h < q \<Longrightarrow> q < h + 2 ^ k \<Longrightarrow> refcount (page_desc s q) = 1"
proof -
  obtain F where inv: "pmm_inv (total_pages s) s F"
    using ok by (auto simp: pmm_ok_def)
  show b: "blk (page_desc s) (total_pages s) h k False" and r: "refcount (page_desc s h) = r"
    and "owner_slot (page_desc s h) = i"
    using live_blk [OF pmm_ok_pages [OF ok]] l by auto
  show "pg_order (page_desc s h) = k" "pg_owner (page_desc s h) = h" "pg_state (page_desc s h) = PMM_PAGE_ALLOC_HEAD"
    using blk_head [OF b] by (simp_all add: block_state_def)
  show "h < total_pages s" by (rule blkD(4) [OF b])
  show "0 < requested_pages (page_desc s h)" "requested_pages (page_desc s h) \<le> 2 ^ k" "0 < r" "r \<le> 65535"
    "0 < k \<Longrightarrow> r = 1" "h < q \<Longrightarrow> q < h + 2 ^ k \<Longrightarrow> refcount (page_desc s q) = 1"
    using pmm_invD(5) [OF inv] b r unfolding alloc_ok_def by auto
qed

lemma give_back_sel [simp]:
  "page_desc (give_back n s) = page_desc s" "total_pages (give_back n s) = total_pages s"
  "free_head (give_back n s) = free_head s" "owner_table (give_back n s) = owner_table s"
  "validation_epoch (give_back n s) = validation_epoch s" "pmm_stats (give_back n s) = stats_back n (pmm_stats s)"
  by (simp_all add: give_back_def Let_def stats_back_def)

lemma freed_stay_put:
  assumes f: "freed h n s s'"
  shows "stay_put {h ..< h + n} s s'"
  unfolding stay_put_def
proof (intro conjI allI impI)
  show "total_pages s' = total_pages s"
    using f by (simp add: freed_def rest_same_def)
  fix q assume q: "q \<notin> {h ..< h + n}"
  show fp: "free_page (pg_state (page_desc s' q)) = free_page (pg_state (page_desc s q))"
    using f q by (auto simp: freed_def)
  show "pg_state (page_desc s' q) = pg_state (page_desc s q)" if "\<not> free_page (pg_state (page_desc s q))"
  proof (rule unlinked_fields(3))
    show "unlinked (page_desc s' q) = unlinked (page_desc s q)"
      using f fp that unfolding freed_def by blast
  qed
qed

lemma release_ok:
  assumes ok: "pmm_ok s" and l: "live s h = Some (k, r, i)"
  shows "\<exists>s1. release_block h k s = Some s1 \<and> (\<forall>s'. s' = give_back (2 ^ k) (pmm_owner_del_locked i (2 ^ k) s1) \<longrightarrow>
    pmm_ok s' \<and> freed h (2 ^ k) (s\<lparr>pmm_stats := pmm_stats s', owner_table := owner_table s'\<rparr>) s' \<and>
    free_set s' = free_set s \<union> {h ..< h + 2 ^ k} \<and> live s' = (live s)(h := None) \<and>
    total_pages s' = total_pages s)"
proof -
  obtain F where inv: "pmm_inv (total_pages s) s F" and st: "stats_ok s" and ow: "owners_ok s" and ep: "epochs_ok s"
    using ok by (auto simp: pmm_ok_def)
  note b = live_pages(1) [OF ok l]
  obtain s1 F1 where s1: "release_block h k s = Some s1" "pmm_inv (total_pages s1) s1 F1" "freed h (2 ^ k) s s1"
    using release_block_ok [OF inv b] by blast
  have rest: "total_pages s1 = total_pages s" "pmm_stats s1 = pmm_stats s" "owner_table s1 = owner_table s"
    "validation_epoch s1 = validation_epoch s"
    using s1(3) by (simp_all add: freed_def rest_same_def)
  define s' where "s' = give_back (2 ^ k) (pmm_owner_del_locked i (2 ^ k) s1)"
  have sel: "page_desc s' = page_desc s1" "total_pages s' = total_pages s1" "free_head s' = free_head s1"
    "validation_epoch s' = validation_epoch s1" "pmm_stats s' = stats_back (2 ^ k) (pmm_stats s1)"
    "owner_table s' = owner_table (pmm_owner_del_locked i (2 ^ k) s1)"
    by (simp_all add: s'_def)
  note fv = freed_view [OF s1(3) b]
  have view: "free_set s' = free_set s \<union> {h ..< h + 2 ^ k}" "live s' = (live s)(h := None)"
    using view_cong [OF sel(1,2)] fv by simp_all
  have "pmm_ok s'"
    unfolding pmm_ok_def
  proof (intro conjI)
    show "\<exists>F. pmm_inv (total_pages s') s' F"
      using s1(2) pmm_inv_cong [OF sel(1-3)] sel(2) by metis
    have "stay_put {h ..< h + 2 ^ k} s s'"
      using freed_stay_put [OF s1(3)] unfolding stay_put_def sel .
    moreover have "alloc_page (pg_state (page_desc s q)) \<and> free_page (pg_state (page_desc s' q))" if "q \<in> {h ..< h + 2 ^ k}" for q
    proof
      have q: "h \<le> q" "q < h + 2 ^ k" using that by auto
      show "alloc_page (pg_state (page_desc s q))"
        using blkD(7) [OF b q] by simp
      show "free_page (pg_state (page_desc s' q))"
        using s1(3) q unfolding sel(1) freed_def by blast
    qed
    ultimately show "stats_ok s'"
      using blkD(3) [OF b] by (intro stats_freed [OF st]) (auto simp: sel(5) rest(2))
    show "owners_ok s'"
    proof (rule owners_refund [OF ow l])
      show "owner_table s' = owner_table (pmm_owner_del_locked i (2 ^ k) s)"
        using rest(3) by (simp add: sel(6) pmm_owner_del_locked_def Let_def)
    qed (use sel(2) rest(1) view(2) in simp_all)
    show "epochs_ok s'"
      using ep s1(3) by (simp add: epochs_ok_def sel rest freed_def)
  qed
  moreover have "freed h (2 ^ k) (s\<lparr>pmm_stats := pmm_stats s', owner_table := owner_table s'\<rparr>) s'"
    using s1(3) by (simp add: freed_def rest_same_def sel)
  ultimately show ?thesis
    using s1(1) view sel(2) rest(1) unfolding s'_def by (intro exI [of _ s1]) simp
qed

section \<open>Changes of a count or a tag\<close>

definition core :: "PmmPageDesc \<Rightarrow> PmmPageDesc" where
  "core d = d\<lparr>refcount := 0, backing_block := 0\<rparr>"

lemma core_fields:
  assumes "core d' = core d"
  shows "pg_owner d' = pg_owner d" "pg_order d' = pg_order d" "pg_state d' = pg_state d" "pg_next d' = pg_next d"
    "pg_prev d' = pg_prev d" "requested_pages d' = requested_pages d" "pg_epoch d' = pg_epoch d" "owner_slot d' = owner_slot d"
  using assms by (cases d; cases d'; simp add: core_def)+

lemma tweak_ok:
  assumes ok: "pmm_ok s" and same: "\<And>q. core (page_desc s' q) = core (page_desc s q)"
    and rest: "rest_same s s'" "free_head s' = free_head s"
    and counts: "alloc_ok (page_desc s') (total_pages s)"
  shows "pmm_ok s'" "free_set s' = free_set s"
proof -
  obtain F where inv: "pmm_inv (total_pages s) s F" and st: "stats_ok s" and ow: "owners_ok s" and ep: "epochs_ok s"
    using ok by (auto simp: pmm_ok_def)
  note I = pmm_invD [OF inv]
  have N: "total_pages s' = total_pages s" "pmm_stats s' = pmm_stats s" "owner_table s' = owner_table s"
    "validation_epoch s' = validation_epoch s"
    using rest by (simp_all add: rest_same_def)
  note C = core_fields [OF same]
  have eq: "blk (page_desc s') n h k f = blk (page_desc s) n h k f" for n h k f
    unfolding blk_def C ..
  have "pmm_inv (total_pages s') s' F"
    unfolding pmm_inv_def N(1) eq
  proof (intro conjI allI)
    show "pages_ok (page_desc s') (total_pages s)"
      using I(1) unfolding pages_ok_def eq C .
    show "links_ok s' F"
      using C by (intro links_ok_cong [OF I(2) N(1) rest(2)]) simp
    show "coal (page_desc s') (total_pages s) (total_pages s)"
      using I(4) unfolding coal_def eq .
  qed (use I(3) counts in auto)
  moreover have "stats_ok s'"
    using st unfolding stats_ok_def recount_stats pages_in_def N C .
  moreover have "owners_ok s'"
  proof -
    have "live s' h = map_option (\<lambda>(k, r, i). (k, refcount (page_desc s' h), i)) (live s h)" for h
      by (simp add: live_def Let_def C N)
    then have "share i (live s' h) = share i (live s h)" "(\<exists>r. live s' h = Some (k, r, i)) = (\<exists>r. live s h = Some (k, r, i))" for i h k
      by (auto simp: share_def split: option.split)
    note eqs = this
    have "slot_pages s' = slot_pages s"
      unfolding slot_pages_def N eqs(1) ..
    moreover have "\<exists>r. live s h = Some (k, r, i)" if "live s' h = Some (k, r, i)" for h k r i
      using eqs(2) [of h k i] that by blast
    ultimately show ?thesis
      using ow unfolding owners_ok_def N by (metis (no_types))
  qed
  moreover have "epochs_ok s'"
    using ep by (simp add: epochs_ok_def N C)
  ultimately show "pmm_ok s'" by (auto simp: pmm_ok_def)
  show "free_set s' = free_set s"
    by (simp add: free_set_def N C)
qed

lemma recount_page_ok:
  fixes r' :: nat
  assumes ok: "pmm_ok s" and l: "live s p = Some (0, r, i)" and r': "0 < r'" "r' \<le> 65535"
  defines "s' \<equiv> on_page p (\<lambda>d. d\<lparr>refcount := r'\<rparr>) s"
  shows "pmm_ok s'" "free_set s' = free_set s" "live s' = (live s)(p := Some (0, r', i))"
proof -
  obtain F where inv: "pmm_inv (total_pages s) s F"
    using ok by (auto simp: pmm_ok_def)
  note b = live_pages(1) [OF ok l]
  have eq: "blk (page_desc s') n h k f = blk (page_desc s) n h k f" for n h k f
    unfolding blk_def by (auto simp: s'_def)
  have "alloc_ok (page_desc s') (total_pages s)"
    unfolding alloc_ok_def eq
  proof (intro allI impI)
    fix h k assume h: "blk (page_desc s) (total_pages s) h k False"
    have "h = p" if "h \<le> p" "p < h + 2 ^ k"
      using blk_unique [OF b h, of p] that by simp
    moreover have "k = 0" if "h = p"
      using blk_unique [OF b h, of p] that by simp
    ultimately show "0 < requested_pages (page_desc s' h) \<and> requested_pages (page_desc s' h) \<le> 2 ^ k \<and>
        0 < refcount (page_desc s' h) \<and> refcount (page_desc s' h) \<le> 65535 \<and>
        (\<forall>q. h < q \<longrightarrow> q < h + 2 ^ k \<longrightarrow> refcount (page_desc s' q) = 1) \<and> (0 < k \<longrightarrow> refcount (page_desc s' h) = 1)"
      using pmm_invD(5) [OF inv, unfolded alloc_ok_def, rule_format, OF h] r' by (cases "h = p") (auto simp: s'_def)
  qed
  then show "pmm_ok s'" "free_set s' = free_set s"
    by (intro tweak_ok [OF ok, of s']; simp add: s'_def core_def rest_same_def)+
  show "live s' = (live s)(p := Some (0, r', i))"
    using live_pages(3,4,6,7) [OF ok l] by (auto simp: live_def Let_def s'_def fun_eq_iff)
qed

lemma backing_ok:
  fixes p :: nat and b :: int
  assumes ok: "pmm_ok s"
  defines "s' \<equiv> on_page p (\<lambda>d. d\<lparr>backing_block := b\<rparr>) s"
  shows "pmm_ok s'" "free_set s' = free_set s" "live s' = live s"
proof -
  obtain F where inv: "pmm_inv (total_pages s) s F"
    using ok by (auto simp: pmm_ok_def)
  have C: "pg_owner (page_desc s' q) = pg_owner (page_desc s q)" "pg_order (page_desc s' q) = pg_order (page_desc s q)"
    "pg_state (page_desc s' q) = pg_state (page_desc s q)" "refcount (page_desc s' q) = refcount (page_desc s q)"
    "requested_pages (page_desc s' q) = requested_pages (page_desc s q)" for q
    by (simp_all add: s'_def)
  have "alloc_ok (page_desc s') (total_pages s)"
    using pmm_invD(5) [OF inv] unfolding alloc_ok_def blk_def C .
  then show "pmm_ok s'" "free_set s' = free_set s"
    by (intro tweak_ok [OF ok, of s']; simp add: s'_def core_def rest_same_def)+
  show "live s' = live s"
    by (auto simp: live_def Let_def s'_def)
qed

end
