(* ===== verification/PmmCheck.thy ===== *)
theory PmmCheck
  imports PmmMgr
begin

text \<open>
  The consistency check of the manager: it accepts every consistent state, and changes nothing
  but its own marks.
\<close>

section \<open>Marks\<close>

definition stamp :: "nat set \<Rightarrow> pmm \<Rightarrow> pmm" where
  "stamp X s = s\<lparr>page_desc := (\<lambda>q. if q \<in> X then (page_desc s q)\<lparr>pg_epoch := validation_epoch s\<rparr> else page_desc s q)\<rparr>"

lemma stamp_sel [simp]:
  "page_desc (stamp X s) q = (if q \<in> X then (page_desc s q)\<lparr>pg_epoch := validation_epoch s\<rparr> else page_desc s q)"
  "total_pages (stamp X s) = total_pages s" "free_head (stamp X s) = free_head s"
  "pmm_stats (stamp X s) = pmm_stats s" "owner_table (stamp X s) = owner_table s"
  "validation_epoch (stamp X s) = validation_epoch s"
  by (simp_all add: stamp_def)

lemma stamp_stamp: "stamp X (stamp Y s) = stamp (Y \<union> X) s"
  by (auto simp: stamp_def fun_eq_iff)

lemma stamp_empty [simp]: "stamp {} s = s"
  by (simp add: stamp_def)

lemma on_page_stamp: "on_page h (\<lambda>d. d\<lparr>pg_epoch := validation_epoch s\<rparr>) s = stamp {h} s"
  by (auto simp: stamp_def on_page_def fun_eq_iff)

text \<open>States that differ in marks only.\<close>

definition but_epochs :: "pmm \<Rightarrow> pmm \<Rightarrow> bool" where
  "but_epochs s s' \<longleftrightarrow> total_pages s' = total_pages s \<and> free_head s' = free_head s \<and> pmm_stats s' = pmm_stats s \<and>
     owner_table s' = owner_table s \<and>
     (\<forall>q. \<exists>e. page_desc s' q = (page_desc s q)\<lparr>pg_epoch := e\<rparr>)"

lemma but_epochs_stamp: "but_epochs s (stamp X s)"
  unfolding but_epochs_def
proof (intro conjI allI)
  show "\<exists>e. page_desc (stamp X s) q = (page_desc s q)\<lparr>pg_epoch := e\<rparr>" for q
  proof (cases "q \<in> X")
    case True
    then show ?thesis by auto
  next
    case False
    then show ?thesis by (intro exI [of _ "pg_epoch (page_desc s q)"]) simp
  qed
qed simp_all

lemma but_epochsD:
  assumes "but_epochs s s'"
  shows "pg_owner (page_desc s' q) = pg_owner (page_desc s q)" "pg_order (page_desc s' q) = pg_order (page_desc s q)"
    "pg_state (page_desc s' q) = pg_state (page_desc s q)" "pg_next (page_desc s' q) = pg_next (page_desc s q)"
    "pg_prev (page_desc s' q) = pg_prev (page_desc s q)" "refcount (page_desc s' q) = refcount (page_desc s q)"
    "requested_pages (page_desc s' q) = requested_pages (page_desc s q)" "owner_slot (page_desc s' q) = owner_slot (page_desc s q)"
    "total_pages s' = total_pages s" "free_head s' = free_head s" "pmm_stats s' = pmm_stats s"
    "owner_table s' = owner_table s"
proof -
  obtain e where "page_desc s' q = (page_desc s q)\<lparr>pg_epoch := e\<rparr>"
    using assms unfolding but_epochs_def by blast
  then show "pg_owner (page_desc s' q) = pg_owner (page_desc s q)" "pg_order (page_desc s' q) = pg_order (page_desc s q)"
    "pg_state (page_desc s' q) = pg_state (page_desc s q)" "pg_next (page_desc s' q) = pg_next (page_desc s q)"
    "pg_prev (page_desc s' q) = pg_prev (page_desc s q)" "refcount (page_desc s' q) = refcount (page_desc s q)"
    "requested_pages (page_desc s' q) = requested_pages (page_desc s q)" "owner_slot (page_desc s' q) = owner_slot (page_desc s q)"
    by simp_all
qed (use assms in \<open>simp_all add: but_epochs_def\<close>)

lemma but_epochs_trans:
  assumes "but_epochs s t" "but_epochs t u"
  shows "but_epochs s u"
proof -
  have "\<exists>e. page_desc u q = (page_desc s q)\<lparr>pg_epoch := e\<rparr>" for q
  proof -
    obtain a where a: "page_desc t q = (page_desc s q)\<lparr>pg_epoch := a\<rparr>"
      using assms(1) unfolding but_epochs_def by blast
    obtain e where "page_desc u q = (page_desc t q)\<lparr>pg_epoch := e\<rparr>"
      using assms(2) unfolding but_epochs_def by blast
    then show ?thesis by (intro exI [of _ e]) (simp add: a)
  qed
  then show ?thesis
    using assms by (simp add: but_epochs_def)
qed

lemma but_epochs_inv:
  assumes b: "but_epochs s s'"
  shows "pmm_inv c s' F = pmm_inv c s F" "live s' = live s" "free_set s' = free_set s" "stats_ok s' = stats_ok s"
    "owners_ok s' = owners_ok s"
proof -
  note D = but_epochsD [OF b]
  have eq: "blk (page_desc s') n h k f = blk (page_desc s) n h k f" for n h k f
    unfolding blk_def D ..
  show "pmm_inv c s' F = pmm_inv c s F"
    unfolding pmm_inv_def pages_ok_def links_ok_def coal_def alloc_ok_def eq D ..
  show live: "live s' = live s"
    by (simp add: live_def Let_def fun_eq_iff D)
  show "free_set s' = free_set s"
    by (simp add: free_set_def D)
  show "stats_ok s' = stats_ok s"
    unfolding stats_ok_def recount_stats pages_in_def D ..
  show "owners_ok s' = owners_ok s"
    by (rule owners_cong [OF D(12) live D(9)])
qed

section \<open>The walk along the lists\<close>

lemma aligned_and: "(h::nat) AND (2 ^ k - 1) = 0 \<longleftrightarrow> 2 ^ k dvd h"
proof -
  have "h AND (2 ^ k - 1) = h mod 2 ^ k"
    by (simp only: mask_eq_exp_minus_1 [symmetric] take_bit_eq_mask [symmetric] take_bit_eq_mod)
  then show ?thesis by (simp add: dvd_eq_mod_eq_0)
qed

definition sound_head :: "pmm \<Rightarrow> nat \<Rightarrow> nat \<Rightarrow> bool" where
  "sound_head s k x \<longleftrightarrow> x < total_pages s \<and> pg_state (page_desc s x) = PMM_PAGE_FREE_HEAD \<and>
     pg_owner (page_desc s x) = x \<and> pg_order (page_desc s x) = k \<and> 2 ^ k dvd x"

lemma validate_list_run:
  assumes "glinks PMM_NO_PAGE (\<lambda>p. pg_next (page_desc s p)) (\<lambda>p. pg_prev (page_desc s p)) pv xs PMM_NO_PAGE"
    "distinct xs" "\<And>x. x \<in> set xs \<Longrightarrow> sound_head s k x \<and> pg_epoch (page_desc s x) \<noteq> validation_epoch s"
  shows "validate_list k pv (first xs PMM_NO_PAGE) n s = Some (True, n + length xs * 2 ^ k, stamp (set xs) s)"
  using assms
proof (induction xs arbitrary: pv n s)
  case Nil
  then show ?case by (subst validate_list.simps) simp
next
  case (Cons x xs)
  let ?s = "stamp {x} s"
  have x: "x \<noteq> PMM_NO_PAGE" "pg_prev (page_desc s x) = pv" "pg_next (page_desc s x) = first xs PMM_NO_PAGE"
    "x \<notin> set xs"
    and g: "glinks PMM_NO_PAGE (\<lambda>p. pg_next (page_desc s p)) (\<lambda>p. pg_prev (page_desc s p)) x xs PMM_NO_PAGE"
    using Cons.prems(1,2) by auto
  have sx: "sound_head s k x" "pg_epoch (page_desc s x) \<noteq> validation_epoch s"
    using Cons.prems(3) by auto
  have ih: "validate_list k x (first xs PMM_NO_PAGE) (n + 2 ^ k) ?s =
      Some (True, n + 2 ^ k + length xs * 2 ^ k, stamp (set xs) ?s)"
  proof (rule Cons.IH)
    show "glinks PMM_NO_PAGE (\<lambda>p. pg_next (page_desc ?s p)) (\<lambda>p. pg_prev (page_desc ?s p)) x xs PMM_NO_PAGE"
      using g x(4) by (subst dlinks_cong) auto
    show "sound_head ?s k y \<and> pg_epoch (page_desc ?s y) \<noteq> validation_epoch ?s" if "y \<in> set xs" for y
      using Cons.prems(3) [of y] that x(4) by (auto simp: sound_head_def)
  qed (use Cons.prems(2) in simp)
  have "validate_list k pv x n s = validate_list k x (first xs PMM_NO_PAGE) (n + 2 ^ k) ?s"
    using x sx unfolding sound_head_def aligned_and [symmetric]
    by (subst validate_list.simps) (simp add: Let_def on_page_stamp valid_page_def)
  then show ?case
    using ih by (simp add: stamp_stamp algebra_simps)
qed

lemma validate_lists_run:
  assumes inv: "pmm_inv (total_pages s) s F" and ks: "distinct ks" "set ks \<subseteq> {..32}"
    and fresh: "\<And>k x. k \<in> set ks \<Longrightarrow> x \<in> set (F k) \<Longrightarrow> pg_epoch (page_desc s x) \<noteq> validation_epoch s"
  shows "validate_lists ks n s =
    Some (True, n + (\<Sum>k\<leftarrow>ks. length (F k) * 2 ^ k), stamp (\<Union>k\<in>set ks. set (F k)) s)"
  using assms
proof (induction ks arbitrary: n s)
  case Nil
  then show ?case by simp
next
  case (Cons k ks)
  note I = pmm_invD [OF Cons.prems(1)]
  note L = links_okD [OF I(2)]
  have sound: "sound_head s k x" if "x \<in> set (F k)" for x
  proof -
    have "blk (page_desc s) (total_pages s) x k True"
      using that I(3) by blast
    then show ?thesis
      using blk_head [of "page_desc s" "total_pages s" x k True] blkD(1,4) [of "page_desc s" "total_pages s" x k True]
      by (simp add: sound_head_def block_state_def)
  qed
  have run: "validate_list k PMM_NO_PAGE (free_head s k) n s = Some (True, n + length (F k) * 2 ^ k, stamp (set (F k)) s)"
    using Cons.prems(3,4) L(5) [of k] sound by (simp, intro validate_list_run [OF L(4) L(2)]) auto
  have ih: "validate_lists ks (n + length (F k) * 2 ^ k) (stamp (set (F k)) s) =
      Some (True, n + length (F k) * 2 ^ k + (\<Sum>k\<leftarrow>ks. length (F k) * 2 ^ k),
        stamp (\<Union>k\<in>set ks. set (F k)) (stamp (set (F k)) s))"
  proof (rule Cons.IH)
    show "pmm_inv (total_pages (stamp (set (F k)) s)) (stamp (set (F k)) s) F"
      using Cons.prems(1) but_epochs_inv(1) [OF but_epochs_stamp] by simp
    show "pg_epoch (page_desc (stamp (set (F k)) s) x) \<noteq> validation_epoch (stamp (set (F k)) s)"
      if "j \<in> set ks" "x \<in> set (F j)" for j x
      using Cons.prems(2,4) that L(6) [of x j k] by auto
  qed (use Cons.prems in auto)
  show ?case
    using run ih by (simp add: stamp_stamp add.assoc)
qed

section \<open>The pages of the lists\<close>

lemma listed_pages:
  assumes inv: "pmm_inv (total_pages s) s F"
  shows "(\<Sum>k\<leftarrow>[0..<33]. length (F k) * 2 ^ k) = card (free_set s)"
proof -
  note I = pmm_invD [OF inv]
  note L = links_okD [OF I(2)]
  have mem: "h \<in> set (F k) \<longleftrightarrow> blk (page_desc s) (total_pages s) h k True" for h k
    using I(3) blkD(4) [of "page_desc s" "total_pages s" h k True] by auto
  let ?H = "SIGMA k:{..<33}. set (F k)"
  let ?B = "\<lambda>(k, h). {h ..< h + (2::nat) ^ k}"
  have cover: "free_set s = (\<Union>x\<in>?H. ?B x)"
  proof (intro equalityI subsetI)
    fix p assume "p \<in> free_set s"
    then have p: "p < total_pages s" "free_page (pg_state (page_desc s p))"
      by (auto simp: free_set_def)
    then obtain h k f where b: "blk (page_desc s) (total_pages s) h k f" "h \<le> p" "p < h + 2 ^ k"
      using pages_okD [OF I(1) p(1)] free_page_blocked by metis
    then have "f" using blkD(7) [OF b] p(2) by simp
    then have "(k, h) \<in> ?H"
      using b(1) blkD(2) [OF b(1)] mem by auto
    then show "p \<in> (\<Union>x\<in>?H. ?B x)"
      using b(2,3) by (intro UN_I [of "(k, h)"]) auto
  next
    fix p assume "p \<in> (\<Union>x\<in>?H. ?B x)"
    then obtain k h where "h \<in> set (F k)" "h \<le> p" "p < h + 2 ^ k"
      by auto
    then show "p \<in> free_set s"
      using blkD(3,7) [of "page_desc s" "total_pages s" h k True] mem by (fastforce simp: free_set_def)
  qed
  have "card (free_set s) = (\<Sum>x\<in>?H. card (?B x))"
    unfolding cover
  proof (rule card_UN_disjoint)
    show "\<forall>x\<in>?H. \<forall>y\<in>?H. x \<noteq> y \<longrightarrow> ?B x \<inter> ?B y = {}"
    proof (intro ballI impI)
      fix x y assume xy: "x \<in> ?H" "y \<in> ?H" "x \<noteq> y"
      obtain k h j g where eq: "x = (k, h)" "y = (j, g)" by fastforce
      have b: "blk (page_desc s) (total_pages s) h k True" "blk (page_desc s) (total_pages s) g j True"
        using xy(1,2) mem unfolding eq by auto
      have "h \<noteq> g" using b blk_head(2) [OF b(1)] blk_head(2) [OF b(2)] xy(3) unfolding eq by auto
      then show "?B x \<inter> ?B y = {}"
        using blk_disjoint [OF b] unfolding eq by auto
    qed
  qed auto
  also have "\<dots> = (\<Sum>(k, h)\<in>?H. 2 ^ k)"
    by (intro sum.cong) auto
  also have "\<dots> = (\<Sum>k<33. \<Sum>h\<in>set (F k). 2 ^ k)"
    by (subst sum.Sigma) auto
  also have "\<dots> = (\<Sum>k<33. length (F k) * 2 ^ k)"
    using L(2) by (intro sum.cong) (auto simp: distinct_card)
  also have "\<dots> = (\<Sum>k\<leftarrow>[0..<33]. length (F k) * 2 ^ k)"
    by (simp only: interv_sum_list_conv_sum_set_nat atLeast0LessThan set_upt)
  finally show ?thesis by simp
qed

section \<open>The pass over the pages\<close>

lemma validate_pages_run:
  assumes "\<And>p. p \<in> set ps \<Longrightarrow> validate_page s p"
  shows "validate_pages s ps c = (True, fold (\<lambda>p. tally (pg_state (page_desc s p))) ps c)"
  using assms by (induction ps arbitrary: c) (simp_all add: Let_def)

lemma validate_page_ok:
  assumes inv: "pmm_inv (total_pages s) s F" and p: "p < total_pages s"
    and marked: "\<And>k x. k \<le> 32 \<Longrightarrow> x \<in> set (F k) \<Longrightarrow> pg_epoch (page_desc s x) = validation_epoch s"
  shows "validate_page s p"
proof (cases "unblocked (pg_state (page_desc s p))")
  case True
  then show ?thesis by (auto simp: validate_page_def unblocked_def Let_def)
next
  case False
  note I = pmm_invD [OF inv]
  obtain h k f where b: "blk (page_desc s) (total_pages s) h k f" "h \<le> p" "p < h + 2 ^ k"
    using pages_okD [OF I(1) p False] .
  note H = blk_head [OF b(1)]
  have d: "pg_owner (page_desc s p) = h" "pg_order (page_desc s p) = k" "pg_state (page_desc s p) = block_state f (p = h)"
    using blkD(5-7) [OF b] .
  have v: "valid_page s h" using blkD(4) [OF b(1)] by (simp add: valid_page_def)
  show ?thesis
  proof (cases f)
    case True
    then have "h \<in> set (F k)"
      using I(3) b(1) blkD(4) [OF b(1)] by simp
    then have "pg_epoch (page_desc s h) = validation_epoch s"
      using marked blkD(2) [OF b(1)] by blast
    then show ?thesis
      using True d H v by (cases "p = h") (simp_all add: validate_page_def block_state_def Let_def)
  next
    case False
    then have "0 < requested_pages (page_desc s h) \<and> 0 < refcount (page_desc s h)"
      using I(5) b(1) unfolding alloc_ok_def by auto
    then show ?thesis
      using False d H v by (cases "p = h") (simp_all add: validate_page_def block_state_def Let_def)
  qed
qed

section \<open>The check\<close>

lemma word_le_less_inc:
  fixes a b :: "'a::len word"
  assumes "a \<le> b" "b + 1 \<noteq> 0"
  shows "a < b + 1"
proof -
  have "unat (b + 1) = Suc (unat b)"
    using unatSuc [of b] assms(2) by (simp add: add.commute)
  then show ?thesis
    using assms(1) by (simp add: word_le_nat_alt word_less_nat_alt)
qed

text \<open>The new epoch is one that no page carries, after a wrap too.\<close>

definition next_epoch :: "pmm \<Rightarrow> pmm" where
  "next_epoch s = (let epoch = validation_epoch s + 1 in
     if epoch = 0 then on_pages 0 (total_pages s) (\<lambda>_ d. d\<lparr>pg_epoch := 0\<rparr>) s\<lparr>validation_epoch := 1\<rparr>
     else s\<lparr>validation_epoch := epoch\<rparr>)"

lemma next_epoch_fresh:
  assumes ok: "epochs_ok s"
  shows "but_epochs s (next_epoch s)" "p < total_pages s \<Longrightarrow> pg_epoch (page_desc (next_epoch s) p) < validation_epoch (next_epoch s)"
proof -
  have "\<exists>e. page_desc (next_epoch s) q = (page_desc s q)\<lparr>pg_epoch := e\<rparr>" for q
  proof (cases "validation_epoch s + 1 = 0 \<and> q < total_pages s")
    case True
    then show ?thesis by (intro exI [of _ 0]) (simp add: next_epoch_def Let_def on_pages_def)
  next
    case False
    then have "page_desc (next_epoch s) q = page_desc s q"
      by (auto simp: next_epoch_def Let_def on_pages_def)
    then show ?thesis by (intro exI [of _ "pg_epoch (page_desc s q)"]) simp
  qed
  then show "but_epochs s (next_epoch s)"
    by (simp add: but_epochs_def) (simp add: next_epoch_def Let_def on_pages_def)
  show "pg_epoch (page_desc (next_epoch s) p) < validation_epoch (next_epoch s)" if "p < total_pages s"
  proof (cases "validation_epoch s + 1 = 0")
    case True
    then show ?thesis using that by (simp add: next_epoch_def Let_def on_pages_def)
  next
    case False
    then show ?thesis
      using word_le_less_inc [of "pg_epoch (page_desc s p)" "validation_epoch s"] ok that
      by (simp add: next_epoch_def Let_def epochs_ok_def)
  qed
qed

lemma validate_unfold:
  "AuPmmngrValidate s = do {
     (ok, listed, s) \<leftarrow> validate_lists [0..<Suc PMM_MAX_ORDER] 0 (next_epoch s);
     let (ok, c) = (if ok then validate_pages s [0..<total_pages s] no_pages else (False, no_pages));
     let st = pmm_stats s;
     Some (ok \<and> listed = free_pages c \<and> managed_pages c = managed_pages st \<and>
           free_pages c = free_pages st \<and> allocated_pages c = allocated_pages st \<and>
           reserved_pages c = reserved_pages st \<and> unmanaged_pages c = unmanaged_pages st \<and>
           free_pages c + allocated_pages c + reserved_pages c = managed_pages c, s)
   }"
  by (simp add: AuPmmngrValidate_def next_epoch_def Let_def)

lemma managed_split:
  "pages_in free_page s + pages_in alloc_page s + pages_in (\<lambda>st. st = PMM_PAGE_RESERVED) s =
     pages_in (\<lambda>st. st \<noteq> PMM_PAGE_UNMANAGED) s"
proof -
  let ?P = "\<lambda>Q. {p. p < total_pages s \<and> Q (pg_state (page_desc s p))}"
  have "?P (\<lambda>st. st \<noteq> PMM_PAGE_UNMANAGED) = (?P free_page \<union> ?P alloc_page) \<union> ?P (\<lambda>st. st = PMM_PAGE_RESERVED)"
    by (rule set_eqI) (simp add: free_page_def alloc_page_def, metis PmmPageState.exhaust PmmPageState.distinct)
  moreover have "card ((?P free_page \<union> ?P alloc_page) \<union> ?P (\<lambda>st. st = PMM_PAGE_RESERVED)) =
      card (?P free_page \<union> ?P alloc_page) + card (?P (\<lambda>st. st = PMM_PAGE_RESERVED))"
    by (rule card_Un_disjoint) (auto simp: free_page_def alloc_page_def)
  moreover have "card (?P free_page \<union> ?P alloc_page) = card (?P free_page) + card (?P alloc_page)"
    by (rule card_Un_disjoint) (auto simp: free_page_def alloc_page_def)
  ultimately show ?thesis by (simp add: pages_in_def)
qed

lemma validate_ok:
  assumes ok: "pmm_ok s"
  shows "\<exists>s'. AuPmmngrValidate s = Some (True, s') \<and> pmm_ok s' \<and> but_epochs s s'"
proof -
  obtain F where inv: "pmm_inv (total_pages s) s F" and st: "stats_ok s" and ow: "owners_ok s" and ep: "epochs_ok s"
    using ok by (auto simp: pmm_ok_def)
  define s1 where "s1 = next_epoch s"
  note N = next_epoch_fresh [OF ep, folded s1_def]
  note D1 = but_epochsD [OF N(1)]
  have inv1: "pmm_inv (total_pages s1) s1 F"
    using inv but_epochs_inv(1) [OF N(1)] D1(9) by simp
  define X where "X = (\<Union>k\<in>set [0..<33]. set (F k))"
  define s2 where "s2 = stamp X s1"
  have lists: "validate_lists [0..<33] 0 s1 = Some (True, card (free_set s1), s2)"
  proof -
    have fresh: "pg_epoch (page_desc s1 x) \<noteq> validation_epoch s1" if "x \<in> set (F k)" for k x
      using N(2) [of x] links_okD(3) [OF pmm_invD(2) [OF inv] that] by simp
    have "set [0..<33::nat] \<subseteq> {..32}"
      by auto
    from validate_lists_run [OF inv1 distinct_upt this fresh, where n = 0]
    show ?thesis
      unfolding listed_pages [OF inv1] s2_def X_def by simp
  qed
  have b12: "but_epochs s1 s2"
    unfolding s2_def by (rule but_epochs_stamp)
  have b: "but_epochs s s2"
    by (rule but_epochs_trans [OF N(1) b12])
  note D = but_epochsD [OF b] and E = but_epochs_inv [OF b]
  have inv2: "pmm_inv (total_pages s2) s2 F"
    using inv E(1) D(9) by simp
  have page: "validate_page s2 p" if "p < total_pages s2" for p
  proof (rule validate_page_ok [OF inv2 that])
    show "pg_epoch (page_desc s2 x) = validation_epoch s2" if "k \<le> 32" "x \<in> set (F k)" for k x
    proof -
      have "x \<in> X" using that by (auto simp: X_def)
      then show ?thesis by (simp add: s2_def)
    qed
  qed
  have pages: "validate_pages s2 [0..<total_pages s2] no_pages = (True, pmm_stats (recount s2))"
    using page by (subst validate_pages_run) (simp_all add: recount_def)
  have stats: "pmm_stats (recount s2) = pmm_stats s2"
    using st E(4) by (simp add: stats_ok_def)
  have listed: "card (free_set s1) = free_pages (pmm_stats s2)"
    using but_epochs_inv(3) [OF b12] stats [symmetric]
    by (simp add: recount_stats pages_in_def free_set_def)
  have sum: "free_pages (pmm_stats s2) + allocated_pages (pmm_stats s2) + reserved_pages (pmm_stats s2) =
      managed_pages (pmm_stats s2)"
    unfolding stats [symmetric] recount_stats using managed_split [of s2] by simp
  have m: "Suc PMM_MAX_ORDER = 33" by (simp add: PMM_MAX_ORDER_def)
  have "AuPmmngrValidate s = Some (True, s2)"
    unfolding validate_unfold s1_def [symmetric] m using lists pages stats listed sum
    by (simp add: Let_def del: upt_Suc)
  moreover have "epochs_ok s2"
    using N(2) by (auto simp: epochs_ok_def s2_def D1(9) intro: less_imp_le)
  then have "pmm_ok s2"
    using inv2 st ow E(4,5) by (auto simp: pmm_ok_def)
  ultimately show ?thesis using b by blast
qed

end
