(* ===== verification/PmmInit.thy ===== *)
theory PmmInit
  imports PmmCheck
begin

text \<open>
  The set-up of the manager: ranges of pages, and the free blocks it cuts from the usable ranges
  after taking the reserved ones out.
\<close>

section \<open>Ranges\<close>

definition pages_of :: "PmmRange list \<Rightarrow> nat set" where
  "pages_of rs = (\<Union>r \<in> set rs. {fst r ..< snd r})"

definition separated :: "PmmRange list \<Rightarrow> bool" where
  "separated rs \<longleftrightarrow> sorted_wrt (\<lambda>a b. snd a < fst b) rs \<and> (\<forall>r \<in> set rs. fst r \<le> snd r)"

lemma pages_of_simps [simp]:
  "pages_of [] = {}" "pages_of (r # rs) = {fst r ..< snd r} \<union> pages_of rs"
  "pages_of (xs @ ys) = pages_of xs \<union> pages_of ys"
  by (auto simp: pages_of_def)

lemma insert_range_set: "set (insert_range rs r) = insert r (set rs)"
proof -
  have "set (insert_range rs r) = insert r (set (takeWhile (\<lambda>x. fst x > fst r) (rev rs)) \<union> set (dropWhile (\<lambda>x. fst x > fst r) (rev rs)))"
    by (auto simp: insert_range_def Let_def)
  also have "\<dots> = insert r (set (rev rs))"
    by (metis set_append takeWhile_dropWhile_id)
  finally show ?thesis by simp
qed

lemma insert_range_sorted:
  assumes "sorted (map fst rs)"
  shows "sorted (map fst (insert_range rs r))"
proof -
  let ?P = "\<lambda>x. fst x > fst r"
  let ?t = "takeWhile ?P (rev rs)" and ?d = "dropWhile ?P (rev rs)"
  have split: "rs = rev ?d @ rev ?t"
    by (metis rev_append rev_rev_ident takeWhile_dropWhile_id)
  have s: "sorted (map fst (rev ?d @ rev ?t))"
    using assms split by simp
  have t: "fst r < fst x" if "x \<in> set ?t" for x
    using that by (auto dest: set_takeWhileD)
  have d: "fst x \<le> fst r" if x: "x \<in> set ?d" for x
  proof -
    obtain y ys where y: "?d = y # ys" using x by (cases ?d) auto
    then have "\<not> ?P y" by (metis hd_dropWhile list.distinct(1) list.sel(1))
    moreover have "fst x \<le> fst y"
      using s x unfolding y by (auto simp: sorted_append)
    ultimately show ?thesis by simp
  qed
  show ?thesis
    using s t d by (fastforce simp: insert_range_def Let_def sorted_append less_imp_le)
qed

lemma insert_ranges: "sorted (map fst rs) \<Longrightarrow>
    sorted (map fst (foldl insert_range rs xs)) \<and> set (foldl insert_range rs xs) = set rs \<union> set xs"
  by (induction xs arbitrary: rs) (simp_all add: insert_range_sorted insert_range_set)

text \<open>Joining keeps the pages; what is left is apart by at least a page.\<close>

definition proper :: "PmmRange list \<Rightarrow> bool" where
  "proper rs \<longleftrightarrow> (\<forall>r \<in> set rs. fst r \<le> snd r)"

lemma join_range_ok:
  assumes out: "separated out" and r: "fst r \<le> snd r" "\<forall>x \<in> set out. fst x \<le> fst r"
  shows "separated (join_range out r)" "pages_of (join_range out r) = pages_of out \<union> {fst r ..< snd r}"
    "\<forall>x \<in> set (join_range out r). fst x \<le> fst r"
    "(\<forall>x \<in> set out. fst x < snd x) \<Longrightarrow> fst r < snd r \<Longrightarrow> \<forall>x \<in> set (join_range out r). fst x < snd x"
proof -
  have "separated (join_range out r) \<and> pages_of (join_range out r) = pages_of out \<union> {fst r ..< snd r} \<and>
    (\<forall>x \<in> set (join_range out r). fst x \<le> fst r) \<and>
    ((\<forall>x \<in> set out. fst x < snd x) \<longrightarrow> fst r < snd r \<longrightarrow> (\<forall>x \<in> set (join_range out r). fst x < snd x))"
  proof (cases out rule: rev_cases)
    case Nil
    then show ?thesis using r by (simp add: join_range_def separated_def)
  next
    case (snoc xs l)
    have l: "fst l \<le> snd l" "fst l \<le> fst r" "\<forall>x \<in> set xs. snd x < fst l" "separated xs"
      "\<forall>x \<in> set xs. fst x \<le> snd x"
      using out r snoc by (auto simp: separated_def sorted_wrt_append)
    consider "fst r \<le> snd l" "snd l < snd r" | "fst r \<le> snd l" "snd r \<le> snd l" | "snd l < fst r"
      by linarith
    then show ?thesis
    proof cases
      case 1
      then have "join_range out r = xs @ [(fst l, snd r)]"
        by (simp add: join_range_def snoc)
      then show ?thesis
        using l 1 r snoc by (auto simp: separated_def sorted_wrt_append)
    next
      case 2
      then have "join_range out r = out"
        by (simp add: join_range_def snoc)
      then show ?thesis
        using l 2 r snoc out by auto
    next
      case 3
      then have "join_range out r = out @ [r]"
        by (simp add: join_range_def snoc)
      moreover have "snd x < fst r" if "x \<in> set out" for x
        using that l 3 snoc by fastforce
      ultimately show ?thesis
        using r out by (auto simp: separated_def sorted_wrt_append)
    qed
  qed
  then show "separated (join_range out r)" "pages_of (join_range out r) = pages_of out \<union> {fst r ..< snd r}"
    "\<forall>x \<in> set (join_range out r). fst x \<le> fst r"
    "(\<forall>x \<in> set out. fst x < snd x) \<Longrightarrow> fst r < snd r \<Longrightarrow> \<forall>x \<in> set (join_range out r). fst x < snd x"
    by blast+
qed

lemma join_ranges:
  assumes "separated out" "proper rs" "sorted (map fst rs)" "\<forall>x \<in> set out. \<forall>r \<in> set rs. fst x \<le> fst r"
  shows "separated (foldl join_range out rs) \<and> pages_of (foldl join_range out rs) = pages_of out \<union> pages_of rs \<and>
    ((\<forall>x \<in> set out. fst x < snd x) \<longrightarrow> (\<forall>x \<in> set rs. fst x < snd x) \<longrightarrow> (\<forall>x \<in> set (foldl join_range out rs). fst x < snd x))"
  using assms
proof (induction rs arbitrary: out)
  case Nil
  then show ?case by simp
next
  case (Cons r rs)
  have r: "fst r \<le> snd r" "\<forall>x \<in> set out. fst x \<le> fst r" "\<forall>y \<in> set rs. fst r \<le> fst y"
    using Cons.prems by (auto simp: proper_def)
  note J = join_range_ok [OF Cons.prems(1) r(1,2)]
  have "separated (foldl join_range (join_range out r) rs) \<and>
      pages_of (foldl join_range (join_range out r) rs) = pages_of (join_range out r) \<union> pages_of rs \<and>
      ((\<forall>x \<in> set (join_range out r). fst x < snd x) \<longrightarrow> (\<forall>x \<in> set rs. fst x < snd x) \<longrightarrow>
        (\<forall>x \<in> set (foldl join_range (join_range out r) rs). fst x < snd x))"
  proof (rule Cons.IH)
    show "\<forall>x \<in> set (join_range out r). \<forall>y \<in> set rs. fst x \<le> fst y"
      using J(3) r(3) order_trans by blast
    show "separated (join_range out r)" by (rule J(1))
    show "proper rs" "sorted (map fst rs)" using Cons.prems(2,3) by (simp_all add: proper_def)
  qed
  note ih = this
  show ?case
  proof (intro conjI impI)
    show "separated (foldl join_range out (r # rs))" using ih by simp
    show "pages_of (foldl join_range out (r # rs)) = pages_of out \<union> pages_of (r # rs)"
      using ih J(2) by (simp add: Un_assoc)
    assume a: "\<forall>x \<in> set out. fst x < snd x" "\<forall>x \<in> set (r # rs). fst x < snd x"
    have "r \<in> set (r # rs)" "set rs \<subseteq> set (r # rs)" by auto
    then have "fst r < snd r" "\<forall>x \<in> set rs. fst x < snd x"
      using a(2) by blast+
    then show "\<forall>x \<in> set (foldl join_range out (r # rs)). fst x < snd x"
      unfolding foldl.simps using ih J(4) [OF a(1)] by blast
  qed
qed

lemma normalize_ok:
  assumes "proper rs"
  shows "separated (normalize rs)" "pages_of (normalize rs) = pages_of rs"
    "(\<forall>x \<in> set rs. fst x < snd x) \<Longrightarrow> \<forall>x \<in> set (normalize rs). fst x < snd x"
proof -
  have I: "sorted (map fst (foldl insert_range [] rs))" "set (foldl insert_range [] rs) = set rs"
    using insert_ranges [of "[]" rs] by simp_all
  have p: "pages_of (foldl insert_range [] rs) = pages_of rs" "proper (foldl insert_range [] rs)"
    using assms I(2) by (simp_all add: pages_of_def proper_def)
  have "separated []" "\<forall>x \<in> set []. \<forall>r \<in> set (foldl insert_range [] rs). fst x \<le> fst r"
    by (simp_all add: separated_def)
  note J = join_ranges [OF this(1) p(2) I(1) this(2), folded normalize_def]
  show "separated (normalize rs)"
    using J by blast
  show "pages_of (normalize rs) = pages_of rs"
    using J p(1) by simp
  show "\<forall>x \<in> set (normalize rs). fst x < snd x" if "\<forall>x \<in> set rs. fst x < snd x"
  proof -
    have "\<forall>x \<in> set []. fst x < snd x" by simp
    then show ?thesis using J that unfolding I(2) by blast
  qed
qed

section \<open>Cutting a range into blocks\<close>

lemma floor_order_bounds: "0 < n \<Longrightarrow> 2 ^ floor_order n \<le> n \<and> n < 2 ^ Suc (floor_order n)"
proof (induction n rule: floor_order.induct)
  case (1 n)
  show ?case
  proof (cases "n \<le> 1")
    case True
    then have "n = 1" using 1(2) by simp
    moreover have "floor_order 1 = 0" by (subst floor_order.simps) simp
    ultimately show ?thesis by simp
  next
    case False
    then have f: "floor_order n = Suc (floor_order (n div 2))" by (subst floor_order.simps) simp
    have "2 ^ floor_order (n div 2) \<le> n div 2" "n div 2 < 2 ^ Suc (floor_order (n div 2))"
      using 1(1) [OF False] False by auto
    then show ?thesis unfolding f by auto
  qed
qed

lemma align_order_greatest:
  "2 ^ align_order lo n dvd lo \<and> align_order lo n \<le> n \<and> (\<forall>k. align_order lo n < k \<longrightarrow> k \<le> n \<longrightarrow> \<not> 2 ^ k dvd lo)"
proof (induction n)
  case 0
  then show ?case by simp
next
  case (Suc n)
  show ?case
  proof (cases "2 ^ Suc n dvd lo")
    case True
    then have "align_order lo (Suc n) = Suc n"
      using aligned_and [of lo "Suc n"] by (simp del: power_Suc)
    then show ?thesis using True by auto
  next
    case False
    then have "align_order lo (Suc n) = align_order lo n"
      using aligned_and [of lo "Suc n"] by (simp del: power_Suc)
    then show ?thesis using Suc False by (metis le_Suc_eq)
  qed
qed

text \<open>The pages of a range become free; every other page keeps all but its links.\<close>

definition filled :: "nat \<Rightarrow> nat \<Rightarrow> pmm \<Rightarrow> pmm \<Rightarrow> bool" where
  "filled lo hi s s' \<longleftrightarrow> rest_same s s' \<and>
     (\<forall>q. lo \<le> q \<longrightarrow> q < hi \<longrightarrow> free_page (pg_state (page_desc s' q))) \<and>
     (\<forall>q. pg_epoch (page_desc s' q) = pg_epoch (page_desc s q)) \<and>
     (\<forall>q. \<not> (lo \<le> q \<and> q < hi) \<longrightarrow> unlinked (page_desc s' q) = unlinked (page_desc s q))"

lemma filledD:
  assumes "filled lo hi s s'"
  shows "rest_same s s'" "lo \<le> q \<Longrightarrow> q < hi \<Longrightarrow> free_page (pg_state (page_desc s' q))"
    "pg_epoch (page_desc s' q) = pg_epoch (page_desc s q)"
    "\<not> (lo \<le> q \<and> q < hi) \<Longrightarrow> unlinked (page_desc s' q) = unlinked (page_desc s q)"
  using assms unfolding filled_def by blast+

lemma filled_state:
  assumes "filled lo hi s s'" "\<not> (lo \<le> q \<and> q < hi)"
  shows "pg_state (page_desc s' q) = pg_state (page_desc s q)"
  by (rule unlinked_fields(3) [OF filledD(4) [OF assms]])

lemma filled_trans:
  assumes a: "filled lo mid s t" and b: "filled mid hi t u" and le: "lo \<le> mid" "mid \<le> hi"
  shows "filled lo hi s u"
  unfolding filled_def
proof (intro conjI allI impI)
  show "rest_same s u"
    by (rule rest_same_trans [OF filledD(1) [OF a] filledD(1) [OF b]])
  show "free_page (pg_state (page_desc u q))" if "lo \<le> q" "q < hi" for q
  proof (cases "mid \<le> q")
    case True
    then show ?thesis using filledD(2) [OF b] that(2) by blast
  next
    case False
    then have "free_page (pg_state (page_desc t q))"
      using filledD(2) [OF a that(1)] by simp
    then show ?thesis using filled_state [OF b, of q] False by simp
  qed
  show "pg_epoch (page_desc u q) = pg_epoch (page_desc s q)" for q
    using filledD(3) [OF a] filledD(3) [OF b] by simp
  show "unlinked (page_desc u q) = unlinked (page_desc s q)" if "\<not> (lo \<le> q \<and> q < hi)" for q
  proof -
    have "\<not> (lo \<le> q \<and> q < mid)" "\<not> (mid \<le> q \<and> q < hi)"
      using that le by auto
    then show ?thesis using filledD(4) [OF a] filledD(4) [OF b] by metis
  qed
qed

lemma fresh_insert:
  assumes inv: "pmm_inv (total_pages s) s F" and o': "2 ^ k dvd lo" "k \<le> 32" "lo + 2 ^ k \<le> total_pages s"
    and un: "\<And>q. lo \<le> q \<Longrightarrow> q < lo + 2 ^ k \<Longrightarrow> unblocked (pg_state (page_desc s q))"
    and alone: "k < 32 \<longrightarrow> \<not> blk (page_desc s) (total_pages s) (lo XOR 2 ^ k) k True"
  shows "\<exists>s1 s2. mark_free_block lo k s = Some s1 \<and> list_insert lo k s1 = Some s2 \<and>
    pmm_inv (total_pages s2) s2 (F(k := lo # F k)) \<and> filled lo (lo + 2 ^ k) s s2 \<and>
    (\<forall>x j. blk (page_desc s2) (total_pages s2) x j True \<longleftrightarrow> x = lo \<and> j = k \<or> blk (page_desc s) (total_pages s) x j True)"
proof -
  note I = pmm_invD [OF inv]
  let ?N = "total_pages s"
  obtain s1 where s1: "mark_free_block lo k s = Some s1" "marked lo k True (page_desc s) (page_desc s1)"
    "rest_same s s1" "free_head s1 = free_head s"
    "\<And>q. \<not> (lo \<le> q \<and> q < lo + 2 ^ k) \<Longrightarrow> page_desc s1 q = page_desc s q"
    "\<And>q. pg_epoch (page_desc s1 q) = pg_epoch (page_desc s q)"
    "\<And>q. lo \<le> q \<Longrightarrow> q < lo + 2 ^ k \<Longrightarrow> free_page (pg_state (page_desc s1 q))"
    using mark_free_ok [of lo k s] o'(3) by auto
  have N1: "total_pages s1 = ?N" using s1(3) by (simp add: rest_same_def)
  have R: "pages_ok (page_desc s1) ?N"
    "blk (page_desc s1) ?N x j e \<longleftrightarrow> (x = lo \<and> j = k \<and> e = True) \<or> blk (page_desc s) ?N x j e" for x j e
    by (rule fresh_blocks [OF I(1) o' _ s1(2)], rule un, assumption, assumption)+
  have out: "\<not> (lo \<le> q \<and> q < lo + 2 ^ k)" if "blk (page_desc s) ?N x j f" "x \<le> q" "q < x + 2 ^ j" for x j f q
    using un [of q] blkD(7) [OF that] by (metis block_state_unblocked)
  have no: "\<not> blk (page_desc s) ?N lo j f" for j f
    using out [of lo j f lo] by auto
  have b1: "blk (page_desc s1) (total_pages s1) lo k True"
    unfolding N1 R(2) by simp
  have "pmm_inv lo s1 F"
    unfolding pmm_inv_def N1
  proof (intro conjI allI)
    show "pages_ok (page_desc s1) ?N" by (rule R(1))
    show "links_ok s1 F"
    proof (rule links_ok_cong [OF I(2) N1 s1(4)])
      show "pg_next (page_desc s1 x) = pg_next (page_desc s x) \<and> pg_prev (page_desc s1 x) = pg_prev (page_desc s x)"
        if "x \<in> set (F j)" for x j
      proof -
        have "blk (page_desc s) ?N x j True" using that I(3) by blast
        then show ?thesis using s1(5) [of x] out [of x j True x] by simp
      qed
    qed
    show "x \<in> set (F j) \<longleftrightarrow> blk (page_desc s1) ?N x j True \<and> x \<noteq> lo" for x j
      unfolding R(2) I(3) using no blkD(4) [of "page_desc s" ?N x j True] by auto
    show "coal (page_desc s1) ?N lo"
      using coal_any [OF I(4), of lo] unfolding coal_def R(2) by blast
    show "alloc_ok (page_desc s1) ?N"
      unfolding alloc_ok_def R(2)
    proof (intro allI impI)
      fix x j assume "x = lo \<and> j = k \<and> False = True \<or> blk (page_desc s) ?N x j False"
      then have x: "blk (page_desc s) ?N x j False" by auto
      have same: "page_desc s1 q = page_desc s q" if "x \<le> q" "q < x + 2 ^ j" for q
        using out [OF x that] s1(5) by blast
      have "page_desc s1 x = page_desc s x"
        by (rule same) simp_all
      then show "0 < requested_pages (page_desc s1 x) \<and> requested_pages (page_desc s1 x) \<le> 2 ^ j \<and>
          0 < refcount (page_desc s1 x) \<and> refcount (page_desc s1 x) \<le> 65535 \<and>
          (\<forall>q. x < q \<longrightarrow> q < x + 2 ^ j \<longrightarrow> refcount (page_desc s1 q) = 1) \<and>
          (0 < j \<longrightarrow> refcount (page_desc s1 x) = 1)"
        using I(5) [unfolded alloc_ok_def, rule_format, OF x] same by simp
    qed
  qed
  moreover have alone1: "k < 32 \<longrightarrow> \<not> blk (page_desc s1) (total_pages s1) (lo XOR 2 ^ k) k True"
    unfolding N1 R(2) using alone buddy_props(2) [OF o'(1)] by auto
  ultimately obtain s2 where s2: "list_insert lo k s1 = Some s2" "pmm_inv (total_pages s2) s2 (F(k := lo # F k))"
    "links_only s1 s2"
    using insert_in_hand [OF _ b1] by blast
  note L = links_onlyD [OF s2(3)]
  have eq: "blk (page_desc s2) n x j e = blk (page_desc s1) n x j e" for n x j e
    unfolding blk_def L(3-5) ..
  have "filled lo (lo + 2 ^ k) s s2"
    unfolding filled_def
  proof (intro conjI allI impI)
    show "rest_same s s2" by (rule rest_same_trans [OF s1(3) L(1)])
    show "free_page (pg_state (page_desc s2 q))" if "lo \<le> q" "q < lo + 2 ^ k" for q
      using s1(7) [OF that] L(5) by simp
    show "pg_epoch (page_desc s2 q) = pg_epoch (page_desc s q)" for q
      using s1(6) L(8) by simp
    show "unlinked (page_desc s2 q) = unlinked (page_desc s q)" if "\<not> (lo \<le> q \<and> q < lo + 2 ^ k)" for q
      using s1(5) [OF that] s2(3) by (simp add: links_only_def)
  qed
  moreover have "blk (page_desc s2) (total_pages s2) x j True \<longleftrightarrow>
      x = lo \<and> j = k \<or> blk (page_desc s) (total_pages s) x j True" for x j
    unfolding eq L(2) N1 R(2) by simp
  ultimately show ?thesis
    using s1(1) s2(1,2) by blast
qed

text \<open>
  A range is cut into the largest aligned blocks from its start on. The block that ends where the
  range starts, if any, has no buddy inside the range.
\<close>

lemma add_free_range_ok:
  assumes "pmm_inv (total_pages s) s F" "hi \<le> total_pages s" "total_pages s < 2 ^ 33"
    and "\<And>p. lo \<le> p \<Longrightarrow> p < hi \<Longrightarrow> unblocked (pg_state (page_desc s p))"
    and "\<And>p. lo \<le> p \<Longrightarrow> p < total_pages s \<Longrightarrow> \<not> free_page (pg_state (page_desc s p))"
    and "\<And>x j. blk (page_desc s) (total_pages s) x j True \<Longrightarrow> x + 2 ^ j = lo \<Longrightarrow>
      \<not> (2 ^ Suc j dvd x \<and> x + 2 ^ Suc j \<le> hi)"
    and "lo \<le> hi"
  shows "\<exists>s' F'. add_free_range lo hi s = Some s' \<and> pmm_inv (total_pages s') s' F' \<and> filled lo hi s s'"
  using assms
proof (induction "hi - lo" arbitrary: lo s F rule: less_induct)
  case less
  note inv = less.prems(1) and N = less.prems(2,3) and un = less.prems(4) and beyond = less.prems(5)
    and edge = less.prems(6)
  show ?case
  proof (cases "lo < hi")
    case False
    then have "add_free_range lo hi s = Some s" by (subst add_free_range.simps) simp
    moreover have "filled lo hi s s" using False by (auto simp: filled_def rest_same_def)
    ultimately show ?thesis using inv by blast
  next
    case True
    let ?f = "floor_order (hi - lo)"
    let ?k = "align_order lo ?f"
    have f: "2 ^ ?f \<le> hi - lo" "hi - lo < 2 ^ Suc ?f"
      using floor_order_bounds [of "hi - lo"] True by simp_all
    have k: "2 ^ ?k dvd lo" "?k \<le> ?f" "\<And>j. ?k < j \<Longrightarrow> j \<le> ?f \<Longrightarrow> \<not> 2 ^ j dvd lo"
      using align_order_greatest [of lo ?f] by blast+
    have "(2::nat) ^ ?f < 2 ^ 33"
      using f(1) N True by linarith
    then have f32: "?f \<le> 32"
      using power_strict_increasing_iff [of "2::nat" ?f 33] by simp
    have "(2::nat) ^ ?k \<le> 2 ^ ?f"
      using k(2) by (intro power_increasing) simp_all
    then have fit: "lo + 2 ^ ?k \<le> hi"
      using f(1) True by linarith
    have big: "hi < lo + 2 ^ Suc ?k" if "2 ^ Suc ?k dvd lo"
    proof -
      have "?k = ?f"
        using k(2) k(3) [of "Suc ?k"] that by fastforce
      then show ?thesis using f(2) by simp
    qed
    have alone: "\<not> blk (page_desc s) (total_pages s) (lo XOR 2 ^ ?k) ?k True"
    proof
      assume b: "blk (page_desc s) (total_pages s) (lo XOR 2 ^ ?k) ?k True"
      show False
      proof (cases "2 ^ Suc ?k dvd lo")
        case True
        then have "lo XOR 2 ^ ?k = lo + 2 ^ ?k"
          using buddy_of [OF k(1)] by simp
        then show False
          using beyond [of "lo + 2 ^ ?k"] blk_head(3) [OF b] blkD(4) [OF b] by simp
      next
        case False
        then have bud: "lo XOR 2 ^ ?k = lo - 2 ^ ?k" "2 ^ ?k \<le> lo"
          using buddy_of [OF k(1)] k(1) by (simp, metis dvd_0_right dvd_imp_le not_gr_zero)
        then have l: "lo = (lo - 2 ^ ?k) + 2 ^ ?k" by simp
        have "2 ^ Suc ?k dvd min lo (lo XOR 2 ^ ?k)"
          by (rule buddy_props(4) [OF k(1)])
        then have "2 ^ Suc ?k dvd lo - 2 ^ ?k"
          using bud by (simp add: min_absorb2 del: power_Suc)
        moreover have "(lo - 2 ^ ?k) + 2 ^ Suc ?k \<le> hi"
          using fit l by simp
        ultimately show False
          using edge [of "lo - 2 ^ ?k" ?k] b bud(1) l by simp
      qed
    qed
    have kN: "?k \<le> 32" "lo + 2 ^ ?k \<le> total_pages s" "?k < 32 \<longrightarrow> \<not> blk (page_desc s) (total_pages s) (lo XOR 2 ^ ?k) ?k True"
      using f32 k(2) fit N(1) alone by simp_all
    have "\<exists>s1 s2. mark_free_block lo ?k s = Some s1 \<and> list_insert lo ?k s1 = Some s2 \<and>
      pmm_inv (total_pages s2) s2 (F(?k := lo # F ?k)) \<and> filled lo (lo + 2 ^ ?k) s s2 \<and>
      (\<forall>x j. blk (page_desc s2) (total_pages s2) x j True \<longleftrightarrow> x = lo \<and> j = ?k \<or> blk (page_desc s) (total_pages s) x j True)"
    proof (rule fresh_insert [OF inv k(1) kN(1,2) _ kN(3)])
      show "unblocked (pg_state (page_desc s q))" if "lo \<le> q" "q < lo + 2 ^ ?k" for q
        using un [of q] that fit by simp
    qed
    then obtain s1 s2 where st: "mark_free_block lo ?k s = Some s1" "list_insert lo ?k s1 = Some s2"
      "pmm_inv (total_pages s2) s2 (F(?k := lo # F ?k))" "filled lo (lo + 2 ^ ?k) s s2"
      "\<forall>x j. blk (page_desc s2) (total_pages s2) x j True \<longleftrightarrow> x = lo \<and> j = ?k \<or> blk (page_desc s) (total_pages s) x j True"
      by blast
    have N2: "total_pages s2 = total_pages s"
      using filledD(1) [OF st(4)] by (simp add: rest_same_def)
    have same: "pg_state (page_desc s2 q) = pg_state (page_desc s q)" if "lo + 2 ^ ?k \<le> q" for q
      using filled_state [OF st(4), of q] that by simp
    have "\<exists>s' F'. add_free_range (lo + 2 ^ ?k) hi s2 = Some s' \<and> pmm_inv (total_pages s') s' F' \<and>
      filled (lo + 2 ^ ?k) hi s2 s'"
    proof (rule less.hyps [OF _ st(3)])
      show "hi - (lo + 2 ^ ?k) < hi - lo"
        using True pos_power(2) [of lo ?k] by linarith
      show "\<not> (2 ^ Suc j dvd x \<and> x + 2 ^ Suc j \<le> hi)"
        if b: "blk (page_desc s2) (total_pages s2) x j True" and e: "x + 2 ^ j = lo + 2 ^ ?k" for x j
      proof (cases "x = lo \<and> j = ?k")
        case True
        then show ?thesis using big by auto
      next
        case False
        then have old: "blk (page_desc s) (total_pages s) x j True"
          using b st(5) by blast
        have "lo \<le> x + 2 ^ j - 1" "x + 2 ^ j - 1 < total_pages s"
          using e pos_power(1) [of ?k] blkD(3) [OF old] pos_power(1) [of j] by linarith+
        then have "\<not> free_page (pg_state (page_desc s (x + 2 ^ j - 1)))"
          by (rule beyond)
        moreover have "x \<le> x + 2 ^ j - 1" "x + 2 ^ j - 1 < x + 2 ^ j"
          using pos_power(1) [of j] by linarith+
        from blkD(7) [OF old this] have "free_page (pg_state (page_desc s (x + 2 ^ j - 1)))"
          by simp
        ultimately show ?thesis by blast
      qed
    qed (use N N2 un beyond same fit in auto)
    then obtain s' F' where s': "add_free_range (lo + 2 ^ ?k) hi s2 = Some s'" "pmm_inv (total_pages s') s' F'"
      "filled (lo + 2 ^ ?k) hi s2 s'"
      by blast
    have "add_free_range lo hi s = Some s'"
      using True st(1,2) s'(1) by (subst add_free_range.simps) (simp add: Let_def)
    then show ?thesis
      using s'(2) filled_trans [OF st(4) s'(3) le_add1 fit] by blast
  qed
qed

section \<open>Usable pages less the reserved ones\<close>

definition made :: "nat set \<Rightarrow> pmm \<Rightarrow> pmm \<Rightarrow> bool" where
  "made X s s' \<longleftrightarrow> rest_same s s' \<and>
     (\<forall>q \<in> X. free_page (pg_state (page_desc s' q))) \<and>
     (\<forall>q. pg_epoch (page_desc s' q) = pg_epoch (page_desc s q)) \<and>
     (\<forall>q. q \<notin> X \<longrightarrow> unlinked (page_desc s' q) = unlinked (page_desc s q))"

lemma madeD:
  assumes "made X s s'"
  shows "rest_same s s'" "total_pages s' = total_pages s" "q \<in> X \<Longrightarrow> free_page (pg_state (page_desc s' q))"
    "pg_epoch (page_desc s' q) = pg_epoch (page_desc s q)"
    "q \<notin> X \<Longrightarrow> unlinked (page_desc s' q) = unlinked (page_desc s q)"
    "q \<notin> X \<Longrightarrow> pg_state (page_desc s' q) = pg_state (page_desc s q)"
  using assms unlinked_fields(3) unfolding made_def rest_same_def by blast+

lemma filled_made: "filled lo hi s s' \<Longrightarrow> made {lo ..< hi} s s'"
  by (simp add: filled_def made_def)

lemma made_empty [simp]: "made {} s s"
  by (simp add: made_def rest_same_def)

lemma made_trans:
  assumes a: "made X s t" and b: "made Y t u"
  shows "made (X \<union> Y) s u"
  unfolding made_def
proof (intro conjI ballI allI impI)
  show "rest_same s u" by (rule rest_same_trans [OF madeD(1) [OF a] madeD(1) [OF b]])
  show "free_page (pg_state (page_desc u q))" if "q \<in> X \<union> Y" for q
    using that madeD(3) [OF b, of q] madeD(3) [OF a, of q] madeD(6) [OF b, of q] by (cases "q \<in> Y") auto
  show "pg_epoch (page_desc u q) = pg_epoch (page_desc s q)" for q
    using madeD(4) [OF a] madeD(4) [OF b] by simp
  show "unlinked (page_desc u q) = unlinked (page_desc s q)" if "q \<notin> X \<union> Y" for q
    using that madeD(5) [OF a, of q] madeD(5) [OF b, of q] by simp
qed

text \<open>A gap is cut when every free page lies more than a page before it.\<close>

lemma add_gap:
  assumes inv: "pmm_inv (total_pages s) s F" and hi: "hi \<le> total_pages s" "total_pages s < 2 ^ 33"
    and un: "\<And>p. lo \<le> p \<Longrightarrow> p < hi \<Longrightarrow> unblocked (pg_state (page_desc s p))"
    and before: "\<And>p. p < total_pages s \<Longrightarrow> free_page (pg_state (page_desc s p)) \<Longrightarrow> Suc p < lo"
    and le: "lo \<le> hi"
  shows "\<exists>s' F'. add_free_range lo hi s = Some s' \<and> pmm_inv (total_pages s') s' F' \<and> made {lo ..< hi} s s'"
proof -
  have "\<exists>s' F'. add_free_range lo hi s = Some s' \<and> pmm_inv (total_pages s') s' F' \<and> filled lo hi s s'"
  proof (rule add_free_range_ok [OF inv hi un _ _ le])
    show "\<not> free_page (pg_state (page_desc s p))" if "lo \<le> p" "p < total_pages s" for p
      using before [of p] that by auto
    show "\<not> (2 ^ Suc j dvd x \<and> x + 2 ^ Suc j \<le> hi)"
      if b: "blk (page_desc s) (total_pages s) x j True" and e: "x + 2 ^ j = lo" for x j
    proof -
      define l where "l = x + 2 ^ j - 1"
      have l: "x \<le> l" "l < x + 2 ^ j" "Suc l = lo" "l < total_pages s"
        unfolding l_def using pos_power(1) [of j] e blkD(3) [OF b] by linarith+
      have "free_page (pg_state (page_desc s l))"
        using blkD(7) [OF b l(1,2)] by simp
      then show ?thesis
        using before [OF l(4)] l(3) by simp
    qed
  qed
  then show ?thesis using filled_made by blast
qed

lemma separated_Cons:
  assumes "separated (r # rs)"
  shows "separated rs" "fst r \<le> snd r" "p \<in> pages_of rs \<Longrightarrow> snd r < p"
  using assms by (fastforce simp: separated_def pages_of_def)+

lemma usable_gaps_ok:
  assumes "pmm_inv (total_pages s) s F" "hi \<le> total_pages s" "total_pages s < 2 ^ 33"
    and "separated res" "\<forall>r \<in> set res. fst r < snd r"
    and "\<And>p. cur \<le> p \<Longrightarrow> p < hi \<Longrightarrow> unblocked (pg_state (page_desc s p))"
    and "\<And>p. p < total_pages s \<Longrightarrow> free_page (pg_state (page_desc s p)) \<Longrightarrow> Suc p < cur"
  shows "\<exists>s' F'. usable_gaps res cur hi s = Some s' \<and> pmm_inv (total_pages s') s' F' \<and>
    made ({cur ..< hi} - pages_of res) s s'"
  using assms
proof (induction res arbitrary: cur s F)
  case Nil
  then show ?case
    using add_gap [OF Nil.prems(1-3), of cur] by (cases "cur < hi") auto
next
  case (Cons r rs)
  note inv = Cons.prems(1) and N = Cons.prems(2,3) and un = Cons.prems(6) and before = Cons.prems(7)
  note S = separated_Cons [OF Cons.prems(4)]
  have ne: "fst r < snd r" "\<forall>r \<in> set rs. fst r < snd r"
    using Cons.prems(5) by simp_all
  consider "\<not> cur < hi" | "cur < hi" "snd r \<le> cur" | "cur < hi" "cur < snd r" "hi \<le> fst r"
    | "cur < hi" "cur < snd r" "fst r < hi" by linarith
  then show ?case
  proof cases
    case 1
    then show ?thesis using inv by (intro exI [of _ s] exI [of _ F]) simp
  next
    case 2
    then have eq: "{cur ..< hi} - pages_of (r # rs) = {cur ..< hi} - pages_of rs"
      by auto
    have run: "usable_gaps (r # rs) cur hi s = usable_gaps rs cur hi s"
      using 2 by simp
    show ?thesis
      unfolding eq run by (rule Cons.IH [OF inv N S(1) ne(2) un before])
  next
    case 3
    have eq: "{cur ..< hi} - pages_of (r # rs) = {cur ..< hi}"
      using 3(3) S(2) S(3) by fastforce
    have run: "usable_gaps (r # rs) cur hi s = add_free_range cur hi s"
      using 3 by simp
    show ?thesis
      unfolding eq run using 3(1) by (intro add_gap [OF inv N un before]) simp_all
  next
    case 4
    let ?e = "max cur (fst r)"
    have part: "\<exists>s1 F1. (if fst r > cur then add_free_range cur (if fst r < hi then fst r else hi) s else Some s) = Some s1 \<and>
      pmm_inv (total_pages s1) s1 F1 \<and> made {cur ..< ?e} s s1"
    proof (cases "fst r > cur")
      case True
      have "\<exists>s' F'. add_free_range cur (fst r) s = Some s' \<and> pmm_inv (total_pages s') s' F' \<and> made {cur ..< fst r} s s'"
        using 4 True N by (intro add_gap [OF inv] un before) simp_all
      then show ?thesis using True 4(3) by (simp add: max_def)
    next
      case False
      then show ?thesis using inv by (intro exI [of _ s] exI [of _ F]) (simp add: max_def)
    qed
    then obtain s1 F1 where s1: "(if fst r > cur then add_free_range cur (if fst r < hi then fst r else hi) s else Some s) = Some s1"
      "pmm_inv (total_pages s1) s1 F1" "made {cur ..< ?e} s s1"
      by blast
    note M = madeD [OF s1(3)]
    have "\<exists>s' F'. usable_gaps rs (snd r) hi s1 = Some s' \<and> pmm_inv (total_pages s') s' F' \<and>
      made ({snd r ..< hi} - pages_of rs) s1 s'"
    proof (rule Cons.IH [OF s1(2) _ _ S(1) ne(2)])
      show "hi \<le> total_pages s1" "total_pages s1 < 2 ^ 33" using N M(2) by simp_all
      show "unblocked (pg_state (page_desc s1 p))" if "snd r \<le> p" "p < hi" for p
        using un [of p] M(6) [of p] that 4 ne(1) by simp
      show "Suc p < snd r" if "p < total_pages s1" "free_page (pg_state (page_desc s1 p))" for p
        using before [of p] M(2) M(6) [of p] that 4 ne(1) by (cases "p \<in> {cur ..< ?e}") auto
    qed
    then obtain s' F' where s': "usable_gaps rs (snd r) hi s1 = Some s'" "pmm_inv (total_pages s') s' F'"
      "made ({snd r ..< hi} - pages_of rs) s1 s'"
      by blast
    have "usable_gaps (r # rs) cur hi s = Some s'"
      using 4 s1(1) s'(1) by simp
    moreover have "{cur ..< ?e} \<union> ({snd r ..< hi} - pages_of rs) = {cur ..< hi} - pages_of (r # rs)"
    proof (rule set_eqI)
      show "p \<in> {cur ..< ?e} \<union> ({snd r ..< hi} - pages_of rs) \<longleftrightarrow> p \<in> {cur ..< hi} - pages_of (r # rs)" for p
        using 4 ne(1) S(3) [of p] by (cases "p \<in> pages_of rs") (auto simp: max_def split: if_splits)
    qed
    ultimately show ?thesis
      using s'(2) made_trans [OF s1(3) s'(3)] by metis
  qed
qed

lemma add_all_usable_ok:
  assumes "pmm_inv (total_pages s) s F" "total_pages s < 2 ^ 33"
    and "separated res" "\<forall>r \<in> set res. fst r < snd r"
    and "separated us" "\<And>p. p \<in> pages_of us \<Longrightarrow> p < total_pages s \<and> unblocked (pg_state (page_desc s p))"
    and "\<And>p u. p < total_pages s \<Longrightarrow> free_page (pg_state (page_desc s p)) \<Longrightarrow> u \<in> set us \<Longrightarrow> Suc p < fst u"
  shows "\<exists>s' F'. add_all_usable res us s = Some s' \<and> pmm_inv (total_pages s') s' F' \<and>
    made (pages_of us - pages_of res) s s'"
  using assms
proof (induction us arbitrary: s F)
  case Nil
  then show ?case by (intro exI [of _ s] exI [of _ F]) simp
next
  case (Cons u us)
  note S = separated_Cons [OF Cons.prems(5)]
  have sep: "snd u < fst v" "fst v \<le> snd v" if "v \<in> set us" for v
    using Cons.prems(5) that by (auto simp: separated_def)
  have in_u: "p < total_pages s" "unblocked (pg_state (page_desc s p))" if "fst u \<le> p" "p < snd u" for p
    using Cons.prems(6) [of p] that by simp_all
  have hi: "snd u \<le> total_pages s \<or> fst u = snd u"
    using in_u(1) [of "snd u - 1"] S(2) by fastforce
  have "\<exists>s1 F1. usable_gaps res (fst u) (snd u) s = Some s1 \<and> pmm_inv (total_pages s1) s1 F1 \<and>
      made ({fst u ..< snd u} - pages_of res) s s1"
  proof (cases "fst u = snd u")
    case True
    then have "usable_gaps res (fst u) (snd u) s = Some s" by (cases res) simp_all
    then show ?thesis using True Cons.prems(1) by (intro exI [of _ s] exI [of _ F]) simp
  next
    case False
    then show ?thesis
      using hi in_u Cons.prems(7) by (intro usable_gaps_ok [OF Cons.prems(1) _ Cons.prems(2-4)]) auto
  qed
  then obtain s1 F1 where s1: "usable_gaps res (fst u) (snd u) s = Some s1" "pmm_inv (total_pages s1) s1 F1"
    "made ({fst u ..< snd u} - pages_of res) s s1"
    by blast
  note M = madeD [OF s1(3)]
  have "\<exists>s' F'. add_all_usable res us s1 = Some s' \<and> pmm_inv (total_pages s') s' F' \<and>
      made (pages_of us - pages_of res) s1 s'"
  proof (rule Cons.IH [OF s1(2) _ Cons.prems(3,4) S(1)])
    show "total_pages s1 < 2 ^ 33" using Cons.prems(2) M(2) by simp
    show "p < total_pages s1 \<and> unblocked (pg_state (page_desc s1 p))" if "p \<in> pages_of us" for p
      using Cons.prems(6) [of p] M(2) M(6) [of p] S(3) [OF that] that by simp
    show "Suc p < fst v" if "p < total_pages s1" "free_page (pg_state (page_desc s1 p))" "v \<in> set us" for p v
    proof (cases "p \<in> {fst u ..< snd u} - pages_of res")
      case True
      then show ?thesis using sep(1) [OF that(3)] by simp
    next
      case False
      then show ?thesis using M(2) M(6) [of p] that Cons.prems(7) [of p v] by simp
    qed
  qed
  then obtain s' F' where s': "add_all_usable res us s1 = Some s'" "pmm_inv (total_pages s') s' F'"
    "made (pages_of us - pages_of res) s1 s'"
    by blast
  have "made (pages_of (u # us) - pages_of res) s s'"
    using made_trans [OF s1(3) s'(3)] by (simp add: Un_Diff)
  moreover have "add_all_usable res (u # us) s = Some s'"
    using s1(1) s'(1) by (simp add: add_usable_minus_reservations_def)
  ultimately show ?case using s'(2) by blast
qed

section \<open>The descriptors before the first block\<close>

lemma reserve_usable_ok:
  "rest_same s (fold reserve_usable us s) \<and> free_head (fold reserve_usable us s) = free_head s \<and>
   (\<forall>p. page_desc (fold reserve_usable us s) p =
      (if p \<in> pages_of us then (page_desc s p)\<lparr>pg_state := PMM_PAGE_RESERVED\<rparr> else page_desc s p))"
proof (induction us arbitrary: s)
  case Nil
  then show ?case by (simp add: rest_same_def)
next
  case (Cons u us)
  have d: "page_desc (reserve_usable u s) p = (if p \<in> {fst u ..< snd u} then (page_desc s p)\<lparr>pg_state := PMM_PAGE_RESERVED\<rparr>
      else page_desc s p)" for p
    by (auto simp: reserve_usable_def)
  have r: "rest_same s (reserve_usable u s)" "free_head (reserve_usable u s) = free_head s"
    by (simp_all add: reserve_usable_def rest_same_def)
  show ?case
    using Cons.IH [of "reserve_usable u s"] rest_same_trans [OF r(1)] r(2) by (auto simp: d)
qed

text \<open>A table without blocks is consistent, with no list.\<close>

lemma no_blocks_inv:
  assumes "\<And>p. unblocked (pg_state (page_desc s p))" "\<And>k. free_head s k = PMM_NO_PAGE"
    "total_pages s < PMM_NO_PAGE"
  shows "pmm_inv (total_pages s) s (\<lambda>_. [])"
proof -
  have "\<not> blk (page_desc s) (total_pages s) h k f" for h k f
    using blk_head(3) [of "page_desc s" "total_pages s" h k f] assms(1) [of h] by auto
  then show ?thesis
    using assms by (auto simp: pmm_inv_def pages_ok_def links_ok_def coal_def alloc_ok_def)
qed

lemma initialize_ok:
  assumes lay: "boot_layout info = Some (us, n, res, m)"
    and us: "separated us" "\<forall>p \<in> pages_of us. p < n" and res: "separated res" "\<forall>r \<in> set res. fst r < snd r"
    and n: "n < 2 ^ 33" and own: "length (owner_table s) = PMM_OWNER_SLOTS" "\<forall>e \<in> set (owner_table s). \<not> in_use e"
  shows "\<exists>s'. AuPmmngrInitialize info s = Some s' \<and> pmm_ok s' \<and> live s' = (\<lambda>_. None) \<and>
    free_set s' = pages_of us - pages_of res \<and> total_pages s' = n \<and> owner_table s' = owner_table s"
proof -
  define s0 where "s0 = s\<lparr>page_desc := (\<lambda>_. fresh_desc), total_pages := n, free_head := (\<lambda>_. PMM_NO_PAGE),
    validation_epoch := 0, direct_map_base := physical_direct_map_base info,
    higher_half := physical_direct_map_size info \<noteq> 0\<rparr>"
  define s1 where "s1 = fold reserve_usable us s0"
  have R: "rest_same s0 s1" "free_head s1 = free_head s0"
    and d1: "page_desc s1 p = (if p \<in> pages_of us then fresh_desc\<lparr>pg_state := PMM_PAGE_RESERVED\<rparr> else fresh_desc)" for p
    using reserve_usable_ok [of s0 us] by (simp_all add: s1_def s0_def)
  have N1: "total_pages s1 = n" "owner_table s1 = owner_table s" "validation_epoch s1 = 0"
    using R(1) by (simp_all add: rest_same_def s0_def)
  have un: "unblocked (pg_state (page_desc s1 p))" for p
    by (simp add: d1 fresh_desc_def unblocked_def)
  have nf: "\<not> free_page (pg_state (page_desc s1 p))" for p
    using un [of p] free_page_blocked by blast
  have inv1: "pmm_inv (total_pages s1) s1 (\<lambda>_. [])"
  proof (rule no_blocks_inv [OF un])
    show "free_head s1 k = PMM_NO_PAGE" for k by (simp add: R(2) s0_def)
    show "total_pages s1 < PMM_NO_PAGE" using n N1(1) by (simp add: PMM_NO_PAGE_def)
  qed
  have "\<exists>s2 F2. add_all_usable res us s1 = Some s2 \<and> pmm_inv (total_pages s2) s2 F2 \<and>
      made (pages_of us - pages_of res) s1 s2"
    using n us(2) un nf N1(1) by (intro add_all_usable_ok [OF inv1 _ res us(1)]) auto
  then obtain s2 F2 where s2: "add_all_usable res us s1 = Some s2" "pmm_inv (total_pages s2) s2 F2"
    "made (pages_of us - pages_of res) s1 s2"
    by blast
  note M = madeD [OF s2(3)]
  let ?s3 = "recount s2"
  have sel: "page_desc ?s3 = page_desc s2" "total_pages ?s3 = total_pages s2" "free_head ?s3 = free_head s2"
    "owner_table ?s3 = owner_table s2" "validation_epoch ?s3 = validation_epoch s2"
    by (simp_all add: recount_def)
  have st: "free_page (pg_state (page_desc s2 p)) \<longleftrightarrow> p \<in> pages_of us - pages_of res" for p
  proof (cases "p \<in> pages_of us - pages_of res")
    case True
    then show ?thesis using M(3) by blast
  next
    case False
    then show ?thesis using M(6) [OF False] nf [of p] by simp
  qed
  have dead: "live ?s3 h = None" for h
  proof (cases "h \<in> pages_of us - pages_of res")
    case True
    then show ?thesis using st [of h] sel live_free [of ?s3 h] by simp
  next
    case False
    then have "unblocked (pg_state (page_desc s2 h))" using M(6) [of h] un [of h] by simp
    then show ?thesis by (auto simp: live_def Let_def sel unblocked_def)
  qed
  have "owner_table s2 = owner_table s"
    using M(1) N1(2) by (simp add: rest_same_def)
  then have "owners_ok ?s3"
    unfolding owners_ok_def sel dead using own by simp
  moreover have "stats_ok ?s3"
    by (simp add: stats_ok_def recount_def)
  moreover have "epochs_ok ?s3"
  proof -
    have "pg_epoch (page_desc s2 p) = 0" for p
      using M(4) [of p] by (simp add: d1 fresh_desc_def)
    then show ?thesis by (simp add: epochs_ok_def sel)
  qed
  moreover have "\<exists>F. pmm_inv (total_pages ?s3) ?s3 F"
    using s2(2) pmm_inv_cong [OF sel(1-3)] sel(2) by metis
  ultimately have "pmm_ok ?s3" by (simp add: pmm_ok_def)
  then obtain s' where s': "AuPmmngrValidate ?s3 = Some (True, s')" "pmm_ok s'" "but_epochs ?s3 s'"
    using validate_ok by blast
  note E = but_epochs_inv [OF s'(3)]
  have "AuPmmngrInitialize info s = Some s'"
    using s2(1) [unfolded s1_def s0_def] s'(1) lay unfolding AuPmmngrInitialize_def by (simp add: Let_def)
  moreover have "free_set s' = pages_of us - pages_of res"
    unfolding E(3) using st us(2) M(2) N1(1) by (auto simp: free_set_def sel)
  moreover have "live s' = (\<lambda>_. None)"
    unfolding E(2) using dead by blast
  moreover have "total_pages s' = n"
    using but_epochsD(9) [OF s'(3)] sel(2) M(2) N1(1) by simp
  moreover have "owner_table s' = owner_table s"
    using but_epochsD(12) [OF s'(3)] sel \<open>owner_table s2 = owner_table s\<close> by simp
  ultimately show ?thesis using s'(2) by blast
qed

section \<open>The ranges of the boot loader\<close>

text \<open>The usable pages that the map reports, and the pages that the set-up must not hand out.\<close>

definition efi_sane :: "EFI_MEMORY_DESCRIPTOR \<Rightarrow> bool" where
  "efi_sane m \<longleftrightarrow> (let e = phys_start m + num_pages m * PMM_PAGE_SIZE
     in e < 2 ^ 64 \<and> (efi_type m \<le> 7 \<longrightarrow> e + 4095 < 2 ^ 64))"

definition region_sane :: "nat \<times> nat \<Rightarrow> bool" where
  "region_sane r \<longleftrightarrow> (fst r div PMM_PAGE_SIZE + snd r) * PMM_PAGE_SIZE + 4095 < 2 ^ 64"

text \<open>No descriptor or region ends beyond the 64-bit addresses, also when rounded up to a page.\<close>

definition map_sane :: "boot_info \<Rightarrow> bool" where
  "map_sane info \<longleftrightarrow> (\<forall>m \<in> set (efi_map info). efi_sane m) \<and>
     (case littleboot info of None \<Rightarrow> True | Some lb \<Rightarrow> \<forall>r \<in> set (usable_regions lb). region_sane r)"

definition reported_usable :: "boot_info \<Rightarrow> nat set" where
  "reported_usable info =
     (if is_littleboot info
      then (case littleboot info of None \<Rightarrow> {}
            | Some lb \<Rightarrow> (\<Union>(b, n) \<in> set (usable_regions lb). {b div PMM_PAGE_SIZE ..< b div PMM_PAGE_SIZE + n}))
      else (\<Union>m \<in> {m \<in> set (efi_map info). efi_type m = 7}.
              {phys_start m div PMM_PAGE_SIZE ..< (phys_start m + num_pages m * PMM_PAGE_SIZE) div PMM_PAGE_SIZE}))"

definition span :: "nat \<Rightarrow> nat \<Rightarrow> nat set" where
  "span a b = {a div PMM_PAGE_SIZE ..< align_up b PMM_PAGE_SIZE div PMM_PAGE_SIZE}"

definition kept_back :: "boot_info \<Rightarrow> nat set" where
  "kept_back info = {..<256} \<union> (\<lambda>a. a div PMM_PAGE_SIZE) ` set (stack_entries info) \<union>
     (case (is_littleboot info, littleboot info) of
        (True, Some lb) \<Rightarrow> span (device_tree_base lb) (device_tree_end lb) \<union>
          span (initrd_start lb) (initrd_end lb) \<union> span (littleBootStart lb) (littleBootEnd lb)
      | _ \<Rightarrow> {})"

lemma collect_uefi_highest:
  "collect_uefi ms us h = Some (us', h') \<Longrightarrow> \<forall>m \<in> set ms. efi_sane m \<Longrightarrow> h + 4095 < 2 ^ 64 \<Longrightarrow> h' + 4095 < 2 ^ 64"
proof (induction ms arbitrary: us h)
  case (Cons m ms)
  define fin where "fin = phys_start m + num_pages m * PMM_PAGE_SIZE"
  have fin: "fin mod 2 ^ 64 = fin" "efi_type m \<le> 7 \<Longrightarrow> fin + 4095 < 2 ^ 64"
    using Cons.prems(2) by (simp_all add: fin_def efi_sane_def Let_def)
  define h1 where "h1 = (if efi_type m \<le> 7 \<and> fin > h then fin else h)"
  have "h1 + 4095 < 2 ^ 64" using fin(2) Cons.prems(3) by (simp add: h1_def)
  moreover obtain us1 where "collect_uefi ms us1 h1 = Some (us', h')"
    using Cons.prems(1) fin(1) unfolding collect_uefi.simps Let_def fin_def [symmetric] h1_def
    by (simp split: if_splits)
  ultimately show ?case using Cons.IH Cons.prems(2) by simp
qed simp

lemma collect_uefi_ok:
  assumes "\<forall>m \<in> set ms. phys_start m + num_pages m * PMM_PAGE_SIZE < 2 ^ 64"
    "collect_uefi ms us h = Some (us', h')" "proper us" "\<forall>r \<in> set us. snd r * PMM_PAGE_SIZE \<le> h"
  shows "proper us' \<and> (\<forall>r \<in> set us'. snd r * PMM_PAGE_SIZE \<le> h') \<and>
    pages_of us' = pages_of us \<union> (\<Union>m \<in> {m \<in> set ms. efi_type m = 7}.
      {phys_start m div PMM_PAGE_SIZE ..< (phys_start m + num_pages m * PMM_PAGE_SIZE) div PMM_PAGE_SIZE})"
  using assms
proof (induction ms arbitrary: us h)
  case Nil
  then show ?case by simp
next
  case (Cons m ms)
  define fin where "fin = phys_start m + num_pages m * PMM_PAGE_SIZE"
  have fin: "fin mod 2 ^ 64 = fin" using Cons.prems(1) by (simp add: fin_def)
  let ?h = "if efi_type m \<le> 7 \<and> fin > h then fin else h"
  have le: "h \<le> ?h" by simp
  show ?case
  proof (cases "efi_type m = 7 \<and> num_pages m \<noteq> 0")
    case True
    let ?us = "us @ [(phys_start m div PMM_PAGE_SIZE, fin div PMM_PAGE_SIZE)]"
    have c: "collect_uefi ms ?us ?h = Some (us', h')"
      using Cons.prems(2) True fin by (simp add: Let_def split: if_splits flip: fin_def)
    have p: "proper ?us"
      using Cons.prems(3) by (auto simp: proper_def fin_def div_le_mono)
    have b: "snd r * PMM_PAGE_SIZE \<le> ?h" if "r \<in> set ?us" for r
    proof (cases "r \<in> set us")
      case True
      then show ?thesis using Cons.prems(4) le by (meson le_trans)
    next
      case False
      then have "snd r * PMM_PAGE_SIZE \<le> fin" using that by auto
      moreover have "fin \<le> ?h" using True by simp
      ultimately show ?thesis by (rule le_trans)
    qed
    have "proper us' \<and> (\<forall>r \<in> set us'. snd r * PMM_PAGE_SIZE \<le> h') \<and>
      pages_of us' = pages_of ?us \<union> (\<Union>m \<in> {m \<in> set ms. efi_type m = 7}.
        {phys_start m div PMM_PAGE_SIZE ..< (phys_start m + num_pages m * PMM_PAGE_SIZE) div PMM_PAGE_SIZE})"
    proof (rule Cons.IH [OF _ c p])
      show "\<forall>r \<in> set ?us. snd r * PMM_PAGE_SIZE \<le> ?h" using b by blast
    qed (use Cons.prems(1) in simp)
    then show ?thesis using True by (auto simp: fin_def)
  next
    case False
    have c: "collect_uefi ms us ?h = Some (us', h')"
      using Cons.prems(2) False fin by (simp add: Let_def flip: fin_def) (auto split: if_splits)
    have b: "snd r * PMM_PAGE_SIZE \<le> ?h" if "r \<in> set us" for r
      using Cons.prems(4) le that by (meson le_trans)
    have "proper us' \<and> (\<forall>r \<in> set us'. snd r * PMM_PAGE_SIZE \<le> h') \<and>
      pages_of us' = pages_of us \<union> (\<Union>m \<in> {m \<in> set ms. efi_type m = 7}.
        {phys_start m div PMM_PAGE_SIZE ..< (phys_start m + num_pages m * PMM_PAGE_SIZE) div PMM_PAGE_SIZE})"
      by (rule Cons.IH [OF _ c Cons.prems(3)]) (use Cons.prems(1) b in simp_all)
    moreover have "{m' \<in> set (m # ms). efi_type m' = 7} =
        {m \<in> set ms. efi_type m = 7} \<union> (if efi_type m = 7 then {m} else {})"
      by auto
    ultimately show ?thesis using False by auto
  qed
qed

lemma collect_regions_ok:
  assumes "collect_regions rs us h = Some (us', h')" "proper us" "\<forall>r \<in> set us. snd r * PMM_PAGE_SIZE \<le> h"
    "\<forall>r \<in> set rs. region_sane r" "h + 4095 < 2 ^ 64"
  shows "proper us' \<and> (\<forall>r \<in> set us'. snd r * PMM_PAGE_SIZE \<le> h') \<and>
    pages_of us' = pages_of us \<union> (\<Union>(b, n) \<in> set rs. {b div PMM_PAGE_SIZE ..< b div PMM_PAGE_SIZE + n}) \<and>
    h' + 4095 < 2 ^ 64"
  using assms
proof (induction rs arbitrary: us h)
  case Nil
  then show ?case by simp
next
  case (Cons r rs)
  obtain b n where r: "r = (b, n)" by fastforce
  let ?lo = "b div PMM_PAGE_SIZE"
  let ?us = "us @ [(?lo, ?lo + n)]" and ?h = "if (?lo + n) * PMM_PAGE_SIZE > h then (?lo + n) * PMM_PAGE_SIZE else h"
  have sane: "(?lo + n) * PMM_PAGE_SIZE + 4095 < 2 ^ 64"
    using Cons.prems(4) by (simp add: r region_sane_def)
  then have "(?lo + n) mod 2 ^ 64 = ?lo + n" "(?lo + n) * PMM_PAGE_SIZE mod 2 ^ 64 = (?lo + n) * PMM_PAGE_SIZE"
    by (simp_all add: PMM_PAGE_SIZE_def)
  then have c: "collect_regions rs ?us ?h = Some (us', h')"
    using Cons.prems(1) unfolding r collect_regions.simps Let_def
    by (cases "length us = PMM_MAX_REGIONS") (simp_all only: refl if_True if_False option.distinct)
  have p: "proper ?us"
    using Cons.prems(2) by (simp add: proper_def ball_Un)
  have "snd x * PMM_PAGE_SIZE \<le> ?h" if "x \<in> set ?us" for x
  proof (cases "x \<in> set us")
    case True
    moreover have "h \<le> ?h" by simp
    ultimately show ?thesis using Cons.prems(3) by (meson le_trans)
  next
    case False
    then have "x = (?lo, ?lo + n)" using that by simp
    then show ?thesis by simp
  qed
  then have "proper us' \<and> (\<forall>r \<in> set us'. snd r * PMM_PAGE_SIZE \<le> h') \<and>
    pages_of us' = pages_of ?us \<union> (\<Union>(b, n) \<in> set rs. {b div PMM_PAGE_SIZE ..< b div PMM_PAGE_SIZE + n}) \<and>
    h' + 4095 < 2 ^ 64"
    using sane Cons.prems(4,5) by (intro Cons.IH [OF c p]) (blast, simp_all)
  then show ?case by (simp add: r Un_assoc)
qed

definition solid :: "PmmRange list \<Rightarrow> bool" where
  "solid rs \<longleftrightarrow> (\<forall>r \<in> set rs. fst r < snd r)"

lemma solid_proper: "solid rs \<Longrightarrow> proper rs"
  by (auto simp: solid_def proper_def less_imp_le)

lemma add_reservation_ok:
  assumes "add_reservation lo hi res = Some res'" "solid res"
  shows "solid res'" "pages_of res' = pages_of res \<union> {lo ..< hi}"
  using assms by (auto simp: add_reservation_def solid_def split: if_splits)

lemma reserve_stack_ok:
  assumes "reserve_stack as res = Some res'" "solid res"
  shows "solid res' \<and> pages_of res' = pages_of res \<union> (\<lambda>a. a div PMM_PAGE_SIZE) ` set as"
  using assms
proof (induction as arbitrary: res)
  case Nil
  then show ?case by simp
next
  case (Cons a as)
  from Cons.prems(1) obtain res1 where r1: "add_reservation (a div PMM_PAGE_SIZE) (a div PMM_PAGE_SIZE + 1) res = Some res1"
    "reserve_stack as res1 = Some res'"
    by (auto split: Option.bind_splits)
  note A = add_reservation_ok [OF r1(1) Cons.prems(2)]
  show ?case
    using Cons.IH [OF r1(2) A(1)] A(2) by auto
qed

lemma collect_littleboot_ok:
  assumes c: "collect_littleboot info [] 0 [] = Some (us, h, res)" and lb: "is_littleboot info" and sane: "map_sane info"
  shows "h + 4095 < 2 ^ 64" "proper us" "\<forall>r \<in> set us. snd r * PMM_PAGE_SIZE \<le> h" "pages_of us = reported_usable info" "solid res"
    "pages_of res \<union> {..<256} \<union> (\<lambda>a. a div PMM_PAGE_SIZE) ` set (stack_entries info) = kept_back info"
proof -
  from c obtain p where p: "littleboot info = Some p"
    by (cases "littleboot info") (simp_all add: collect_littleboot_def)
  from c p obtain r1 r2 r3 where r: "collect_regions (usable_regions p) [] 0 = Some (us, h)"
    "add_reservation 0 (0x100000 div PMM_PAGE_SIZE) [] = Some r1"
    "add_reservation (device_tree_base p div PMM_PAGE_SIZE) (align_up (device_tree_end p) PMM_PAGE_SIZE div PMM_PAGE_SIZE) r1 = Some r2"
    "add_reservation (initrd_start p div PMM_PAGE_SIZE) (align_up (initrd_end p) PMM_PAGE_SIZE div PMM_PAGE_SIZE) r2 = Some r3"
    "add_reservation (littleBootStart p div PMM_PAGE_SIZE) (align_up (littleBootEnd p) PMM_PAGE_SIZE div PMM_PAGE_SIZE) r3 = Some res"
    by (auto simp: collect_littleboot_def split: Option.bind_splits)
  have "solid []" by (simp add: solid_def)
  note A1 = add_reservation_ok [OF r(2) this]
  note A2 = add_reservation_ok [OF r(3) A1(1)]
  note A3 = add_reservation_ok [OF r(4) A2(1)]
  note A4 = add_reservation_ok [OF r(5) A3(1)]
  have "proper us \<and> (\<forall>r \<in> set us. snd r * PMM_PAGE_SIZE \<le> h) \<and> pages_of us = reported_usable info \<and>
      h + 4095 < 2 ^ 64"
    using collect_regions_ok [OF r(1)] p lb sane by (simp add: proper_def reported_usable_def map_sane_def)
  then show "h + 4095 < 2 ^ 64" "proper us" "\<forall>r \<in> set us. snd r * PMM_PAGE_SIZE \<le> h" "pages_of us = reported_usable info"
    by blast+
  show "solid res" by (rule A4(1))
  have "pages_of res = {0 ..< 256} \<union> span (device_tree_base p) (device_tree_end p) \<union>
      span (initrd_start p) (initrd_end p) \<union> span (littleBootStart p) (littleBootEnd p)"
    unfolding A4(2) A3(2) A2(2) A1(2) by (simp add: span_def PMM_PAGE_SIZE_def)
  then show "pages_of res \<union> {..<256} \<union> (\<lambda>a. a div PMM_PAGE_SIZE) ` set (stack_entries info) = kept_back info"
    using p lb by (auto simp: kept_back_def)
qed

lemma boot_ranges_ok:
  assumes r: "boot_ranges info = Some (us, n, res)" and sane: "map_sane info"
  shows "separated us" "pages_of us = reported_usable info" "\<forall>p \<in> pages_of us. p < n"
    "separated res" "solid res" "pages_of res = kept_back info"
proof -
  from r obtain us0 h res0 res1 res2 where c: "(if is_littleboot info then collect_littleboot info [] 0 []
        else Option.bind (collect_uefi (efi_map info) [] 0) (\<lambda>(usable, highest). Some (usable, highest, []))) = Some (us0, h, res0)"
    and us: "us = normalize us0" and n: "n = align_up h PMM_PAGE_SIZE div PMM_PAGE_SIZE"
    and r1: "add_reservation 0 (0x100000 div PMM_PAGE_SIZE) res0 = Some res1"
    and r2: "reserve_stack (stack_entries info) res1 = Some res2" and res: "res = normalize res2"
    by (auto simp: boot_ranges_def Let_def split: Option.bind_splits if_splits)
  have base: "h + 4095 < 2 ^ 64 \<and> proper us0 \<and> (\<forall>r \<in> set us0. snd r * PMM_PAGE_SIZE \<le> h) \<and> pages_of us0 = reported_usable info \<and> solid res0 \<and>
      pages_of res0 \<union> {..<256} \<union> (\<lambda>a. a div PMM_PAGE_SIZE) ` set (stack_entries info) = kept_back info"
  proof (cases "is_littleboot info")
    case True
    then show ?thesis using collect_littleboot_ok [of info us0 h res0] c sane by simp
  next
    case False
    then have "collect_uefi (efi_map info) [] 0 = Some (us0, h)" and [simp]: "res0 = []"
      using c by (auto split: Option.bind_splits)
    then show ?thesis
      using collect_uefi_ok [of "efi_map info" "[]" 0 us0 h] collect_uefi_highest [of "efi_map info" "[]" 0 us0 h] sane False
      by (simp add: map_sane_def efi_sane_def Let_def proper_def solid_def reported_usable_def kept_back_def)
  qed
  note U = normalize_ok [of us0, folded us]
  show "separated us" "pages_of us = reported_usable info"
    using U base by simp_all
  show "\<forall>p \<in> pages_of us. p < n"
  proof
    fix p assume "p \<in> pages_of us"
    then have "p \<in> pages_of us0" using U(2) base by blast
    then obtain r where "r \<in> set us0" "p < snd r"
      by (auto simp: pages_of_def)
    then have "snd r * PMM_PAGE_SIZE \<le> h" "Suc p \<le> snd r"
      using base by auto
    then have "Suc p * PMM_PAGE_SIZE \<le> h"
      by (meson le_trans mult_le_mono1)
    moreover have "h div PMM_PAGE_SIZE \<le> n"
      using base unfolding n align_up_def by (simp add: PMM_PAGE_SIZE_def div_le_mono)
    ultimately show "p < n"
      by (simp add: PMM_PAGE_SIZE_def)
  qed
  note A1 = add_reservation_ok [OF r1]
  have s1: "solid res1" "pages_of res1 = pages_of res0 \<union> {0 ..< 256}"
    using A1 base by (simp_all add: PMM_PAGE_SIZE_def)
  note A2 = reserve_stack_ok [OF r2 s1(1)]
  note V = normalize_ok [OF solid_proper, of res2, folded res]
  show "separated res" "solid res"
    using V A2 by (simp_all add: solid_def)
  have "{0 ..< 256} = {..<256::nat}" by auto
  then show "pages_of res = kept_back info"
    using V(2) A2 s1(2) base by auto
qed

section \<open>The descriptors' own pages\<close>

lemma gap_in_ok:
  assumes "gap_in rs cur hi n = Some m" "separated rs" "0 < n"
  shows "cur \<le> m \<and> m + n \<le> hi \<and> {m ..< m + n} \<inter> pages_of rs = {}"
  using assms
proof (induction rs arbitrary: cur)
  case Nil
  then show ?case by (auto split: if_splits)
next
  case (Cons r rs)
  note S = separated_Cons [OF Cons.prems(2)]
  have after: "{m ..< m + n} \<inter> pages_of (r # rs) = {}" if "m + n \<le> fst r"
    using that S(2) S(3) by fastforce
  consider (skip) "cur < hi" "snd r \<le> cur" | (last) "cur < hi" "cur < snd r" "hi \<le> fst r"
    | (fits) "cur < hi" "cur < snd r" "fst r < hi" "fst r > cur \<and> fst r - cur \<ge> n"
    | (next') "cur < hi" "cur < snd r" "fst r < hi" "\<not> (fst r > cur \<and> fst r - cur \<ge> n)"
    using Cons.prems(1) by (cases "cur < hi") (simp_all, linarith)
  then show ?case
  proof cases
    case skip
    then have "gap_in rs cur hi n = Some m" using Cons.prems(1) by simp
    then show ?thesis using Cons.IH S(1) Cons.prems(3) skip by fastforce
  next
    case last
    then have "m = cur" "hi - cur \<ge> n" using Cons.prems(1) by (auto split: if_splits)
    moreover from this have "m + n \<le> fst r" using last by linarith
    ultimately show ?thesis using last after by simp
  next
    case fits
    then have m: "m = cur" using Cons.prems(1) by (auto split: if_splits)
    moreover have "m + n \<le> fst r" using fits m by linarith
    ultimately show ?thesis using fits after by simp
  next
    case next'
    then have "gap_in rs (snd r) hi n = Some m" using Cons.prems(1) by (auto split: if_splits)
    then have "snd r \<le> m \<and> m + n \<le> hi \<and> {m ..< m + n} \<inter> pages_of rs = {}"
      using Cons.IH S(1) Cons.prems(3) by blast
    then show ?thesis using next' by auto
  qed
qed

lemma find_metadata_ok:
  assumes "find_metadata n us res = Some m" "separated res" "0 < n"
  shows "{m ..< m + n} \<subseteq> pages_of us - pages_of res"
  using assms
proof (induction us)
  case Nil
  then show ?case by simp
next
  case (Cons u us)
  show ?case
  proof (cases "gap_in res (fst u) (snd u) n")
    case None
    then show ?thesis using Cons by auto
  next
    case (Some m')
    then have "m' = m" using Cons.prems(1) by simp
    then show ?thesis using gap_in_ok [OF Some Cons.prems(2,3)] by auto
  qed
qed

lemma layout_ok:
  assumes lay: "boot_layout info = Some (us, n, res, m)" and sane: "map_sane info"
  shows "separated us" "pages_of us = reported_usable info" "\<forall>p \<in> pages_of us. p < n"
    "separated res" "solid res" "pages_of res = kept_back info \<union> {m ..< m + metadata_size n}"
    "{m ..< m + metadata_size n} \<subseteq> reported_usable info - kept_back info"
proof -
  from lay obtain res0 res1 where b: "boot_ranges info = Some (us, n, res0)"
    "find_metadata (metadata_size n) us res0 = Some m"
    "add_reservation m (m + metadata_size n) res0 = Some res1" "res = normalize res1"
    by (auto simp: boot_layout_def Let_def split: Option.bind_splits if_splits)
  note B = boot_ranges_ok [OF b(1) sane]
  show "separated us" "pages_of us = reported_usable info" "\<forall>p \<in> pages_of us. p < n"
    using B by simp_all
  note A = add_reservation_ok [OF b(3) B(5)]
  note V = normalize_ok [OF solid_proper [OF A(1)], folded b(4)]
  show "separated res" "solid res" "pages_of res = kept_back info \<union> {m ..< m + metadata_size n}"
    using V A B(6) by (simp_all add: solid_def)
  show "{m ..< m + metadata_size n} \<subseteq> reported_usable info - kept_back info"
  proof (cases "metadata_size n = 0")
    case True
    then show ?thesis by simp
  next
    case False
    then show ?thesis using find_metadata_ok [OF b(2) B(4)] B(2,6) by simp
  qed
qed

end
