(* ===== verification/PmmReach.thy ===== *)
theory PmmReach
  imports PmmInit
begin

text \<open>
  The manager as its callers see it: an abstract machine on the free pages and the blocks handed
  out, which every operation refines, and what follows for every state that the operations reach
  from the boot.
\<close>

section \<open>The operations\<close>

datatype pmm_call =
    AllocPages nat nat nat nat int
  | ReleasePage nat
  | ReleasePages nat
  | RetainPage nat
  | SetBackingBlock nat int
  | Validate
  | MoveHigher

datatype pmm_result = Phys nat | Done bool

fun pmm_run :: "pmm_call \<Rightarrow> pmm \<Rightarrow> (pmm_result \<times> pmm) option" where
  "pmm_run (AllocPages pages alignment ceiling ty owner) s =
     map_option (\<lambda>(a, s). (Phys a, s)) (AuPmmngrAllocPagesForOwner pages alignment ceiling ty owner s)"
| "pmm_run (ReleasePage a) s = map_option (\<lambda>(b, s). (Done b, s)) (AuPmmngrReleasePage a s)"
| "pmm_run (ReleasePages a) s = map_option (\<lambda>(b, s). (Done b, s)) (AuPmmngrReleasePages a s)"
| "pmm_run (RetainPage a) s = (case AuPmmngrRetainPage a s of (b, s) \<Rightarrow> Some (Done b, s))"
| "pmm_run (SetBackingBlock a k) s = (case AuPmmngrSetBackingBlock a k s of (b, s) \<Rightarrow> Some (Done b, s))"
| "pmm_run Validate s = map_option (\<lambda>(b, s). (Done b, s)) (AuPmmngrValidate s)"
| "pmm_run MoveHigher s = Some (Done True, AuPmmngrMoveHigher s)"

text \<open>The number of pages of a request is 32 bits wide.\<close>

fun call_ok :: "pmm_call \<Rightarrow> bool" where
  "call_ok (AllocPages pages _ _ _ _) \<longleftrightarrow> pages < 2 ^ 32"
| "call_ok _ \<longleftrightarrow> True"

section \<open>Runs of calls\<close>

text \<open>
  A sequence of calls and the results it returns; and the results that an abstract machine allows
  for the same calls, through views of its own.
\<close>

fun runs :: "('c \<Rightarrow> 's \<Rightarrow> ('r \<times> 's) option) \<Rightarrow> 'c list \<Rightarrow> 's \<Rightarrow> ('r list \<times> 's) option" where
  "runs run [] s = Some ([], s)"
| "runs run (c # cs) s =
     (case run c s of None \<Rightarrow> None
      | Some (r, s) \<Rightarrow> map_option (\<lambda>(rs, s). (r # rs, s)) (runs run cs s))"

fun allowed :: "('c \<Rightarrow> 'v \<Rightarrow> 'r \<Rightarrow> 'v \<Rightarrow> bool) \<Rightarrow> 'c list \<Rightarrow> 'v \<Rightarrow> 'r list \<Rightarrow> 'v \<Rightarrow> bool" where
  "allowed spec [] v rs v' \<longleftrightarrow> rs = [] \<and> v' = v"
| "allowed spec (c # cs) v rs v' \<longleftrightarrow>
     (\<exists>r qs u. rs = r # qs \<and> spec c v r u \<and> allowed spec cs u qs v')"

lemma runs_append:
  "runs run (cs @ ds) s = (case runs run cs s of None \<Rightarrow> None
     | Some (rs, s) \<Rightarrow> map_option (\<lambda>(qs, s). (rs @ qs, s)) (runs run ds s))"
proof (induction cs arbitrary: s)
  case Nil
  then show ?case by (cases "runs run ds s") auto
next
  case (Cons c cs)
  then show ?case
    by (cases "run c s") (auto split: option.split simp: option.map_comp comp_def case_prod_unfold)
qed

text \<open>The contract of a component that implements an abstract machine, call by call.\<close>

locale implements =
  fixes run :: "'c \<Rightarrow> 's \<Rightarrow> ('r \<times> 's) option"
    and good :: "'c \<Rightarrow> bool"
    and inv :: "'s \<Rightarrow> bool"
    and view :: "'s \<Rightarrow> 'v"
    and spec :: "'c \<Rightarrow> 'v \<Rightarrow> 'r \<Rightarrow> 'v \<Rightarrow> bool"
  assumes step_law: "inv s \<Longrightarrow> good c \<Longrightarrow> \<exists>r s'. run c s = Some (r, s') \<and> inv s' \<and> spec c (view s) r (view s')"
begin

lemma run_allowed: "inv s \<Longrightarrow> \<forall>c \<in> set cs. good c \<Longrightarrow>
    \<exists>rs s'. runs run cs s = Some (rs, s') \<and> inv s' \<and> allowed spec cs (view s) rs (view s')"
proof (induction cs arbitrary: s)
  case Nil
  then show ?case by simp
next
  case (Cons c cs)
  obtain r s1 where s1: "run c s = Some (r, s1)" "inv s1" "spec c (view s) r (view s1)"
    using step_law [OF Cons.prems(1), of c] Cons.prems(2) by auto
  obtain rs s' where "runs run cs s1 = Some (rs, s')" "inv s'" "allowed spec cs (view s1) rs (view s')"
    using Cons.IH [OF s1(2)] Cons.prems(2) by auto
  then show ?case using s1 by auto
qed

lemma step_kept:
  assumes "inv s" "good c" "run c s = Some (r, s')"
  shows "inv s'" "spec c (view s) r (view s')"
  using step_law [OF assms(1,2)] assms(3) by auto

lemma run_kept:
  assumes kept: "\<And>c v r u. spec c v r u \<Longrightarrow> P u = P v"
  shows "inv s \<Longrightarrow> \<forall>c \<in> set cs. good c \<Longrightarrow> runs run cs s = Some (rs, s') \<Longrightarrow> inv s' \<and> P (view s') = P (view s)"
proof (induction cs arbitrary: s rs)
  case Nil
  then show ?case by simp
next
  case (Cons c cs)
  obtain r s1 qs where s1: "run c s = Some (r, s1)" "runs run cs s1 = Some (qs, s')"
    using Cons.prems(3) by (auto split: option.splits)
  note K = step_kept [OF Cons.prems(1) _ s1(1)]
  show ?case
    using Cons.IH [OF K(1) _ s1(2)] K(2) kept Cons.prems(2) by auto
qed

end

section \<open>The abstract machine\<close>

text \<open>A run of free pages that serves a request: aligned, and its first pages below the ceiling.\<close>

definition run_free :: "nat set \<Rightarrow> nat \<Rightarrow> nat \<Rightarrow> nat \<Rightarrow> nat \<Rightarrow> bool" where
  "run_free F m w ceiling p \<longleftrightarrow> 2 ^ m dvd p \<and> {p ..< p + 2 ^ m} \<subseteq> F \<and> fits w ceiling p"

text \<open>The block that an address names: it starts a page, and a block starts there.\<close>

definition named :: "nat \<Rightarrow> (nat \<Rightarrow> (nat \<times> nat \<times> nat) option) \<Rightarrow> (nat \<times> nat \<times> nat) option" where
  "named a L = (if a mod PMM_PAGE_SIZE = 0 then L (a div PMM_PAGE_SIZE) else None)"

fun pmm_spec :: "pmm_call \<Rightarrow> nat set \<Rightarrow> (nat \<Rightarrow> (nat \<times> nat \<times> nat) option) \<Rightarrow> pmm_result \<Rightarrow>
    nat set \<Rightarrow> (nat \<Rightarrow> (nat \<times> nat \<times> nat) option) \<Rightarrow> bool"
where
  "pmm_spec (AllocPages pages al c ty ow) F L r F' L' \<longleftrightarrow>
     (let w = order_for_pages pages; m = request_order pages al;
          bad = (pages = 0 \<or> al \<noteq> 0 \<and> \<not> power_of_two al)
      in if bad \<or> (\<nexists>p. run_free F m w c p)
         then r = Phys PMM_INVALID_PHYS \<and> F' = F \<and> L' = L
         else \<exists>p i. r = Phys (p * PMM_PAGE_SIZE) \<and> run_free F m w c p \<and> F' = F - {p ..< p + 2 ^ w} \<and>
                L p = None \<and> L' = L(p := Some (w, 1, i)))"
| "pmm_spec (ReleasePage a) F L r F' L' \<longleftrightarrow>
     (let p = a div PMM_PAGE_SIZE
      in case named a L of
           Some (0, n, i) \<Rightarrow> r = Done True \<and>
             (if n = 1 then F' = insert p F \<and> L' = L(p := None)
              else F' = F \<and> L' = L(p := Some (0, n - 1, i)))
         | _ \<Rightarrow> r = Done False \<and> F' = F \<and> L' = L)"
| "pmm_spec (ReleasePages a) F L r F' L' \<longleftrightarrow>
     (let p = a div PMM_PAGE_SIZE
      in case named a L of
           Some (k, n, i) \<Rightarrow>
             if n = 1 then r = Done True \<and> F' = F \<union> {p ..< p + 2 ^ k} \<and> L' = L(p := None)
             else r = Done False \<and> F' = F \<and> L' = L
         | None \<Rightarrow> r = Done False \<and> F' = F \<and> L' = L)"
| "pmm_spec (RetainPage a) F L r F' L' \<longleftrightarrow>
     F' = F \<and>
     (case named a L of
        Some (0, n, i) \<Rightarrow>
          if n \<noteq> 65535 then r = Done True \<and> L' = L(a div PMM_PAGE_SIZE := Some (0, n + 1, i))
          else r = Done False \<and> L' = L
      | _ \<Rightarrow> r = Done False \<and> L' = L)"
| "pmm_spec (SetBackingBlock a k) F L r F' L' \<longleftrightarrow>
     F' = F \<and> L' = L \<and> r = Done (case named a L of Some (0, n, i) \<Rightarrow> True | _ \<Rightarrow> False)"
| "pmm_spec Validate F L r F' L' \<longleftrightarrow> r = Done True \<and> F' = F \<and> L' = L"
| "pmm_spec MoveHigher F L r F' L' \<longleftrightarrow> r = Done True \<and> F' = F \<and> L' = L"

section \<open>The search is complete\<close>

lemma fits_mono: "fits w c p \<Longrightarrow> h \<le> p \<Longrightarrow> fits w c h"
proof -
  assume f: "fits w c p" and h: "h \<le> p"
  have "(h + 2 ^ w) * PMM_PAGE_SIZE - 1 \<le> (p + 2 ^ w) * PMM_PAGE_SIZE - 1"
    using h by (intro diff_le_mono mult_le_mono1) simp
  then show "fits w c h" using f by (auto simp: fits_def)
qed

lemma free_set_iff: "{h ..< h + 2 ^ k} \<subseteq> free_set s \<longleftrightarrow>
    h + 2 ^ k \<le> total_pages s \<and> (\<forall>p. h \<le> p \<longrightarrow> p < h + 2 ^ k \<longrightarrow> free_page (pg_state (page_desc s p)))"
proof
  assume a: "{h ..< h + 2 ^ k} \<subseteq> free_set s"
  have l: "h \<le> h + 2 ^ k - 1" "h + 2 ^ k - 1 < h + 2 ^ k"
    using pos_power(1) [of k] by linarith+
  then have "h + 2 ^ k - 1 \<in> free_set s" using a by auto
  then have "h + 2 ^ k \<le> total_pages s" using l by (auto simp: free_set_def)
  then show "h + 2 ^ k \<le> total_pages s \<and> (\<forall>p. h \<le> p \<longrightarrow> p < h + 2 ^ k \<longrightarrow> free_page (pg_state (page_desc s p)))"
    using a by (auto simp: free_set_def)
qed (auto simp: free_set_def)

lemma serves_run:
  assumes ok: "pmm_ok s" and m: "m \<le> 32"
  shows "serves s m w c h \<Longrightarrow> run_free (free_set s) m w c h"
    and "(\<exists>h. serves s m w c h) \<longleftrightarrow> (\<exists>p. run_free (free_set s) m w c p)"
proof -
  obtain F where inv: "pmm_inv (total_pages s) s F"
    using ok by (auto simp: pmm_ok_def)
  note I = pmm_invD [OF inv]
  show one: "run_free (free_set s) m w c h" if sv: "serves s m w c h" for h
  proof -
    obtain j where j: "m \<le> j" "blk (page_desc s) (total_pages s) h j True" "fits w c h"
      using sv by (auto simp: serves_def)
    have p: "(2::nat) ^ m \<le> 2 ^ j" "(2::nat) ^ m dvd 2 ^ j"
      using j(1) by (simp_all add: power_increasing le_imp_power_dvd)
    have "{h ..< h + 2 ^ j} \<subseteq> free_set s"
      using blkD(3,7) [OF j(2)] by (simp add: free_set_iff)
    moreover have "{h ..< h + 2 ^ m} \<subseteq> {h ..< h + 2 ^ j}"
      by (intro ivl_subset [THEN iffD2] disjI2 conjI order_refl add_left_mono p(1))
    ultimately have "{h ..< h + 2 ^ m} \<subseteq> free_set s" by blast
    moreover have "2 ^ m dvd h" using p(2) blkD(1) [OF j(2)] by (rule dvd_trans)
    ultimately show ?thesis using j(3) by (simp add: run_free_def)
  qed
  show "(\<exists>h. serves s m w c h) \<longleftrightarrow> (\<exists>p. run_free (free_set s) m w c p)"
  proof
    assume "\<exists>p. run_free (free_set s) m w c p"
    then obtain p where p: "2 ^ m dvd p" "{p ..< p + 2 ^ m} \<subseteq> free_set s" "fits w c p"
      by (auto simp: run_free_def)
    obtain h j where b: "blk (page_desc s) (total_pages s) h j True" "m \<le> j" "h \<le> p"
      using free_run_in_block [OF I(1,4) p(1) m] p(2) unfolding free_set_iff by blast
    then show "\<exists>h. serves s m w c h"
      using fits_mono [OF p(3) b(3)] by (auto simp: serves_def)
  qed (use one in blast)
qed

lemma request_order_le: "request_order pages al \<le> 32" "order_for_pages pages \<le> request_order pages al"
  using order_for_pages_least(1) by (simp_all add: request_order_def)

section \<open>Every operation refines the machine\<close>

definition refines :: "pmm_call \<Rightarrow> pmm \<Rightarrow> bool" where
  "refines c s \<longleftrightarrow> (\<exists>r s'. pmm_run c s = Some (r, s') \<and> pmm_ok s' \<and> total_pages s' = total_pages s \<and>
     pmm_spec c (free_set s) (live s) r (free_set s') (live s'))"

lemma refinesI:
  assumes "pmm_run c s = Some (r, s')" "pmm_ok s'" "total_pages s' = total_pages s"
    "pmm_spec c (free_set s) (live s) r (free_set s') (live s')"
  shows "refines c s"
  using assms by (auto simp: refines_def)

lemma alloc_refines:
  assumes ok: "pmm_ok s" and pages: "pages < 2 ^ 32"
  shows "refines (AllocPages pages al c ty ow) s"
proof (cases "pages = 0 \<or> al \<noteq> 0 \<and> \<not> power_of_two al")
  case True
  then have "AuPmmngrAllocPagesForOwner pages al c ty ow s = Some (PMM_INVALID_PHYS, s)"
    by (auto simp: AuPmmngrAllocPagesForOwner_def Let_def)
  then show ?thesis
    using True ok by (intro refinesI [of _ s "Phys PMM_INVALID_PHYS" s]) (auto simp: Let_def)
next
  case False
  let ?w = "order_for_pages pages" and ?m = "request_order pages al"
  note S = serves_run [OF ok request_order_le(1) [of pages al], of ?w c]
  from alloc_pages_ok [OF ok, of pages al c ty ow] False pages
  consider "AuPmmngrAllocPagesForOwner pages al c ty ow s = Some (PMM_INVALID_PHYS, s)" "\<forall>h. \<not> serves s ?m ?w c h"
    | h s' i where "AuPmmngrAllocPagesForOwner pages al c ty ow s = Some (h * PMM_PAGE_SIZE, s')" "pmm_ok s'"
      "serves s ?m ?w c h" "{h ..< h + 2 ^ ?w} \<subseteq> free_set s" "free_set s' = free_set s - {h ..< h + 2 ^ ?w}"
      "live s' = (live s)(h := Some (?w, 1, i))" "total_pages s' = total_pages s"
    by auto
  then show ?thesis
  proof cases
    case 1
    then have "\<nexists>p. run_free (free_set s) ?m ?w c p" using S(2) by blast
    then show ?thesis
      using 1(1) ok by (intro refinesI [of _ s "Phys PMM_INVALID_PHYS" s]) (auto simp: Let_def)
  next
    case 2
    have run: "run_free (free_set s) ?m ?w c h" by (rule S(1) [OF 2(3)])
    have "h \<in> free_set s" using 2(4) pos_power(2) [of h ?w] by auto
    then have none: "live s h = None" by (intro live_free) (simp add: free_set_def)
    show ?thesis
    proof (rule refinesI [of _ s "Phys (h * PMM_PAGE_SIZE)" s'])
      show "pmm_spec (AllocPages pages al c ty ow) (free_set s) (live s) (Phys (h * PMM_PAGE_SIZE)) (free_set s') (live s')"
        using False run none 2(5,6) by (auto simp: Let_def)
    qed (use 2 in simp_all)
  qed
qed

lemma named_live:
  assumes "named a (live s) = Some (k, n, i)"
  shows "live s (a div PMM_PAGE_SIZE) = Some (k, n, i)" "\<not> bad_phys a s"
  using assms by (auto simp: named_def bad_phys_def valid_page_def live_def Let_def split: if_splits)

lemma unnamed:
  assumes "named a (live s) = None" "\<not> bad_phys a s"
  shows "pg_state (page_desc s (a div PMM_PAGE_SIZE)) \<noteq> PMM_PAGE_ALLOC_HEAD"
  using assms by (auto simp: named_def bad_phys_def valid_page_def live_def Let_def split: if_splits)

lemma release_page_refines:
  assumes ok: "pmm_ok s"
  shows "refines (ReleasePage a) s"
proof (cases "named a (live s)")
  case None
  then have "AuPmmngrReleasePage a s = Some (False, s)"
    using unnamed [OF None] by (auto simp: AuPmmngrReleasePage_def Let_def)
  then show ?thesis
    using None ok by (intro refinesI [of _ s "Done False" s]) (simp_all add: Let_def)
next
  case (Some b)
  let ?p = "a div PMM_PAGE_SIZE"
  obtain k n i where b: "b = (k, n, i)" by (cases b)
  note L = named_live [OF Some [unfolded b]]
  note P = live_pages [OF ok L(1)]
  show ?thesis
  proof (cases "k = 0")
    case False
    then have "AuPmmngrReleasePage a s = Some (False, s)"
      using P(4) by (auto simp: AuPmmngrReleasePage_def Let_def)
    then show ?thesis
      using Some b False ok by (intro refinesI [of _ s "Done False" s]) (simp_all add: Let_def split: nat.split)
  next
    case True
    have test: "pg_state (page_desc s ?p) = PMM_PAGE_ALLOC_HEAD \<and> pg_owner (page_desc s ?p) = ?p \<and>
        pg_order (page_desc s ?p) = 0 \<and> requested_pages (page_desc s ?p) = 1 \<and> refcount (page_desc s ?p) \<noteq> 0"
      using P(2,4-6,8-10) True by auto
    have l0: "live s ?p = Some (0, n, i)" using L(1) True by simp
    show ?thesis
    proof (cases "n = 1")
      case True
      obtain s1 where s1: "release_block ?p 0 s = Some s1"
        "\<forall>s'. s' = give_back (2 ^ 0) (pmm_owner_del_locked i (2 ^ 0) s1) \<longrightarrow> pmm_ok s' \<and>
          freed ?p (2 ^ 0) (s\<lparr>pmm_stats := pmm_stats s', owner_table := owner_table s'\<rparr>) s' \<and>
          free_set s' = free_set s \<union> {?p ..< ?p + 2 ^ 0} \<and> live s' = (live s)(?p := None) \<and>
          total_pages s' = total_pages s"
        using release_ok [OF ok l0] by blast
      let ?s' = "give_back 1 (pmm_owner_del_locked i 1 s1)"
      have s': "pmm_ok ?s'" "free_set ?s' = insert ?p (free_set s)" "live ?s' = (live s)(?p := None)"
        "total_pages ?s' = total_pages s"
        using s1(2) by auto
      have same: "on_page ?p (\<lambda>d. d\<lparr>refcount := refcount d - 1\<rparr>) s = on_page ?p (\<lambda>d. d\<lparr>refcount := 0\<rparr>) s"
        using P(2) True by (simp add: on_page_def)
      have "release_block ?p 0 (on_page ?p (\<lambda>d. d\<lparr>refcount := 0\<rparr>) s) = Some s1"
        using s1(1) mark_free_forgets [of ?p ?p 0] by (simp add: release_block_def)
      then have "AuPmmngrReleasePage a s = Some (True, ?s')"
        using L(2) test P(3) unfolding AuPmmngrReleasePage_def Let_def same by simp
      then show ?thesis
        using s' Some b l0 L True by (intro refinesI [of _ s "Done True" ?s']) (simp_all add: Let_def)
    next
      case False
      let ?s' = "on_page ?p (\<lambda>d. d\<lparr>refcount := n - 1\<rparr>) s"
      have same: "on_page ?p (\<lambda>d. d\<lparr>refcount := refcount d - 1\<rparr>) s = ?s'"
        using P(2) by (simp add: on_page_def)
      have "0 < n - 1" "n - 1 \<le> 65535" using False P(10,11) by auto
      note R = recount_page_ok [OF ok l0 this]
      have "AuPmmngrReleasePage a s = Some (True, ?s')"
        using L(2) test False P(10) unfolding AuPmmngrReleasePage_def Let_def same by simp
      then show ?thesis
        using R Some b l0 L False by (intro refinesI [of _ s "Done True" ?s']) (simp_all add: Let_def)
    qed
  qed
qed

lemma release_pages_run:
  assumes ok: "pmm_ok s" and nm: "named a (live s) = Some (k, n, i)"
  defines "p \<equiv> a div PMM_PAGE_SIZE"
  shows "n \<noteq> 1 \<Longrightarrow> AuPmmngrReleasePages a s = Some (False, s)"
    "n = 1 \<Longrightarrow> \<exists>s'. AuPmmngrReleasePages a s = Some (True, s') \<and> pmm_ok s' \<and>
      freed p (2 ^ k) (s\<lparr>pmm_stats := pmm_stats s', owner_table := owner_table s'\<rparr>) s' \<and>
      free_set s' = free_set s \<union> {p ..< p + 2 ^ k} \<and> live s' = (live s)(p := None) \<and> total_pages s' = total_pages s"
proof -
  note L = named_live [OF nm, folded p_def]
  note P = live_pages [OF ok L(1)]
  have counts: "(\<forall>j \<in> {..<2 ^ k}. refcount (page_desc s (p + j)) = 1) \<longleftrightarrow> n = 1"
  proof
    assume "\<forall>j \<in> {..<2 ^ k}. refcount (page_desc s (p + j)) = 1"
    then have "refcount (page_desc s (p + 0)) = 1"
      by (rule bspec) simp
    then show "n = 1" using P(2) by simp
  next
    assume n: "n = 1"
    show "\<forall>j \<in> {..<2 ^ k}. refcount (page_desc s (p + j)) = 1"
    proof
      show "refcount (page_desc s (p + j)) = 1" if "j \<in> {..<2 ^ k}" for j
        using P(13) [of "p + j"] P(2) n that by (cases "j = 0") auto
    qed
  qed
  have test: "pg_state (page_desc s p) = PMM_PAGE_ALLOC_HEAD \<and> pg_owner (page_desc s p) = p \<and>
      requested_pages (page_desc s p) \<noteq> 0"
    using P(5,6,8) by auto
  show "AuPmmngrReleasePages a s = Some (False, s)" if "n \<noteq> 1"
  proof -
    have "\<not> (\<forall>j \<in> {..<2 ^ k}. refcount (page_desc s (p + j)) = 1)"
      using counts that by blast
    then show ?thesis
      using L(2) test P(4) unfolding AuPmmngrReleasePages_def Let_def p_def by auto
  qed
  show "\<exists>s'. AuPmmngrReleasePages a s = Some (True, s') \<and> pmm_ok s' \<and>
      freed p (2 ^ k) (s\<lparr>pmm_stats := pmm_stats s', owner_table := owner_table s'\<rparr>) s' \<and>
      free_set s' = free_set s \<union> {p ..< p + 2 ^ k} \<and> live s' = (live s)(p := None) \<and> total_pages s' = total_pages s"
    if "n = 1"
  proof -
    obtain s1 where s1: "release_block p k s = Some s1"
      "\<forall>s'. s' = give_back (2 ^ k) (pmm_owner_del_locked i (2 ^ k) s1) \<longrightarrow> pmm_ok s' \<and>
        freed p (2 ^ k) (s\<lparr>pmm_stats := pmm_stats s', owner_table := owner_table s'\<rparr>) s' \<and>
        free_set s' = free_set s \<union> {p ..< p + 2 ^ k} \<and> live s' = (live s)(p := None) \<and>
        total_pages s' = total_pages s"
      using release_ok [OF ok L(1)] by blast
    have "AuPmmngrReleasePages a s = Some (True, give_back (2 ^ k) (pmm_owner_del_locked i (2 ^ k) s1))"
      using L(2) test counts that s1(1) P(3,4) unfolding AuPmmngrReleasePages_def Let_def p_def by simp
    then show ?thesis using s1(2) by blast
  qed
qed

lemma release_pages_refines:
  assumes ok: "pmm_ok s"
  shows "refines (ReleasePages a) s"
proof (cases "named a (live s)")
  case None
  then have "AuPmmngrReleasePages a s = Some (False, s)"
    using unnamed [OF None] by (auto simp: AuPmmngrReleasePages_def Let_def)
  then show ?thesis
    using None ok by (intro refinesI [of _ s "Done False" s]) (simp_all add: Let_def)
next
  case (Some b)
  obtain k n i where b: "b = (k, n, i)" by (cases b)
  note R = release_pages_run [OF ok Some [unfolded b]]
  show ?thesis
  proof (cases "n = 1")
    case True
    then obtain s' where "AuPmmngrReleasePages a s = Some (True, s')" "pmm_ok s'" "total_pages s' = total_pages s"
      "free_set s' = free_set s \<union> {a div PMM_PAGE_SIZE ..< a div PMM_PAGE_SIZE + 2 ^ k}"
      "live s' = (live s)(a div PMM_PAGE_SIZE := None)"
      using R(2) by blast
    then show ?thesis
      using Some b True by (intro refinesI [of _ s "Done True" s']) (simp_all add: Let_def)
  next
    case False
    then show ?thesis
      using R(1) Some b ok by (intro refinesI [of _ s "Done False" s]) (simp_all add: Let_def)
  qed
qed

lemma retain_refines:
  assumes ok: "pmm_ok s"
  shows "refines (RetainPage a) s"
proof (cases "named a (live s)")
  case None
  then have "AuPmmngrRetainPage a s = (False, s)"
    using unnamed [OF None] by (auto simp: AuPmmngrRetainPage_def Let_def)
  then show ?thesis
    using None ok by (intro refinesI [of _ s "Done False" s]) simp_all
next
  case (Some b)
  let ?p = "a div PMM_PAGE_SIZE"
  obtain k n i where b: "b = (k, n, i)" by (cases b)
  note L = named_live [OF Some [unfolded b]]
  note P = live_pages [OF ok L(1)]
  show ?thesis
  proof (cases "k = 0 \<and> n \<noteq> 65535")
    case True
    let ?s' = "on_page ?p (\<lambda>d. d\<lparr>refcount := n + 1\<rparr>) s"
    have same: "on_page ?p (\<lambda>d. d\<lparr>refcount := refcount d + 1\<rparr>) s = ?s'"
      using P(2) by (simp add: on_page_def)
    have l0: "live s ?p = Some (0, n, i)" and n: "0 < n + 1" "n + 1 \<le> 65535"
      using L(1) True P(11) by auto
    note R = recount_page_ok [OF ok l0 n]
    have "AuPmmngrRetainPage a s = (True, ?s')"
      using L(2) P(2,4-6) True unfolding AuPmmngrRetainPage_def Let_def same by simp
    then show ?thesis
      using R Some b True by (intro refinesI [of _ s "Done True" ?s']) (simp_all add: Let_def)
  next
    case False
    then have "AuPmmngrRetainPage a s = (False, s)"
      using P(2,4) unfolding AuPmmngrRetainPage_def Let_def by auto
    then show ?thesis
      using Some b False ok by (intro refinesI [of _ s "Done False" s]) (auto split: nat.split)
  qed
qed

lemma backing_refines:
  assumes ok: "pmm_ok s"
  shows "refines (SetBackingBlock a k) s"
proof (cases "\<exists>n i. named a (live s) = Some (0, n, i)")
  case True
  then obtain n i where nm: "named a (live s) = Some (0, n, i)" by blast
  note L = named_live [OF nm]
  note P = live_pages [OF ok L(1)]
  let ?s' = "on_page (a div PMM_PAGE_SIZE) (\<lambda>d. d\<lparr>backing_block := k\<rparr>) s"
  have "AuPmmngrSetBackingBlock a k s = (True, ?s')"
    using L(2) P(4,6) by (simp add: AuPmmngrSetBackingBlock_def Let_def)
  then show ?thesis
    using backing_ok [OF ok] nm by (intro refinesI [of _ s "Done True" ?s']) simp_all
next
  case False
  have "AuPmmngrSetBackingBlock a k s = (False, s)"
  proof (cases "named a (live s)")
    case None
    then show ?thesis using unnamed [OF None] by (auto simp: AuPmmngrSetBackingBlock_def Let_def)
  next
    case (Some b)
    then obtain j n i where b: "named a (live s) = Some (j, n, i)" by (cases b) auto
    then have "j \<noteq> 0" using False by auto
    then show ?thesis
      using live_pages(4) [OF ok named_live(1) [OF b]] by (simp add: AuPmmngrSetBackingBlock_def Let_def)
  qed
  then show ?thesis
    using False ok by (intro refinesI [of _ s "Done False" s]) (auto split: option.split nat.split)
qed

lemma validate_refines: "pmm_ok s \<Longrightarrow> refines Validate s"
  using validate_ok [of s] but_epochs_inv(2,3) but_epochsD(9)
  by (auto intro!: refinesI [of _ s "Done True"])

lemma move_higher_refines:
  assumes ok: "pmm_ok s"
  shows "refines MoveHigher s"
proof -
  let ?s' = "AuPmmngrMoveHigher s"
  have sel: "page_desc ?s' = page_desc s" "total_pages ?s' = total_pages s" "free_head ?s' = free_head s"
    "owner_table ?s' = owner_table s" "pmm_stats ?s' = pmm_stats s" "validation_epoch ?s' = validation_epoch s"
    by (simp_all add: AuPmmngrMoveHigher_def)
  have "but_epochs s ?s'"
    unfolding but_epochs_def sel
  proof (intro conjI refl allI)
    show "\<exists>e. page_desc s q = (page_desc s q)\<lparr>pg_epoch := e\<rparr>" for q
      by (intro exI [of _ "pg_epoch (page_desc s q)"]) simp
  qed
  note E = but_epochs_inv [OF this]
  have "pmm_ok ?s'"
    using ok unfolding pmm_ok_def E epochs_ok_def sel .
  then show ?thesis
    using E(2,3) sel(2) by (intro refinesI [of _ s "Done True" ?s']) simp_all
qed

lemma every_call_refines:
  assumes "pmm_ok s" "call_ok c"
  shows "refines c s"
  using assms alloc_refines release_page_refines release_pages_refines retain_refines backing_refines
    validate_refines move_higher_refines by (cases c) simp_all

text \<open>The manager as an implementation of the machine.\<close>

definition pmm_view :: "pmm \<Rightarrow> nat set \<times> (nat \<Rightarrow> (nat \<times> nat \<times> nat) option)" where
  "pmm_view s = (free_set s, live s)"

definition pmm_machine :: "pmm_call \<Rightarrow> nat set \<times> (nat \<Rightarrow> (nat \<times> nat \<times> nat) option) \<Rightarrow> pmm_result \<Rightarrow>
    nat set \<times> (nat \<Rightarrow> (nat \<times> nat \<times> nat) option) \<Rightarrow> bool" where
  "pmm_machine c v r u \<longleftrightarrow> pmm_spec c (fst v) (snd v) r (fst u) (snd u)"

interpretation pmm: implements pmm_run call_ok pmm_ok pmm_view pmm_machine
proof
  show "\<exists>r s'. pmm_run c s = Some (r, s') \<and> pmm_ok s' \<and> pmm_machine c (pmm_view s) r (pmm_view s')"
    if "pmm_ok s" "call_ok c" for s c
    using every_call_refines [OF that] by (auto simp: refines_def pmm_machine_def pmm_view_def)
qed

section \<open>Reachable states\<close>

text \<open>
  A machine that boots: no descriptor of the memory map wraps, the set-up finds room for the
  page descriptors, and there are fewer than \<open>2 ^ 33\<close> pages, so that a block has an order of at
  most 32.
\<close>

definition bootable :: "boot_info \<Rightarrow> bool" where
  "bootable info \<longleftrightarrow> map_sane info \<and>
     (case boot_layout info of None \<Rightarrow> False | Some (us, n, res, m) \<Rightarrow> n < 2 ^ 33)"

definition unused_owners :: "pmm \<Rightarrow> bool" where
  "unused_owners s \<longleftrightarrow> length (owner_table s) = PMM_OWNER_SLOTS \<and> (\<forall>e \<in> set (owner_table s). \<not> in_use e)"

inductive pmm_reach :: "boot_info \<Rightarrow> pmm \<Rightarrow> bool" for info where
  boot: "bootable info \<Longrightarrow> unused_owners s \<Longrightarrow> AuPmmngrInitialize info s = Some s' \<Longrightarrow> pmm_reach info s'"
| call: "pmm_reach info s \<Longrightarrow> call_ok c \<Longrightarrow> pmm_run c s = Some (r, s') \<Longrightarrow> pmm_reach info s'"

lemma reach_runs:
  "pmm_reach info s \<Longrightarrow> \<forall>c \<in> set cs. call_ok c \<Longrightarrow> runs pmm_run cs s = Some (rs, s') \<Longrightarrow> pmm_reach info s'"
proof (induction cs arbitrary: s rs)
  case Nil
  then show ?case by simp
next
  case (Cons c cs)
  obtain r s1 qs where s1: "pmm_run c s = Some (r, s1)" "runs pmm_run cs s1 = Some (qs, s')"
    using Cons.prems(3) by (auto split: option.splits simp del: pmm_run.simps)
  have "pmm_reach info s1"
    using pmm_reach.call [OF Cons.prems(1) _ s1(1)] Cons.prems(2) by simp
  then show ?case using Cons.IH [OF _ _ s1(2)] Cons.prems(2) by simp
qed

text \<open>The pages of the manager: what the map reports, less what is kept back and the descriptors.\<close>

definition managed :: "boot_info \<Rightarrow> nat set" where
  "managed info = (case boot_layout info of None \<Rightarrow> {}
     | Some (us, n, res, m) \<Rightarrow> reported_usable info - kept_back info - {m ..< m + metadata_size n})"

lemma boot_ok:
  assumes b: "bootable info" and o': "unused_owners s"
  shows "\<exists>s' us n res m. AuPmmngrInitialize info s = Some s' \<and> boot_layout info = Some (us, n, res, m) \<and> pmm_ok s' \<and>
    live s' = (\<lambda>_. None) \<and> free_set s' = managed info \<and> total_pages s' = n \<and> owner_table s' = owner_table s \<and>
    {m ..< m + metadata_size n} \<subseteq> reported_usable info - kept_back info"
proof -
  obtain us n res m where lay: "boot_layout info = Some (us, n, res, m)" and n: "n < 2 ^ 33" and sane: "map_sane info"
    using b by (auto simp: bootable_def split: option.splits)
  note L = layout_ok [OF lay sane]
  have "\<exists>s'. AuPmmngrInitialize info s = Some s' \<and> pmm_ok s' \<and> live s' = (\<lambda>_. None) \<and>
      free_set s' = pages_of us - pages_of res \<and> total_pages s' = n \<and> owner_table s' = owner_table s"
    using o' L(5) unfolding unused_owners_def solid_def by (intro initialize_ok [OF lay L(1,3,4) _ n]) auto
  moreover have "pages_of us - pages_of res = managed info"
    using L(2,6) lay by (auto simp: managed_def)
  ultimately show ?thesis
    using L(7) lay by auto
qed

text \<open>The pages that are free or in a block handed out.\<close>

definition pool :: "nat set \<Rightarrow> (nat \<Rightarrow> (nat \<times> nat \<times> nat) option) \<Rightarrow> nat set" where
  "pool F L = F \<union> {p. \<exists>h k n i. L h = Some (k, n, i) \<and> h \<le> p \<and> p < h + 2 ^ k}"

lemma pool_move:
  assumes "L h = None" "R = {h ..< h + 2 ^ k}" "R \<subseteq> F"
  shows "pool (F - R) (L(h := Some (k, n, i))) = pool F L"
proof (rule set_eqI)
  fix p
  have other: "(\<exists>h' k' n' i'. (L(h := Some (k, n, i))) h' = Some (k', n', i') \<and> h' \<le> p \<and> p < h' + 2 ^ k') \<longleftrightarrow>
      p \<in> R \<or> (\<exists>h' k' n' i'. L h' = Some (k', n', i') \<and> h' \<le> p \<and> p < h' + 2 ^ k')"
  proof
    assume "\<exists>h' k' n' i'. (L(h := Some (k, n, i))) h' = Some (k', n', i') \<and> h' \<le> p \<and> p < h' + 2 ^ k'"
    then show "p \<in> R \<or> (\<exists>h' k' n' i'. L h' = Some (k', n', i') \<and> h' \<le> p \<and> p < h' + 2 ^ k')"
      using assms(2) by (auto split: if_splits)
  next
    assume "p \<in> R \<or> (\<exists>h' k' n' i'. L h' = Some (k', n', i') \<and> h' \<le> p \<and> p < h' + 2 ^ k')"
    then show "\<exists>h' k' n' i'. (L(h := Some (k, n, i))) h' = Some (k', n', i') \<and> h' \<le> p \<and> p < h' + 2 ^ k'"
    proof
      assume "p \<in> R"
      then show ?thesis
        using assms(2) by (intro exI [of _ h] exI [of _ k] exI [of _ n] exI [of _ i]) simp
    next
      assume "\<exists>h' k' n' i'. L h' = Some (k', n', i') \<and> h' \<le> p \<and> p < h' + 2 ^ k'"
      then obtain h' k' n' i' where x: "L h' = Some (k', n', i')" "h' \<le> p" "p < h' + 2 ^ k'" by blast
      then have "h' \<noteq> h" using assms(1) by auto
      then show ?thesis using x by (intro exI [of _ h'] exI [of _ k'] exI [of _ n'] exI [of _ i']) simp
    qed
  qed
  then show "p \<in> pool (F - R) (L(h := Some (k, n, i))) \<longleftrightarrow> p \<in> pool F L"
    using assms(3) unfolding pool_def by auto
qed

lemma pool_back:
  assumes "L h = Some (k, n, i)"
  shows "pool (F \<union> {h ..< h + 2 ^ k}) (L(h := None)) = pool F L"
proof (rule set_eqI)
  fix p
  show "p \<in> pool (F \<union> {h ..< h + 2 ^ k}) (L(h := None)) \<longleftrightarrow> p \<in> pool F L"
  proof
    assume "p \<in> pool (F \<union> {h ..< h + 2 ^ k}) (L(h := None))"
    then show "p \<in> pool F L" using assms by (auto simp: pool_def split: if_splits)
  next
    assume "p \<in> pool F L"
    then consider "p \<in> F" | h' k' n' i' where "L h' = Some (k', n', i')" "h' \<le> p" "p < h' + 2 ^ k'"
      by (auto simp: pool_def)
    then show "p \<in> pool (F \<union> {h ..< h + 2 ^ k}) (L(h := None))"
    proof cases
      case 2
      show ?thesis
      proof (cases "h' = h")
        case True
        then show ?thesis using 2 assms by (simp add: pool_def)
      next
        case False
        then have "(L(h := None)) h' = Some (k', n', i')" using 2(1) by simp
        then show ?thesis using 2(2,3) unfolding pool_def by blast
      qed
    qed (simp add: pool_def)
  qed
qed

lemma pool_recount:
  assumes "L h = Some (k, n, i)"
  shows "pool F (L(h := Some (k, n', i))) = pool F L"
proof -
  have "(\<exists>m j. (L(h := Some (k, n', i))) x = Some (b, m, j)) \<longleftrightarrow> (\<exists>m j. L x = Some (b, m, j))" for x b
    using assms by auto
  then show ?thesis unfolding pool_def by (metis (no_types, lifting))
qed

lemma no_single_page:
  fixes b :: "(nat \<times> nat \<times> nat) option"
  assumes "\<nexists>n i. b = Some (0, n, i)"
  shows "(case b of Some (0, n, i) \<Rightarrow> f n i | _ \<Rightarrow> z) = z"
proof (cases b)
  case (Some x)
  then show ?thesis using assms by (cases x) (auto split: nat.split)
qed simp

lemma spec_pool:
  assumes "pmm_spec c F L r F' L'"
  shows "pool F' L' = pool F L"
proof (cases c)
  case (AllocPages pages al ce ty ow)
  let ?w = "order_for_pages pages" and ?m = "request_order pages al"
  show ?thesis
  proof (cases "F' = F \<and> L' = L")
    case False
    then obtain p i where p: "run_free F ?m ?w ce p" "F' = F - {p ..< p + 2 ^ ?w}" "L p = None" "L' = L(p := Some (?w, 1, i))"
      using assms AllocPages by (auto simp: Let_def split: if_splits)
    have "(2::nat) ^ ?w \<le> 2 ^ ?m"
      using request_order_le(2) by (intro power_increasing) simp_all
    then have "{p ..< p + 2 ^ ?w} \<subseteq> {p ..< p + 2 ^ ?m}"
      by (intro ivl_subset [THEN iffD2] disjI2 conjI order_refl add_left_mono)
    then have "{p ..< p + 2 ^ ?w} \<subseteq> F"
      using p(1) unfolding run_free_def by blast
    then show ?thesis
      unfolding p(2,4) by (intro pool_move [where h = p and L = L] p(3) refl)
  qed simp
next
  case (ReleasePage a)
  show ?thesis
  proof (cases "F' = F \<and> L' = L")
    case False
    have "\<exists>n i. named a L = Some (0, n, i)"
    proof (rule ccontr)
      assume n: "\<nexists>n i. named a L = Some (0, n, i)"
      show False
        using assms ReleasePage False by (simp add: Let_def no_single_page [OF n])
    qed
    then obtain n i where nm: "named a L = Some (0, n, i)" by blast
    then have l: "L (a div PMM_PAGE_SIZE) = Some (0, n, i)" by (simp add: named_def split: if_splits)
    show ?thesis
      using assms ReleasePage nm pool_back [where L = L, OF l, of F] pool_recount [where L = L, OF l, of F "n - 1"]
      by (simp add: Let_def split: if_splits)
  qed simp
next
  case (ReleasePages a)
  show ?thesis
  proof (cases "F' = F \<and> L' = L")
    case False
    then obtain k n i where nm: "named a L = Some (k, n, i)"
      using assms ReleasePages by (auto simp: Let_def split: option.splits)
    then have l: "L (a div PMM_PAGE_SIZE) = Some (k, n, i)" by (simp add: named_def split: if_splits)
    show ?thesis
      using assms ReleasePages nm pool_back [where L = L, OF l, of F] False by (simp add: Let_def split: if_splits)
  qed simp
next
  case (RetainPage a)
  show ?thesis
  proof (cases "L' = L")
    case True
    then show ?thesis using assms RetainPage by simp
  next
    case False
    have "\<exists>n i. named a L = Some (0, n, i)"
    proof (rule ccontr)
      assume n: "\<nexists>n i. named a L = Some (0, n, i)"
      show False
        using assms RetainPage False by (simp add: Let_def no_single_page [OF n])
    qed
    then obtain n i where nm: "named a L = Some (0, n, i)" by blast
    then have l: "L (a div PMM_PAGE_SIZE) = Some (0, n, i)" by (simp add: named_def split: if_splits)
    show ?thesis
      using assms RetainPage nm pool_recount [where L = L, OF l, of F "n + 1"] False by (simp split: if_splits)
  qed
qed (use assms in simp_all)

lemma reach_ok:
  assumes "pmm_reach info s"
  shows "pmm_ok s \<and> pool (free_set s) (live s) = managed info"
  using assms
proof (induction rule: pmm_reach.induct)
  case (boot s s')
  then show ?case using boot_ok [OF boot(1,2)] by (auto simp: pool_def)
next
  case (call s c r s')
  note K = pmm.step_kept [OF conjunct1 [OF call(4)] call(2,3)]
  have "pool (free_set s') (live s') = pool (free_set s) (live s)"
    using spec_pool K(2) by (simp add: pmm_machine_def pmm_view_def)
  then show ?case using K(1) call(4) by simp
qed

end
