(* ===== verification/PmmOwners.thy ===== *)
theory PmmOwners
  imports PmmReach
begin

text \<open>
  The accounts of pages per owner against the history of the calls: which owner asked for each
  block, which slot of the table is charged for it, and when the two agree.
\<close>

section \<open>What is charged to an owner\<close>

definition owner_blocks :: "int \<Rightarrow> pmm \<Rightarrow> nat" where
  "owner_blocks ow s = (\<Sum>h<total_pages s. case live s h of None \<Rightarrow> 0
     | Some (k, n, i) \<Rightarrow> if oid (owner_table s ! i) = ow then 2 ^ k else 0)"

lemma owner_pages_exact:
  assumes ok: "owners_ok s"
  shows "AuPmmOwnerPages ow s = owner_blocks ow s"
proof -
  note D = owners_okD [OF ok]
  show ?thesis
  proof (cases "first_index (\<lambda>e. in_use e \<and> oid e = ow) (owner_table s)")
    case None
    have "(case live s h of None \<Rightarrow> 0 | Some (k, n, i) \<Rightarrow> if oid (owner_table s ! i) = ow then 2 ^ k else 0) = (0::nat)" for h
      using D(1) D(2) [of h] None by (auto simp: first_index_None split: option.split)
    then have "owner_blocks ow s = 0" by (simp add: owner_blocks_def)
    then show ?thesis using None by (simp add: AuPmmOwnerPages_def)
  next
    case (Some a)
    then have a: "a < PMM_OWNER_SLOTS" "in_use (owner_table s ! a)" "oid (owner_table s ! a) = ow"
      using D(1) by (auto simp: first_index_Some)
    have "share a (live s h) = (case live s h of None \<Rightarrow> 0
        | Some (k, n, i) \<Rightarrow> if oid (owner_table s ! i) = ow then 2 ^ k else 0)" for h
    proof (cases "live s h")
      case (Some b)
      obtain k n i where b: "b = (k, n, i)" by (cases b)
      have i: "i < PMM_OWNER_SLOTS" "in_use (owner_table s ! i)"
        using D(2) [OF Some [unfolded b]] by simp_all
      have "i = a" if "oid (owner_table s ! i) = ow"
        by (rule D(4) [OF i(1) a(1) i(2) a(2)]) (simp add: that a(3))
      then have "oid (owner_table s ! i) = ow \<longleftrightarrow> i = a"
        using a(3) by auto
      then show ?thesis by (simp add: Some b)
    qed simp
    then have "slot_pages s a = owner_blocks ow s"
      by (simp add: slot_pages_def owner_blocks_def)
    then show ?thesis
      using Some D(3) [OF a(1,2)] by (simp add: AuPmmOwnerPages_def)
  qed
qed

section \<open>Who asked for a block\<close>

text \<open>
  The owner named by the allocation that handed out the block at a page: a successful allocation
  sets it for the first page of its block, no other call changes it.
\<close>

fun note_asker :: "pmm_call \<Rightarrow> pmm_result \<Rightarrow> (nat \<Rightarrow> int) \<Rightarrow> nat \<Rightarrow> int" where
  "note_asker (AllocPages pages al c ty owner) (Phys a) asker =
     (if a = PMM_INVALID_PHYS then asker else asker(a div PMM_PAGE_SIZE := owner))"
| "note_asker _ _ asker = asker"

inductive pmm_history :: "boot_info \<Rightarrow> pmm \<Rightarrow> (nat \<Rightarrow> int) \<Rightarrow> bool" for info where
  boot: "bootable info \<Longrightarrow> unused_owners s \<Longrightarrow> AuPmmngrInitialize info s = Some s' \<Longrightarrow> pmm_history info s' asker"
| call: "pmm_history info s asker \<Longrightarrow> call_ok c \<Longrightarrow> pmm_run c s = Some (r, s') \<Longrightarrow>
    pmm_history info s' (note_asker c r asker)"

lemma history_reach: "pmm_history info s asker \<Longrightarrow> pmm_reach info s"
  by (induction rule: pmm_history.induct) (auto intro: pmm_reach.intros simp del: pmm_run.simps)

lemma reach_history: "pmm_reach info s \<Longrightarrow> \<exists>asker. pmm_history info s asker"
  by (induction rule: pmm_reach.induct) (auto intro: pmm_history.intros simp del: pmm_run.simps)

definition asked_pages :: "int \<Rightarrow> (nat \<Rightarrow> int) \<Rightarrow> pmm \<Rightarrow> nat" where
  "asked_pages ow asker s = (\<Sum>h<total_pages s. case live s h of None \<Rightarrow> 0
     | Some (k, n, i) \<Rightarrow> if asker h = ow then 2 ^ k else 0)"

section \<open>The names in the table\<close>

definition names :: "pmm \<Rightarrow> int option list" where
  "names s = map (\<lambda>e. if in_use e then Some (oid e) else None) (owner_table s)"

text \<open>
  The slot \<open>i\<close> is right for a block that the owner \<open>w\<close> asked for: it bears the owner's name, or the
  table was full without it and it is that of the kernel (slot 0 for lack of one).
\<close>

definition right_slot :: "int option list \<Rightarrow> nat \<Rightarrow> int \<Rightarrow> bool" where
  "right_slot T i w \<longleftrightarrow> i < length T \<and>
     (T ! i = Some w \<or> None \<notin> set T \<and> Some w \<notin> set T \<and> (T ! i = Some 0 \<or> i = 0 \<and> Some 0 \<notin> set T))"

definition names_kept :: "int option list \<Rightarrow> int option list \<Rightarrow> bool" where
  "names_kept T T' \<longleftrightarrow> length T' = length T \<and> (\<forall>i < length T. T ! i \<noteq> None \<longrightarrow> T' ! i = T ! i)"

lemma names_kept_refl [simp]: "names_kept T T"
  by (simp add: names_kept_def)

lemma names_kept_full: "names_kept T T' \<Longrightarrow> None \<notin> set T \<Longrightarrow> T' = T"
proof (rule nth_equalityI)
  fix i assume k: "names_kept T T'" "None \<notin> set T" and "i < length T'"
  then have "i < length T" by (simp add: names_kept_def)
  moreover from this have "T ! i \<noteq> None" using k(2) nth_mem by metis
  ultimately show "T' ! i = T ! i" using k(1) by (simp add: names_kept_def)
qed (simp add: names_kept_def)

lemma right_slot_kept: "names_kept T T' \<Longrightarrow> right_slot T i w \<Longrightarrow> right_slot T' i w"
  using names_kept_full [of T T'] by (auto simp: right_slot_def names_kept_def)

lemma names_update_pages [simp]:
  "names (s\<lparr>owner_table := (owner_table s)[i := (owner_table s ! i)\<lparr>opages := n\<rparr>]\<rparr>) = names s"
  by (cases "i < length (owner_table s)")
    (auto simp: names_def map_update list_update_same_conv list_update_beyond)

lemma names_add [simp]: "names (pmm_owner_add_locked i n s) = names s"
  by (simp add: pmm_owner_add_locked_def)

lemma names_del [simp]: "names (pmm_owner_del_locked i n s) = names s"
  by (simp add: pmm_owner_del_locked_def Let_def)

lemma names_cong: "owner_table s' = owner_table s \<Longrightarrow> names s' = names s"
  by (simp add: names_def)

lemma names_nth: "i < length (owner_table s) \<Longrightarrow> names s ! i =
    (if in_use (owner_table s ! i) then Some (oid (owner_table s ! i)) else None)"
  by (simp add: names_def)

lemma names_mem: "Some w \<in> set (names s) \<longleftrightarrow> (\<exists>e \<in> set (owner_table s). in_use e \<and> oid e = w)"
  by (auto simp: names_def)

lemma names_full: "None \<notin> set (names s) \<longleftrightarrow> (\<forall>e \<in> set (owner_table s). in_use e)"
  by (auto simp: names_def)

lemma owner_slot_cong:
  "owner_table t = owner_table s \<Longrightarrow>
   names (snd (pmm_owner_slot_locked w t)) = names (snd (pmm_owner_slot_locked w s))"
  by (simp add: pmm_owner_slot_locked_def names_def split: option.split)

text \<open>The slot that the look-up returns is right for the owner, and it keeps the names.\<close>

lemma owner_slot_right:
  assumes "length (owner_table s) = PMM_OWNER_SLOTS" "pmm_owner_slot_locked w s = (i, s')"
  shows "right_slot (names s') i w \<and> names_kept (names s) (names s')"
proof -
  have len: "0 < length (owner_table s)" using assms(1) by (simp add: PMM_OWNER_SLOTS_def)
  consider (found) k where "first_index (\<lambda>e. in_use e \<and> oid e = w) (owner_table s) = Some k"
    | (new) k where "first_index (\<lambda>e. in_use e \<and> oid e = w) (owner_table s) = None"
        "first_index (\<lambda>e. \<not> in_use e) (owner_table s) = Some k"
    | (full) "first_index (\<lambda>e. in_use e \<and> oid e = w) (owner_table s) = None"
        "first_index (\<lambda>e. \<not> in_use e) (owner_table s) = None"
    by fastforce
  then show ?thesis
  proof cases
    case found
    then have "i = k" "s' = s" using assms(2) by (simp_all add: pmm_owner_slot_locked_def)
    then show ?thesis using found by (auto simp: right_slot_def first_index_Some names_nth names_def)
  next
    case new
    then have k: "k < length (owner_table s)" "\<not> in_use (owner_table s ! k)"
      by (auto simp: first_index_Some)
    have "i = k" and s': "s' = s\<lparr>owner_table := (owner_table s)
        [k := (owner_table s ! k)\<lparr>in_use := True, oid := w, opages := 0\<rparr>]\<rparr>"
      using new assms(2) by (auto simp: pmm_owner_slot_locked_def)
    then have i: "i = k" by simp
    have s'': "names s' = (names s)[k := Some w]"
      unfolding s' by (simp add: names_def map_update)
    have "k < length (names s)" "names s ! k = None"
      using k by (simp_all add: names_nth) (simp add: names_def)
    then show ?thesis
      unfolding i s'' by (auto simp: right_slot_def names_kept_def nth_list_update)
  next
    case full
    have s': "s' = s" and i: "i = (case first_index (\<lambda>e. oid e = PMM_OWNER_KERNEL) (owner_table s) of Some k \<Rightarrow> k | None \<Rightarrow> 0)"
      using full assms(2) by (simp_all add: pmm_owner_slot_locked_def split: option.splits)
    have all: "\<forall>e \<in> set (owner_table s). in_use e" using full(2) by (simp add: first_index_None)
    have no: "Some w \<notin> set (names s)" using full(1) by (auto simp: names_mem first_index_None)
    have "i < length (names s) \<and> (names s ! i = Some 0 \<or> i = 0 \<and> Some 0 \<notin> set (names s))"
    proof (cases "first_index (\<lambda>e. oid e = PMM_OWNER_KERNEL) (owner_table s)")
      case None
      moreover from this have "Some 0 \<notin> set (names s)"
        by (auto simp: names_mem first_index_None PMM_OWNER_KERNEL_def)
      moreover have "i = 0" using i None by simp
      ultimately show ?thesis using len by (simp add: names_def)
    next
      case (Some k)
      then have "k < length (owner_table s)" "oid (owner_table s ! k) = 0"
        by (auto simp: first_index_Some PMM_OWNER_KERNEL_def)
      then show ?thesis using i Some all by (simp add: names_nth) (simp add: names_def)
    qed
    then show ?thesis
      unfolding s' using no all names_full by (auto simp: right_slot_def)
  qed
qed

section \<open>Every call keeps the names and the charges\<close>

lemma alloc_names:
  assumes ok: "pmm_ok s" and run: "AuPmmngrAllocPagesForOwner pages al c ty ow s = Some (a, s')"
  shows "s' = s \<and> a = PMM_INVALID_PHYS \<or> names_kept (names s) (names s') \<and>
    right_slot (names s') (owner_slot (page_desc s' (a div PMM_PAGE_SIZE))) ow \<and>
    names s' = names (snd (pmm_owner_slot_locked ow s))"
proof -
  obtain F where inv: "pmm_inv (total_pages s) s F" and ow: "owners_ok s"
    using ok by (auto simp: pmm_ok_def)
  let ?al = "if al = 0 then 1 else al" and ?w = "order_for_pages pages"
  show ?thesis
  proof (cases "s' = s \<and> a = PMM_INVALID_PHYS")
    case False
    then have good: "pages \<noteq> 0" "power_of_two ?al" "\<not> ?w > PMM_MAX_ORDER"
      using run by (auto simp: AuPmmngrAllocPagesForOwner_def Let_def split: if_splits)
    from take_block_ok [OF inv, of ?w ?al c] False run good
    obtain h s1 where t: "take_block ?w ?al c s = Some (h, s1)" "h \<noteq> PMM_NO_PAGE" "evolves s s1"
      by (auto simp: AuPmmngrAllocPagesForOwner_def Let_def)
    have table: "owner_table s1 = owner_table s"
      using t(3) by (simp add: evolves_def rest_same_def)
    obtain i s2 where slot: "pmm_owner_slot_locked ow s1 = (i, s2)" by fastforce
    have R: "right_slot (names s2) i ow \<and> names_kept (names s) (names s2)"
      using owner_slot_right [OF _ slot] owners_okD(1) [OF ow] table names_cong [OF table] by simp
    define s3 where "s3 = mark_allocated h ?w pages (if ty \<noteq> 0 then ty else AURORA_PAGE_NORMAL) i s2"
    have s3: "owner_table s3 = owner_table s2" "owner_slot (page_desc s3 h) = i"
      by (simp_all add: s3_def mark_allocated_def Let_def)
    have a: "a = h * PMM_PAGE_SIZE" and s': "page_desc s' = page_desc s3"
      "owner_table s' = owner_table (pmm_owner_add_locked i (2 ^ ?w) s3)"
      using run good t(1,2) slot by (auto simp: AuPmmngrAllocPagesForOwner_def Let_def s3_def)
    have "a div PMM_PAGE_SIZE = h" by (simp add: a PMM_PAGE_SIZE_def)
    moreover have "names s' = names s2"
      using names_cong [OF s'(2)] names_cong [OF s3(1)] by simp
    moreover have "names s2 = names (snd (pmm_owner_slot_locked ow s))"
      using owner_slot_cong [OF table, of ow] slot by simp
    ultimately show ?thesis using R s'(1) s3(2) by simp
  qed simp
qed

lemma free_block_table:
  "mark_free_block h k s = Some s' \<Longrightarrow> owner_table s' = owner_table s"
  "list_insert h k s = Some s' \<Longrightarrow> owner_table s' = owner_table s"
  "list_remove h k s = Some s' \<Longrightarrow> owner_table s' = owner_table s"
  by (auto simp: mark_free_block_def list_insert_def list_remove_def Let_def split: if_splits)

lemma merge_up_table:
  "merge_up h k s = Some (h', k', s') \<Longrightarrow> owner_table s' = owner_table s"
proof (induction h k s rule: merge_up.induct)
  case (1 h k s)
  show ?case
    using 1(2) by (subst (asm) merge_up.simps, auto simp: Let_def split: if_splits Option.bind_splits dest!: 1(1))
      (metis free_block_table(1,3))+
qed

lemma release_block_table: "release_block h k s = Some s' \<Longrightarrow> owner_table s' = owner_table s"
  by (auto simp: release_block_def split: Option.bind_splits dest!: merge_up_table free_block_table)

lemma names_on_page [simp]: "names (on_page p f s) = names s"
  by (simp add: names_def)

lemma names_give_back [simp]: "names (give_back n s) = names s"
  by (simp add: names_def)

lemma release_names:
  "AuPmmngrReleasePage a s = Some (b, s') \<Longrightarrow> names s' = names s"
  "AuPmmngrReleasePages a s = Some (b, s') \<Longrightarrow> names s' = names s"
  by (auto simp: AuPmmngrReleasePage_def AuPmmngrReleasePages_def Let_def
      split: if_splits Option.bind_splits dest!: names_cong [OF release_block_table])

text \<open>A block that a call leaves has the order and the slot it had.\<close>

lemma spec_keeps_slots:
  assumes "pmm_spec c F L r F' L'" "L' h = Some (k, n', i)"
  shows "(\<exists>n. L h = Some (k, n, i)) \<and> note_asker c r g h = g h \<or>
    (\<exists>pages al ce ty ow. c = AllocPages pages al ce ty ow \<and> r = Phys (h * PMM_PAGE_SIZE) \<and> L h = None)"
proof (cases c)
  case (AllocPages pages al ce ty ow)
  show ?thesis
  proof (cases "r = Phys PMM_INVALID_PHYS \<and> F' = F \<and> L' = L")
    case True
    then show ?thesis using assms(2) AllocPages by simp
  next
    case False
    then obtain p j where "r = Phys (p * PMM_PAGE_SIZE)" "L p = None"
      "L' = L(p := Some (order_for_pages pages, 1, j))"
      using assms(1) AllocPages by (auto simp: Let_def split: if_splits)
    then show ?thesis
      using assms(2) AllocPages by (cases "h = p") (auto simp: PMM_PAGE_SIZE_def)
  qed
next
  case (ReleasePage a)
  have "\<exists>n. L h = Some (k, n, i)"
  proof (cases "\<exists>n j. named a L = Some (0, n, j)")
    case True
    then obtain n j where nm: "named a L = Some (0, n, j)" by blast
    then have "L (a div PMM_PAGE_SIZE) = Some (0, n, j)" by (simp add: named_def split: if_splits)
    then show ?thesis using assms ReleasePage nm by (auto simp: Let_def split: if_splits)
  next
    case False
    then show ?thesis using assms ReleasePage by (simp add: Let_def no_single_page)
  qed
  then show ?thesis using ReleasePage by simp
next
  case (ReleasePages a)
  have "\<exists>n. L h = Some (k, n, i)"
    using assms ReleasePages by (auto simp: Let_def split: option.splits if_splits)
  then show ?thesis using ReleasePages by simp
next
  case (RetainPage a)
  have "\<exists>n. L h = Some (k, n, i)"
  proof (cases "\<exists>n j. named a L = Some (0, n, j)")
    case True
    then obtain n j where nm: "named a L = Some (0, n, j)" by blast
    then have "L (a div PMM_PAGE_SIZE) = Some (0, n, j)" by (simp add: named_def split: if_splits)
    then show ?thesis using assms RetainPage nm by (auto split: if_splits)
  next
    case False
    then show ?thesis using assms RetainPage by (simp add: no_single_page)
  qed
  then show ?thesis using RetainPage by simp
qed (use assms in simp_all)

lemma call_names:
  assumes ok: "pmm_ok s" and good: "call_ok c" and run: "pmm_run c s = Some (r, s')"
  shows "names_kept (names s) (names s')"
    and "c = AllocPages pages al ce ty ow \<Longrightarrow> r = Phys (h * PMM_PAGE_SIZE) \<Longrightarrow> live s h = None \<Longrightarrow>
      live s' h = Some (k, n, i) \<Longrightarrow> right_slot (names s') i ow"
proof -
  show "names_kept (names s) (names s')"
  proof (cases c)
    case (AllocPages pages al ce ty ow)
    then obtain a where "AuPmmngrAllocPagesForOwner pages al ce ty ow s = Some (a, s')" using run by auto
    from alloc_names [OF ok this] show ?thesis by auto
  next
    case (ReleasePage a)
    then show ?thesis using run release_names(1) by fastforce
  next
    case (ReleasePages a)
    then show ?thesis using run release_names(2) by fastforce
  next
    case (RetainPage a)
    then have "owner_table s' = owner_table s"
      using run by (auto simp: AuPmmngrRetainPage_def Let_def split: if_splits)
    then show ?thesis using names_cong [of s' s] by simp
  next
    case (SetBackingBlock a b)
    then have "owner_table s' = owner_table s"
      using run by (auto simp: AuPmmngrSetBackingBlock_def Let_def split: if_splits)
    then show ?thesis using names_cong [of s' s] by simp
  next
    case Validate
    then have "owner_table s' = owner_table s"
      using run validate_ok [OF ok] but_epochsD by auto
    then show ?thesis using names_cong [of s' s] by simp
  next
    case MoveHigher
    then have "owner_table s' = owner_table s"
      using run by (auto simp: AuPmmngrMoveHigher_def)
    then show ?thesis using names_cong [of s' s] by simp
  qed
  assume c: "c = AllocPages pages al ce ty ow" "r = Phys (h * PMM_PAGE_SIZE)" "live s h = None"
    "live s' h = Some (k, n, i)"
  then have al: "AuPmmngrAllocPagesForOwner pages al ce ty ow s = Some (h * PMM_PAGE_SIZE, s')"
    using run by auto
  have "h * PMM_PAGE_SIZE div PMM_PAGE_SIZE = h" by (simp add: PMM_PAGE_SIZE_def)
  moreover have "s' \<noteq> s" using c(3,4) by auto
  ultimately have "right_slot (names s') (owner_slot (page_desc s' h)) ow"
    using alloc_names [OF ok al] by metis
  then show "right_slot (names s') i ow"
    using c(4) by (auto simp: live_def Let_def split: if_splits)
qed

lemma history_right:
  assumes "pmm_history info s asker"
  shows "\<forall>h k n i. live s h = Some (k, n, i) \<longrightarrow> right_slot (names s) i (asker h)"
  using assms
proof (induction rule: pmm_history.induct)
  case (boot s s' asker)
  then show ?case using boot_ok [OF boot(1,2)] by auto
next
  case (call s asker c r s')
  have ok: "pmm_ok s" using reach_ok [OF history_reach [OF call(1)]] by blast
  have spec: "pmm_spec c (free_set s) (live s) r (free_set s') (live s')"
    using pmm.step_kept(2) [OF ok call(2,3)] by (simp add: pmm_machine_def pmm_view_def)
  show ?case
  proof (intro allI impI)
    fix h k n i assume l: "live s' h = Some (k, n, i)"
    from spec_keeps_slots [OF spec l, of asker]
    show "right_slot (names s') i (note_asker c r asker h)"
    proof (elim disjE conjE exE)
      fix m assume "live s h = Some (k, m, i)" "note_asker c r asker h = asker h"
      then show ?thesis using right_slot_kept [OF call_names(1) [OF ok call(2,3)]] call.IH by simp
    next
      fix pages al ce ty ow
      assume c: "c = AllocPages pages al ce ty ow" "r = Phys (h * PMM_PAGE_SIZE)" "live s h = None"
      have "h * PMM_PAGE_SIZE mod 4096 = 0" "PMM_INVALID_PHYS mod 4096 = 4095"
        by (simp_all add: PMM_PAGE_SIZE_def PMM_INVALID_PHYS_def)
      then have "h * PMM_PAGE_SIZE \<noteq> PMM_INVALID_PHYS" by auto
      moreover have "h * PMM_PAGE_SIZE div PMM_PAGE_SIZE = h" by (simp add: PMM_PAGE_SIZE_def)
      ultimately have "note_asker c r asker h = ow" using c(1,2) by simp
      then show ?thesis using call_names(2) [OF ok call(2,3) c l] by simp
    qed
  qed
qed

text \<open>
  The charges are exact for every owner while the table has a free slot, and later still for
  every owner other than the kernel's that has one.
\<close>

definition account_exact :: "int \<Rightarrow> pmm \<Rightarrow> bool" where
  "account_exact ow s \<longleftrightarrow> list_ex (\<lambda>e. \<not> in_use e) (owner_table s) \<or>
     ow \<noteq> PMM_OWNER_KERNEL \<and> list_ex (\<lambda>e. in_use e \<and> oid e = ow) (owner_table s) \<and>
     list_ex (\<lambda>e. in_use e \<and> oid e = PMM_OWNER_KERNEL) (owner_table s)"

lemma history_charges:
  assumes H: "pmm_history info s asker" and ex: "account_exact ow s"
  shows "AuPmmOwnerPages ow s = asked_pages ow asker s"
proof -
  have "owners_ok s" using reach_ok [OF history_reach [OF H]] by (simp add: pmm_ok_def)
  note own = owner_pages_exact [OF this] and D = owners_okD [OF this]
  have "(case live s h of None \<Rightarrow> 0 | Some (k, n, i) \<Rightarrow> if oid (owner_table s ! i) = ow then 2 ^ k else 0) =
      (case live s h of None \<Rightarrow> 0 | Some (k, n, i) \<Rightarrow> if asker h = ow then (2::nat) ^ k else 0)" for h
  proof (cases "live s h")
    case (Some b)
    obtain k n i where b: "live s h = Some (k, n, i)" using Some by (cases b) auto
    have R: "right_slot (names s) i (asker h)" using history_right [OF H] b by blast
    have T: "names s ! i = Some (oid (owner_table s ! i))"
      using D(1) D(2) [OF b] by (simp add: names_nth)
    have "oid (owner_table s ! i) = ow \<longleftrightarrow> asker h = ow"
    proof (cases "names s ! i = Some (asker h)")
      case False
      then have F: "None \<notin> set (names s)" "Some (asker h) \<notin> set (names s)"
        "names s ! i = Some 0 \<or> Some 0 \<notin> set (names s)"
        using R by (auto simp: right_slot_def)
      then have "ow \<noteq> 0" "Some ow \<in> set (names s)" "Some 0 \<in> set (names s)"
        using ex unfolding names_full names_mem account_exact_def
        by (auto simp: list_ex_iff PMM_OWNER_KERNEL_def)
      then show ?thesis using F T by auto
    qed (use T in simp)
    then show ?thesis by (simp add: b)
  qed simp
  then show ?thesis unfolding own owner_blocks_def asked_pages_def by (intro sum.cong) simp_all
qed

end
