(* ===== verification/PmmClaims.thy ===== *)
theory PmmClaims
  imports PmmOwners
begin

text \<open>
  The properties of the physical memory manager, for every state reached from the boot by its
  operations, with a small machine of 64 usable pages as witness.
\<close>

section \<open>A small machine\<close>

definition small_boot :: boot_info where
  "small_boot = \<lparr>is_littleboot = False, littleboot = None,
     efi_map = [\<lparr>efi_type = 7, phys_start = 0x100000, num_pages = 64\<rparr>],
     stack_entries = [0x110000], physical_direct_map_base = 0, physical_direct_map_size = 0\<rparr>"

definition power_off :: pmm where
  "power_off = \<lparr>page_desc = (\<lambda>_. fresh_desc), total_pages = 0, free_head = (\<lambda>_. 0), pmm_stats = no_pages,
     owner_table = replicate PMM_OWNER_SLOTS \<lparr>oid = 0, opages = 0, in_use = False\<rparr>,
     validation_epoch = 0, direct_map_base = 0, higher_half = False\<rparr>"

lemma small_layout: "boot_layout small_boot = Some ([(256, 320)], 320, [(0, 260), (272, 273)], 256)"
  by (simp add: boot_layout_def boot_ranges_def small_boot_def metadata_size_def align_up_def normalize_def
      join_range_def insert_range_def add_reservation_def PMM_PAGE_SIZE_def PMM_DESC_SIZE_def
      PMM_MAX_REGIONS_def PMM_MAX_RESERVATIONS_def Let_def)

lemma small_bootable: "bootable small_boot"
  by (simp add: bootable_def small_layout) (simp add: map_sane_def efi_sane_def Let_def small_boot_def PMM_PAGE_SIZE_def)

lemma power_off_unused: "unused_owners power_off"
  by (simp add: unused_owners_def power_off_def)

definition small_state :: pmm where
  "small_state = the (AuPmmngrInitialize small_boot power_off)"

lemma small_started: "AuPmmngrInitialize small_boot power_off = Some small_state"
  "free_set small_state = managed small_boot" "live small_state = (\<lambda>_. None)"
  "total_pages small_state = 320" "owner_table small_state = owner_table power_off"
  using small_layout boot_ok [OF small_bootable power_off_unused] by (auto simp: small_state_def)

lemma small_reach: "pmm_reach small_boot small_state"
  by (rule pmm_reach.boot [OF small_bootable power_off_unused small_started(1)])

lemma small_managed: "managed small_boot = {260..<272} \<union> {273..<320}"
proof -
  have "reported_usable small_boot = {256..<320}"
    by (simp add: reported_usable_def small_boot_def PMM_PAGE_SIZE_def)
  moreover have "kept_back small_boot = {..<256} \<union> {272}"
    by (simp add: kept_back_def small_boot_def PMM_PAGE_SIZE_def)
  moreover have "metadata_size 320 = 4"
    by (simp add: metadata_size_def align_up_def PMM_DESC_SIZE_def PMM_PAGE_SIZE_def)
  ultimately show ?thesis
    by (auto simp: managed_def small_layout)
qed

section \<open>Boot\<close>

text \<open>
  C11. On a machine that boots, the set-up succeeds and offers exactly the pages that the memory
  map reports as usable, less what is kept back and the pages of the descriptors themselves, which
  lie in usable memory and meet nothing that is kept back. Kept back are the first megabyte, the
  pages of the boot stack and, on a boot by LittleBoot, those of the device tree, the initial
  ramdisk and the loader's image. No block is handed out yet.
\<close>

theorem boot_offers_usable_memory:
  assumes "bootable info" "unused_owners s"
  shows "\<exists>s' us n res m. AuPmmngrInitialize info s = Some s' \<and> boot_layout info = Some (us, n, res, m) \<and>
    free_set s' = reported_usable info - kept_back info - {m ..< m + metadata_size n} \<and>
    {m ..< m + metadata_size n} \<subseteq> reported_usable info - kept_back info \<and> live s' = (\<lambda>_. None)"
proof -
  obtain s' us n res m where b: "AuPmmngrInitialize info s = Some s'" "boot_layout info = Some (us, n, res, m)"
    "live s' = (\<lambda>_. None)" "free_set s' = managed info"
    "{m ..< m + metadata_size n} \<subseteq> reported_usable info - kept_back info"
    using boot_ok [OF assms] by blast
  then show ?thesis by (auto simp: managed_def)
qed

theorem boot_offers_usable_memory_witness:
  "\<exists>s'. AuPmmngrInitialize small_boot power_off = Some s' \<and> 256 \<notin> free_set s' \<and> 272 \<notin> free_set s' \<and> 273 \<in> free_set s'"
proof -
  obtain s' where "AuPmmngrInitialize small_boot power_off = Some s'"
    "free_set s' = reported_usable small_boot - kept_back small_boot - {256 ..< 256 + metadata_size 320}"
    using boot_offers_usable_memory [OF small_bootable power_off_unused] small_layout by auto
  then have "AuPmmngrInitialize small_boot power_off = Some s'" "free_set s' = {260..<272} \<union> {273..<320}"
    unfolding small_managed [symmetric] by (simp_all add: managed_def small_layout)
  then show ?thesis by (intro exI [of _ s']) simp
qed

section \<open>Operations\<close>

text \<open>
  C12. Every sequence of operations from a state reached from the boot returns a result for each of
  them, never stops in \<open>fatal\<close>, and the results are those that the abstract machine of free pages
  and handed-out blocks allows: an allocation fails, and
  changes nothing, exactly when the request is malformed or there is no aligned run of free pages
  below the ceiling of the size that the larger of the request and its alignment rounds to;
  otherwise it hands out such a run. A release of a block by its address, a retain, a release of
  one reference and a tag act on the block that the address names, and fail with no change when it
  names none of the right kind.
\<close>

theorem pmm_refines_machine:
  assumes "pmm_reach info s" "\<forall>c \<in> set cs. call_ok c"
  shows "\<exists>rs s'. runs pmm_run cs s = Some (rs, s') \<and> pmm_reach info s' \<and>
    allowed pmm_machine cs (free_set s, live s) rs (free_set s', live s')"
proof -
  have "pmm_ok s" using reach_ok [OF assms(1)] by blast
  then show ?thesis
    using pmm.run_allowed [OF _ assms(2)] reach_runs [OF assms] unfolding pmm_view_def by blast
qed

theorem pmm_refines_machine_witness:
  "\<exists>p b s'. runs pmm_run [AllocPages 3 1 0 0 7, ReleasePage 1] small_state = Some ([Phys (p * PMM_PAGE_SIZE), b], s') \<and>
    4 dvd p \<and> {p ..< p + 4} \<subseteq> {260..<272} \<union> {273..<320} \<and> p \<notin> free_set s'"
proof -
  have o0: "order_for_pages 3 = 2"
    by (simp add: order_for_pages_def order_from.simps PMM_MAX_ORDER_def)
  have m: "request_order 3 (Suc 0) = 2"
    by (simp add: request_order_def order_for_pages_def order_from.simps PMM_MAX_ORDER_def)
  have "run_free (free_set small_state) 2 2 0 260"
    by (auto simp: run_free_def small_started(2) small_managed fits_def)
  then have ex: "(\<forall>p. \<not> run_free (free_set small_state) 2 2 0 p) \<longleftrightarrow> False" by blast
  have "\<forall>c \<in> set [AllocPages 3 1 0 0 7, ReleasePage 1]. call_ok c" by simp
  from pmm_refines_machine [OF small_reach this] obtain rs s' where
    run: "runs pmm_run [AllocPages 3 1 0 0 7, ReleasePage 1] small_state = Some (rs, s')"
    and a: "allowed pmm_machine [AllocPages 3 1 0 0 7, ReleasePage 1] (free_set small_state, live small_state) rs
      (free_set s', live s')"
    by blast
  from a obtain r b u where rs: "rs = [r, b]" and
    one: "pmm_spec (AllocPages 3 1 0 0 7) (free_set small_state) (live small_state) r (fst u) (snd u)" and
    two: "pmm_spec (ReleasePage 1) (fst u) (snd u) b (free_set s') (live s')"
    by (auto simp: pmm_machine_def simp del: pmm_spec.simps)
  from two have "free_set s' = fst u"
    by (simp add: named_def PMM_PAGE_SIZE_def Let_def)
  moreover from one obtain p where p: "r = Phys (p * PMM_PAGE_SIZE)" "run_free (free_set small_state) 2 2 0 p"
    "fst u = free_set small_state - {p ..< p + 2 ^ 2}"
    by (auto simp: ex m o0 Let_def power_of_two_def)
  moreover from this have "4 dvd p" "{p ..< p + 4} \<subseteq> free_set small_state" "p \<notin> fst u"
    by (simp_all add: run_free_def)
  ultimately show ?thesis
    using run unfolding rs small_started(2) small_managed by blast
qed

section \<open>Memory is handed out once\<close>

text \<open>
  C13. In every reachable state the free pages and the pages of the blocks handed out are together
  the pages that the boot offered: none is lost and none, least of all a reserved one, gained.
  Blocks handed out lie at multiples of their size, two of them share no page, and no page of one
  is free.
\<close>

theorem pages_handed_out_once:
  assumes "pmm_reach info s"
  shows "pool (free_set s) (live s) = managed info \<and>
    (\<forall>h k n i. live s h = Some (k, n, i) \<longrightarrow> 2 ^ k dvd h \<and> {h ..< h + 2 ^ k} \<inter> free_set s = {} \<and>
       (\<forall>g j m l. live s g = Some (j, m, l) \<longrightarrow> g \<noteq> h \<longrightarrow> {h ..< h + 2 ^ k} \<inter> {g ..< g + 2 ^ j} = {}))"
proof (intro conjI allI impI)
  note R = reach_ok [OF assms]
  show "pool (free_set s) (live s) = managed info" using R by blast
  note pages = pmm_ok_pages [OF conjunct1 [OF R]]
  fix h k n i assume l: "live s h = Some (k, n, i)"
  then have b: "blk (page_desc s) (total_pages s) h k False"
    using live_blk [OF pages] by blast
  show "2 ^ k dvd h" by (rule blkD(1) [OF b])
  show "{h ..< h + 2 ^ k} \<inter> free_set s = {}"
    using blkD(7) [OF b] by (auto simp: free_set_def)
  fix g j m x assume "live s g = Some (j, m, x)" "g \<noteq> h"
  then have "blk (page_desc s) (total_pages s) g j False"
    using live_blk [OF pages] by blast
  then show "{h ..< h + 2 ^ k} \<inter> {g ..< g + 2 ^ j} = {}"
    using blk_disjoint [OF b] \<open>g \<noteq> h\<close> by fastforce
qed

theorem pages_handed_out_once_witness:
  "pool (free_set small_state) (live small_state) = {260..<272} \<union> {273..<320}"
  using pages_handed_out_once [OF small_reach] small_managed by simp

section \<open>Statistics and accounts\<close>

definition block_size :: "(nat \<times> nat \<times> nat) option \<Rightarrow> nat" where
  "block_size b = (case b of None \<Rightarrow> 0 | Some (k, n, i) \<Rightarrow> 2 ^ k)"

lemma handed_out_pages:
  assumes ok: "pmm_ok s"
  shows "pages_in alloc_page s = (\<Sum>h<total_pages s. block_size (live s h))"
proof -
  note pages = pmm_ok_pages [OF ok]
  let ?H = "{h. live s h \<noteq> None}" and ?B = "\<lambda>h. {h ..< h + block_size (live s h)}"
  have H: "?H \<subseteq> {..<total_pages s}"
    by (auto simp: live_def Let_def split: if_splits)
  have b: "\<exists>k n i. live s h = Some (k, n, i) \<and> blk (page_desc s) (total_pages s) h k False" if "h \<in> ?H" for h
    using that live_blk [OF pages, of h] by (cases "live s h") auto
  have cover: "{p. p < total_pages s \<and> alloc_page (pg_state (page_desc s p))} = (\<Union>h\<in>?H. ?B h)"
  proof (intro equalityI subsetI)
    fix p assume p: "p \<in> {p. p < total_pages s \<and> alloc_page (pg_state (page_desc s p))}"
    then have "\<not> unblocked (pg_state (page_desc s p))" by (auto simp: alloc_page_def unblocked_def)
    then obtain h k f where x: "blk (page_desc s) (total_pages s) h k f" "h \<le> p" "p < h + 2 ^ k"
      using pages_okD [OF pages] p by blast
    then have "blk (page_desc s) (total_pages s) h k False"
      using blkD(7) [OF x] p by (cases f) simp_all
    then obtain n i where "live s h = Some (k, n, i)"
      using live_blk [OF pages] by blast
    then show "p \<in> (\<Union>h\<in>?H. ?B h)"
      using x(2,3) by (intro UN_I [of h]) (simp_all add: block_size_def)
  next
    fix p assume "p \<in> (\<Union>h\<in>?H. ?B h)"
    then obtain h where h: "h \<in> ?H" "p \<in> ?B h" by blast
    from b [OF h(1)] obtain k n i where "live s h = Some (k, n, i)" and x: "blk (page_desc s) (total_pages s) h k False"
      by blast
    then have "h \<le> p" "p < h + 2 ^ k" using h(2) by (simp_all add: block_size_def)
    then show "p \<in> {p. p < total_pages s \<and> alloc_page (pg_state (page_desc s p))}"
      using blkD(3) [OF x] blkD(7) [OF x, of p] by simp
  qed
  have "card (\<Union>h\<in>?H. ?B h) = (\<Sum>h\<in>?H. card (?B h))"
  proof (rule card_UN_disjoint)
    show "finite ?H" using H finite_subset by blast
    show "\<forall>h\<in>?H. \<forall>g\<in>?H. h \<noteq> g \<longrightarrow> ?B h \<inter> ?B g = {}"
    proof (intro ballI impI)
      fix h g assume hg: "h \<in> ?H" "g \<in> ?H" "h \<noteq> g"
      obtain k n i where x: "live s h = Some (k, n, i)" "blk (page_desc s) (total_pages s) h k False"
        using b [OF hg(1)] by blast
      obtain j m l where y: "live s g = Some (j, m, l)" "blk (page_desc s) (total_pages s) g j False"
        using b [OF hg(2)] by blast
      show "?B h \<inter> ?B g = {}"
        using blk_disjoint [OF x(2) y(2) hg(3)] x(1) y(1) by (auto simp: block_size_def)
    qed
  qed simp
  also have "\<dots> = (\<Sum>h\<in>?H. block_size (live s h))" by simp
  also have "\<dots> = (\<Sum>h<total_pages s. block_size (live s h))"
    using H by (intro sum.mono_neutral_left) (auto simp: block_size_def split: option.splits)
  finally show ?thesis
    unfolding pages_in_def cover .
qed

text \<open>
  C14. The statistics and the accounts are exact after any sequence of calls from the boot: the
  free count is the number of free pages, the allocated count the sum of the sizes of the blocks
  handed out. What \<open>AuPmmOwnerPages\<close> reports of an owner is the sum of the sizes of the blocks
  charged to its slot; and this is the sum of the sizes of the blocks that it asked for and that
  are not yet released, as long as the table of 256 owners has a free slot, and once it is full
  still for every owner with a slot other than the kernel, if the kernel has one.
\<close>

theorem pmm_accounts_exact:
  assumes "pmm_history info s asker"
  shows "free_pages (pmm_stats s) = card (free_set s) \<and>
    allocated_pages (pmm_stats s) = (\<Sum>h<total_pages s. block_size (live s h)) \<and>
    AuPmmOwnerPages ow s = owner_blocks ow s \<and>
    (account_exact ow s \<longrightarrow> AuPmmOwnerPages ow s = asked_pages ow asker s)"
proof -
  have ok: "pmm_ok s" using reach_ok [OF history_reach [OF assms]] by blast
  then have st: "pmm_stats s = pmm_stats (recount s)" and "owners_ok s"
    by (auto simp: pmm_ok_def stats_ok_def)
  moreover have "free_pages (pmm_stats s) = card (free_set s)"
    unfolding st recount_stats by (simp add: pages_in_def free_set_def)
  moreover have "allocated_pages (pmm_stats s) = (\<Sum>h<total_pages s. block_size (live s h))"
    unfolding st recount_stats by (simp add: handed_out_pages [OF ok])
  ultimately show ?thesis using owner_pages_exact history_charges [OF assms] by blast
qed

text \<open>Three pages for the owner 7: a block of four is charged to it, and none to the owner 8.\<close>

lemma small_alloc:
  "\<exists>p i s'. pmm_run (AllocPages 3 1 0 0 7) small_state = Some (Phys (p * PMM_PAGE_SIZE), s') \<and> p < 320 \<and>
    live s' = [p \<mapsto> (2, 1, i)] \<and> total_pages s' = 320 \<and> account_exact w s'"
proof -
  have ok: "pmm_ok small_state" using reach_ok [OF small_reach] by blast
  have o3: "order_for_pages 3 = 2" "request_order 3 (Suc 0) = 2"
    by (simp_all add: request_order_def order_for_pages_def order_from.simps PMM_MAX_ORDER_def)
  have "run_free (free_set small_state) 2 2 0 260"
    by (auto simp: run_free_def small_started(2) small_managed fits_def)
  then have "\<exists>h. serves small_state 2 2 0 h"
    using serves_run(2) [OF ok, of 2 2 0] by auto
  then obtain p i s' where a: "AuPmmngrAllocPagesForOwner 3 1 0 0 7 small_state = Some (p * PMM_PAGE_SIZE, s')"
      "live s' = (live small_state)(p := Some (2, 1, i))" "p < total_pages small_state"
      "total_pages s' = total_pages small_state"
    using alloc_pages_ok [OF ok, of 3 1 0 0 7] by (auto simp: o3 power_of_two_def)
  have T: "owner_table small_state = replicate 256 \<lparr>oid = 0, opages = 0, in_use = False\<rparr>"
    by (simp add: small_started(5) power_off_def PMM_OWNER_SLOTS_def)
  have "names s' = names (snd (pmm_owner_slot_locked 7 small_state))"
  proof -
    have "live s' p \<noteq> live small_state p" using a(2) small_started(3) by simp
    then have "s' \<noteq> small_state" by auto
    then show ?thesis using alloc_names [OF ok a(1)] by blast
  qed
  then have "None \<in> set (names s')"
    by (simp add: pmm_owner_slot_locked_def T names_def numeral_eq_Suc)
  then have "account_exact w s'"
    using names_full [of s'] by (auto simp: account_exact_def list_ex_iff)
  then show ?thesis using a small_started(3,4) by auto
qed

theorem pmm_accounts_exact_witness:
  "\<exists>s p i. pmm_history small_boot s ((\<lambda>_. 0)(p := 7)) \<and> live s p = Some (2, 1, i) \<and>
    allocated_pages (pmm_stats s) = 4 \<and> AuPmmOwnerPages 7 s = 4"
proof -
  let ?c = "AllocPages 3 1 0 0 7"
  obtain p i s where run: "pmm_run ?c small_state = Some (Phys (p * PMM_PAGE_SIZE), s)" and p: "p < 320"
    and l: "live s = [p \<mapsto> (2, 1, i)]" "total_pages s = 320" "account_exact 7 s"
    using small_alloc by blast
  have "p * PMM_PAGE_SIZE mod 4096 = 0" "PMM_INVALID_PHYS mod 4096 = 4095"
    by (simp_all add: PMM_PAGE_SIZE_def PMM_INVALID_PHYS_def)
  then have "p * PMM_PAGE_SIZE \<noteq> PMM_INVALID_PHYS" by auto
  moreover have "p * PMM_PAGE_SIZE div PMM_PAGE_SIZE = p" by (simp add: PMM_PAGE_SIZE_def)
  moreover have "pmm_history small_boot s (note_asker ?c (Phys (p * PMM_PAGE_SIZE)) (\<lambda>_. 0))"
    by (rule pmm_history.call [OF pmm_history.boot [OF small_bootable power_off_unused small_started(1)] _ run]) simp
  ultimately have H: "pmm_history small_boot s ((\<lambda>_. 0)(p := 7))" by simp
  have "(\<Sum>h<320. block_size (live s h)) = (\<Sum>h<320. if h = p then 4 else 0)"
    "asked_pages 7 ((\<lambda>_. 0)(p := 7)) s = (\<Sum>h<320. if h = p then 4 else 0)"
    unfolding asked_pages_def l(1,2) by (intro sum.cong; simp add: block_size_def)+
  then have "allocated_pages (pmm_stats s) = 4" "AuPmmOwnerPages 7 s = 4"
    using pmm_accounts_exact [OF H, of 7] l(2,3) p by simp_all
  moreover have "live s p = Some (2, 1, i)" using l(1) by simp
  ultimately show ?thesis using H by blast
qed

section \<open>The consistency check\<close>

text \<open>
  C15. In every reachable state the consistency check returns and finds nothing wrong: every list
  is doubly linked, each free block is on the list of its order once, every page of a block agrees
  with its head, and the recount agrees with the statistics. It changes nothing but its marks, also
  when its 32-bit epoch wraps.
\<close>

theorem check_finds_nothing_wrong:
  assumes "pmm_reach info s"
  shows "\<exists>s'. AuPmmngrValidate s = Some (True, s') \<and> but_epochs s s'"
  using validate_ok [of s] reach_ok [OF assms] by blast

theorem check_finds_nothing_wrong_witness:
  "map_option fst (AuPmmngrValidate small_state) = Some True"
  using check_finds_nothing_wrong [OF small_reach] by auto

section \<open>Release undoes an allocation\<close>

lemma same_free_blocks:
  assumes "pmm_ok s" "pmm_ok t" "total_pages t = total_pages s" "free_set t = free_set s" "h < total_pages s"
  shows "is_free_head h k t \<longleftrightarrow> is_free_head h k s"
proof -
  have half: "is_free_head h k t" if s: "pmm_ok s" and t: "pmm_ok t" and N: "total_pages t = total_pages s"
    and f: "free_set t = free_set s" and h: "h < total_pages s" and i: "is_free_head h k s" for s t
  proof -
    obtain F where F: "pmm_inv (total_pages s) s F" using s by (auto simp: pmm_ok_def)
    obtain G where G: "pmm_inv (total_pages t) t G" using t by (auto simp: pmm_ok_def)
    note I = pmm_invD [OF F] and J = pmm_invD [OF G, unfolded N]
    have "free_page (pg_state (page_desc s p)) = free_page (pg_state (page_desc t p))" if "p < total_pages s" for p
    proof -
      have "p \<in> free_set s \<longleftrightarrow> p \<in> free_set t" using f by simp
      then show ?thesis using that N by (simp add: free_set_def)
    qed
    then have "blk (page_desc t) (total_pages s) h k True"
      by (rule free_blocks_determined [OF I(1,4) J(1,4) _ blk_is_free_head [OF I(1) h i]])
    then show ?thesis by (rule is_free_head_blk)
  qed
  show ?thesis
    using half [of s t] half [of t s] assms by auto
qed

lemma alloc_release_stats:
  assumes ok: "pmm_ok s" "pmm_ok s1" "pmm_ok s2" and tk: "taken h n s s1" and R: "{h ..< h + n} \<subseteq> free_set s"
    and fr: "freed h n (s1\<lparr>pmm_stats := pmm_stats s2, owner_table := owner_table s2\<rparr>) s2"
  shows "pmm_stats s2 = pmm_stats s"
proof -
  let ?t = "s1\<lparr>pmm_stats := pmm_stats s2, owner_table := owner_table s2\<rparr>"
  have N: "total_pages s1 = total_pages s" "total_pages s2 = total_pages s"
    using tk fr by (simp_all add: taken_def freed_def rest_same_def)
  have sub: "{h ..< h + n} \<subseteq> {..<total_pages s}" "{h ..< h + n} \<subseteq> {..<total_pages s2}"
    using R N(2) by (auto simp: free_set_def)
  have all: "alloc_page (pg_state (page_desc s1 q))" if "q \<in> {h ..< h + n}" for q
    using tk that by (simp add: taken_def)
  have fre: "free_page (pg_state (page_desc s2 q))" if "q \<in> {h ..< h + n}" for q
    using fr that by (simp add: freed_def)
  have "stay_put {h ..< h + n} s2 ?t"
    by (rule stay_put_sym [OF freed_stay_put [OF fr]])
  note A = class_counts [OF taken_stay_put [OF tk] sub(1)] and B = class_counts [OF this sub(2)]
  have t: "pages_in P ?t = pages_in P s1" for P by (simp add: pages_in_def)
  have in_A: "\<And>q. q \<in> {h ..< h + n} \<Longrightarrow> free_page (pg_state (page_desc s q)) \<and> alloc_page (pg_state (page_desc s1 q))"
    using R all by (auto simp: free_set_def)
  have in_B: "\<And>q. q \<in> {h ..< h + n} \<Longrightarrow> free_page (pg_state (page_desc s2 q)) \<and> alloc_page (pg_state (page_desc ?t q))"
    using fre all by simp
  have "pages_in free_page s2 = pages_in free_page s" "pages_in alloc_page s2 = pages_in alloc_page s"
    using A(1,2) [OF in_A] B(1,2) [OF in_B] unfolding t by simp_all
  moreover have "pages_in (\<lambda>x. x = u) s2 = pages_in (\<lambda>x. x = u) s" if "unblocked u" for u
    using A(3) [OF in_A that] B(3) [OF in_B that] unfolding t by simp
  moreover have "pages_in (\<lambda>x. x \<noteq> PMM_PAGE_UNMANAGED) s2 = pages_in (\<lambda>x. x \<noteq> PMM_PAGE_UNMANAGED) s"
    using A(4) [OF in_A] B(4) [OF in_B] unfolding t by simp
  ultimately have "pmm_stats (recount s2) = pmm_stats (recount s)"
    unfolding recount_stats by (simp add: unblocked_def)
  then show ?thesis
    using ok(1,3) by (simp add: pmm_ok_def stats_ok_def)
qed

text \<open>
  C16. Releasing the run that an allocation returned succeeds and restores what a caller and the
  manager see: the free pages, the blocks handed out, all five statistics, and, since buddies are
  joined again as far as they go, the same free blocks of the same orders.
\<close>

theorem release_restores:
  assumes "pmm_reach info s" "pages < 2 ^ 32"
    and alloc: "AuPmmngrAllocPagesForOwner pages al c ty ow s = Some (a, s1)" "a \<noteq> PMM_INVALID_PHYS"
  shows "\<exists>s2. AuPmmngrReleasePages a s1 = Some (True, s2) \<and> free_set s2 = free_set s \<and> live s2 = live s \<and>
    pmm_stats s2 = pmm_stats s \<and> (\<forall>h<total_pages s. \<forall>k. is_free_head h k s2 \<longleftrightarrow> is_free_head h k s)"
proof -
  have ok: "pmm_ok s" using reach_ok [OF assms(1)] by blast
  have good: "0 < pages" "al = 0 \<or> power_of_two al"
    using alloc by (auto simp: AuPmmngrAllocPagesForOwner_def Let_def split: if_splits)
  let ?w = "order_for_pages pages"
  from alloc_pages_ok [OF ok good(1) _ good(2), of c ty ow] assms(2) alloc
  obtain h i where h: "a = h * PMM_PAGE_SIZE" "pmm_ok s1" "{h ..< h + 2 ^ ?w} \<subseteq> free_set s"
    "free_set s1 = free_set s - {h ..< h + 2 ^ ?w}" "live s1 = (live s)(h := Some (?w, 1, i))"
    "total_pages s1 = total_pages s" "taken h (2 ^ ?w) s s1"
    by auto
  have p: "a div PMM_PAGE_SIZE = h" "a mod PMM_PAGE_SIZE = 0"
    by (simp_all add: h(1) PMM_PAGE_SIZE_def)
  have "named a (live s1) = Some (?w, 1, i)"
    using p h(5) by (simp add: named_def)
  then obtain s2 where s2: "AuPmmngrReleasePages a s1 = Some (True, s2)" "pmm_ok s2"
    "freed h (2 ^ ?w) (s1\<lparr>pmm_stats := pmm_stats s2, owner_table := owner_table s2\<rparr>) s2"
    "free_set s2 = free_set s1 \<union> {h ..< h + 2 ^ ?w}" "live s2 = (live s1)(h := None)" "total_pages s2 = total_pages s1"
    using release_pages_run(2) [OF h(2)] p(1) by blast
  have f: "free_set s2 = free_set s" using s2(4) h(3,4) by auto
  have "h \<in> free_set s" using h(3) pos_power(2) [of h ?w] by auto
  then have "live s h = None" by (intro live_free) (simp add: free_set_def)
  then have "live s2 = live s" using s2(5) h(5) by (simp add: fun_eq_iff)
  then show ?thesis
    using s2(1) f alloc_release_stats [OF ok h(2) s2(2) h(7,3) s2(3)] same_free_blocks [OF ok s2(2) _ f] s2(6) h(6)
    by auto
qed

theorem release_restores_witness:
  "\<exists>a s1 s2. AuPmmngrAllocPagesForOwner 3 1 0 0 7 small_state = Some (a, s1) \<and>
    AuPmmngrReleasePages a s1 = Some (True, s2) \<and> free_set s2 = {260..<272} \<union> {273..<320} \<and>
    pmm_stats s2 = pmm_stats small_state"
proof -
  have ok: "pmm_ok small_state" using reach_ok [OF small_reach] by blast
  have o3: "order_for_pages 3 = 2" "request_order 3 (Suc 0) = 2"
    by (simp_all add: request_order_def order_for_pages_def order_from.simps PMM_MAX_ORDER_def)
  have "run_free (free_set small_state) 2 2 0 260"
    by (auto simp: run_free_def small_started(2) small_managed fits_def)
  then have "\<exists>h. serves small_state 2 2 0 h"
    using serves_run(2) [OF ok, of 2 2 0] by auto
  then obtain a s1 h where a: "AuPmmngrAllocPagesForOwner 3 1 0 0 7 small_state = Some (a, s1)" "a = h * PMM_PAGE_SIZE"
    using alloc_pages_ok [OF ok, of 3 1 0 0 7] by (auto simp: o3 power_of_two_def)
  have "a mod 4096 = 0" "PMM_INVALID_PHYS mod 4096 = 4095"
    by (simp_all add: a(2) PMM_PAGE_SIZE_def PMM_INVALID_PHYS_def)
  then have "a \<noteq> PMM_INVALID_PHYS" by auto
  moreover have "(3::nat) < 2 ^ 32" by simp
  ultimately obtain s2 where "AuPmmngrReleasePages a s1 = Some (True, s2)" "free_set s2 = free_set small_state"
    "pmm_stats s2 = pmm_stats small_state"
    using release_restores [OF small_reach _ a(1)] by blast
  then show ?thesis
    using a(1) unfolding small_started(2) small_managed by blast
qed

section \<open>The last release frees the page\<close>

lemma release_once:
  assumes ok: "pmm_ok s" and l: "live s p = Some (0, n, i)"
  shows "\<exists>s'. pmm_run (ReleasePage (p * PMM_PAGE_SIZE)) s = Some (Done True, s') \<and> pmm_ok s' \<and>
    (if n = 1 then p \<in> free_set s' \<and> live s' p = None else live s' p = Some (0, n - 1, i))"
proof -
  have nm: "named (p * PMM_PAGE_SIZE) (live s) = Some (0, n, i)"
    using l by (simp add: named_def PMM_PAGE_SIZE_def)
  have dv: "p * PMM_PAGE_SIZE div PMM_PAGE_SIZE = p" by (simp add: PMM_PAGE_SIZE_def)
  obtain r s' where run: "pmm_run (ReleasePage (p * PMM_PAGE_SIZE)) s = Some (r, s')" "pmm_ok s'"
    and spec: "pmm_spec (ReleasePage (p * PMM_PAGE_SIZE)) (free_set s) (live s) r (free_set s') (live s')"
    using release_page_refines [OF ok, of "p * PMM_PAGE_SIZE"] unfolding refines_def by blast
  have "r = Done True \<and> (if n = 1 then p \<in> free_set s' \<and> live s' p = None else live s' p = Some (0, n - 1, i))"
    using spec by (simp add: nm dv Let_def split: if_splits)
  then show ?thesis using run by blast
qed

lemma release_many:
  assumes "pmm_ok s" "live s p = Some (0, n, i)" "j < n"
  shows "\<exists>s'. runs pmm_run (replicate j (ReleasePage (p * PMM_PAGE_SIZE))) s = Some (replicate j (Done True), s') \<and>
    pmm_ok s' \<and> live s' p = Some (0, n - j, i)"
  using assms
proof (induction j arbitrary: s n)
  case 0
  then show ?case by simp
next
  case (Suc j)
  obtain s1 where s1: "pmm_run (ReleasePage (p * PMM_PAGE_SIZE)) s = Some (Done True, s1)" "pmm_ok s1"
    "live s1 p = Some (0, n - 1, i)"
    using release_once [OF Suc.prems(1,2)] Suc.prems(3) by auto
  obtain s' where "runs pmm_run (replicate j (ReleasePage (p * PMM_PAGE_SIZE))) s1 = Some (replicate j (Done True), s')"
    "pmm_ok s'" "live s' p = Some (0, n - 1 - j, i)"
    using Suc.IH [OF s1(2,3) less_diff_conv [THEN iffD2]] Suc.prems(3) by auto
  then show ?case using s1(1) by (auto simp del: pmm_run.simps)
qed

text \<open>
  C17. A single page with \<open>n\<close> references survives the first \<open>n - 1\<close> releases, losing one reference
  in each, and the \<open>n\<close>-th release frees it; every one of the \<open>n\<close> releases succeeds.
\<close>

theorem last_release_frees:
  assumes "pmm_reach info s" "live s p = Some (0, n, i)"
  shows "(\<forall>j<n. \<exists>s'. runs pmm_run (replicate j (ReleasePage (p * PMM_PAGE_SIZE))) s = Some (replicate j (Done True), s') \<and>
      live s' p = Some (0, n - j, i)) \<and>
    (\<exists>s'. runs pmm_run (replicate n (ReleasePage (p * PMM_PAGE_SIZE))) s = Some (replicate n (Done True), s') \<and>
      p \<in> free_set s' \<and> live s' p = None)"
proof -
  let ?c = "ReleasePage (p * PMM_PAGE_SIZE)"
  have ok: "pmm_ok s" using reach_ok [OF assms(1)] by blast
  have n: "0 < n" using live_pages(10) [OF ok assms(2)] .
  have "\<exists>s'. runs pmm_run (replicate (n - 1) ?c) s = Some (replicate (n - 1) (Done True), s') \<and> pmm_ok s' \<and>
      live s' p = Some (0, n - (n - 1), i)"
    using n by (intro release_many [OF ok assms(2)]) simp
  then obtain s1 where s1: "runs pmm_run (replicate (n - 1) ?c) s = Some (replicate (n - 1) (Done True), s1)" "pmm_ok s1"
    "live s1 p = Some (0, 1, i)"
    using n by auto
  obtain s' where s': "pmm_run ?c s1 = Some (Done True, s')" "p \<in> free_set s'" "live s' p = None"
    using release_once [OF s1(2,3)] by auto
  have rep: "replicate n x = replicate (n - 1) x @ [x]" for x :: 'z
    using n by (metis Suc_diff_1 replicate_Suc replicate_append_same)
  have "runs pmm_run (replicate n ?c) s = Some (replicate n (Done True), s')"
    using s1(1) s'(1) by (simp add: rep runs_append del: pmm_run.simps)
  then show ?thesis
    using release_many [OF ok assms(2)] s'(2,3) by blast
qed

lemma small_page:
  "\<exists>s p i. pmm_reach small_boot s \<and> live s p = Some (0, 1, i)"
proof -
  have ok: "pmm_ok small_state" using reach_ok [OF small_reach] by blast
  have o1: "order_for_pages (Suc 0) = 0" "request_order (Suc 0) (Suc 0) = 0"
    by (simp_all add: request_order_def order_for_pages_def order_from.simps)
  have "run_free (free_set small_state) 0 0 0 260"
    by (auto simp: run_free_def small_started(2) small_managed fits_def)
  then have ex: "(\<forall>p. \<not> run_free (free_set small_state) 0 0 0 p) \<longleftrightarrow> False" by blast
  have c: "call_ok (AllocPages 1 1 0 0 7)" by simp
  obtain r s' where run: "pmm_run (AllocPages 1 1 0 0 7) small_state = Some (r, s')"
    and "pmm_spec (AllocPages 1 1 0 0 7) (free_set small_state) (live small_state) r (free_set s') (live s')"
    using every_call_refines [OF ok c] unfolding refines_def by blast
  then obtain p i where "live s' = (live small_state)(p := Some (0, 1, i))"
    by (auto simp: ex o1 Let_def power_of_two_def simp del: pmm_run.simps)
  then have "live s' p = Some (0, 1, i)" by simp
  then show ?thesis using pmm_reach.call [OF small_reach c run] by blast
qed

theorem last_release_frees_witness:
  "\<exists>s p i s'. pmm_reach small_boot s \<and> live s p = Some (0, 1, i) \<and>
    runs pmm_run [ReleasePage (p * PMM_PAGE_SIZE)] s = Some ([Done True], s') \<and> p \<in> free_set s'"
proof -
  obtain s p i where s: "pmm_reach small_boot s" "live s p = Some (0, 1, i)"
    using small_page by blast
  have "\<exists>s'. runs pmm_run (replicate 1 (ReleasePage (p * PMM_PAGE_SIZE))) s = Some (replicate 1 (Done True), s') \<and>
      p \<in> free_set s' \<and> live s' p = None"
    by (rule conjunct2 [OF last_release_frees [OF s]])
  then show ?thesis
    using s by (auto simp del: runs.simps)
qed

end
